(* ===== verification/Prelude.thy ===== *)
theory Prelude
  imports Main "HOL-Library.AList" "HOL-Library.Char_ord" "HOL-Library.List_Lexorder"
    "HOL-Library.Product_Lexorder"
begin

text \<open>
  What every component shares.
  \<^item> Results: a handler step either throws or returns, and a throw keeps the
    writes made before it, so a step is a function from a state to a sum and
    the state it leaves. The combinators are those of sequential code: run one step and go on
    with its value, check, read, write, catch.
  \<^item> A weakest-precondition reading of the same steps, as equations in the collection
    \<open>wp_simps\<close>: what a handler guarantees is computed by the simplifier, guard by guard.
  \<^item> Tables: a table is the list of its rows in insertion order, and the four statements the
    code issues are \<open>filter\<close>, \<open>map\<close>, append and their counts. The
    locale \<open>keyed_table\<close> states what a table with a primary key is to its clients.
  \<^item> Batches: the code splits long statement lists into fixed-size slices.
\<close>

named_theorems wp_simps
named_theorems guard_simps
named_theorems table_simps

section \<open>Results that may fail\<close>

definition bindE :: "'e + 'a \<Rightarrow> ('a \<Rightarrow> 'e + 'b) \<Rightarrow> 'e + 'b" where
  "bindE r f = (case r of Inl e \<Rightarrow> Inl e | Inr x \<Rightarrow> f x)"

definition throwIf :: "bool \<Rightarrow> 'e \<Rightarrow> 'e + unit" where
  "throwIf c e = (if c then Inl e else Inr ())"

lemma bindE_simps [simp]: "bindE (Inl e) f = Inl e" "bindE (Inr x) f = f x"
  by (simp_all add: bindE_def)

lemma bindE_Inr_iff [guard_simps]: "bindE r f = Inr y \<longleftrightarrow> (\<exists>x. r = Inr x \<and> f x = Inr y)"
  by (cases r) simp_all

lemma bindE_Inl_iff: "bindE r f = Inl e \<longleftrightarrow> r = Inl e \<or> (\<exists>x. r = Inr x \<and> f x = Inl e)"
  by (cases r) simp_all

lemma throwIf_Inr [guard_simps]: "throwIf c e = Inr u \<longleftrightarrow> \<not> c"
  by (simp add: throwIf_def)

lemma throwIf_Inl: "throwIf c e = Inl e' \<longleftrightarrow> c \<and> e' = e"
  by (auto simp: throwIf_def)

text \<open>An optional string in a condition: present and not empty.\<close>

definition truthy :: "string option \<Rightarrow> bool" where
  "truthy v \<longleftrightarrow> v \<noteq> None \<and> v \<noteq> Some []"

text \<open>Validate every element of a list, stopping at the first one that fails.\<close>

fun traverseE :: "('a \<Rightarrow> 'e + 'b) \<Rightarrow> 'a list \<Rightarrow> 'e + 'b list" where
  "traverseE f [] = Inr []"
| "traverseE f (x # xs) = bindE (f x) (\<lambda>y. bindE (traverseE f xs) (\<lambda>ys. Inr (y # ys)))"

lemma traverseE_length: "traverseE f xs = Inr ys \<Longrightarrow> length ys = length xs"
  by (induction xs arbitrary: ys) (auto simp: guard_simps)

section \<open>Steps on a state\<close>

type_synonym ('s, 'e, 'a) act = "'s \<Rightarrow> ('e + 'a) \<times> 's"

definition retS :: "'a \<Rightarrow> ('s, 'e, 'a) act" where
  "retS x s = (Inr x, s)"

definition bindS :: "('s, 'e, 'a) act \<Rightarrow> ('a \<Rightarrow> ('s, 'e, 'b) act) \<Rightarrow> ('s, 'e, 'b) act" where
  "bindS m f s = (case m s of (Inl e, s') \<Rightarrow> (Inl e, s') | (Inr x, s') \<Rightarrow> f x s')"

lemma bindS_Inr: "fst (m s) = Inr x \<Longrightarrow> bindS m f s = f x (snd (m s))"
  by (cases "m s") (simp add: bindS_def)

definition liftE :: "'e + 'a \<Rightarrow> ('s, 'e, 'a) act" where
  "liftE r s = (r, s)"

definition throwS :: "bool \<Rightarrow> 'e \<Rightarrow> ('s, 'e, unit) act" where
  "throwS c e s = (throwIf c e, s)"

definition readS :: "('s \<Rightarrow> 'a) \<Rightarrow> ('s, 'e, 'a) act" where
  "readS f s = (Inr (f s), s)"

definition writeS :: "('s \<Rightarrow> 's) \<Rightarrow> ('s, 'e, unit) act" where
  "writeS f s = (Inr (), f s)"

text \<open>\<open>m.catch(() => {})\<close>: whatever the step threw is dropped, whatever it wrote stays.\<close>

definition catchS :: "('s, 'e, unit) act \<Rightarrow> ('s, 'e, unit) act" where
  "catchS m s = (Inr (), snd (m s))"

definition whenS :: "bool \<Rightarrow> ('s, 'e, unit) act \<Rightarrow> ('s, 'e, unit) act" where
  "whenS c m = (if c then m else retS ())"

fun forS :: "'a list \<Rightarrow> ('a \<Rightarrow> ('s, 'e, unit) act) \<Rightarrow> ('s, 'e, unit) act" where
  "forS [] f = retS ()"
| "forS (x # xs) f = bindS (f x) (\<lambda>_. forS xs f)"

subsection \<open>Weakest preconditions\<close>

definition wp :: "('s, 'e, 'a) act \<Rightarrow> ('a \<Rightarrow> 's \<Rightarrow> bool) \<Rightarrow> ('e \<Rightarrow> 's \<Rightarrow> bool) \<Rightarrow> 's \<Rightarrow> bool" where
  "wp m Q E s = (case m s of (Inl e, s') \<Rightarrow> E e s' | (Inr x, s') \<Rightarrow> Q x s')"

lemma wp_retS [wp_simps]: "wp (retS x) Q E = (\<lambda>s. Q x s)"
  by (simp add: wp_def retS_def fun_eq_iff)

lemma wp_bindS [wp_simps]: "wp (bindS m f) Q E = (\<lambda>s. wp m (\<lambda>x. wp (f x) Q E) E s)"
  by (auto simp: wp_def bindS_def fun_eq_iff split: prod.split sum.split)

lemma wp_liftE [wp_simps]: "wp (liftE r) Q E = (\<lambda>s. case r of Inl e \<Rightarrow> E e s | Inr x \<Rightarrow> Q x s)"
  by (simp add: wp_def liftE_def fun_eq_iff)

lemma wp_throwS [wp_simps]: "wp (throwS c e) Q E = (\<lambda>s. if c then E e s else Q () s)"
  by (simp add: wp_def throwS_def throwIf_def fun_eq_iff)

lemma wp_readS [wp_simps]: "wp (readS f) Q E = (\<lambda>s. Q (f s) s)"
  by (simp add: wp_def readS_def fun_eq_iff)

lemma wp_writeS [wp_simps]: "wp (writeS f) Q E = (\<lambda>s. Q () (f s))"
  by (simp add: wp_def writeS_def fun_eq_iff)

lemma wp_catchS [wp_simps]: "wp (catchS m) Q E = (\<lambda>s. wp m (\<lambda>_. Q ()) (\<lambda>_. Q ()) s)"
  by (auto simp: wp_def catchS_def fun_eq_iff split: prod.split sum.split)

lemma wp_if [wp_simps]: "wp (if c then m else m') Q E = (\<lambda>s. if c then wp m Q E s else wp m' Q E s)"
  by (simp add: fun_eq_iff)

lemma wp_whenS [wp_simps]: "wp (whenS c m) Q E = (\<lambda>s. if c then wp m Q E s else Q () s)"
  by (simp add: whenS_def wp_retS fun_eq_iff)

lemma wp_case_option [wp_simps]:
  "wp (case x of None \<Rightarrow> m | Some y \<Rightarrow> f y) Q E
     = (\<lambda>s. case x of None \<Rightarrow> wp m Q E s | Some y \<Rightarrow> wp (f y) Q E s)"
  by (cases x) (simp_all add: fun_eq_iff)

lemma wp_case_prod [wp_simps]:
  "wp (case p of (x, y) \<Rightarrow> f x y) Q E = (\<lambda>s. case p of (x, y) \<Rightarrow> wp (f x y) Q E s)"
  by (cases p) (simp add: fun_eq_iff)

lemma wp_case_sum [wp_simps]:
  "wp (case r of Inl e \<Rightarrow> f e | Inr x \<Rightarrow> g x) Q E
     = (\<lambda>s. case r of Inl e \<Rightarrow> wp (f e) Q E s | Inr x \<Rightarrow> wp (g x) Q E s)"
  by (cases r) (simp_all add: fun_eq_iff)

lemma wp_value: "m s = (Inr x, s') \<Longrightarrow> wp m Q E s = Q x s'"
  by (simp add: wp_def)

lemma wpD: "wp m Q E s \<Longrightarrow> m s = (Inr x, s') \<Longrightarrow> Q x s'"
  and wpD_err: "wp m Q E s \<Longrightarrow> m s = (Inl e, s') \<Longrightarrow> E e s'"
  by (simp_all add: wp_def)

lemma wp_iff: "wp m Q E s \<longleftrightarrow>
    (\<forall>x s'. m s = (Inr x, s') \<longrightarrow> Q x s') \<and> (\<forall>e s'. m s = (Inl e, s') \<longrightarrow> E e s')"
  by (auto simp: wp_def split: prod.splits sum.splits)

lemma wp_mono:
  assumes "wp m Q E s" and "\<And>x s'. Q x s' \<Longrightarrow> Q' x s'" and "\<And>e s'. E e s' \<Longrightarrow> E' e s'"
  shows "wp m Q' E' s"
  using assms unfolding wp_iff by blast

lemma wp_forS: "(\<And>x s. P s \<Longrightarrow> wp (f x) (\<lambda>_. P) E s) \<Longrightarrow> P s \<Longrightarrow> wp (forS xs f) (\<lambda>_. P) E s"
proof (induction xs arbitrary: s)
  case (Cons x xs)
  from Cons.prems(1) [OF Cons.prems(2)] have "wp (f x) (\<lambda>_. wp (forS xs f) (\<lambda>_. P) E) E s"
    by (rule wp_mono) (rule Cons.IH [OF Cons.prems(1)], simp_all)
  then show ?case by (simp add: wp_bindS)
qed (simp add: wp_retS)

text \<open>A predicate every outcome of a step keeps, thrown or returned.\<close>

definition keeps :: "('s \<Rightarrow> bool) \<Rightarrow> ('s, 'e, 'a) act \<Rightarrow> bool" where
  "keeps P m \<longleftrightarrow> (\<forall>s. P s \<longrightarrow> P (snd (m s)))"

lemma keeps_iff_wp: "keeps P m \<longleftrightarrow> (\<forall>s. P s \<longrightarrow> wp m (\<lambda>_. P) (\<lambda>_. P) s)"
proof -
  have "wp m (\<lambda>_. P) (\<lambda>_. P) s = P (snd (m s))" for s
    by (cases "m s"; cases "fst (m s)") (simp_all add: wp_def)
  then show ?thesis by (simp add: keeps_def)
qed

lemma keepsD: "keeps P m \<Longrightarrow> P s \<Longrightarrow> P (snd (m s))"
  by (simp add: keeps_def)

lemma keeps_bindS: "keeps P m \<Longrightarrow> (\<And>x. keeps P (f x)) \<Longrightarrow> keeps P (bindS m f)"
  unfolding keeps_def bindS_def by (auto split: prod.split sum.split)

lemma keeps_pure: "keeps P (retS x)" "keeps P (liftE r)" "keeps P (throwS c e)" "keeps P (readS f)"
  by (simp_all add: keeps_def retS_def liftE_def throwS_def readS_def)

lemma keeps_writeS: "(\<And>s. P s \<Longrightarrow> P (f s)) \<Longrightarrow> keeps P (writeS f)"
  by (simp add: keeps_def writeS_def)

lemma keeps_whenS: "(c \<Longrightarrow> keeps P m) \<Longrightarrow> keeps P (whenS c m)"
  by (simp add: whenS_def keeps_pure)

lemma keeps_catchS: "keeps P m \<Longrightarrow> keeps P (catchS m)"
  by (simp add: keeps_def catchS_def)

lemma keeps_forS: "(\<And>x. x \<in> set xs \<Longrightarrow> keeps P (f x)) \<Longrightarrow> keeps P (forS xs f)"
  by (induction xs) (simp_all add: keeps_pure keeps_bindS)

lemmas keeps_rules = keeps_bindS keeps_pure keeps_writeS keeps_whenS keeps_catchS keeps_forS

lemma run_fst: "fst x = r \<Longrightarrow> x = (r, snd x)"
  by (cases x) simp

section \<open>Tables\<close>

type_synonym 'r table = "'r list"

definition update_rows :: "('r \<Rightarrow> bool) \<Rightarrow> ('r \<Rightarrow> 'r) \<Rightarrow> 'r table \<Rightarrow> 'r table" where
  "update_rows c f t = map (\<lambda>r. if c r then f r else r) t"

definition delete_rows :: "('r \<Rightarrow> bool) \<Rightarrow> 'r table \<Rightarrow> 'r table" where
  "delete_rows c t = filter (\<lambda>r. \<not> c r) t"

definition exists_row :: "('r \<Rightarrow> bool) \<Rightarrow> 'r table \<Rightarrow> bool" where
  "exists_row c t = list_ex c t"

definition count_rows :: "('r \<Rightarrow> bool) \<Rightarrow> 'r table \<Rightarrow> nat" where
  "count_rows c t = length (filter c t)"

text \<open>\<open>.first()\<close>: the first row that matches, or null.\<close>

definition first_row :: "('r \<Rightarrow> bool) \<Rightarrow> 'r table \<Rightarrow> 'r option" where
  "first_row c t = find c t"

definition pk :: "('r \<Rightarrow> 'k) \<Rightarrow> 'r table \<Rightarrow> bool" where
  "pk key t \<longleftrightarrow> distinct (map key t)"

lemma exists_row_iff [table_simps]: "exists_row c t \<longleftrightarrow> (\<exists>r \<in> set t. c r)"
  by (auto simp: exists_row_def list_ex_iff)

lemma set_delete_rows [table_simps]: "r \<in> set (delete_rows c t) \<longleftrightarrow> r \<in> set t \<and> \<not> c r"
  by (auto simp: delete_rows_def)

lemma set_update_rows:
  "set (update_rows c f t) = (\<lambda>r. if c r then f r else r) ` set t"
  by (simp add: update_rows_def)

lemma ball_update_rows [table_simps]:
  "(\<forall>r \<in> set (update_rows c f t). P r) \<longleftrightarrow> (\<forall>r \<in> set t. P (if c r then f r else r))"
  by (auto simp: update_rows_def)

lemma bex_update_rows [table_simps]:
  "(\<exists>r \<in> set (update_rows c f t). P r) \<longleftrightarrow> (\<exists>r \<in> set t. P (if c r then f r else r))"
  by (auto simp: update_rows_def)

lemma delete_rows_twice: "delete_rows q (delete_rows p t) = delete_rows (\<lambda>r. p r \<or> q r) t"
  by (simp add: delete_rows_def conj_commute)

lemma delete_rows_False [simp]: "delete_rows (\<lambda>_. False) t = t"
  by (simp add: delete_rows_def)

lemma update_rows_none: "\<not> exists_row c t \<Longrightarrow> update_rows c f t = t"
  by (induction t) (auto simp: exists_row_def update_rows_def)

lemma exists_row_update_other:
  "(\<And>r. e r \<Longrightarrow> c (f r) = c r) \<Longrightarrow> exists_row c (update_rows e f t) = exists_row c t"
  by (induction t) (simp_all add: exists_row_def update_rows_def)

lemma exists_row_append: "exists_row c (t @ t') \<longleftrightarrow> exists_row c t \<or> exists_row c t'"
  by (simp add: exists_row_def)

lemma count_rows_0 [table_simps]: "count_rows c t = 0 \<longleftrightarrow> (\<forall>r \<in> set t. \<not> c r)"
  by (auto simp: count_rows_def filter_empty_conv)

lemma first_row_None [table_simps]: "first_row c t = None \<longleftrightarrow> (\<forall>r \<in> set t. \<not> c r)"
  by (auto simp: first_row_def find_None_iff)

lemma first_row_Some: "first_row c t = Some r \<Longrightarrow> r \<in> set t \<and> c r"
  unfolding first_row_def by (induction t) (auto split: if_splits)

lemma pk_Nil [simp]: "pk key []"
  by (simp add: pk_def)

lemma pk_snoc: "pk key (t @ [r]) \<longleftrightarrow> pk key t \<and> (\<forall>x \<in> set t. key x \<noteq> key r)"
  by (auto simp: pk_def image_iff)

lemma pk_delete_rows: "pk key t \<Longrightarrow> pk key (delete_rows c t)"
  unfolding pk_def delete_rows_def by (rule distinct_map_filter)

lemma pk_update_rows: "(\<And>r. c r \<Longrightarrow> key (f r) = key r) \<Longrightarrow> pk key (update_rows c f t) = pk key t"
proof -
  assume "\<And>r. c r \<Longrightarrow> key (f r) = key r"
  then have "map key (update_rows c f t) = map key t"
    by (simp add: update_rows_def)
  then show ?thesis by (simp add: pk_def)
qed

lemma update_rows_keys: "(\<And>r. key (f r) = key r) \<Longrightarrow> key ` set (update_rows c f t) = key ` set t"
  by (induction t) (auto simp: update_rows_def)

lemma pk_unique: "pk key t \<Longrightarrow> r \<in> set t \<Longrightarrow> r' \<in> set t \<Longrightarrow> key r = key r' \<Longrightarrow> r = r'"
  by (auto simp: pk_def distinct_map inj_on_def)

lemma pk_count: "pk key t \<Longrightarrow> exists_row (\<lambda>r. key r = k \<and> c r) t \<Longrightarrow> count_rows (\<lambda>r. key r = k \<and> c r) t = 1"
proof (induction t)
  case (Cons r t)
  then show ?case
    by (cases "key r = k \<and> c r")
       (auto simp: pk_def count_rows_def exists_row_def filter_empty_conv list_ex_iff image_iff)
qed (simp add: exists_row_def)

lemma pk_image_iff: "pk key t \<Longrightarrow> A \<subseteq> set t \<Longrightarrow> x \<in> set t \<Longrightarrow> key x \<in> key ` A \<longleftrightarrow> x \<in> A"
  unfolding pk_def distinct_map using inj_on_image_mem_iff [of key "set t" x A] by blast

lemma first_row_unique:
  assumes "pk key t" and "r \<in> set t" and "c r" and "\<And>x. c x \<Longrightarrow> key x = key r"
  shows "first_row c t = Some r"
proof -
  obtain x where x: "first_row c t = Some x"
    using assms(2,3) by (cases "first_row c t") (auto simp: table_simps)
  then have "x \<in> set t" "c x" by (auto dest: first_row_Some)
  with assms x show ?thesis by (metis pk_unique)
qed

text \<open>
  What a client needs of a table that a statement reads and writes: writing it is all the
  writing does, and its key stays unique under the statements the code issues.
\<close>

locale keyed_table =
  fixes tbl :: "'s \<Rightarrow> 'r list" and put :: "'r list \<Rightarrow> 's \<Rightarrow> 's" and key :: "'r \<Rightarrow> 'k"
  assumes tbl_put: "tbl (put t s) = t"
    and put_tbl: "put (tbl s) s = s"
    and put_put: "put t (put t' s) = put t s"
begin

lemma key_insert:
  "pk key (tbl s) \<Longrightarrow> \<not> exists_row (\<lambda>x. key x = key r) (tbl s) \<Longrightarrow>
     pk key (tbl (put (tbl s @ [r]) s))"
  by (auto simp: tbl_put pk_snoc table_simps)

lemma key_delete: "pk key (tbl s) \<Longrightarrow> pk key (tbl (put (delete_rows c (tbl s)) s))"
  by (simp add: tbl_put pk_delete_rows)

lemma key_update:
  "pk key (tbl s) \<Longrightarrow> (\<And>r. c r \<Longrightarrow> key (f r) = key r) \<Longrightarrow>
     pk key (tbl (put (update_rows c f (tbl s)) s))"
  by (simp add: tbl_put pk_update_rows)

lemma lookup_unique:
  "pk key (tbl s) \<Longrightarrow> r \<in> set (tbl s) \<Longrightarrow> first_row (\<lambda>x. key x = key r) (tbl s) = Some r"
  by (rule first_row_unique [where key = key]) auto

end

section \<open>Batches\<close>

function batches :: "nat \<Rightarrow> 'a list \<Rightarrow> 'a list list" where
  "batches n xs = (if n = 0 \<or> xs = [] then [] else take n xs # batches n (drop n xs))"
  by pat_completeness auto
termination
  by (relation "measure (\<lambda>(n, xs). length xs)") auto

declare batches.simps [simp del]

lemma batches_Nil [simp]: "batches n [] = []"
  by (simp add: batches.simps)

lemma concat_batches: "n \<noteq> 0 \<Longrightarrow> concat (batches n xs) = xs"
proof (induction n xs rule: batches.induct)
  case (1 n xs)
  then show ?case by (subst batches.simps) auto
qed

lemma batches_eq_Nil: "n \<noteq> 0 \<Longrightarrow> batches n xs = [] \<longleftrightarrow> xs = []"
  by (simp add: batches.simps)

lemma batches_member:
  assumes "b \<in> set (batches n xs)"
  shows "b \<noteq> [] \<and> length b \<le> n"
  using assms
proof (induction n xs rule: batches.induct)
  case (1 n xs)
  have "set (batches n xs) = (if n = 0 \<or> xs = [] then {} else insert (take n xs) (set (batches n (drop n xs))))"
    by (subst batches.simps) simp
  with 1 show ?case by (auto split: if_splits)
qed

section \<open>Sums over rows\<close>

lemma sum_list_filter_split:
  fixes f :: "'r \<Rightarrow> int"
  shows "sum_list (map f (filter p t))
    = sum_list (map f (filter (\<lambda>r. p r \<and> c r) t)) + sum_list (map f (filter (\<lambda>r. p r \<and> \<not> c r) t))"
  by (induction t) auto

lemma sum_list_filter_le:
  fixes f :: "'r \<Rightarrow> int"
  assumes "\<forall>r \<in> set t. 0 \<le> f r"
  shows "sum_list (map f (filter p (filter c t))) \<le> sum_list (map f (filter p t))"
  using assms by (induction t) auto

section \<open>Splitting strings\<close>

text \<open>\<open>s.split(c)\<close> for one character.\<close>

fun split_on :: "'a \<Rightarrow> 'a list \<Rightarrow> 'a list list" where
  "split_on c [] = [[]]"
| "split_on c (x # xs) = (case split_on c xs of [] \<Rightarrow> [[x]]
     | p # ps \<Rightarrow> if x = c then [] # p # ps else (x # p) # ps)"

lemma split_on_nonempty [simp]: "split_on c s \<noteq> []"
  by (cases s) (auto split: list.split)

lemma split_on_none: "c \<notin> set s \<Longrightarrow> split_on c s = [s]"
  by (induction s) auto

lemma split_on_append: "c \<notin> set s \<Longrightarrow> split_on c (s @ c # r) = s # split_on c r"
proof (induction s)
  case Nil
  show ?case by (cases "split_on c r") simp_all
qed auto

lemma split_on_parts: "p \<in> set (split_on c s) \<Longrightarrow> c \<notin> set p"
proof (induction s arbitrary: p)
  case (Cons x s)
  then show ?case by (cases "split_on c s") (auto split: if_splits)
qed simp

end
