(* ===== verification/Wire.thy ===== *)
theory Wire
  imports Prelude
begin

text \<open>
  The contract between the Worker and its clients (packages/shared/src/index.ts): its constants,
  the shapes both sides exchange, and the statements devices sign. Strings are lists of
  code units, numbers the code keeps as safe integers are \<open>int\<close>, an optional field is an
  \<open>option\<close>. The lemmas show that a signed statement determines every field
  it was built from, and that the three kinds of statement never coincide.
\<close>

section \<open>Constants\<close>

definition MAX_FILE_SIZE :: int where "MAX_FILE_SIZE = 50 * 1024 * 1024"

definition MAX_UPLOAD_SIZE :: int where "MAX_UPLOAD_SIZE = MAX_FILE_SIZE + 1024"

definition PAIRING_TTL_MS :: int where "PAIRING_TTL_MS = 10 * 60 * 1000"

definition MESSAGE_TTL_MS :: int where "MESSAGE_TTL_MS = 24 * 60 * 60 * 1000"

definition SPACE_PENDING_BYTES_QUOTA :: int where
  "SPACE_PENDING_BYTES_QUOTA = 2 * 1024 * 1024 * 1024"

definition ORPHAN_UPLOAD_TTL_MS :: int where "ORPHAN_UPLOAD_TTL_MS = 60 * 60 * 1000"

definition VAULT_BYTES_QUOTA :: int where "VAULT_BYTES_QUOTA = 1024 * 1024 * 1024"

definition VAULT_MAX_ITEMS :: int where "VAULT_MAX_ITEMS = 10000"

definition VAULT_TRASH_TTL_MS :: int where "VAULT_TRASH_TTL_MS = 30 * 24 * 60 * 60 * 1000"

definition VAULT_TOMBSTONE_TTL_MS :: int where "VAULT_TOMBSTONE_TTL_MS = 90 * 24 * 60 * 60 * 1000"

definition VAULT_PAGE_SIZE :: nat where "VAULT_PAGE_SIZE = 500"

definition VAULT_RESEAL_BATCH :: nat where "VAULT_RESEAL_BATCH = 100"

definition INITIAL_KEY_EPOCH :: int where "INITIAL_KEY_EPOCH = 1"

text \<open>\<open>Number.MAX_SAFE_INTEGER\<close>.\<close>

definition MAX_SAFE_INTEGER :: int where "MAX_SAFE_INTEGER = 9007199254740991"

section \<open>Shapes\<close>

datatype DeviceRole = Owner | Admin | Member

record DeviceDescriptor =
  dd_id :: string
  dd_publicKey :: string
  dd_signingPublicKey :: "string option"

record DeviceAttestation =
  at_groupId :: string
  at_deviceId :: string
  at_publicKey :: string
  at_signingPublicKey :: string
  at_signerDeviceId :: string
  at_issuedAt :: int
  at_signature :: string

record DeviceInfo =
  di_id :: string
  di_encryptedName :: "string option"
  di_nameIv :: "string option"
  di_createdAt :: int
  di_role :: DeviceRole
  di_publicKey :: string
  di_signingPublicKey :: "string option"
  di_attestation :: "DeviceAttestation option"
  di_keyEpoch :: int
  di_nameKeyEpoch :: int
  di_sendOnly :: bool

record SpaceNameRecord =
  sn_encryptedName :: "string option"
  sn_nameIv :: "string option"
  sn_nameKeyEpoch :: int
  sn_updatedAt :: int

record KeyWrap =
  kw_deviceId :: string
  kw_wrappedKey :: string
  kw_ephemeralPublicKey :: string

record PendingMessage =
  pm_id :: string
  pm_keyEpoch :: int
  pm_senderDeviceId :: string
  pm_senderNameEnc :: "string option"
  pm_senderNameIv :: "string option"
  pm_senderNameEpoch :: "int option"
  pm_encryptedPayload :: "string option"
  pm_iv :: "string option"
  pm_fileR2Key :: "string option"
  pm_fileIv :: "string option"
  pm_fileMeta :: "string option"
  pm_fileMetaIv :: "string option"
  pm_deletesMessageId :: "string option"
  pm_createdAt :: int
  pm_signature :: "string option"

record PendingKeyDelivery =
  pd_epoch :: int
  pd_wrappedKey :: string
  pd_ephemeralPublicKey :: string

datatype VaultItemKind = Folder | Note | VFile

record VaultItemRecord =
  vi_id :: string
  vi_parentId :: "string option"
  vi_kind :: VaultItemKind
  vi_keyEpoch :: int
  vi_meta :: string
  vi_metaIv :: string
  vi_blobKey :: "string option"
  vi_blobSize :: int
  vi_revision :: int
  vi_createdAt :: int
  vi_updatedAt :: int
  vi_trashedAt :: "int option"
  vi_seq :: int

record VaultUsage =
  vu_bytes :: int
  vu_items :: nat

record VaultChangesResponse =
  vc_items :: "VaultItemRecord list"
  vc_removed :: "string list"
  vc_cursor :: int
  vc_more :: bool
  vc_reset :: bool
  vc_usage :: VaultUsage

datatype ApiErrorCode =
    BadRequest | Unauthorized | Forbidden | DeviceRevoked | NotFound | Conflict | KeyRotated
  | PayloadTooLarge | QuotaExceeded | ChallengeFailed | RateLimited | Internal

text \<open>\<open>AUTH_FAILURE_CODES\<close>: the caller's credentials will never work again.\<close>

definition AUTH_FAILURE_CODES :: "ApiErrorCode list" where
  "AUTH_FAILURE_CODES = [Unauthorized, DeviceRevoked]"

section \<open>Strings\<close>

text \<open>\<open>String(n)\<close> of an integer below \<open>10^21\<close> and \<open>Array.join\<close>.\<close>

definition digits :: string where "digits = ''0123456789''"

fun nat_str :: "nat \<Rightarrow> string" where
  "nat_str n = (if n < 10 then [digits ! n] else nat_str (n div 10) @ [digits ! (n mod 10)])"

declare nat_str.simps [simp del]

definition int_str :: "int \<Rightarrow> string" where
  "int_str i = (if i < 0 then ''-'' @ nat_str (nat (- i)) else nat_str (nat i))"

fun join :: "string \<Rightarrow> string list \<Rightarrow> string" where
  "join sep [] = []"
| "join sep [x] = x"
| "join sep (x # y # ys) = x @ sep @ join sep (y # ys)"

fun digit_val :: "char \<Rightarrow> nat" where
  "digit_val c = of_char c - 48"

lemma digit_lt: "d < 10 \<Longrightarrow> digit_val (digits ! d) = d \<and> digits ! d \<in> set digits"
proof -
  assume "d < 10"
  then have "d = 0 \<or> d = 1 \<or> d = 2 \<or> d = 3 \<or> d = 4 \<or> d = 5 \<or> d = 6 \<or> d = 7 \<or> d = 8 \<or> d = 9"
    by arith
  then show ?thesis by (elim disjE) (simp_all add: of_char_def digits_def)
qed

lemma nat_str_rec:
  "n < 10 \<Longrightarrow> nat_str n = [digits ! n]"
  "\<not> n < 10 \<Longrightarrow> nat_str n = nat_str (n div 10) @ [digits ! (n mod 10)]"
  by (subst nat_str.simps, rule if_P, assumption) (subst nat_str.simps, rule if_not_P, assumption)

lemma digit_mod: "digits ! (n mod 10) \<in> set digits"
  using digit_lt [of "n mod 10"] by (meson mod_less_divisor zero_less_numeral)

lemma nat_str_digits: "set (nat_str n) \<subseteq> set digits"
proof (induction n rule: nat_str.induct)
  case (1 n)
  show ?case
  proof (cases "n < 10")
    case True
    then have "digits ! n \<in> set digits" using digit_lt by blast
    then show ?thesis unfolding nat_str_rec(1) [OF True] by (simp only: list.set) auto
  next
    case False
    then have "set (nat_str (n div 10)) \<subseteq> set digits" using 1 by blast
    then show ?thesis
      using digit_mod [of n] unfolding nat_str_rec(2) [OF False] by simp
  qed
qed

lemma nat_str_nonempty: "nat_str n \<noteq> []"
  by (subst nat_str.simps) simp

definition str_val :: "string \<Rightarrow> nat" where
  "str_val s = foldl (\<lambda>a c. 10 * a + digit_val c) 0 s"

lemma str_val_snoc: "str_val (s @ [c]) = 10 * str_val s + digit_val c"
  by (simp add: str_val_def)

lemma str_val_nat_str: "str_val (nat_str n) = n"
proof (induction n rule: nat_str.induct)
  case (1 n)
  show ?case
  proof (cases "n < 10")
    case True
    then have "digit_val (digits ! n) = n" using digit_lt by blast
    then show ?thesis unfolding nat_str_rec(1) [OF True] by (simp only: str_val_def foldl.simps)
  next
    case False
    then have "str_val (nat_str (n div 10)) = n div 10" using 1 by blast
    moreover have "digit_val (digits ! (n mod 10)) = n mod 10"
      using digit_lt [of "n mod 10"] by (meson mod_less_divisor zero_less_numeral)
    ultimately have "str_val (nat_str n) = 10 * (n div 10) + n mod 10"
      unfolding nat_str_rec(2) [OF False] by (simp only: str_val_snoc)
    then show ?thesis by presburger
  qed
qed

lemma nat_str_inj [simp]: "nat_str m = nat_str n \<longleftrightarrow> m = n"
  by (metis str_val_nat_str)

lemma nat_str_no: "c \<notin> set digits \<Longrightarrow> c \<notin> set (nat_str n)"
  using nat_str_digits by blast

lemma int_str_inj [simp]: "int_str i = int_str j \<longleftrightarrow> i = j"
proof -
  have "CHR ''-'' \<notin> set (nat_str n)" for n by (rule nat_str_no) (simp add: digits_def)
  then show ?thesis
    by (auto simp: int_str_def) (metis append_Cons list.set_intros(1))+
qed

lemma int_str_colon: "CHR '':'' \<notin> set (int_str i)"
  by (simp add: int_str_def nat_str_no digits_def)

text \<open>A field without the separator ends where the separator first appears.\<close>

lemma field_split:
  assumes "c \<notin> set x" and "c \<notin> set x'" and "x @ c # r = x' @ c # r'"
  shows "x = x' \<and> r = r'"
  using assms
proof (induction x arbitrary: x')
  case Nil
  then show ?case by (cases x') auto
next
  case (Cons a x)
  then show ?case by (cases x') auto
qed

lemma join_inj:
  assumes "\<forall>x \<in> set xs. c \<notin> set x" and "\<forall>y \<in> set ys. c \<notin> set y"
    and "length xs = length ys" and "join [c] xs = join [c] ys"
  shows "xs = ys"
  using assms(3,1,2,4)
proof (induction xs ys rule: list_induct2)
  case (Cons x xs y ys)
  show ?case
  proof (cases xs)
    case Nil
    with Cons show ?thesis by simp
  next
    case (Cons a as)
    with Cons.hyps obtain b bs where ys: "ys = b # bs" by (cases ys) auto
    with Cons Cons.prems have "x @ c # join [c] xs = y @ c # join [c] ys" by simp
    then have "x = y \<and> join [c] xs = join [c] ys"
      by (rule field_split [rotated 2]) (use Cons.prems in auto)
    with Cons.IH Cons.prems show ?thesis by auto
  qed
qed simp

section \<open>Signed statements\<close>

definition attestationStatement :: "DeviceAttestation \<Rightarrow> string" where
  "attestationStatement f = join '':''
     [''fs-device-attestation:1'', at_groupId f, at_deviceId f, at_publicKey f,
      at_signingPublicKey f, at_signerDeviceId f, int_str (at_issuedAt f)]"

record DeleteSignatureFields =
  df_groupId :: string
  df_messageId :: string
  df_senderDeviceId :: string
  df_keyEpoch :: int
  df_deletesMessageId :: string

definition deleteSignatureStatement :: "DeleteSignatureFields \<Rightarrow> string" where
  "deleteSignatureStatement f = join '':''
     [''fs-message-delete:1'', df_groupId f, df_messageId f, df_senderDeviceId f,
      int_str (df_keyEpoch f), df_deletesMessageId f]"

record MessageSignatureFields =
  mf_groupId :: string
  mf_messageId :: string
  mf_senderDeviceId :: string
  mf_keyEpoch :: int
  mf_encryptedPayload :: "string option"
  mf_iv :: "string option"
  mf_fileR2Key :: "string option"
  mf_fileIv :: "string option"
  mf_fileMeta :: "string option"
  mf_fileMetaIv :: "string option"

text \<open>The local \<open>part\<close>: a length-prefixed value, or a dash for an absent one.\<close>

definition statement_part :: "string option \<Rightarrow> string" where
  "statement_part v = (case v of None \<Rightarrow> ''-'' | Some s \<Rightarrow> nat_str (length s) @ ''.'' @ s)"

definition messageSignatureStatement :: "MessageSignatureFields \<Rightarrow> string" where
  "messageSignatureStatement f = join '':''
     [''fs-message:1'', mf_groupId f, mf_messageId f, mf_senderDeviceId f, int_str (mf_keyEpoch f),
      statement_part (mf_encryptedPayload f), statement_part (mf_iv f),
      statement_part (mf_fileR2Key f), statement_part (mf_fileIv f),
      statement_part (mf_fileMeta f), statement_part (mf_fileMetaIv f)]"

record InviteSealFields =
  is_pairingId :: string
  is_deviceId :: string
  is_publicKey :: string
  is_signingPublicKey :: string
  is_sendOnly :: bool

definition inviteSealStatement :: "InviteSealFields \<Rightarrow> string" where
  "inviteSealStatement f = join '':''
     [''fs-pairing-invite:1'', is_pairingId f, is_deviceId f, is_publicKey f,
      is_signingPublicKey f, if is_sendOnly f then ''send-only'' else ''full'']"

text \<open>\<open>vaultContext\<close>: the additional data a vault ciphertext is bound to.\<close>

definition kind_str :: "VaultItemKind \<Rightarrow> string" where
  "kind_str k = (case k of Folder \<Rightarrow> ''folder'' | Note \<Rightarrow> ''note'' | VFile \<Rightarrow> ''file'')"

definition vaultContext_meta :: "string \<Rightarrow> string \<Rightarrow> VaultItemKind \<Rightarrow> string" where
  "vaultContext_meta g i k = ''vault-meta:'' @ g @ '':'' @ i @ '':'' @ kind_str k"

definition vaultContext_blob :: "string \<Rightarrow> string \<Rightarrow> string" where
  "vaultContext_blob g b = ''vault-blob:'' @ g @ '':'' @ b"

subsection \<open>A statement determines its fields\<close>

definition colon_free :: "string \<Rightarrow> bool" where
  "colon_free s \<longleftrightarrow> CHR '':'' \<notin> set s"

lemma statement_part_split:
  assumes "statement_part a @ r = statement_part b @ r'"
  shows "a = b \<and> r = r'"
proof (cases a)
  case None
  show ?thesis
  proof (cases b)
    case (Some v)
    have "CHR ''-'' \<notin> set (nat_str (length v))" by (rule nat_str_no) (simp add: digits_def)
    with None Some assms have False
      using nat_str_nonempty [of "length v"]
      by (cases "nat_str (length v)") (auto simp: statement_part_def)
    then show ?thesis ..
  qed (use None assms in \<open>simp add: statement_part_def\<close>)
next
  case (Some u)
  show ?thesis
  proof (cases b)
    case None
    have "CHR ''-'' \<notin> set (nat_str (length u))" by (rule nat_str_no) (simp add: digits_def)
    with None Some assms have False
      using nat_str_nonempty [of "length u"]
      by (cases "nat_str (length u)") (auto simp: statement_part_def)
    then show ?thesis ..
  next
    case (Some v)
    from \<open>a = Some u\<close> Some assms
    have "nat_str (length u) @ CHR ''.'' # u @ r = nat_str (length v) @ CHR ''.'' # v @ r'"
      by (simp add: statement_part_def)
    then have "nat_str (length u) = nat_str (length v) \<and> u @ r = v @ r'"
      by (rule field_split [rotated 2]) (simp_all add: nat_str_no digits_def)
    with \<open>a = Some u\<close> Some show ?thesis by auto
  qed
qed

lemmas statement_part_end = statement_part_split [where r = "[]" and r' = "[]", simplified]

lemma colon_field:
  "colon_free x \<Longrightarrow> colon_free x' \<Longrightarrow> x @ CHR '':'' # r = x' @ CHR '':'' # r' \<Longrightarrow> x = x' \<and> r = r'"
  unfolding colon_free_def by (rule field_split)

lemma colon_free_int [simp]: "colon_free (int_str i)"
  by (simp add: colon_free_def int_str_colon)

lemma attestationStatement_inj:
  assumes "attestationStatement f = attestationStatement f'"
    and "list_all colon_free [at_groupId f, at_deviceId f, at_publicKey f, at_signingPublicKey f, at_signerDeviceId f]"
    and "list_all colon_free [at_groupId f', at_deviceId f', at_publicKey f', at_signingPublicKey f', at_signerDeviceId f']"
  shows "f\<lparr>at_signature := s\<rparr> = f'\<lparr>at_signature := s\<rparr>"
proof -
  have "join '':'' [at_groupId f, at_deviceId f, at_publicKey f, at_signingPublicKey f, at_signerDeviceId f, int_str (at_issuedAt f)]
      = join '':'' [at_groupId f', at_deviceId f', at_publicKey f', at_signingPublicKey f', at_signerDeviceId f', int_str (at_issuedAt f')]"
    using assms(1) by (simp add: attestationStatement_def)
  then have "[at_groupId f, at_deviceId f, at_publicKey f, at_signingPublicKey f, at_signerDeviceId f, int_str (at_issuedAt f)]
      = [at_groupId f', at_deviceId f', at_publicKey f', at_signingPublicKey f', at_signerDeviceId f', int_str (at_issuedAt f')]"
    by (rule join_inj [rotated 3]) (use assms(2,3) in \<open>auto simp: colon_free_def int_str_colon\<close>)
  then show ?thesis by (cases f; cases f') simp
qed

lemma message_statement_inj:
  assumes eq: "messageSignatureStatement f = messageSignatureStatement f'"
    and f: "list_all colon_free [mf_groupId f, mf_messageId f, mf_senderDeviceId f]"
    and f': "list_all colon_free [mf_groupId f', mf_messageId f', mf_senderDeviceId f']"
  shows "f = f'"
proof -
  from eq have 1: "mf_groupId f = mf_groupId f' \<and>
      join '':'' (tl (tl (''fs-message:1'' # mf_groupId f # mf_messageId f # mf_senderDeviceId f # int_str (mf_keyEpoch f) #
        map (\<lambda>g. statement_part (g f)) [mf_encryptedPayload, mf_iv, mf_fileR2Key, mf_fileIv, mf_fileMeta, mf_fileMetaIv])))
    = join '':'' (tl (tl (''fs-message:1'' # mf_groupId f' # mf_messageId f' # mf_senderDeviceId f' # int_str (mf_keyEpoch f') #
        map (\<lambda>g. statement_part (g f')) [mf_encryptedPayload, mf_iv, mf_fileR2Key, mf_fileIv, mf_fileMeta, mf_fileMetaIv])))"
    by - (rule colon_field; use f f' in \<open>simp add: messageSignatureStatement_def\<close>)
  note c = colon_field
  from 1 have m: "mf_messageId f = mf_messageId f'" and r: "mf_senderDeviceId f @ CHR '':'' # int_str (mf_keyEpoch f) @ CHR '':'' #
      join '':'' (map (\<lambda>g. statement_part (g f)) [mf_encryptedPayload, mf_iv, mf_fileR2Key, mf_fileIv, mf_fileMeta, mf_fileMetaIv])
    = mf_senderDeviceId f' @ CHR '':'' # int_str (mf_keyEpoch f') @ CHR '':'' #
      join '':'' (map (\<lambda>g. statement_part (g f')) [mf_encryptedPayload, mf_iv, mf_fileR2Key, mf_fileIv, mf_fileMeta, mf_fileMetaIv])"
    using f f' by (auto dest!: c [rotated 2])
  from r have s: "mf_senderDeviceId f = mf_senderDeviceId f'" and e: "mf_keyEpoch f = mf_keyEpoch f'" and
    p: "join '':'' (map (\<lambda>g. statement_part (g f)) [mf_encryptedPayload, mf_iv, mf_fileR2Key, mf_fileIv, mf_fileMeta, mf_fileMetaIv])
      = join '':'' (map (\<lambda>g. statement_part (g f')) [mf_encryptedPayload, mf_iv, mf_fileR2Key, mf_fileIv, mf_fileMeta, mf_fileMetaIv])"
    using f f' by (auto dest!: c [rotated 2])
  from p have "mf_encryptedPayload f = mf_encryptedPayload f'" "mf_iv f = mf_iv f'" "mf_fileR2Key f = mf_fileR2Key f'"
    "mf_fileIv f = mf_fileIv f'" "mf_fileMeta f = mf_fileMeta f'" "mf_fileMetaIv f = mf_fileMetaIv f'"
    by (auto dest!: statement_part_split statement_part_end)
  with 1 m s e show ?thesis by simp
qed

lemma delete_statement_inj:
  assumes "deleteSignatureStatement f = deleteSignatureStatement f'"
    and "list_all colon_free [df_groupId f, df_messageId f, df_senderDeviceId f, df_deletesMessageId f]"
    and "list_all colon_free [df_groupId f', df_messageId f', df_senderDeviceId f', df_deletesMessageId f']"
  shows "f = f'"
proof -
  have "join '':'' [df_groupId f, df_messageId f, df_senderDeviceId f, int_str (df_keyEpoch f), df_deletesMessageId f]
      = join '':'' [df_groupId f', df_messageId f', df_senderDeviceId f', int_str (df_keyEpoch f'), df_deletesMessageId f']"
    using assms(1) by (simp add: deleteSignatureStatement_def)
  then have "[df_groupId f, df_messageId f, df_senderDeviceId f, int_str (df_keyEpoch f), df_deletesMessageId f]
      = [df_groupId f', df_messageId f', df_senderDeviceId f', int_str (df_keyEpoch f'), df_deletesMessageId f']"
    by (rule join_inj [rotated 3]) (use assms(2,3) in \<open>auto simp: colon_free_def int_str_colon\<close>)
  then show ?thesis by (cases f; cases f') simp
qed

section \<open>Properties\<close>

text \<open>C1. A message signature binds everything. Two messages whose ids hold no colon have the same
  signed statement only if they agree in every field the statement covers, absent fields, empty
  fields and the borders between adjacent ciphertexts included.\<close>

theorem message_signature_binds:
  assumes "messageSignatureStatement f = messageSignatureStatement f'"
    and "list_all colon_free [mf_groupId f, mf_messageId f, mf_senderDeviceId f]"
    and "list_all colon_free [mf_groupId f', mf_messageId f', mf_senderDeviceId f']"
  shows "f = f'"
  using assms by (rule message_statement_inj)

definition sample_fields :: "string option \<Rightarrow> MessageSignatureFields" where
  "sample_fields p = \<lparr>mf_groupId = ''g'', mf_messageId = ''m'', mf_senderDeviceId = ''d'', mf_keyEpoch = 3,
     mf_encryptedPayload = p, mf_iv = Some ''1.a'', mf_fileR2Key = None, mf_fileIv = None,
     mf_fileMeta = None, mf_fileMetaIv = None\<rparr>"

theorem message_signature_binds_witness:
  "messageSignatureStatement (sample_fields None) \<noteq> messageSignatureStatement (sample_fields (Some []))"
proof
  assume "messageSignatureStatement (sample_fields None) = messageSignatureStatement (sample_fields (Some []))"
  then have "sample_fields None = sample_fields (Some [])"
    by (rule message_signature_binds) (simp_all add: sample_fields_def colon_free_def)
  then show False by (simp add: sample_fields_def)
qed

text \<open>No signature serves twice. The four kinds of signed statement never coincide, whatever
  their fields hold, so a signature over one is never valid as another; in particular no ordinary
  message can be replayed as an order to delete.\<close>

theorem statements_never_coincide:
  "messageSignatureStatement f \<noteq> deleteSignatureStatement d
   \<and> messageSignatureStatement f \<noteq> attestationStatement a \<and> messageSignatureStatement f \<noteq> inviteSealStatement i
   \<and> deleteSignatureStatement d \<noteq> attestationStatement a \<and> deleteSignatureStatement d \<noteq> inviteSealStatement i
   \<and> attestationStatement a \<noteq> inviteSealStatement i"
  by (simp add: messageSignatureStatement_def deleteSignatureStatement_def attestationStatement_def
      inviteSealStatement_def)

end
