(* ===== verification/Http.thy ===== *)
theory Http
  imports Wire
begin

text \<open>
  Request bodies and their validation (apps/worker/src/http.ts, errors.ts, and
  optionalAttestation of attestation.ts). A parsed JSON value is a \<open>json\<close>; \<open>undefined\<close> is \<open>None\<close>.
  A JavaScript number is an integer, strictly between two integers, or not finite, which is all
  the code asks of one. \<open>JSON.parse\<close> with \<open>TextDecoder\<close> is the parameter \<open>parse\<close> of
  \<open>readJson\<close>. The lemmas characterise exactly which values each check lets through.
\<close>

section \<open>Errors\<close>

definition STATUS :: "ApiErrorCode \<Rightarrow> nat" where
  "STATUS c = (case c of BadRequest \<Rightarrow> 400 | Unauthorized \<Rightarrow> 401 | Forbidden \<Rightarrow> 403
     | DeviceRevoked \<Rightarrow> 403 | NotFound \<Rightarrow> 404 | Conflict \<Rightarrow> 409 | KeyRotated \<Rightarrow> 409
     | PayloadTooLarge \<Rightarrow> 413 | QuotaExceeded \<Rightarrow> 413 | ChallengeFailed \<Rightarrow> 403
     | RateLimited \<Rightarrow> 429 | Internal \<Rightarrow> 500)"

text \<open>What a handler may throw: an \<open>ApiError\<close> (its code; the text for people is left out), or
  any other exception, such as a failed D1 statement or R2 call.\<close>

datatype failure = ApiError ApiErrorCode | Thrown

text \<open>\<open>fetch\<close> of index.ts answers every other exception as \<open>internal\<close>.\<close>

definition failure_code :: "failure \<Rightarrow> ApiErrorCode" where
  "failure_code f = (case f of ApiError c \<Rightarrow> c | Thrown \<Rightarrow> Internal)"

type_synonym 'a checked = "failure + 'a"

section \<open>Values\<close>

datatype number = IntN int | FracN int | NotFinite

datatype json = JNull | JBool bool | JNum number | JStr string | JArr "json list"
  | JObj "(string \<times> json) list"

text \<open>\<open>body.f\<close>: the field, or undefined. Only an object that passed \<open>readJsonObject\<close> is read so,
  or a field of one through \<open>?.\<close>, which gives undefined for anything else.\<close>

definition jfield :: "json \<Rightarrow> string \<Rightarrow> json option" where
  "jfield j f = (case j of JObj fs \<Rightarrow> map_of fs f | _ \<Rightarrow> None)"

fun num_negative :: "number \<Rightarrow> bool" where
  "num_negative (IntN i) = (i < 0)"
| "num_negative (FracN i) = (i < 0)"
| "num_negative NotFinite = False"

text \<open>\<open>n > m\<close> for an integer \<open>m\<close>, of a finite \<open>n\<close>.\<close>

fun num_above :: "int \<Rightarrow> number \<Rightarrow> bool" where
  "num_above m (IntN i) = (m < i)"
| "num_above m (FracN i) = (m \<le> i)"
| "num_above m NotFinite = False"

section \<open>Reading the body\<close>

definition MAX_JSON_BODY_SIZE :: int where "MAX_JSON_BODY_SIZE = 2 * 1024 * 1024"

text \<open>The early rejection by Content-Length (its value as \<open>Number(...)\<close> reads it).\<close>

definition check_content_length :: "number option \<Rightarrow> unit checked" where
  "check_content_length h = (case h of None \<Rightarrow> Inr ()
     | Some n \<Rightarrow> bindE (throwIf (n = NotFinite \<or> num_negative n) (ApiError BadRequest)) (\<lambda>_.
         throwIf (num_above MAX_JSON_BODY_SIZE n) (ApiError PayloadTooLarge)))"

text \<open>The reader's loop: what was kept so far, and the chunks still to come.\<close>

fun read_chunks :: "'b list \<Rightarrow> 'b list list \<Rightarrow> 'b list checked" where
  "read_chunks acc [] = Inr acc"
| "read_chunks acc (c # cs) =
     (if int (length acc + length c) > MAX_JSON_BODY_SIZE then Inl (ApiError PayloadTooLarge)
      else read_chunks (acc @ c) cs)"

definition readJson :: "('b list \<Rightarrow> json option) \<Rightarrow> number option \<Rightarrow> 'b list list option \<Rightarrow> json checked" where
  "readJson parse len body =
     bindE (check_content_length len) (\<lambda>_.
     case body of None \<Rightarrow> Inl (ApiError BadRequest)
     | Some chunks \<Rightarrow> bindE (read_chunks [] chunks) (\<lambda>bytes.
         case parse bytes of None \<Rightarrow> Inl (ApiError BadRequest) | Some j \<Rightarrow> Inr j))"

definition requireObject :: "json \<Rightarrow> json checked" where
  "requireObject j = (case j of JObj fs \<Rightarrow> Inr j | _ \<Rightarrow> Inl (ApiError BadRequest))"

definition readJsonObject :: "('b list \<Rightarrow> json option) \<Rightarrow> number option \<Rightarrow> 'b list list option \<Rightarrow> json checked" where
  "readJsonObject parse len body = bindE (readJson parse len body) requireObject"

section \<open>Field checks\<close>

definition requireString :: "json option \<Rightarrow> int \<Rightarrow> string checked" where
  "requireString v maxLen = (case v of
     Some (JStr s) \<Rightarrow> (if s = [] then Inl (ApiError BadRequest)
        else if maxLen < int (length s) then Inl (ApiError BadRequest) else Inr s)
   | _ \<Rightarrow> Inl (ApiError BadRequest))"

definition optionalString :: "json option \<Rightarrow> int \<Rightarrow> string option checked" where
  "optionalString v maxLen = (case v of None \<Rightarrow> Inr None | Some JNull \<Rightarrow> Inr None
     | _ \<Rightarrow> bindE (requireString v maxLen) (\<lambda>s. Inr (Some s)))"

definition hex_digit :: "char \<Rightarrow> bool" where
  "hex_digit c \<longleftrightarrow> (CHR ''0'' \<le> c \<and> c \<le> CHR ''9'') \<or> (CHR ''a'' \<le> c \<and> c \<le> CHR ''f'')"

definition requireSha256Hex :: "json option \<Rightarrow> string checked" where
  "requireSha256Hex v = bindE (requireString v 64) (\<lambda>s.
     if length s = 64 \<and> list_all hex_digit s then Inr s else Inl (ApiError BadRequest))"

definition requireInt :: "json option \<Rightarrow> int \<Rightarrow> int \<Rightarrow> int checked" where
  "requireInt v lo hi = (case v of
     Some (JNum (IntN i)) \<Rightarrow> (if i < lo \<or> hi < i then Inl (ApiError BadRequest) else Inr i)
   | _ \<Rightarrow> Inl (ApiError BadRequest))"

definition id_char :: "char \<Rightarrow> bool" where
  "id_char c \<longleftrightarrow> (CHR ''A'' \<le> c \<and> c \<le> CHR ''Z'') \<or> (CHR ''a'' \<le> c \<and> c \<le> CHR ''z'')
     \<or> (CHR ''0'' \<le> c \<and> c \<le> CHR ''9'') \<or> c = CHR ''_'' \<or> c = CHR ''-''"

definition requireId :: "json option \<Rightarrow> string checked" where
  "requireId v = bindE (requireString v 256) (\<lambda>s.
     if list_all id_char s then Inr s else Inl (ApiError BadRequest))"

definition valid_id :: "string \<Rightarrow> bool" where
  "valid_id s \<longleftrightarrow> s \<noteq> [] \<and> length s \<le> 256 \<and> list_all id_char s"

lemma requireString_Inr [guard_simps]:
  "requireString v n = Inr s \<longleftrightarrow> v = Some (JStr s) \<and> s \<noteq> [] \<and> int (length s) \<le> n"
  by (auto simp: requireString_def split: option.splits json.splits)

lemma requireString_Inl: "requireString v n = Inl e \<Longrightarrow> e = ApiError BadRequest"
  by (auto simp: requireString_def split: option.splits json.splits if_splits)

lemma optionalString_Inr [guard_simps]:
  "optionalString v n = Inr r \<longleftrightarrow>
     (v = None \<or> v = Some JNull) \<and> r = None \<or>
     (\<exists>s. v = Some (JStr s) \<and> s \<noteq> [] \<and> int (length s) \<le> n \<and> r = Some s)"
  by (auto simp: optionalString_def guard_simps split: option.splits json.splits)

lemma requireInt_Inr [guard_simps]:
  "requireInt v lo hi = Inr i \<longleftrightarrow> v = Some (JNum (IntN i)) \<and> lo \<le> i \<and> i \<le> hi"
  by (auto simp: requireInt_def split: option.splits json.splits number.splits)

lemma requireId_Inr [guard_simps]: "requireId v = Inr s \<longleftrightarrow> v = Some (JStr s) \<and> valid_id s"
  by (auto simp: requireId_def valid_id_def guard_simps split: if_splits)

lemma requireSha256Hex_Inr [guard_simps]:
  "requireSha256Hex v = Inr s \<longleftrightarrow> v = Some (JStr s) \<and> length s = 64 \<and> list_all hex_digit s"
proof -
  have *: "(if c then Inr x else Inl e) = (Inr s :: string checked) \<longleftrightarrow> c \<and> x = s" for c x e
    by simp
  have "s \<noteq> []" if "length s = 64" using that by (cases s) simp_all
  then show ?thesis
    unfolding requireSha256Hex_def bindE_Inr_iff requireString_Inr * by auto
qed

text \<open>An id never holds a separator of a storage key or of a signed statement.\<close>

lemma id_char_separators: "\<not> id_char (CHR ''/'')" "\<not> id_char (CHR '':'')" "\<not> id_char (CHR ''.'')"
  by (simp_all add: id_char_def less_eq_char_def less_char_def)

lemma valid_id_no_slash: "valid_id s \<Longrightarrow> CHR ''/'' \<notin> set s"
  using id_char_separators(1) unfolding valid_id_def list_all_iff by metis

lemma valid_id_colon_free: "valid_id s \<Longrightarrow> colon_free s"
  using id_char_separators(2) unfolding valid_id_def list_all_iff colon_free_def by metis

text \<open>The reader keeps at most the limit, and refuses exactly the bodies that are longer.\<close>

lemma read_chunks_spec:
  "int (length acc) \<le> MAX_JSON_BODY_SIZE \<Longrightarrow>
     read_chunks acc cs = (if int (length (acc @ concat cs)) \<le> MAX_JSON_BODY_SIZE
       then Inr (acc @ concat cs) else Inl (ApiError PayloadTooLarge))"
  by (induction cs arbitrary: acc) auto

section \<open>Attestations\<close>

text \<open>What an attestation must describe: the device it is stored for.\<close>

record expected_device =
  ex_groupId :: string
  ex_deviceId :: string
  ex_publicKey :: string
  ex_signingPublicKey :: "string option"

text \<open>The object built from the fields, each checked in the code's order.\<close>

definition parse_attestation_fields :: "json \<Rightarrow> DeviceAttestation checked" where
  "parse_attestation_fields raw =
     bindE (requireId (jfield raw ''groupId'')) (\<lambda>g.
     bindE (requireId (jfield raw ''deviceId'')) (\<lambda>d.
     bindE (requireString (jfield raw ''publicKey'') 2048) (\<lambda>p.
     bindE (requireString (jfield raw ''signingPublicKey'') 2048) (\<lambda>sp.
     bindE (requireId (jfield raw ''signerDeviceId'')) (\<lambda>sd.
     bindE (requireInt (jfield raw ''issuedAt'') 0 MAX_SAFE_INTEGER) (\<lambda>i.
     bindE (requireString (jfield raw ''signature'') 512) (\<lambda>sg.
     Inr \<lparr>at_groupId = g, at_deviceId = d, at_publicKey = p, at_signingPublicKey = sp,
          at_signerDeviceId = sd, at_issuedAt = i, at_signature = sg\<rparr>)))))))"

definition describes :: "expected_device \<Rightarrow> DeviceAttestation \<Rightarrow> bool" where
  "describes ex a \<longleftrightarrow> at_groupId a = ex_groupId ex \<and> at_deviceId a = ex_deviceId ex
     \<and> at_publicKey a = ex_publicKey ex
     \<and> (ex_signingPublicKey ex = None \<or> ex_signingPublicKey ex = Some (at_signingPublicKey a))"

definition optionalAttestation :: "json option \<Rightarrow> expected_device \<Rightarrow> DeviceAttestation option checked" where
  "optionalAttestation v ex = (case v of None \<Rightarrow> Inr None | Some JNull \<Rightarrow> Inr None
     | Some (JObj fs) \<Rightarrow>
         bindE (parse_attestation_fields (JObj fs)) (\<lambda>a.
         bindE (throwIf (\<not> describes ex a) (ApiError BadRequest)) (\<lambda>_. Inr (Some a)))
     | Some (JArr xs) \<Rightarrow> Inl (ApiError BadRequest)
     | _ \<Rightarrow> Inl (ApiError BadRequest))"

lemma optionalAttestation_describes [guard_simps]:
  "optionalAttestation v ex = Inr (Some a) \<Longrightarrow> describes ex a"
  by (auto simp: optionalAttestation_def guard_simps split: option.splits json.splits)

section \<open>Properties\<close>

text \<open>The body limit holds on what is read, not on what is declared. A request body is accepted
  exactly when its declared length is absent or a finite number within the limit, the bytes that
  arrive, in however many chunks, are at most 2 MB together, and they parse; in particular no
  declared length lets a longer body through.\<close>

theorem readJson_within_limit:
  fixes parse :: "'b list \<Rightarrow> json option"
  shows "readJson parse len body = Inr j \<longleftrightarrow>
     (len = None \<or> (\<exists>n. len = Some n \<and> n \<noteq> NotFinite \<and> \<not> num_negative n \<and> \<not> num_above (2 * 1024 * 1024) n))
     \<and> (\<exists>chunks. body = Some chunks \<and> length (concat chunks) \<le> 2 * 1024 * 1024 \<and> parse (concat chunks) = Some j)"
proof -
  have lim: "int (length xs) \<le> MAX_JSON_BODY_SIZE \<longleftrightarrow> length xs \<le> 2 * 1024 * 1024" for xs :: "'b list"
    by (simp add: MAX_JSON_BODY_SIZE_def)
  have "check_content_length len = Inr () \<longleftrightarrow>
      (len = None \<or> (\<exists>n. len = Some n \<and> n \<noteq> NotFinite \<and> \<not> num_negative n \<and> \<not> num_above (2 * 1024 * 1024) n))"
    by (auto simp: check_content_length_def guard_simps MAX_JSON_BODY_SIZE_def split: option.split)
  moreover have "read_chunks [] chunks = Inr bytes \<longleftrightarrow> bytes = concat chunks \<and> length bytes \<le> 2 * 1024 * 1024" for chunks and bytes :: "'b list"
    using read_chunks_spec [of "[]" chunks] lim [of "concat chunks"] by (auto simp: MAX_JSON_BODY_SIZE_def)
  ultimately show ?thesis
    by (auto simp: readJson_def bindE_Inr_iff split: option.splits)
qed

end
