(* ===== verification/Database.thy ===== *)
theory Database
  imports Http
begin

text \<open>
  The Worker's storage: the D1 tables of apps/worker/migrations with the rows the code reads and
  writes, and the two R2 buckets (env.ts). A table is a list of rows in insertion order; a bucket
  is an association list from object keys to object sizes, with a flag that says whether its calls
  fail. A D1 batch is one transaction, so a batch is one function on this state; a statement that
  would break a primary key or a UNIQUE index throws and leaves the state as it was. A field
  \<open>notices\<close> records the calls to \<open>notifySpace\<close> that requests made, in order.
  Every table is an instance of \<open>keyed_table\<close>.
\<close>

section \<open>Rows\<close>

record group_row =
  g_id :: string
  g_auth_token_hash :: string
  g_created_at :: int
  g_key_epoch :: int
  g_rotation_pending :: bool
  g_name_enc :: "string option"
  g_name_iv :: "string option"
  g_name_key_epoch :: "int option"
  g_name_updated_at :: "int option"
  g_vault_seq :: int
  g_vault_floor :: int

record device_row =
  d_id :: string
  d_group_id :: string
  d_name_enc :: "string option"
  d_name_iv :: "string option"
  d_public_key :: string
  d_signing_public_key :: "string option"
  d_attestation :: "DeviceAttestation option"
  d_auth_token_hash :: "string option"
  d_role :: DeviceRole
  d_key_epoch :: int
  d_name_key_epoch :: int
  d_send_only :: bool
  d_created_at :: int
  d_revoked_at :: "int option"

record message_row =
  m_id :: string
  m_group_id :: string
  m_sender_device_id :: string
  m_encrypted_payload :: "string option"
  m_iv :: "string option"
  m_file_r2_key :: "string option"
  m_file_iv :: "string option"
  m_file_meta :: "string option"
  m_file_meta_iv :: "string option"
  m_key_epoch :: int
  m_signature :: "string option"
  m_deletes_message_id :: "string option"
  m_created_at :: int

record delivery_row =
  ds_message_id :: string
  ds_device_id :: string
  ds_downloaded_at :: "int option"

text \<open>\<open>SlotDevice\<close> of pairing.ts, what \<open>pairing.new_device\<close> holds as JSON.\<close>

record SlotDevice =
  sl_device :: DeviceDescriptor
  sl_sendOnly :: bool
  sl_invite :: "string option"

record pairing_row =
  p_pairing_id :: string
  p_group_id :: "string option"
  p_wrapped_package :: "string option"
  p_ephemeral_public_key :: "string option"
  p_new_device :: "SlotDevice option"
  p_created_at :: int

record key_row =
  kd_group_id :: string
  kd_epoch :: int
  kd_device_id :: string
  kd_wrapped_key :: string
  kd_ephemeral_public_key :: string
  kd_created_at :: int

record push_row =
  ps_device_id :: string
  ps_group_id :: string
  ps_endpoint :: string
  ps_p256dh :: string
  ps_auth :: string
  ps_created_at :: int

record blob_row =
  b_group_id :: string
  b_r2_key :: string
  b_size :: int
  b_created_at :: int

record vault_row =
  v_group_id :: string
  v_id :: string
  v_parent_id :: "string option"
  v_kind :: VaultItemKind
  v_key_epoch :: "int option"
  v_meta :: "string option"
  v_meta_iv :: "string option"
  v_blob_key :: "string option"
  v_blob_size :: int
  v_revision :: int
  v_seq :: int
  v_created_at :: int
  v_updated_at :: int
  v_trashed_at :: "int option"
  v_removed_at :: "int option"

text \<open>One call \<open>notifySpace(env, groupId, exclude, push)\<close>.\<close>

record notice =
  n_group :: string
  n_exclude :: string
  n_push :: "string list"

type_synonym bucket = "(string \<times> int) list"

record env =
  groups :: "group_row table"
  devices :: "device_row table"
  messages :: "message_row table"
  delivery_status :: "delivery_row table"
  pairing :: "pairing_row table"
  key_distribution :: "key_row table"
  push_subscriptions :: "push_row table"
  uploads :: "blob_row table"
  vault_items :: "vault_row table"
  vault_blobs :: "blob_row table"
  FILES :: bucket
  VAULT :: bucket
  FILES_down :: bool
  VAULT_down :: bool
  notices :: "notice list"

definition empty_env :: env where
  "empty_env = \<lparr>groups = [], devices = [], messages = [], delivery_status = [], pairing = [],
     key_distribution = [], push_subscriptions = [], uploads = [], vault_items = [],
     vault_blobs = [], FILES = [], VAULT = [], FILES_down = False, VAULT_down = False, notices = []\<rparr>"

type_synonym 'a handler = "(env, failure, 'a) act"

text \<open>\<open>ctx.waitUntil(notifySpace(...))\<close>: never awaited, so it cannot fail the request.\<close>

definition notifySpace :: "string \<Rightarrow> string \<Rightarrow> string list \<Rightarrow> unit handler" where
  "notifySpace g exclude push =
     writeS (\<lambda>s. s\<lparr>notices := notices s @ [\<lparr>n_group = g, n_exclude = exclude, n_push = push\<rparr>]\<rparr>)"

section \<open>Keys of the tables\<close>

abbreviation ds_key :: "delivery_row \<Rightarrow> string \<times> string" where
  "ds_key r \<equiv> (ds_message_id r, ds_device_id r)"

abbreviation kd_key :: "key_row \<Rightarrow> string \<times> int \<times> string" where
  "kd_key r \<equiv> (kd_group_id r, kd_epoch r, kd_device_id r)"

abbreviation b_key :: "blob_row \<Rightarrow> string \<times> string" where
  "b_key r \<equiv> (b_group_id r, b_r2_key r)"

abbreviation v_key :: "vault_row \<Rightarrow> string \<times> string" where
  "v_key r \<equiv> (v_group_id r, v_id r)"

interpretation groups_table: keyed_table groups "\<lambda>t. groups_update (\<lambda>_. t)" g_id
  by unfold_locales simp_all

interpretation devices_table: keyed_table devices "\<lambda>t. devices_update (\<lambda>_. t)" d_id
  by unfold_locales simp_all

interpretation messages_table: keyed_table messages "\<lambda>t. messages_update (\<lambda>_. t)" m_id
  by unfold_locales simp_all

interpretation delivery_table: keyed_table delivery_status "\<lambda>t. delivery_status_update (\<lambda>_. t)"
  "\<lambda>r. (ds_message_id r, ds_device_id r)"
  by unfold_locales simp_all

interpretation pairing_table: keyed_table pairing "\<lambda>t. pairing_update (\<lambda>_. t)" p_pairing_id
  by unfold_locales simp_all

interpretation keys_table: keyed_table key_distribution "\<lambda>t. key_distribution_update (\<lambda>_. t)"
  "\<lambda>r. (kd_group_id r, kd_epoch r, kd_device_id r)"
  by unfold_locales simp_all

interpretation push_table: keyed_table push_subscriptions "\<lambda>t. push_subscriptions_update (\<lambda>_. t)"
  ps_device_id
  by unfold_locales simp_all

interpretation vault_table: keyed_table vault_items "\<lambda>t. vault_items_update (\<lambda>_. t)"
  "\<lambda>r. (v_group_id r, v_id r)"
  by unfold_locales simp_all

section \<open>Buckets\<close>

definition bucket_delete :: "string list \<Rightarrow> bucket \<Rightarrow> bucket" where
  "bucket_delete keys b = filter (\<lambda>x. fst x \<notin> set keys) b"

definition bucket_has :: "string \<Rightarrow> bucket \<Rightarrow> bool" where
  "bucket_has k b = (map_of b k \<noteq> None)"

lemma map_of_bucket_delete [simp]:
  "map_of (bucket_delete ks b) k = (if k \<in> set ks then None else map_of b k)"
  by (induction b) (auto simp: bucket_delete_def)

lemma bucket_delete_idle: "\<forall>k \<in> set ks. map_of b k = None \<Longrightarrow> bucket_delete ks b = b"
  unfolding bucket_delete_def
  by (rule filter_True) (auto simp: map_of_eq_None_iff image_iff)

section \<open>Rows the code looks up by their key\<close>

text \<open>\<open>WHERE id = ?\<close> on groups, and the two columns handlers compare against.\<close>

definition group_of :: "env \<Rightarrow> string \<Rightarrow> group_row option" where
  "group_of s g = first_row (\<lambda>r. g_id r = g) (groups s)"

definition update_group :: "string \<Rightarrow> (group_row \<Rightarrow> group_row) \<Rightarrow> env \<Rightarrow> env" where
  "update_group g f s = s\<lparr>groups := update_rows (\<lambda>r. g_id r = g) f (groups s)\<rparr>"

definition active :: "device_row \<Rightarrow> bool" where
  "active d \<longleftrightarrow> d_revoked_at d = None"

lemma group_of_Some: "group_of s g = Some r \<Longrightarrow> r \<in> set (groups s) \<and> g_id r = g"
  by (auto simp: group_of_def dest: first_row_Some)

lemma group_of_unique:
  "pk g_id (groups s) \<Longrightarrow> r \<in> set (groups s) \<Longrightarrow> group_of s (g_id r) = Some r"
  unfolding group_of_def by (rule groups_table.lookup_unique)

lemma update_group_simps [simp]:
  "devices (update_group g f s) = devices s"
  "messages (update_group g f s) = messages s"
  "delivery_status (update_group g f s) = delivery_status s"
  "pairing (update_group g f s) = pairing s"
  "key_distribution (update_group g f s) = key_distribution s"
  "push_subscriptions (update_group g f s) = push_subscriptions s"
  "uploads (update_group g f s) = uploads s"
  "vault_items (update_group g f s) = vault_items s"
  "vault_blobs (update_group g f s) = vault_blobs s"
  "FILES (update_group g f s) = FILES s"
  "VAULT (update_group g f s) = VAULT s"
  "FILES_down (update_group g f s) = FILES_down s"
  "VAULT_down (update_group g f s) = VAULT_down s"
  "notices (update_group g f s) = notices s"
  by (simp_all add: update_group_def)

lemma find_map_keep:
  "(\<And>x. c (h x) \<longleftrightarrow> c x) \<Longrightarrow> find c (map h xs) = map_option h (find c xs)"
  by (induction xs) auto

lemma group_of_update_group:
  assumes "\<And>r. g_id (f r) = g_id r"
  shows "group_of (update_group g f s) g' =
    (if g' = g then map_option f (group_of s g') else group_of s g')"
proof -
  have "group_of (update_group g f s) g' = map_option (\<lambda>r. if g_id r = g then f r else r) (group_of s g')"
    unfolding group_of_def update_group_def first_row_def update_rows_def
    by (simp, rule find_map_keep) (simp add: assms)
  then show ?thesis
    by (cases "group_of s g'") (auto dest: group_of_Some)
qed

end
