(* ===== verification/Auth.thy ===== *)
theory Auth
  imports Database
begin

text \<open>
  Who is calling (apps/worker/src/auth.ts, security.ts, challenge.ts). The bindings and secrets of
  a deployment are a \<open>conf\<close>: rate limiters, which answer for a key, the SHA-256 of the
  runtime, \<open>JSON.parse\<close> and Cloudflare's Siteverify are parameters of the model. A request is the
  part of an HTTP request that handlers read. The lemmas say that a successful authentication
  names an active device of an existing space with that space's current epoch, and that a revoked
  device is always told so.
\<close>

section \<open>Deployment and request\<close>

record conf =
  RL_PUBLIC :: "(string \<Rightarrow> bool) option"
  RL_WRITE :: "(string \<Rightarrow> bool) option"
  RL_UPLOAD :: "(string \<Rightarrow> bool) option"
  VAPID_PUBLIC_KEY :: "string option"
  VAPID_PRIVATE_KEY :: "string option"
  TURNSTILE_SITE_KEY :: "string option"
  TURNSTILE_SECRET_KEY :: "string option"
  sha256Hex :: "string \<Rightarrow> string"
  json_parse :: "nat list \<Rightarrow> json option"
  siteverify :: "string \<Rightarrow> string \<Rightarrow> string option \<Rightarrow> (bool \<times> string option) option"

record request =
  rq_authorization :: "string option"
  rq_ip :: "string option"
  rq_content_length :: "number option"
  rq_body :: "nat list list option"

definition request_json :: "conf \<Rightarrow> request \<Rightarrow> json checked" where
  "request_json cf rq = readJsonObject (json_parse cf) (rq_content_length rq) (rq_body rq)"

section \<open>Rate limits\<close>

definition enforceRateLimit :: "(string \<Rightarrow> bool) option \<Rightarrow> string \<Rightarrow> unit checked" where
  "enforceRateLimit limiter key = (case limiter of None \<Rightarrow> Inr ()
     | Some limit \<Rightarrow> throwIf (\<not> limit key) (ApiError RateLimited))"

definition clientIp :: "request \<Rightarrow> string" where
  "clientIp rq = (case rq_ip rq of None \<Rightarrow> ''unknown'' | Some ip \<Rightarrow> ip)"

lemma enforceRateLimit_Inl: "enforceRateLimit l k = Inl e \<Longrightarrow> e = ApiError RateLimited"
  by (auto simp: enforceRateLimit_def throwIf_Inl split: option.splits)

section \<open>Bearer tokens\<close>

definition is_space :: "char \<Rightarrow> bool" where
  "is_space c \<longleftrightarrow> c \<in> {CHR '' '', CHR 0x09, CHR 0x0A, CHR 0x0B, CHR 0x0C, CHR 0x0D, CHR 0xA0}"

definition trim :: "string \<Rightarrow> string" where
  "trim s = rev (dropWhile is_space (rev (dropWhile is_space s)))"

text \<open>
  \<open>/^Bearer\s+(.+)$/\<close> and the trimmed group. The spaces are greedy; when nothing follows them the
  match gives the last one back to the group, which then trims to nothing. A header holds no
  line break, which the group could not match.
\<close>

definition bearer_token :: "string \<Rightarrow> string option" where
  "bearer_token h =
     (if take 6 h \<noteq> ''Bearer'' then None
      else let rest = drop 6 h; sp = takeWhile is_space rest; body = dropWhile is_space rest in
        if sp = [] then None
        else if body \<noteq> [] then Some (trim body)
        else if 2 \<le> length sp then Some [] else None)"

record AuthContext =
  au_groupId :: string
  au_deviceId :: string
  au_role :: DeviceRole
  au_keyEpoch :: int
  au_groupKeyEpoch :: int
  au_rotationPending :: bool
  au_hasSigningKey :: bool
  au_vaultSeq :: int

definition auth_context :: "device_row \<Rightarrow> group_row \<Rightarrow> AuthContext" where
  "auth_context d g = \<lparr>au_groupId = d_group_id d, au_deviceId = d_id d, au_role = d_role d,
     au_keyEpoch = d_key_epoch d, au_groupKeyEpoch = g_key_epoch g,
     au_rotationPending = g_rotation_pending g,
     au_hasSigningKey = (d_signing_public_key d \<noteq> None), au_vaultSeq = g_vault_seq g\<rparr>"

definition authenticate :: "conf \<Rightarrow> request \<Rightarrow> env \<Rightarrow> AuthContext checked" where
  "authenticate cf rq s =
     (case bearer_token (case rq_authorization rq of None \<Rightarrow> [] | Some h \<Rightarrow> h) of
        None \<Rightarrow> Inl (ApiError Unauthorized)
      | Some token \<Rightarrow>
          (case first_row (\<lambda>d. d_auth_token_hash d = Some (sha256Hex cf token)
                  \<and> group_of s (d_group_id d) \<noteq> None) (devices s) of
             None \<Rightarrow> Inl (ApiError Unauthorized)
           | Some d \<Rightarrow>
               (case group_of s (d_group_id d) of None \<Rightarrow> Inl (ApiError Unauthorized)
                | Some g \<Rightarrow> if d_revoked_at d \<noteq> None then Inl (ApiError DeviceRevoked)
                    else Inr (auth_context d g))))"

definition authenticateS :: "conf \<Rightarrow> request \<Rightarrow> AuthContext handler" where
  "authenticateS cf rq s = (authenticate cf rq s, s)"

definition requireAdmin :: "AuthContext \<Rightarrow> unit checked" where
  "requireAdmin a = throwIf (au_role a \<noteq> Owner \<and> au_role a \<noteq> Admin) (ApiError Forbidden)"

definition requireOwner :: "AuthContext \<Rightarrow> unit checked" where
  "requireOwner a = throwIf (au_role a \<noteq> Owner) (ApiError Forbidden)"

lemma requireAdmin_Inr [guard_simps]: "requireAdmin a = Inr u \<longleftrightarrow> au_role a \<in> {Owner, Admin}"
  and requireOwner_Inr [guard_simps]: "requireOwner a = Inr u \<longleftrightarrow> au_role a = Owner"
  by (auto simp: requireAdmin_def requireOwner_def guard_simps)

lemma wp_authenticateS [wp_simps]:
  "wp (authenticateS cf rq) Q E =
     (\<lambda>s. case authenticate cf rq s of Inl e \<Rightarrow> E e s | Inr a \<Rightarrow> Q a s)"
  by (simp add: wp_def authenticateS_def fun_eq_iff)

lemma keeps_authenticateS: "keeps P (authenticateS cf rq)"
  by (simp add: keeps_def authenticateS_def)

text \<open>The device and the space behind a successful authentication.\<close>

definition caller_ok :: "env \<Rightarrow> AuthContext \<Rightarrow> device_row \<Rightarrow> group_row \<Rightarrow> bool" where
  "caller_ok s a d g \<longleftrightarrow> d \<in> set (devices s) \<and> active d \<and> g \<in> set (groups s)
     \<and> group_of s (d_group_id d) = Some g \<and> a = auth_context d g"

lemma authenticate_Inr:
  "authenticate cf rq s = Inr a \<Longrightarrow> \<exists>d g. caller_ok s a d g"
  unfolding authenticate_def caller_ok_def active_def
  by (auto split: option.splits if_splits) (blast dest: first_row_Some group_of_Some)+

lemma authenticate_group:
  assumes "authenticate cf rq s = Inr a"
  shows "\<exists>g. group_of s (au_groupId a) = Some g \<and> g_key_epoch g = au_groupKeyEpoch a
      \<and> g_rotation_pending g = au_rotationPending a \<and> g_vault_seq g = au_vaultSeq a"
  using authenticate_Inr [OF assms] by (auto simp: caller_ok_def auth_context_def)

lemma authenticate_device:
  assumes "authenticate cf rq s = Inr a"
  shows "\<exists>d \<in> set (devices s). active d \<and> d_id d = au_deviceId a \<and> d_group_id d = au_groupId a
      \<and> d_role d = au_role a \<and> d_key_epoch d = au_keyEpoch a
      \<and> au_hasSigningKey a = (d_signing_public_key d \<noteq> None)"
  using authenticate_Inr [OF assms] by (auto simp: caller_ok_def auth_context_def)

lemma authenticate_Inl: "authenticate cf rq s = Inl e \<Longrightarrow>
    e = ApiError Unauthorized \<or> e = ApiError DeviceRevoked"
  by (auto simp: authenticate_def Let_def split: option.splits if_splits)

section \<open>The space-creation challenge\<close>

definition spaceChallengeSiteKey :: "conf \<Rightarrow> string option" where
  "spaceChallengeSiteKey cf =
     (if TURNSTILE_SITE_KEY cf \<notin> {None, Some []} \<and> TURNSTILE_SECRET_KEY cf \<notin> {None, Some []}
      then TURNSTILE_SITE_KEY cf else None)"

definition verifySpaceChallenge :: "conf \<Rightarrow> json option \<Rightarrow> string option \<Rightarrow> unit checked" where
  "verifySpaceChallenge cf token remoteIp =
     (if spaceChallengeSiteKey cf = None then Inr ()
      else (case token of
        Some (JStr t) \<Rightarrow>
          (if t = [] \<or> 2048 < length t then Inl (ApiError ChallengeFailed)
           else (case siteverify cf (case TURNSTILE_SECRET_KEY cf of None \<Rightarrow> [] | Some k \<Rightarrow> k) t remoteIp of
             None \<Rightarrow> Inl (ApiError Internal)
           | Some (success, action) \<Rightarrow>
               throwIf (\<not> success \<or> action \<noteq> Some ''create-space'') (ApiError ChallengeFailed)))
      | _ \<Rightarrow> Inl (ApiError ChallengeFailed)))"

lemma verifySpaceChallenge_closed:
  "spaceChallengeSiteKey cf \<noteq> None \<Longrightarrow> verifySpaceChallenge cf token ip = Inr () \<Longrightarrow>
     \<exists>t k. token = Some (JStr t) \<and> t \<noteq> [] \<and> TURNSTILE_SECRET_KEY cf = Some k
       \<and> siteverify cf k t ip = Some (True, Some ''create-space'')"
  by (auto simp: verifySpaceChallenge_def spaceChallengeSiteKey_def guard_simps
      split: option.splits json.splits if_splits)

section \<open>Properties\<close>

text \<open>A token is its device. While token hashes are unique among devices, a request whose token
  hashes to the one stored for a device of an existing space is authenticated as exactly that
  device, with its current role and its space's current key epoch, if the device is active, and is
  refused as revoked if it is not; no other device's token can stand for it.\<close>

theorem authenticate_exact:
  assumes "\<forall>x \<in> set (devices s). \<forall>y \<in> set (devices s). d_auth_token_hash x = d_auth_token_hash y
      \<and> d_auth_token_hash x \<noteq> None \<longrightarrow> x = y"
    and "d \<in> set (devices s)" and "group_of s (d_group_id d) = Some g"
    and "rq_authorization rq = Some h" and "bearer_token h = Some token"
    and "d_auth_token_hash d = Some (sha256Hex cf token)"
  shows "authenticate cf rq s =
    (if active d then Inr (auth_context d g) else Inl (ApiError DeviceRevoked))"
proof -
  let ?c = "\<lambda>d. d_auth_token_hash d = Some (sha256Hex cf token) \<and> group_of s (d_group_id d) \<noteq> None"
  obtain x where x: "first_row ?c (devices s) = Some x"
    using assms(2,3,6) by (cases "first_row ?c (devices s)") (auto simp: table_simps)
  then have "x = d" using first_row_Some [OF x] assms(1,2,6) by fastforce
  with x assms show ?thesis by (simp add: authenticate_def active_def)
qed

end
