(* ===== verification/Samples.thy ===== *)
theory Samples
  imports Auth
begin

text \<open>
  Small concrete inputs: a deployment without rate limits whose hash is the identity and whose
  parser answers a fixed value, a request with a token, and rows with their remaining columns
  filled in. The theorems with hypotheses are applied to states made of these.
\<close>

definition sample_conf :: "json \<Rightarrow> conf" where
  "sample_conf j = \<lparr>RL_PUBLIC = None, RL_WRITE = None, RL_UPLOAD = None, VAPID_PUBLIC_KEY = None,
     VAPID_PRIVATE_KEY = None, TURNSTILE_SITE_KEY = None, TURNSTILE_SECRET_KEY = None,
     sha256Hex = (\<lambda>s. s), json_parse = (\<lambda>_. Some j), siteverify = (\<lambda>_ _ _. None)\<rparr>"

definition sample_request :: "string \<Rightarrow> request" where
  "sample_request token = \<lparr>rq_authorization = Some (''Bearer '' @ token), rq_ip = None,
     rq_content_length = None, rq_body = Some [[0]]\<rparr>"

definition sample_group :: "string \<Rightarrow> int \<Rightarrow> bool \<Rightarrow> group_row" where
  "sample_group g epoch pending = \<lparr>g_id = g, g_auth_token_hash = [], g_created_at = 0, g_key_epoch = epoch,
     g_rotation_pending = pending, g_name_enc = None, g_name_iv = None, g_name_key_epoch = None,
     g_name_updated_at = None, g_vault_seq = 0, g_vault_floor = 0\<rparr>"

definition sample_device :: "string \<Rightarrow> string \<Rightarrow> DeviceRole \<Rightarrow> int \<Rightarrow> device_row" where
  "sample_device g i role epoch = \<lparr>d_id = i, d_group_id = g, d_name_enc = None, d_name_iv = None,
     d_public_key = ''pub'', d_signing_public_key = None, d_attestation = None,
     d_auth_token_hash = Some i, d_role = role, d_key_epoch = epoch, d_name_key_epoch = epoch,
     d_send_only = False, d_created_at = 0, d_revoked_at = None\<rparr>"

definition sample_env :: "group_row list \<Rightarrow> device_row list \<Rightarrow> env" where
  "sample_env gs ds = empty_env\<lparr>groups := gs, devices := ds\<rparr>"

lemma authenticate_sample:
  "authenticate (sample_conf j) (sample_request ''a'')
     (sample_env [sample_group ''g'' e p] (sample_device ''g'' ''a'' role k # ds))
   = Inr (auth_context (sample_device ''g'' ''a'' role k) (sample_group ''g'' e p))"
  by (simp add: authenticate_def sample_conf_def sample_request_def sample_env_def bearer_token_def
      first_row_def group_of_def sample_device_def sample_group_def is_space_def trim_def Let_def)

theorem authenticate_exact_witness:
  "authenticate (sample_conf JNull) (sample_request ''a'')
     (sample_env [sample_group ''g'' 4 False] [(sample_device ''g'' ''a'' Member 4)\<lparr>d_revoked_at := Some 7\<rparr>,
        sample_device ''g'' ''b'' Owner 4])
   = Inl (ApiError DeviceRevoked)"
proof -
  let ?d = "(sample_device ''g'' ''a'' Member 4)\<lparr>d_revoked_at := Some 7\<rparr>"
  let ?s = "sample_env [sample_group ''g'' 4 False] [?d, sample_device ''g'' ''b'' Owner 4]"
  have "authenticate (sample_conf JNull) (sample_request ''a'') ?s
      = (if active ?d then Inr (auth_context ?d (sample_group ''g'' 4 False)) else Inl (ApiError DeviceRevoked))"
    by (rule authenticate_exact [where h = "''Bearer a''" and token = "''a''"])
       (simp_all add: sample_env_def sample_device_def sample_group_def sample_request_def sample_conf_def
          group_of_def first_row_def bearer_token_def is_space_def trim_def Let_def)
  then show ?thesis by (simp add: active_def)
qed

end
