(* ===== verification/Keys.thy ===== *)
theory Keys
  imports Samples
begin

text \<open>
  The space key's rotation (apps/worker/src/routes/keys.ts, and \<open>activeDevices\<close> of db.ts). A
  rotation is checked against the roster, then committed in one D1 batch whose last statement is
  a compare-and-swap on the space; \<open>rotation_batch\<close> is that batch on its own, so that it can be
  read on the state the checks saw or on a later one. The lemmas: run without interruption a
  rotation is all or nothing, every remaining device gets exactly one wrapped key, and the epoch
  moves by one; \<open>keys_ok\<close>, that no device and no queued key is ahead of its space, is
  kept by every operation here.
\<close>

section \<open>Members\<close>

record ActiveDevice =
  ad_id :: string
  ad_publicKey :: string
  ad_keyEpoch :: int

definition activeDevices :: "env \<Rightarrow> string \<Rightarrow> ActiveDevice list" where
  "activeDevices s g = map (\<lambda>d. \<lparr>ad_id = d_id d, ad_publicKey = d_public_key d, ad_keyEpoch = d_key_epoch d\<rparr>)
     (filter (\<lambda>d. d_group_id d = g \<and> active d) (devices s))"

text \<open>\<open>EXISTS (SELECT 1 FROM devices WHERE id = ? AND group_id = ? AND revoked_at IS NULL)\<close>.\<close>

definition is_member :: "env \<Rightarrow> string \<Rightarrow> string \<Rightarrow> bool" where
  "is_member s g i = exists_row (\<lambda>d. d_id d = i \<and> d_group_id d = g \<and> active d) (devices s)"

definition epoch_of :: "env \<Rightarrow> string \<Rightarrow> int option" where
  "epoch_of s g = map_option g_key_epoch (group_of s g)"

lemma activeDevices_ids: "set (map ad_id (activeDevices s g)) = {i. is_member s g i}"
  by (auto simp: activeDevices_def is_member_def table_simps)

lemma activeDevices_distinct: "pk d_id (devices s) \<Longrightarrow> distinct (map ad_id (activeDevices s g))"
  by (simp add: activeDevices_def comp_def pk_def distinct_map_filter)

section \<open>Rotating\<close>

definition MAX_WRAPPED_KEY :: int where "MAX_WRAPPED_KEY = 2048"

definition parse_wrap :: "json \<Rightarrow> KeyWrap checked" where
  "parse_wrap w =
     bindE (requireId (jfield w ''deviceId'')) (\<lambda>d.
     bindE (requireString (jfield w ''wrappedKey'') MAX_WRAPPED_KEY) (\<lambda>k.
     bindE (requireString (jfield w ''ephemeralPublicKey'') 2048) (\<lambda>e.
     Inr \<lparr>kw_deviceId = d, kw_wrappedKey = k, kw_ephemeralPublicKey = e\<rparr>)))"

text \<open>The guards up to the roster: is a rotation due, and is this the next epoch.\<close>

definition parse_rotation :: "AuthContext \<Rightarrow> json \<Rightarrow> (int \<times> KeyWrap list) checked" where
  "parse_rotation a body =
     bindE (throwIf (\<not> au_rotationPending a) (ApiError Conflict)) (\<lambda>_.
     bindE (throwIf (au_keyEpoch a \<noteq> au_groupKeyEpoch a) (ApiError Conflict)) (\<lambda>_.
     bindE (requireInt (jfield body ''epoch'') 1 MAX_SAFE_INTEGER) (\<lambda>epoch.
     bindE (throwIf (epoch \<noteq> au_groupKeyEpoch a + 1) (ApiError Conflict)) (\<lambda>_.
     case jfield body ''wraps'' of
       Some (JArr ws) \<Rightarrow> bindE (traverseE parse_wrap ws) (\<lambda>wraps. Inr (epoch, wraps))
     | _ \<Rightarrow> Inl (ApiError BadRequest)))))"

definition check_wraps :: "AuthContext \<Rightarrow> env \<Rightarrow> KeyWrap list \<Rightarrow> unit checked" where
  "check_wraps a s wraps =
     (let recipients = filter (\<lambda>i. i \<noteq> au_deviceId a) (map ad_id (activeDevices s (au_groupId a)));
          wrapped = set (map kw_deviceId wraps) in
      bindE (throwIf (card wrapped \<noteq> length wraps) (ApiError BadRequest)) (\<lambda>_.
      throwIf (card wrapped \<noteq> length recipients \<or> list_ex (\<lambda>i. i \<notin> wrapped) recipients)
        (ApiError Conflict)))"

text \<open>One INSERT ... SELECT; a row with the same key makes the whole batch fail.\<close>

definition wrap_row :: "AuthContext \<Rightarrow> int \<Rightarrow> int \<Rightarrow> KeyWrap \<Rightarrow> key_row" where
  "wrap_row a epoch now w = \<lparr>kd_group_id = au_groupId a, kd_epoch = epoch, kd_device_id = kw_deviceId w,
     kd_wrapped_key = kw_wrappedKey w, kd_ephemeral_public_key = kw_ephemeralPublicKey w,
     kd_created_at = now\<rparr>"

lemma wrap_row_simps [simp]:
  "kd_group_id (wrap_row a epoch now w) = au_groupId a" "kd_epoch (wrap_row a epoch now w) = epoch"
  "kd_device_id (wrap_row a epoch now w) = kw_deviceId w"
  by (simp_all add: wrap_row_def)

definition insert_wrap :: "AuthContext \<Rightarrow> int \<Rightarrow> int \<Rightarrow> KeyWrap \<Rightarrow> env \<Rightarrow> env option" where
  "insert_wrap a epoch now w s =
     (let row = wrap_row a epoch now w in
      if epoch_of s (au_groupId a) = Some (au_groupKeyEpoch a) \<and> is_member s (au_groupId a) (kw_deviceId w)
      then if exists_row (\<lambda>k. kd_key k = kd_key row) (key_distribution s) then None
           else Some (s\<lparr>key_distribution := key_distribution s @ [row]\<rparr>)
      else Some s)"

fun insert_wraps :: "AuthContext \<Rightarrow> int \<Rightarrow> int \<Rightarrow> KeyWrap list \<Rightarrow> env \<Rightarrow> env option" where
  "insert_wraps a epoch now [] s = Some s"
| "insert_wraps a epoch now (w # ws) s =
     (case insert_wrap a epoch now w s of None \<Rightarrow> None | Some s' \<Rightarrow> insert_wraps a epoch now ws s')"

definition adopt_key :: "AuthContext \<Rightarrow> int \<Rightarrow> env \<Rightarrow> env" where
  "adopt_key a epoch s = s\<lparr>devices := update_rows (\<lambda>d. d_id d = au_deviceId a
       \<and> d_group_id d = au_groupId a \<and> active d \<and> d_key_epoch d = au_groupKeyEpoch a)
     (\<lambda>d. d\<lparr>d_key_epoch := epoch\<rparr>) (devices s)\<rparr>"

text \<open>The conditions of the last statement.\<close>

definition rotation_complete :: "AuthContext \<Rightarrow> int \<Rightarrow> env \<Rightarrow> bool" where
  "rotation_complete a epoch s \<longleftrightarrow>
     exists_row (\<lambda>g. g_id g = au_groupId a \<and> g_key_epoch g = au_groupKeyEpoch a
       \<and> g_rotation_pending g) (groups s)
     \<and> exists_row (\<lambda>d. d_id d = au_deviceId a \<and> d_group_id d = au_groupId a \<and> active d
       \<and> d_key_epoch d = epoch) (devices s)
     \<and> \<not> exists_row (\<lambda>d. d_group_id d = au_groupId a \<and> active d \<and> d_id d \<noteq> au_deviceId a
       \<and> \<not> exists_row (\<lambda>k. kd_key k = (au_groupId a, epoch, d_id d)) (key_distribution s)) (devices s)"

text \<open>The batch: whether the compare-and-swap changed the space.\<close>

definition rotation_batch :: "AuthContext \<Rightarrow> int \<Rightarrow> int \<Rightarrow> KeyWrap list \<Rightarrow> bool handler" where
  "rotation_batch a epoch now wraps s =
     (case insert_wraps a epoch now wraps s of
        None \<Rightarrow> (Inl Thrown, s)
      | Some s1 \<Rightarrow> let s2 = adopt_key a epoch s1 in
          if rotation_complete a epoch s2
          then (Inr True, update_group (au_groupId a)
                  (\<lambda>g. g\<lparr>g_key_epoch := epoch, g_rotation_pending := False\<rparr>) s2)
          else (Inr False, s2))"

definition rotateKey :: "conf \<Rightarrow> request \<Rightarrow> int \<Rightarrow> (int \<times> nat) handler" where
  "rotateKey cf rq now =
     bindS (authenticateS cf rq) (\<lambda>a.
     bindS (liftE (enforceRateLimit (RL_WRITE cf) (au_deviceId a))) (\<lambda>_.
     bindS (liftE (request_json cf rq)) (\<lambda>body.
     bindS (liftE (parse_rotation a body)) (\<lambda>(epoch, wraps).
     bindS (readS (\<lambda>s. check_wraps a s wraps)) (\<lambda>checks.
     bindS (liftE checks) (\<lambda>_.
     bindS (rotation_batch a epoch now wraps) (\<lambda>changed.
     bindS (throwS (\<not> changed) (ApiError Conflict)) (\<lambda>_.
     bindS (notifySpace (au_groupId a) (au_deviceId a) []) (\<lambda>_.
     retS (epoch, length wraps))))))))))"

section \<open>Adopting\<close>

text \<open>The epoch is \<open>Number(c.params.epoch)\<close>.\<close>

definition ackKey :: "conf \<Rightarrow> request \<Rightarrow> number \<Rightarrow> unit handler" where
  "ackKey cf rq n =
     bindS (authenticateS cf rq) (\<lambda>a.
     bindS (liftE (case n of IntN i \<Rightarrow> (if i < 1 then Inl (ApiError BadRequest) else Inr i)
       | _ \<Rightarrow> Inl (ApiError BadRequest))) (\<lambda>epoch.
     bindS (throwS (epoch > au_groupKeyEpoch a) (ApiError BadRequest)) (\<lambda>_.
     writeS (\<lambda>s. s\<lparr>
       devices := update_rows (\<lambda>d. d_id d = au_deviceId a \<and> d_key_epoch d < epoch)
         (\<lambda>d. d\<lparr>d_key_epoch := epoch\<rparr>) (devices s),
       key_distribution := delete_rows (\<lambda>k. kd_device_id k = au_deviceId a
         \<and> kd_group_id k = au_groupId a \<and> kd_epoch k \<le> epoch) (key_distribution s)\<rparr>))))"

definition pendingKeysFor :: "env \<Rightarrow> string \<Rightarrow> string \<Rightarrow> PendingKeyDelivery list" where
  "pendingKeysFor s g i = map (\<lambda>k. \<lparr>pd_epoch = kd_epoch k, pd_wrappedKey = kd_wrapped_key k,
       pd_ephemeralPublicKey = kd_ephemeral_public_key k\<rparr>)
     (sort_key kd_epoch (filter (\<lambda>k. kd_group_id k = g \<and> kd_device_id k = i) (key_distribution s)))"

section \<open>A rotation is all or nothing\<close>

text \<open>No device and no queued key is ahead of its space.\<close>

definition within :: "env \<Rightarrow> string \<Rightarrow> int \<Rightarrow> bool" where
  "within s g n = (case epoch_of s g of None \<Rightarrow> False | Some e \<Rightarrow> n \<le> e)"

definition keys_ok :: "env \<Rightarrow> bool" where
  "keys_ok s \<longleftrightarrow> pk g_id (groups s) \<and> pk d_id (devices s) \<and> pk kd_key (key_distribution s)
     \<and> (\<forall>d \<in> set (devices s). within s (d_group_id d) (d_key_epoch d))
     \<and> (\<forall>k \<in> set (key_distribution s). within s (kd_group_id k) (kd_epoch k))"

lemma within_iff: "within s g n \<longleftrightarrow> (\<exists>e. epoch_of s g = Some e \<and> n \<le> e)"
  by (simp add: within_def split: option.split)

lemmas keys_ok_iff = keys_ok_def [unfolded within_iff]

lemma parse_rotation_Inr [guard_simps]:
  "parse_rotation a body = Inr (epoch, wraps) \<Longrightarrow>
     au_rotationPending a \<and> au_keyEpoch a = au_groupKeyEpoch a \<and> epoch = au_groupKeyEpoch a + 1"
  by (auto simp: parse_rotation_def guard_simps split: option.splits json.splits)

lemma check_wraps_Inr:
  assumes "check_wraps a s wraps = Inr ()" and "pk d_id (devices s)"
  shows "distinct (map kw_deviceId wraps)"
    and "set (map kw_deviceId wraps) = {i. is_member s (au_groupId a) i \<and> i \<noteq> au_deviceId a}"
proof -
  let ?r = "filter (\<lambda>i. i \<noteq> au_deviceId a) (map ad_id (activeDevices s (au_groupId a)))"
  let ?w = "set (map kw_deviceId wraps)"
  from assms(1) have c: "card ?w = length wraps" "card ?w = length ?r" "set ?r \<subseteq> ?w"
    by (auto simp: check_wraps_def Let_def guard_simps list_ex_iff)
  then show "distinct (map kw_deviceId wraps)" by (intro card_distinct) simp
  have "distinct ?r" using activeDevices_distinct [OF assms(2)] by (rule distinct_filter)
  then have "card (set ?r) = card ?w" using c(2) by (simp only: distinct_card)
  with c(3) have "set ?r = ?w" by (intro card_subset_eq) simp_all
  then show "?w = {i. is_member s (au_groupId a) i \<and> i \<noteq> au_deviceId a}"
    using activeDevices_ids [of s "au_groupId a"] by auto
qed

lemma insert_wraps_ok:
  assumes "epoch_of s (au_groupId a) = Some (au_groupKeyEpoch a)"
    and "\<forall>w \<in> set wraps. is_member s (au_groupId a) (kw_deviceId w)"
    and "distinct (map kw_deviceId wraps)"
    and "\<forall>k \<in> set (key_distribution s). \<forall>w \<in> set wraps. kd_key k \<noteq> (au_groupId a, epoch, kw_deviceId w)"
  shows "insert_wraps a epoch now wraps s
    = Some (s\<lparr>key_distribution := key_distribution s @ map (wrap_row a epoch now) wraps\<rparr>)"
  using assms
proof (induction wraps arbitrary: s)
  case (Cons w ws)
  let ?s = "s\<lparr>key_distribution := key_distribution s @ [wrap_row a epoch now w]\<rparr>"
  have "insert_wrap a epoch now w s = Some ?s"
    using Cons.prems by (simp add: insert_wrap_def Let_def wrap_row_def table_simps)
  moreover have "insert_wraps a epoch now ws ?s
      = Some (?s\<lparr>key_distribution := key_distribution ?s @ map (wrap_row a epoch now) ws\<rparr>)"
    using Cons.prems by (intro Cons.IH) (auto simp: epoch_of_def group_of_def is_member_def wrap_row_def)
  ultimately show ?case by simp
qed simp

text \<open>What a rotation leaves: one key per device, the caller and the space on the new epoch.\<close>

definition rotated :: "AuthContext \<Rightarrow> int \<Rightarrow> KeyWrap list \<Rightarrow> env \<Rightarrow> env" where
  "rotated a now wraps s = (let epoch = au_groupKeyEpoch a + 1 in
     update_group (au_groupId a) (\<lambda>g. g\<lparr>g_key_epoch := epoch, g_rotation_pending := False\<rparr>)
       (adopt_key a epoch (s\<lparr>key_distribution :=
          key_distribution s @ map (wrap_row a epoch now) wraps\<rparr>)))"

lemma member_adopt: "is_member (adopt_key a epoch s) g i = is_member s g i"
  unfolding is_member_def adopt_key_def
  by (simp, rule exists_row_update_other) (simp add: active_def)

lemma rotation_batch_ok:
  assumes ok: "keys_ok s" and auth: "authenticate cf rq s = Inr a"
    and due: "au_rotationPending a" "au_keyEpoch a = au_groupKeyEpoch a"
    and checks: "check_wraps a s wraps = Inr ()"
  shows "rotation_batch a (au_groupKeyEpoch a + 1) now wraps s = (Inr True, rotated a now wraps s)"
proof -
  let ?e = "au_groupKeyEpoch a + 1" and ?g = "au_groupId a"
  from authenticate_group [OF auth] due obtain gr where
    gr: "group_of s ?g = Some gr" "g_key_epoch gr = au_groupKeyEpoch a" "g_rotation_pending gr" by auto
  from authenticate_device [OF auth] due obtain d where
    d: "d \<in> set (devices s)" "active d" "d_id d = au_deviceId a" "d_group_id d = ?g"
      "d_key_epoch d = au_groupKeyEpoch a" by auto
  have pk: "pk d_id (devices s)" using ok by (simp add: keys_ok_iff)
  note w = check_wraps_Inr [OF checks pk]
  let ?s1 = "s\<lparr>key_distribution := key_distribution s @ map (wrap_row a ?e now) wraps\<rparr>"
  have ep: "epoch_of s ?g = Some (au_groupKeyEpoch a)" using gr by (simp add: epoch_of_def)
  have "kd_key k \<noteq> (?g, ?e, x)" if "k \<in> set (key_distribution s)" for k x
    using ok ep that unfolding keys_ok_iff by fastforce
  then have ins: "insert_wraps a ?e now wraps s = Some ?s1"
    using w by (intro insert_wraps_ok ep) auto
  have "rotation_complete a ?e (adopt_key a ?e ?s1)"
    unfolding rotation_complete_def
  proof (intro conjI)
    show "exists_row (\<lambda>g. g_id g = ?g \<and> g_key_epoch g = au_groupKeyEpoch a \<and> g_rotation_pending g)
        (groups (adopt_key a ?e ?s1))"
      using gr group_of_Some [OF gr(1)] by (auto simp: table_simps adopt_key_def)
    show "exists_row (\<lambda>d. d_id d = au_deviceId a \<and> d_group_id d = ?g \<and> active d \<and> d_key_epoch d = ?e)
        (devices (adopt_key a ?e ?s1))"
      unfolding exists_row_iff adopt_key_def
      using d by (simp add: bex_update_rows active_def) (rule bexI [OF _ d(1)], simp add: d)
    have "exists_row (\<lambda>k. kd_key k = (?g, ?e, i)) (key_distribution (adopt_key a ?e ?s1))"
      if "is_member s ?g i" "i \<noteq> au_deviceId a" for i
    proof -
      from that have "i \<in> kw_deviceId ` set wraps" using w(2) by simp
      then obtain x where "x \<in> set wraps" "kw_deviceId x = i" by (rule imageE) simp
      then show ?thesis unfolding exists_row_iff
        by (intro bexI [of _ "wrap_row a ?e now x"]) (simp_all add: adopt_key_def)
    qed
    note key = this
    show "\<not> exists_row (\<lambda>d. d_group_id d = ?g \<and> active d \<and> d_id d \<noteq> au_deviceId a
        \<and> \<not> exists_row (\<lambda>k. kd_key k = (?g, ?e, d_id d)) (key_distribution (adopt_key a ?e ?s1)))
        (devices (adopt_key a ?e ?s1))"
    proof
      assume "exists_row (\<lambda>d. d_group_id d = ?g \<and> active d \<and> d_id d \<noteq> au_deviceId a
        \<and> \<not> exists_row (\<lambda>k. kd_key k = (?g, ?e, d_id d)) (key_distribution (adopt_key a ?e ?s1)))
        (devices (adopt_key a ?e ?s1))"
      then obtain d where d: "d \<in> set (devices (adopt_key a ?e ?s1))" "d_group_id d = ?g" "active d"
        and other: "d_id d \<noteq> au_deviceId a"
        and none: "\<not> exists_row (\<lambda>k. kd_key k = (?g, ?e, d_id d)) (key_distribution (adopt_key a ?e ?s1))"
        unfolding exists_row_iff [of _ "devices (adopt_key a ?e ?s1)"] by blast
      from d have "is_member (adopt_key a ?e ?s1) ?g (d_id d)" unfolding is_member_def exists_row_iff by blast
      then have "is_member s ?g (d_id d)" unfolding member_adopt by (simp add: is_member_def)
      from key [OF this other] none show False by contradiction
    qed
  qed
  with ins show ?thesis by (simp add: rotation_batch_def rotated_def Let_def)
qed

lemma rotateKey_wp:
  assumes "keys_ok s"
  shows "wp (rotateKey cf rq now)
    (\<lambda>(epoch, n) s'. \<exists>a wraps. authenticate cf rq s = Inr a \<and> check_wraps a s wraps = Inr ()
       \<and> au_rotationPending a \<and> au_keyEpoch a = au_groupKeyEpoch a \<and> epoch = au_groupKeyEpoch a + 1 \<and> n = length wraps
       \<and> s' = (rotated a now wraps s)\<lparr>notices := notices s @
           [\<lparr>n_group = au_groupId a, n_exclude = au_deviceId a, n_push = []\<rparr>]\<rparr>)
    (\<lambda>e s'. s' = s) s"
  unfolding rotateKey_def wp_simps notifySpace_def
  by (auto split: sum.splits dest!: parse_rotation_Inr
      simp: wp_value [where m = "rotation_batch _ _ _ _", OF rotation_batch_ok [OF assms]] wp_simps
        rotated_def Let_def update_group_def adopt_key_def)

text \<open>\<open>keys_ok\<close> depends on three tables only, so a step that leaves them alone keeps it.\<close>

definition same_keys :: "env \<Rightarrow> env \<Rightarrow> bool" where
  "same_keys s s' \<longleftrightarrow> groups s' = groups s \<and> devices s' = devices s \<and> key_distribution s' = key_distribution s"

lemma same_keys_refl [simp]: "same_keys s s"
  by (simp add: same_keys_def)

lemma keys_ok_same: "same_keys s s' \<Longrightarrow> keys_ok s \<Longrightarrow> keys_ok s'"
  by (simp add: same_keys_def keys_ok_iff epoch_of_def group_of_def)

lemma epoch_of_update_group:
  "(\<And>r. g_id (f r) = g_id r) \<Longrightarrow> epoch_of (update_group g f s) g' =
     (if g' = g then map_option (\<lambda>r. g_key_epoch (f r)) (group_of s g') else epoch_of s g')"
  by (simp add: epoch_of_def group_of_update_group option.map_comp comp_def)

lemma epoch_of_rotated:
  "epoch_of (rotated a now wraps s) g =
     (if g = au_groupId a then map_option (\<lambda>_. au_groupKeyEpoch a + 1) (group_of s g) else epoch_of s g)"
  by (simp add: rotated_def Let_def epoch_of_update_group)
     (simp add: adopt_key_def epoch_of_def group_of_def)

lemma rotated_rows [simp]:
  "devices (rotated a now wraps s) = devices (adopt_key a (au_groupKeyEpoch a + 1) s)"
  "key_distribution (rotated a now wraps s) =
     key_distribution s @ map (wrap_row a (au_groupKeyEpoch a + 1) now) wraps"
  by (simp_all add: rotated_def Let_def update_group_def adopt_key_def)

lemma keys_ok_rotated:
  assumes ok: "keys_ok s" and auth: "authenticate cf rq s = Inr a" and checks: "check_wraps a s wraps = Inr ()"
  shows "keys_ok (rotated a now wraps s)"
proof -
  let ?s' = "rotated a now wraps s"
  from authenticate_group [OF auth] obtain gr where
    gr: "group_of s (au_groupId a) = Some gr" "g_key_epoch gr = au_groupKeyEpoch a" by auto
  have pk: "pk g_id (groups s)" "pk d_id (devices s)" "pk kd_key (key_distribution s)"
    using ok by (simp_all add: keys_ok_iff)
  note w = check_wraps_Inr [OF checks pk(2)]
  have mono: "\<exists>e'. epoch_of ?s' g = Some e' \<and> e \<le> e'" if "epoch_of s g = Some e" for g e
    using that gr by (auto simp: epoch_of_rotated) (simp add: epoch_of_def)
  have ep: "epoch_of ?s' (au_groupId a) = Some (au_groupKeyEpoch a + 1)"
    using gr by (simp add: epoch_of_rotated)
  have old: "kd_key k \<noteq> (au_groupId a, au_groupKeyEpoch a + 1, x)" if "k \<in> set (key_distribution s)" for k x
    using ok gr that unfolding keys_ok_iff epoch_of_def by fastforce
  have "pk kd_key (key_distribution s @ map (wrap_row a (au_groupKeyEpoch a + 1) now) wraps)"
    using pk(3) w(1) old by (auto simp: pk_def comp_def wrap_row_def distinct_map inj_on_def)
  moreover have "pk g_id (groups ?s')"
    using pk(1) by (simp add: rotated_def Let_def update_group_def adopt_key_def pk_update_rows)
  moreover have "pk d_id (devices ?s')" using pk(2) by (simp add: adopt_key_def pk_update_rows)
  moreover have "\<exists>e. epoch_of ?s' (d_group_id d) = Some e \<and> d_key_epoch d \<le> e"
    if "d \<in> set (devices ?s')" for d
  proof -
    from that obtain d' where d': "d' \<in> set (devices s)" "d_group_id d = d_group_id d'"
      "d_key_epoch d = d_key_epoch d' \<or> d_group_id d' = au_groupId a \<and> d_key_epoch d = au_groupKeyEpoch a + 1"
      by (auto simp: adopt_key_def set_update_rows)
    with ok obtain e where "epoch_of s (d_group_id d') = Some e" "d_key_epoch d' \<le> e"
      by (auto simp: keys_ok_iff)
    with mono d' ep show ?thesis by (metis dual_order.trans order_refl)
  qed
  moreover have "\<exists>e. epoch_of ?s' (kd_group_id k) = Some e \<and> kd_epoch k \<le> e"
    if k: "k \<in> set (key_distribution ?s')" for k
  proof -
    consider "k \<in> set (key_distribution s)" | "kd_group_id k = au_groupId a" "kd_epoch k = au_groupKeyEpoch a + 1"
      using k by (auto simp: wrap_row_def)
    then show ?thesis
    proof cases
      case 1
      with ok obtain e where "epoch_of s (kd_group_id k) = Some e" "kd_epoch k \<le> e" by (auto simp: keys_ok_iff)
      with mono show ?thesis by (meson dual_order.trans)
    qed (simp add: ep)
  qed
  ultimately show ?thesis by (simp add: keys_ok_iff)
qed

lemma keys_ok_rotateKey: "keeps keys_ok (rotateKey cf rq now)"
  unfolding keeps_iff_wp
proof (intro allI impI)
  fix s assume ok: "keys_ok s"
  have "keys_ok (t\<lparr>notices := n\<rparr>) = keys_ok t" for t n
    by (simp add: keys_ok_iff epoch_of_def group_of_def)
  then show "wp (rotateKey cf rq now) (\<lambda>_. keys_ok) (\<lambda>_. keys_ok) s"
    using ok by (intro wp_mono [OF rotateKey_wp [OF ok]]) (auto simp: keys_ok_rotated)
qed

text \<open>How many keys of the new epoch a device finds.\<close>

lemma rotated_one_key:
  assumes ok: "keys_ok s" and auth: "authenticate cf rq s = Inr a" and checks: "check_wraps a s wraps = Inr ()"
    and i: "is_member s (au_groupId a) i" "i \<noteq> au_deviceId a"
  shows "count_rows (\<lambda>k. kd_key k = (au_groupId a, au_groupKeyEpoch a + 1, i))
    (key_distribution (rotated a now wraps s)) = 1"
proof -
  let ?p = "\<lambda>k. kd_key k = (au_groupId a, au_groupKeyEpoch a + 1, i)"
  from authenticate_group [OF auth] have ep: "epoch_of s (au_groupId a) = Some (au_groupKeyEpoch a)"
    by (auto simp: epoch_of_def)
  have "\<not> ?p k" if "k \<in> set (key_distribution s)" for k
    using ok ep that unfolding keys_ok_iff by fastforce
  then have old: "filter ?p (key_distribution s) = []" by (simp add: filter_empty_conv)
  have "pk d_id (devices s)" using ok by (simp add: keys_ok_iff)
  note w = check_wraps_Inr [OF checks this]
  have "length (filter (\<lambda>w. kw_deviceId w = i) ws) = (if i \<in> kw_deviceId ` set ws then 1 else 0)"
    if "distinct (map kw_deviceId ws)" for ws
    using that by (induction ws) auto
  note len = this [OF w(1)]
  have "i \<in> kw_deviceId ` set wraps" using i unfolding w(2) [unfolded set_map] by simp
  with len have "length (filter (\<lambda>w. kw_deviceId w = i) wraps) = 1" by simp
  then show ?thesis using old by (simp add: count_rows_def filter_map comp_def)
qed

lemma member_rotated: "is_member (rotated a now wraps s) g i = is_member s g i"
  unfolding is_member_def rotated_rows adopt_key_def
  by (simp, rule exists_row_update_other) (simp add: active_def)

lemma keys_ok_ackKey: "keeps keys_ok (ackKey cf rq n)"
  unfolding keeps_iff_wp
proof (intro allI impI)
  fix s assume ok: "keys_ok s"
  have "keys_ok (s\<lparr>
       devices := update_rows (\<lambda>d. d_id d = au_deviceId a \<and> d_key_epoch d < epoch)
         (\<lambda>d. d\<lparr>d_key_epoch := epoch\<rparr>) (devices s),
       key_distribution := delete_rows (\<lambda>k. kd_device_id k = au_deviceId a
         \<and> kd_group_id k = au_groupId a \<and> kd_epoch k \<le> epoch) (key_distribution s)\<rparr>)"
    if a: "authenticate cf rq s = Inr a" and e: "epoch \<le> au_groupKeyEpoch a" for a epoch
  proof -
    from authenticate_device [OF a] obtain d where
      d: "d \<in> set (devices s)" "d_id d = au_deviceId a" "d_group_id d = au_groupId a" by auto
    from authenticate_group [OF a] have g: "epoch_of s (au_groupId a) = Some (au_groupKeyEpoch a)"
      by (auto simp: epoch_of_def)
    have same: "x = d" if "x \<in> set (devices s)" "d_id x = au_deviceId a" for x
      using ok d that pk_unique unfolding keys_ok_iff by metis
    let ?c = "\<lambda>d. d_id d = au_deviceId a \<and> d_key_epoch d < epoch"
    have "\<exists>e. epoch_of s (d_group_id (if ?c x then x\<lparr>d_key_epoch := epoch\<rparr> else x)) = Some e
        \<and> d_key_epoch (if ?c x then x\<lparr>d_key_epoch := epoch\<rparr> else x) \<le> e" if "x \<in> set (devices s)" for x
    proof (cases "?c x")
      case True
      with same that d g e show ?thesis by auto
    next
      case False
      with ok that show ?thesis unfolding if_not_P [OF False] keys_ok_iff by blast
    qed
    then have "\<forall>x \<in> set (update_rows ?c (\<lambda>d. d\<lparr>d_key_epoch := epoch\<rparr>) (devices s)).
        \<exists>e. epoch_of s (d_group_id x) = Some e \<and> d_key_epoch x \<le> e"
      unfolding ball_update_rows by blast
    moreover have "epoch_of (s\<lparr>devices := D, key_distribution := K\<rparr>) x = epoch_of s x" for D K x
      by (simp add: epoch_of_def group_of_def)
    ultimately show ?thesis using ok
      by (simp add: keys_ok_iff pk_delete_rows pk_update_rows set_delete_rows)
  qed
  then show "wp (ackKey cf rq n) (\<lambda>_. keys_ok) (\<lambda>_. keys_ok) s"
    unfolding ackKey_def wp_simps using ok by (auto split: sum.splits)
qed

section \<open>Properties\<close>

text \<open>The rows after a rotation: the caller's device moves to the new epoch and no other device row changes, and the
  space owes no rotation any more.\<close>

lemma rotated_caller:
  assumes ok: "keys_ok s" and auth: "authenticate cf rq s = Inr a" and "au_keyEpoch a = au_groupKeyEpoch a"
  shows "\<exists>d \<in> set (devices s). d_id d = au_deviceId a \<and> d_group_id d = au_groupId a \<and> active d
      \<and> d\<lparr>d_key_epoch := au_groupKeyEpoch a + 1\<rparr> \<in> set (devices (rotated a now wraps s))"
    "\<forall>x \<in> set (devices s). d_id x \<noteq> au_deviceId a \<longrightarrow> x \<in> set (devices (rotated a now wraps s))"
    "\<exists>g. group_of (rotated a now wraps s) (au_groupId a) = Some g \<and> \<not> g_rotation_pending g"
proof -
  from authenticate_device [OF auth] assms(3) obtain d where d: "d \<in> set (devices s)" "active d" "d_id d = au_deviceId a"
    "d_group_id d = au_groupId a" "d_key_epoch d = au_groupKeyEpoch a" by auto
  then show "\<exists>d \<in> set (devices s). d_id d = au_deviceId a \<and> d_group_id d = au_groupId a \<and> active d
      \<and> d\<lparr>d_key_epoch := au_groupKeyEpoch a + 1\<rparr> \<in> set (devices (rotated a now wraps s))"
    by (intro bexI [OF _ d(1)]) (auto simp: adopt_key_def set_update_rows)
  show "\<forall>x \<in> set (devices s). d_id x \<noteq> au_deviceId a \<longrightarrow> x \<in> set (devices (rotated a now wraps s))"
    by (auto simp: adopt_key_def set_update_rows)
  from authenticate_group [OF auth] obtain gr where "group_of s (au_groupId a) = Some gr" by auto
  then show "\<exists>g. group_of (rotated a now wraps s) (au_groupId a) = Some g \<and> \<not> g_rotation_pending g"
    by (simp add: rotated_def Let_def group_of_update_group) (simp add: adopt_key_def group_of_def)
qed

text \<open>C6. A key rotation that no other request interrupts is all or nothing. Either it throws and
  the database is as before, or a rotation was due, the space moves to exactly the next epoch and owes no
  rotation any more, the row of the rotating device, which was on the old epoch, is on the new one and no other device row changes,
  every other active device of the space has exactly one wrapped key of that epoch waiting, and no other space's epoch
  moves.\<close>

theorem rotateKey_all_or_nothing:
  assumes "keys_ok s" and "rotateKey cf rq now s = (r, s')"
  shows "(\<exists>e. r = Inl e) \<and> s' = s \<or>
    (\<exists>a n. authenticate cf rq s = Inr a \<and> au_rotationPending a \<and> r = Inr (au_groupKeyEpoch a + 1, n)
       \<and> epoch_of s' (au_groupId a) = Some (au_groupKeyEpoch a + 1)
       \<and> (\<exists>g. group_of s' (au_groupId a) = Some g \<and> \<not> g_rotation_pending g)
       \<and> (\<exists>d \<in> set (devices s). d_id d = au_deviceId a \<and> d_group_id d = au_groupId a \<and> active d
            \<and> d\<lparr>d_key_epoch := au_groupKeyEpoch a + 1\<rparr> \<in> set (devices s'))
       \<and> (\<forall>d \<in> set (devices s). d_id d \<noteq> au_deviceId a \<longrightarrow> d \<in> set (devices s'))
       \<and> (\<forall>g. g \<noteq> au_groupId a \<longrightarrow> epoch_of s' g = epoch_of s g)
       \<and> (\<forall>i. is_member s' (au_groupId a) i \<and> i \<noteq> au_deviceId a \<longrightarrow>
            count_rows (\<lambda>k. kd_key k = (au_groupId a, au_groupKeyEpoch a + 1, i)) (key_distribution s') = 1))"
proof (cases r)
  case (Inl e)
  then show ?thesis using wpD_err [OF rotateKey_wp [OF assms(1)]] assms(2) by blast
next
  case (Inr p)
  obtain epoch n where p: "p = (epoch, n)" by (cases p)
  from wpD [OF rotateKey_wp [OF assms(1)]] assms(2) Inr p obtain a wraps where
    a: "authenticate cf rq s = Inr a" "check_wraps a s wraps = Inr ()" "au_rotationPending a"
      "epoch = au_groupKeyEpoch a + 1" "au_keyEpoch a = au_groupKeyEpoch a" and s': "s' = (rotated a now wraps s)\<lparr>notices := notices s @
           [\<lparr>n_group = au_groupId a, n_exclude = au_deviceId a, n_push = []\<rparr>]\<rparr>" by fast
  from authenticate_group [OF a(1)] obtain gr where "group_of s (au_groupId a) = Some gr" by auto
  moreover have g: "group_of s' g = group_of (rotated a now wraps s) g" for g
    unfolding s' by (simp add: group_of_def)
  moreover have e: "epoch_of s' g = epoch_of (rotated a now wraps s) g" for g
    by (simp add: epoch_of_def g)
  moreover have m: "is_member s' g i = is_member s g i" for g i
    unfolding s' member_rotated [symmetric, of s g i a now wraps] by (simp add: is_member_def)
  moreover have "key_distribution s' = key_distribution (rotated a now wraps s)" "devices s' = devices (rotated a now wraps s)"
    unfolding s' by simp_all
  ultimately show ?thesis
    using a rotated_one_key [OF assms(1) a(1,2), of _ now] rotated_caller [OF assms(1) a(1,5), where now = now and wraps = wraps] unfolding Inr p
    by (intro disjI2 exI [of _ a] exI [of _ n] conjI) (simp_all add: epoch_of_rotated del: rotated_rows)
qed

text \<open>C7. The same batch on a later state than its checks saw is not a no-op when it loses. If a
  device joined the space between the roster read and the batch, the compare-and-swap leaves the
  space on its epoch, but the wrapped keys of the next epoch are queued for delivery and the
  caller's device row claims an epoch the space does not have.\<close>

theorem rotation_race_strands:
  assumes "epoch_of s (au_groupId a) = Some (au_groupKeyEpoch a)"
    and "d \<in> set (devices s)" and "d_id d = au_deviceId a" and "d_group_id d = au_groupId a"
    and "active d" and "d_key_epoch d = au_groupKeyEpoch a"
    and "\<forall>w \<in> set wraps. is_member s (au_groupId a) (kw_deviceId w)"
    and "distinct (map kw_deviceId wraps)"
    and "\<forall>k \<in> set (key_distribution s). kd_group_id k = au_groupId a \<longrightarrow> kd_epoch k \<le> au_groupKeyEpoch a"
    and "is_member s (au_groupId a) joined" and "joined \<noteq> au_deviceId a"
    and "joined \<notin> set (map kw_deviceId wraps)"
    and "rotation_batch a (au_groupKeyEpoch a + 1) now wraps s = (r, s')"
  shows "r = Inr False \<and> epoch_of s' (au_groupId a) = Some (au_groupKeyEpoch a)
    \<and> d\<lparr>d_key_epoch := au_groupKeyEpoch a + 1\<rparr> \<in> set (devices s')
    \<and> set (map (wrap_row a (au_groupKeyEpoch a + 1) now) wraps) \<subseteq> set (key_distribution s')"
proof -
  let ?e = "au_groupKeyEpoch a + 1" and ?g = "au_groupId a"
  let ?s1 = "s\<lparr>key_distribution := key_distribution s @ map (wrap_row a ?e now) wraps\<rparr>"
  have old: "kd_key k \<noteq> (?g, ?e, x)" if "k \<in> set (key_distribution s)" for k x
    using assms(9) that by fastforce
  then have ins: "insert_wraps a ?e now wraps s = Some ?s1"
    using assms(7,8) by (intro insert_wraps_ok assms(1)) auto
  have "is_member (adopt_key a ?e ?s1) ?g joined"
    unfolding member_adopt using assms(10) by (simp add: is_member_def)
  then obtain j where "j \<in> set (devices (adopt_key a ?e ?s1))" "d_id j = joined" "d_group_id j = ?g" "active j"
    unfolding is_member_def exists_row_iff by blast
  moreover have "kd_key k \<noteq> (?g, ?e, joined)" if "k \<in> set (key_distribution (adopt_key a ?e ?s1))" for k
    using that old assms(12) by (auto simp: adopt_key_def)
  ultimately have "\<not> rotation_complete a ?e (adopt_key a ?e ?s1)"
    unfolding rotation_complete_def exists_row_iff using assms(11) by blast
  then have rs: "r = Inr False" "s' = adopt_key a ?e ?s1"
    using assms(13) ins by (simp_all add: rotation_batch_def Let_def)
  have "d\<lparr>d_key_epoch := ?e\<rparr> \<in> set (devices s')"
    unfolding rs(2) adopt_key_def using assms(2-6) by (auto simp: set_update_rows intro!: rev_image_eqI)
  moreover have "epoch_of s' ?g = epoch_of s ?g"
    unfolding rs(2) by (simp add: adopt_key_def epoch_of_def group_of_def)
  ultimately show ?thesis using rs assms(1) by (simp add: adopt_key_def)
qed

definition rotation_body :: json where
  "rotation_body = JObj [(''epoch'', JNum (IntN 2)), (''wraps'', JArr [JObj [(''deviceId'', JStr ''b''),
     (''wrappedKey'', JStr ''k''), (''ephemeralPublicKey'', JStr ''e'')]])]"

definition rotation_env :: env where
  "rotation_env = sample_env [sample_group ''g'' 1 True]
     [sample_device ''g'' ''a'' Owner 1, sample_device ''g'' ''b'' Member 1]"

theorem rotateKey_witness:
  "fst (rotateKey (sample_conf rotation_body) (sample_request ''a'') 9 rotation_env) = Inr (2, 1)
   \<and> epoch_of (snd (rotateKey (sample_conf rotation_body) (sample_request ''a'') 9 rotation_env)) ''g'' = Some 2
   \<and> (\<exists>g. group_of (snd (rotateKey (sample_conf rotation_body) (sample_request ''a'') 9 rotation_env)) ''g'' = Some g \<and> \<not> g_rotation_pending g)"
proof -
  have "keys_ok rotation_env" by code_simp
  moreover have "fst (rotateKey (sample_conf rotation_body) (sample_request ''a'') 9 rotation_env) = Inr (2, 1)"
    by code_simp
  moreover have "authenticate (sample_conf rotation_body) (sample_request ''a'') rotation_env
      = Inr \<lparr>au_groupId = ''g'', au_deviceId = ''a'', au_role = Owner, au_keyEpoch = 1,
          au_groupKeyEpoch = 1, au_rotationPending = True, au_hasSigningKey = False, au_vaultSeq = 0\<rparr>"
    by code_simp
  ultimately show ?thesis
    using rotateKey_all_or_nothing [OF _ surjective_pairing, of rotation_env "sample_conf rotation_body" "sample_request ''a''" 9]
    by auto
qed

definition race_env :: env where
  "race_env = sample_env [sample_group ''g'' 1 True] [sample_device ''g'' ''a'' Owner 1,
     sample_device ''g'' ''b'' Member 1, sample_device ''g'' ''c'' Member 1]"

definition race_caller :: AuthContext where
  "race_caller = auth_context (sample_device ''g'' ''a'' Owner 1) (sample_group ''g'' 1 True)"

definition race_wraps :: "KeyWrap list" where
  "race_wraps = [\<lparr>kw_deviceId = ''b'', kw_wrappedKey = ''k'', kw_ephemeralPublicKey = ''e''\<rparr>]"

theorem rotation_race_strands_witness:
  "keys_ok race_env \<and> fst (rotation_batch race_caller 2 9 race_wraps race_env) = Inr False
   \<and> \<not> keys_ok (snd (rotation_batch race_caller 2 9 race_wraps race_env))"
proof -
  have f: "au_groupId race_caller = ''g''" "au_deviceId race_caller = ''a''" "au_groupKeyEpoch race_caller = 1"
    by code_simp+
  let ?r = "rotation_batch race_caller 2 9 race_wraps race_env"
  have "fst ?r = Inr False \<and> epoch_of (snd ?r) ''g'' = Some 1
      \<and> (sample_device ''g'' ''a'' Owner 1)\<lparr>d_key_epoch := 2\<rparr> \<in> set (devices (snd ?r))
      \<and> set (map (wrap_row race_caller 2 9) race_wraps) \<subseteq> set (key_distribution (snd ?r))"
    by (rule rotation_race_strands [where s = race_env and a = race_caller and now = 9 and wraps = race_wraps
          and joined = "''c''" and d = "sample_device ''g'' ''a'' Owner 1" and r = "fst ?r" and s' = "snd ?r",
          unfolded f one_add_one]) code_simp+
  moreover have "keys_ok race_env" "\<not> keys_ok (snd ?r)" by code_simp+
  ultimately show ?thesis by blast
qed

end
