(* ===== verification/Space.thy ===== *)
theory Space
  imports Keys
begin

text \<open>
  Creating a space and naming it (apps/worker/src/routes/groups.ts, routes/space.ts). The lemmas:
  what a successful creation leaves, that a creation or a rename that throws leaves the database
  as it was, that a rename needs the current key, and that both keep \<open>keys_ok\<close>.
\<close>

section \<open>Creating a space\<close>

record CreateGroupRequest =
  cg_groupId :: string
  cg_deviceAuthTokenHash :: string
  cg_deviceId :: string
  cg_publicKey :: string
  cg_signingPublicKey :: "string option"
  cg_encryptedName :: string
  cg_nameIv :: string
  cg_attestation :: "DeviceAttestation option"

text \<open>\<open>!device || typeof device !== "object"\<close>: an array passes, and has none of the fields.\<close>

definition require_device :: "json option \<Rightarrow> json checked" where
  "require_device v = (case v of Some (JObj fs) \<Rightarrow> Inr (JObj fs) | Some (JArr xs) \<Rightarrow> Inr (JArr xs)
     | _ \<Rightarrow> Inl (ApiError BadRequest))"

definition parse_create_group :: "json \<Rightarrow> CreateGroupRequest checked" where
  "parse_create_group body =
     bindE (requireId (jfield body ''groupId'')) (\<lambda>g.
     bindE (requireSha256Hex (jfield body ''deviceAuthTokenHash'')) (\<lambda>h.
     bindE (require_device (jfield body ''device'')) (\<lambda>device.
     bindE (requireId (jfield device ''id'')) (\<lambda>i.
     bindE (requireString (jfield device ''publicKey'') 2048) (\<lambda>p.
     bindE (optionalString (jfield device ''signingPublicKey'') 2048) (\<lambda>sp.
     bindE (requireString (jfield body ''encryptedName'') 1024) (\<lambda>n.
     bindE (requireString (jfield body ''nameIv'') 128) (\<lambda>iv.
     bindE (optionalAttestation (jfield body ''attestation'')
        \<lparr>ex_groupId = g, ex_deviceId = i, ex_publicKey = p, ex_signingPublicKey = sp\<rparr>) (\<lambda>att.
     Inr \<lparr>cg_groupId = g, cg_deviceAuthTokenHash = h, cg_deviceId = i, cg_publicKey = p,
          cg_signingPublicKey = sp, cg_encryptedName = n, cg_nameIv = iv, cg_attestation = att\<rparr>)))))))))"

definition new_group :: "CreateGroupRequest \<Rightarrow> int \<Rightarrow> group_row" where
  "new_group r now = \<lparr>g_id = cg_groupId r, g_auth_token_hash = cg_deviceAuthTokenHash r,
     g_created_at = now, g_key_epoch = INITIAL_KEY_EPOCH, g_rotation_pending = False, g_name_enc = None,
     g_name_iv = None, g_name_key_epoch = None, g_name_updated_at = None, g_vault_seq = 0, g_vault_floor = 0\<rparr>"

definition founder :: "CreateGroupRequest \<Rightarrow> int \<Rightarrow> device_row" where
  "founder r now = \<lparr>d_id = cg_deviceId r, d_group_id = cg_groupId r, d_name_enc = Some (cg_encryptedName r),
     d_name_iv = Some (cg_nameIv r), d_public_key = cg_publicKey r,
     d_signing_public_key = cg_signingPublicKey r, d_attestation = cg_attestation r,
     d_auth_token_hash = Some (cg_deviceAuthTokenHash r), d_role = Owner, d_key_epoch = INITIAL_KEY_EPOCH,
     d_name_key_epoch = 1, d_send_only = False, d_created_at = now, d_revoked_at = None\<rparr>"

text \<open>The batch of two INSERTs: both tables' keys and the UNIQUE index on token hashes.\<close>

definition insert_group :: "CreateGroupRequest \<Rightarrow> int \<Rightarrow> unit handler" where
  "insert_group r now s =
     (if exists_row (\<lambda>g. g_id g = cg_groupId r) (groups s)
       \<or> exists_row (\<lambda>d. d_id d = cg_deviceId r \<or> d_auth_token_hash d = Some (cg_deviceAuthTokenHash r)) (devices s)
      then (Inl Thrown, s)
      else (Inr (), s\<lparr>groups := groups s @ [new_group r now], devices := devices s @ [founder r now]\<rparr>))"

definition createGroup :: "conf \<Rightarrow> request \<Rightarrow> int \<Rightarrow> unit handler" where
  "createGroup cf rq now =
     bindS (liftE (enforceRateLimit (RL_PUBLIC cf) (clientIp rq))) (\<lambda>_.
     bindS (liftE (request_json cf rq)) (\<lambda>body.
     bindS (liftE (parse_create_group body)) (\<lambda>r.
     bindS (liftE (verifySpaceChallenge cf (jfield body ''challengeToken'')
       (if clientIp rq = ''unknown'' then None else Some (clientIp rq)))) (\<lambda>_.
     bindS (readS (\<lambda>s. exists_row (\<lambda>g. g_id g = cg_groupId r) (groups s))) (\<lambda>existing.
     bindS (throwS existing (ApiError Conflict)) (\<lambda>_.
     insert_group r now))))))"

section \<open>The shared name\<close>

definition parse_space_name :: "AuthContext \<Rightarrow> json \<Rightarrow> (string option \<times> string option \<times> int) checked" where
  "parse_space_name a body =
     bindE (optionalString (jfield body ''encryptedName'') 1024) (\<lambda>n.
     bindE (optionalString (jfield body ''nameIv'') 128) (\<lambda>iv.
     bindE (requireInt (jfield body ''nameKeyEpoch'') 1 MAX_SAFE_INTEGER) (\<lambda>e.
     bindE (throwIf ((n \<noteq> None) \<noteq> (iv \<noteq> None)) (ApiError BadRequest)) (\<lambda>_.
     bindE (throwIf (e \<noteq> au_groupKeyEpoch a) (ApiError KeyRotated)) (\<lambda>_.
     Inr (n, iv, e))))))"

definition updateSpaceName :: "conf \<Rightarrow> request \<Rightarrow> int \<Rightarrow> int handler" where
  "updateSpaceName cf rq now =
     bindS (authenticateS cf rq) (\<lambda>a.
     bindS (liftE (enforceRateLimit (RL_WRITE cf) (au_deviceId a))) (\<lambda>_.
     bindS (liftE (request_json cf rq)) (\<lambda>body.
     bindS (liftE (parse_space_name a body)) (\<lambda>(n, iv, e).
     bindS (writeS (update_group (au_groupId a) (\<lambda>g. g\<lparr>g_name_enc := n, g_name_iv := iv,
        g_name_key_epoch := Some e, g_name_updated_at := Some now\<rparr>))) (\<lambda>_.
     bindS (notifySpace (au_groupId a) (au_deviceId a) []) (\<lambda>_.
     retS now))))))"

definition spaceNameRecord :: "env \<Rightarrow> string \<Rightarrow> SpaceNameRecord option" where
  "spaceNameRecord s g = (case group_of s g of None \<Rightarrow> None
     | Some r \<Rightarrow> (case (g_name_updated_at r, g_name_key_epoch r) of
         (Some t, Some e) \<Rightarrow> Some \<lparr>sn_encryptedName = g_name_enc r, sn_nameIv = g_name_iv r,
           sn_nameKeyEpoch = e, sn_updatedAt = t\<rparr>
       | _ \<Rightarrow> None))"

section \<open>What they do\<close>

lemma createGroup_wp:
  "wp (createGroup cf rq now)
     (\<lambda>_ s'. \<exists>body r. request_json cf rq = Inr body \<and> parse_create_group body = Inr r
        \<and> (\<forall>d \<in> set (devices s). d_id d \<noteq> cg_deviceId r \<and> d_auth_token_hash d \<noteq> Some (cg_deviceAuthTokenHash r))
        \<and> (\<forall>g \<in> set (groups s). g_id g \<noteq> cg_groupId r)
        \<and> s' = s\<lparr>groups := groups s @ [new_group r now], devices := devices s @ [founder r now]\<rparr>)
     (\<lambda>e s'. s' = s) s"
proof -
  have "wp (insert_group r now) Q E s = (if exists_row (\<lambda>g. g_id g = cg_groupId r) (groups s)
       \<or> exists_row (\<lambda>d. d_id d = cg_deviceId r \<or> d_auth_token_hash d = Some (cg_deviceAuthTokenHash r)) (devices s)
     then E Thrown s else Q () (s\<lparr>groups := groups s @ [new_group r now], devices := devices s @ [founder r now]\<rparr>))"
    for r Q E by (simp add: wp_def insert_group_def)
  then show ?thesis
    unfolding createGroup_def wp_simps by (auto split: sum.splits simp: table_simps)
qed

lemma parse_space_name_Inr [guard_simps]:
  "parse_space_name a body = Inr (n, iv, e) \<Longrightarrow> e = au_groupKeyEpoch a \<and> (n = None \<longleftrightarrow> iv = None)"
  by (auto simp: parse_space_name_def guard_simps)

lemma updateSpaceName_wp:
  "wp (updateSpaceName cf rq now)
     (\<lambda>t s'. \<exists>a n iv. authenticate cf rq s = Inr a \<and> (n = None \<longleftrightarrow> iv = None) \<and> t = now
        \<and> s' = (update_group (au_groupId a) (\<lambda>g. g\<lparr>g_name_enc := n, g_name_iv := iv,
            g_name_key_epoch := Some (au_groupKeyEpoch a), g_name_updated_at := Some now\<rparr>) s)
            \<lparr>notices := notices s @ [\<lparr>n_group = au_groupId a, n_exclude = au_deviceId a, n_push = []\<rparr>]\<rparr>)
     (\<lambda>e s'. s' = s) s"
  unfolding updateSpaceName_def wp_simps notifySpace_def
  by (auto split: sum.splits dest!: parse_space_name_Inr)

lemma keys_ok_createGroup: "keeps keys_ok (createGroup cf rq now)"
  unfolding keeps_iff_wp
proof (intro allI impI)
  fix s assume ok: "keys_ok s"
  have "keys_ok (s\<lparr>groups := groups s @ [new_group r now], devices := devices s @ [founder r now]\<rparr>)"
    if fresh: "\<forall>d \<in> set (devices s). d_id d \<noteq> cg_deviceId r" "\<forall>g \<in> set (groups s). g_id g \<noteq> cg_groupId r" for r
  proof -
    let ?s = "s\<lparr>groups := groups s @ [new_group r now], devices := devices s @ [founder r now]\<rparr>"
    have find: "find c (xs @ ys) = (case find c xs of None \<Rightarrow> find c ys | Some x \<Rightarrow> Some x)"
      for c and xs ys :: "group_row list" by (induction xs) auto
    have "epoch_of s (cg_groupId r) = None"
      using fresh(2) by (simp add: epoch_of_def group_of_def table_simps)
    then have "within ?s g n" if "within s g n" for g n
      using that by (auto simp: within_iff epoch_of_def group_of_def first_row_def find)
    moreover have "within ?s (cg_groupId r) INITIAL_KEY_EPOCH"
      using \<open>epoch_of s (cg_groupId r) = None\<close>
      by (auto simp: within_iff epoch_of_def group_of_def first_row_def find new_group_def)
    ultimately show ?thesis using ok fresh
      by (auto simp: keys_ok_def pk_snoc new_group_def founder_def)
  qed
  then show "wp (createGroup cf rq now) (\<lambda>_. keys_ok) (\<lambda>_. keys_ok) s"
    using ok by (intro wp_mono [OF createGroup_wp]) auto
qed

lemma keys_ok_updateSpaceName: "keeps keys_ok (updateSpaceName cf rq now)"
  unfolding keeps_iff_wp
proof (intro allI impI)
  fix s assume ok: "keys_ok s"
  have "keys_ok ((update_group g f s)\<lparr>notices := n\<rparr>)"
    if "\<And>r. g_id (f r) = g_id r" "\<And>r. g_key_epoch (f r) = g_key_epoch r" for g f n
  proof -
    have "epoch_of (t\<lparr>notices := n\<rparr>) x = epoch_of t x" for t x by (simp add: epoch_of_def group_of_def)
    moreover have "epoch_of (update_group g f s) x = epoch_of s x" for x
      by (simp add: epoch_of_update_group that) (simp add: epoch_of_def)
    ultimately show ?thesis using ok that
      by (simp add: keys_ok_def within_def) (simp add: update_group_def pk_update_rows)
  qed
  then show "wp (updateSpaceName cf rq now) (\<lambda>_. keys_ok) (\<lambda>_. keys_ok) s"
    using ok by (intro wp_mono [OF updateSpaceName_wp]) auto
qed

section \<open>Properties\<close>

lemma first_row_snoc: "first_row c (t @ [r]) = (case first_row c t of None \<Rightarrow> if c r then Some r else None | Some x \<Rightarrow> Some x)"
  unfolding first_row_def by (induction t) auto

text \<open>Founding a space. A creation that succeeds adds one space at the first epoch and one owner to it,
  leaves every other row alone, and from then on any request with a token whose hash was given is
  the owner of that space; a creation that fails changes nothing.\<close>

theorem createGroup_founds:
  assumes "createGroup cf rq now s = (res, s')"
  shows "if res = Inr () then \<exists>r. (\<exists>body. request_json cf rq = Inr body \<and> parse_create_group body = Inr r)
      \<and> (\<forall>g. group_of s' g = (if g = cg_groupId r then Some (new_group r now) else group_of s g))
      \<and> devices s' = devices s @ [founder r now]
      \<and> (\<forall>rq' h token. rq_authorization rq' = Some h \<and> bearer_token h = Some token
           \<and> sha256Hex cf token = cg_deviceAuthTokenHash r
           \<longrightarrow> authenticate cf rq' s' = Inr (auth_context (founder r now) (new_group r now)))
    else s' = s"
proof (cases res)
  case (Inl e)
  with wpD_err [OF createGroup_wp] assms show ?thesis by fastforce
next
  case (Inr u)
  with wpD [OF createGroup_wp, of cf rq now s u s'] assms obtain body r where r: "request_json cf rq = Inr body"
    "parse_create_group body = Inr r"
    and fresh: "\<forall>d \<in> set (devices s). d_id d \<noteq> cg_deviceId r \<and> d_auth_token_hash d \<noteq> Some (cg_deviceAuthTokenHash r)"
      "\<forall>g \<in> set (groups s). g_id g \<noteq> cg_groupId r"
    and s': "s' = s\<lparr>groups := groups s @ [new_group r now], devices := devices s @ [founder r now]\<rparr>" by auto
  have "group_of s (cg_groupId r) = None" using fresh(2) by (simp add: group_of_def table_simps)
  then have grp: "group_of s' g = (if g = cg_groupId r then Some (new_group r now) else group_of s g)" for g
    by (auto simp: s' group_of_def first_row_snoc new_group_def split: option.split)
  have "authenticate cf rq' s' = Inr (auth_context (founder r now) (new_group r now))"
    if "rq_authorization rq' = Some h" "bearer_token h = Some token" "sha256Hex cf token = cg_deviceAuthTokenHash r"
    for rq' h token
  proof -
    let ?c = "\<lambda>d. d_auth_token_hash d = Some (cg_deviceAuthTokenHash r) \<and> group_of s' (d_group_id d) \<noteq> None"
    have "first_row ?c (devices s) = None" using fresh(1) by (simp add: table_simps)
    then have "first_row ?c (devices s @ [founder r now]) = Some (founder r now)"
      unfolding first_row_snoc by (simp add: grp founder_def)
    then have "first_row ?c (devices s') = Some (founder r now)" by (simp add: s')
    with that show ?thesis by (simp add: authenticate_def grp) (simp add: founder_def)
  qed
  then have "\<exists>r. (\<exists>body. request_json cf rq = Inr body \<and> parse_create_group body = Inr r)
      \<and> (\<forall>g. group_of s' g = (if g = cg_groupId r then Some (new_group r now) else group_of s g))
      \<and> devices s' = devices s @ [founder r now]
      \<and> (\<forall>rq' h token. rq_authorization rq' = Some h \<and> bearer_token h = Some token
           \<and> sha256Hex cf token = cg_deviceAuthTokenHash r
           \<longrightarrow> authenticate cf rq' s' = Inr (auth_context (founder r now) (new_group r now)))"
    using r grp by (intro exI [of _ r]) (auto simp: s')
  with Inr show ?thesis by simp
qed

text \<open>Renaming under the current key. A rename that succeeds was asked by a member, is sealed under
  the space's current key, and is what \<open>spaceNameRecord\<close> answers for that space from then on; no
  other space's name changes, and a rename that fails changes nothing.\<close>

theorem updateSpaceName_recorded:
  assumes "updateSpaceName cf rq now s = (res, s')"
  shows "case res of Inr t \<Rightarrow> (\<exists>a n iv. authenticate cf rq s = Inr a \<and> (n = None \<longleftrightarrow> iv = None)
      \<and> spaceNameRecord s' (au_groupId a) = Some \<lparr>sn_encryptedName = n, sn_nameIv = iv,
           sn_nameKeyEpoch = au_groupKeyEpoch a, sn_updatedAt = t\<rparr>
      \<and> (\<forall>g. g \<noteq> au_groupId a \<longrightarrow> spaceNameRecord s' g = spaceNameRecord s g)
      \<and> keys_ok s' = keys_ok s)
    | Inl e \<Rightarrow> s' = s"
proof (cases res)
  case (Inl e)
  with wpD_err [OF updateSpaceName_wp] assms show ?thesis by fastforce
next
  case (Inr t)
  with wpD [OF updateSpaceName_wp, of cf rq now s t s'] assms obtain a n iv where a: "authenticate cf rq s = Inr a"
    "n = None \<longleftrightarrow> iv = None" "t = now"
    and s': "s' = (update_group (au_groupId a) (\<lambda>g. g\<lparr>g_name_enc := n, g_name_iv := iv,
            g_name_key_epoch := Some (au_groupKeyEpoch a), g_name_updated_at := Some now\<rparr>) s)
            \<lparr>notices := notices s @ [\<lparr>n_group = au_groupId a, n_exclude = au_deviceId a, n_push = []\<rparr>]\<rparr>" by auto
  have grp: "group_of s' g = (if g = au_groupId a then map_option (\<lambda>g. g\<lparr>g_name_enc := n, g_name_iv := iv,
            g_name_key_epoch := Some (au_groupKeyEpoch a), g_name_updated_at := Some now\<rparr>) (group_of s g)
      else group_of s g)" for g
    unfolding s' by (simp add: group_of_update_group [symmetric]) (simp add: group_of_def)
  from authenticate_group [OF a(1)] obtain gr where "group_of s (au_groupId a) = Some gr" by blast
  then have "spaceNameRecord s' (au_groupId a) = Some \<lparr>sn_encryptedName = n, sn_nameIv = iv,
           sn_nameKeyEpoch = au_groupKeyEpoch a, sn_updatedAt = t\<rparr>"
    by (simp add: spaceNameRecord_def grp a(3))
  moreover have "spaceNameRecord s' g = spaceNameRecord s g" if "g \<noteq> au_groupId a" for g
    using that by (simp add: spaceNameRecord_def grp)
  moreover have "keys_ok s' = keys_ok s"
  proof -
    have "epoch_of s' g = epoch_of s g" for g by (simp add: epoch_of_def grp option.map_comp comp_def)
    then show ?thesis
      by (simp add: keys_ok_def within_def) (simp add: s' update_group_def pk_update_rows)
  qed
  ultimately show ?thesis using Inr a by auto
qed

section \<open>At concrete inputs\<close>

definition found_body :: json where
  "found_body = JObj [(''groupId'', JStr ''space-01''), (''deviceAuthTokenHash'', JStr (replicate 64 CHR ''0'')),
     (''device'', JObj [(''id'', JStr ''device-01''), (''publicKey'', JStr ''pub'')]),
     (''encryptedName'', JStr ''n''), (''nameIv'', JStr ''iv'')]"

theorem createGroup_founds_witness:
  "fst (createGroup (sample_conf found_body) (sample_request ''x'') 5 empty_env) = Inr ()
   \<and> group_of (snd (createGroup (sample_conf found_body) (sample_request ''x'') 5 empty_env)) ''elsewhere'' = None"
proof -
  let ?x = "createGroup (sample_conf found_body) (sample_request ''x'') 5 empty_env"
  have r: "fst ?x = Inr ()" by code_simp
  from createGroup_founds [OF run_fst [OF r]] obtain c where
    c: "\<exists>body. request_json (sample_conf found_body) (sample_request ''x'') = Inr body \<and> parse_create_group body = Inr c"
    and g: "\<forall>g. group_of (snd ?x) g = (if g = cg_groupId c then Some (new_group c 5) else group_of empty_env g)"
    by auto
  have "request_json (sample_conf found_body) (sample_request ''x'') = Inr found_body"
    by (simp add: request_json_def sample_conf_def sample_request_def found_body_def) code_simp
  moreover have "cg_groupId c = ''space-01''" if "parse_create_group found_body = Inr c"
    using that by (auto simp: parse_create_group_def guard_simps found_body_def jfield_def)
  ultimately have "cg_groupId c = ''space-01''" using c by auto
  then show ?thesis using r g by (simp add: empty_env_def group_of_def first_row_def)
qed

theorem updateSpaceName_recorded_witness:
  "keys_ok (snd (updateSpaceName (sample_conf (JObj [(''encryptedName'', JStr ''n''), (''nameIv'', JStr ''i''),
      (''nameKeyEpoch'', JNum (IntN 1))])) (sample_request ''a'') 5
      (sample_env [sample_group ''g'' 1 False] [sample_device ''g'' ''a'' Owner 1])))"
proof -
  let ?s = "sample_env [sample_group ''g'' 1 False] [sample_device ''g'' ''a'' Owner 1]"
  let ?x = "updateSpaceName (sample_conf (JObj [(''encryptedName'', JStr ''n''), (''nameIv'', JStr ''i''),
      (''nameKeyEpoch'', JNum (IntN 1))])) (sample_request ''a'') 5 ?s"
  have "fst ?x = Inr 5" by code_simp
  from updateSpaceName_recorded [OF run_fst [OF this]] have "keys_ok (snd ?x) = keys_ok ?s" by auto
  moreover have "keys_ok ?s" by code_simp
  ultimately show ?thesis by simp
qed

end
