(* ===== verification/Blobs.thy ===== *)
theory Blobs
  imports Samples
begin

text \<open>
  Encrypted blobs in R2 and the accounting that caps them (apps/worker/src/blobs.ts). A
  \<open>BlobStore\<close> is the record of the code's interface: an accounting table, a bucket, the claim
  predicate and whether the bucket expires objects by itself; \<open>MESSAGE_FILES\<close> and \<open>VAULT_BLOBS\<close>
  are its two values. The locale \<open>blob_store\<close> states what the operations rely on, its lemmas are
  proved once, and both stores interpret it. The lemmas: a reservation never takes a space past
  its quota; a cleanup never touches a claimed blob; in a bucket that does not expire no failure
  leaves an object without its row; the orphan sweep ends with no orphan left.
\<close>

section \<open>Stores\<close>

record BlobStore =
  bs_rows :: "env \<Rightarrow> blob_row table"
  bs_put :: "blob_row table \<Rightarrow> env \<Rightarrow> env"
  bs_bucket :: "env \<Rightarrow> bucket"
  bs_put_bucket :: "bucket \<Rightarrow> env \<Rightarrow> env"
  bs_down :: "env \<Rightarrow> bool"
  bs_claimed :: "env \<Rightarrow> blob_row \<Rightarrow> bool"
  bs_expires :: bool

definition MESSAGE_FILES :: BlobStore where
  "MESSAGE_FILES = \<lparr>bs_rows = uploads, bs_put = (\<lambda>t. uploads_update (\<lambda>_. t)),
     bs_bucket = FILES, bs_put_bucket = (\<lambda>b. FILES_update (\<lambda>_. b)), bs_down = FILES_down,
     bs_claimed = (\<lambda>s u. exists_row (\<lambda>m. m_group_id m = b_group_id u
        \<and> m_file_r2_key m = Some (b_r2_key u)) (messages s)),
     bs_expires = True\<rparr>"

definition VAULT_BLOBS :: BlobStore where
  "VAULT_BLOBS = \<lparr>bs_rows = vault_blobs, bs_put = (\<lambda>t. vault_blobs_update (\<lambda>_. t)),
     bs_bucket = VAULT, bs_put_bucket = (\<lambda>b. VAULT_update (\<lambda>_. b)), bs_down = VAULT_down,
     bs_claimed = (\<lambda>s u. exists_row (\<lambda>v. v_group_id v = b_group_id u
        \<and> v_blob_key v = Some (b_r2_key u) \<and> v_removed_at v = None) (vault_items s)),
     bs_expires = False\<rparr>"

definition RESERVED_FOR_DELETION :: int where "RESERVED_FOR_DELETION = 0"

definition SWEEP_BATCH_SIZE :: nat where "SWEEP_BATCH_SIZE = 100"

definition blobStorageKey :: "string \<Rightarrow> string \<Rightarrow> string" where
  "blobStorageKey groupId key = groupId @ ''/'' @ key"

abbreviation storage_key :: "string \<times> string \<Rightarrow> string" where
  "storage_key gk \<equiv> blobStorageKey (fst gk) (snd gk)"

text \<open>\<open>bucket.delete(keys)\<close>.\<close>

definition r2_delete :: "BlobStore \<Rightarrow> string list \<Rightarrow> unit handler" where
  "r2_delete S keys s = (if bs_down S s then (Inl Thrown, s)
     else (Inr (), bs_put_bucket S (bucket_delete keys (bs_bucket S s)) s))"

section \<open>Accounting\<close>

text \<open>The \<open>ON CONFLICT ... DO UPDATE\<close> both writes share: rows changed, and the table.\<close>

definition upsert_blob :: "string \<Rightarrow> string \<Rightarrow> int \<Rightarrow> int \<Rightarrow> blob_row table \<Rightarrow> bool \<times> blob_row table" where
  "upsert_blob g k sz now t =
     (if exists_row (\<lambda>r. b_key r = (g, k)) t
      then (exists_row (\<lambda>r. b_key r = (g, k) \<and> b_created_at r \<noteq> RESERVED_FOR_DELETION) t,
            update_rows (\<lambda>r. b_key r = (g, k) \<and> b_created_at r \<noteq> RESERVED_FOR_DELETION)
              (\<lambda>r. r\<lparr>b_size := max (b_size r) sz, b_created_at := now\<rparr>) t)
      else (True, t @ [\<lparr>b_group_id = g, b_r2_key = k, b_size = sz, b_created_at = now\<rparr>]))"

definition sum_size :: "(blob_row \<Rightarrow> bool) \<Rightarrow> blob_row table \<Rightarrow> int" where
  "sum_size c t = sum_list (map b_size (filter c t))"

definition reserveBlob :: "BlobStore \<Rightarrow> string \<Rightarrow> string \<Rightarrow> int \<Rightarrow> int \<Rightarrow> int \<Rightarrow> bool handler" where
  "reserveBlob S g k sz quota now s =
     (let t = bs_rows S s;
          others = sum_size (\<lambda>r. b_group_id r = g \<and> b_r2_key r \<noteq> k) t;
          mine = (case first_row (\<lambda>r. b_key r = (g, k)) t of None \<Rightarrow> 0 | Some r \<Rightarrow> b_size r)
      in if others + max sz mine \<le> quota
         then (let (changed, t') = upsert_blob g k sz now t in (Inr changed, bs_put S t' s))
         else (Inr False, s))"

definition recordBlob :: "BlobStore \<Rightarrow> string \<Rightarrow> string \<Rightarrow> int \<Rightarrow> int \<Rightarrow> unit handler" where
  "recordBlob S g k sz now = writeS (\<lambda>s. bs_put S (snd (upsert_blob g k sz now (bs_rows S s))) s)"

definition blobSize :: "BlobStore \<Rightarrow> string \<Rightarrow> string \<Rightarrow> env \<Rightarrow> int option" where
  "blobSize S g k s = map_option b_size (first_row (\<lambda>r. b_key r = (g, k)) (bs_rows S s))"

definition forgetBlob :: "BlobStore \<Rightarrow> string \<Rightarrow> string \<Rightarrow> env \<Rightarrow> env" where
  "forgetBlob S g k s = bs_put S (delete_rows (\<lambda>r. b_key r = (g, k)) (bs_rows S s)) s"

text \<open>What a space holds in a store.\<close>

definition usage :: "BlobStore \<Rightarrow> string \<Rightarrow> env \<Rightarrow> int" where
  "usage S g s = sum_size (\<lambda>r. b_group_id r = g) (bs_rows S s)"

text \<open>The accounting invariant: no object in the bucket without its row.\<close>

definition backed :: "BlobStore \<Rightarrow> env \<Rightarrow> bool" where
  "backed S s \<longleftrightarrow> fst ` set (bs_bucket S s) \<subseteq> storage_key ` b_key ` set (bs_rows S s)"

section \<open>Deleting\<close>

text \<open>The reservation batch: the unclaimed rows among \<open>blobs\<close>, marked and returned.\<close>

definition reserve_unclaimed :: "BlobStore \<Rightarrow> (string \<times> string) list \<Rightarrow> (string \<times> string) list handler" where
  "reserve_unclaimed S blobs s =
     (let hit = (\<lambda>u. \<not> bs_claimed S s u) in
      (Inr (concat (map (\<lambda>gk. map b_key (filter (\<lambda>u. b_key u = gk \<and> hit u) (bs_rows S s))) blobs)),
       bs_put S (update_rows (\<lambda>u. b_key u \<in> set blobs \<and> hit u)
         (\<lambda>u. u\<lparr>b_created_at := RESERVED_FOR_DELETION\<rparr>) (bs_rows S s)) s))"

definition drop_reserved :: "BlobStore \<Rightarrow> (string \<times> string) list \<Rightarrow> env \<Rightarrow> env" where
  "drop_reserved S keys s = bs_put S (delete_rows
     (\<lambda>u. b_key u \<in> set keys \<and> b_created_at u = RESERVED_FOR_DELETION) (bs_rows S s)) s"

definition delete_unclaimed_batch :: "BlobStore \<Rightarrow> (string \<times> string) list \<Rightarrow> unit handler" where
  "delete_unclaimed_batch S blobs =
     bindS (reserve_unclaimed S blobs) (\<lambda>reserved.
     if reserved = [] then retS ()
     else bindS (r2_delete S (map storage_key reserved)) (\<lambda>_. writeS (drop_reserved S reserved)))"

definition deleteUnclaimedBlobs :: "BlobStore \<Rightarrow> (string \<times> string) list \<Rightarrow> unit handler" where
  "deleteUnclaimedBlobs S blobs = forS (batches SWEEP_BATCH_SIZE blobs) (delete_unclaimed_batch S)"

definition deleteForgottenBlobs :: "BlobStore \<Rightarrow> (string \<times> string) list \<Rightarrow> unit handler" where
  "deleteForgottenBlobs S blobs =
     forS (batches SWEEP_BATCH_SIZE blobs) (\<lambda>b. r2_delete S (map storage_key b))"

definition deleteBlob :: "BlobStore \<Rightarrow> string \<Rightarrow> string \<Rightarrow> unit handler" where
  "deleteBlob S g k =
     (if bs_expires S
      then bindS (writeS (forgetBlob S g k)) (\<lambda>_. r2_delete S [blobStorageKey g k])
      else deleteUnclaimedBlobs S [(g, k)])"

section \<open>The orphan sweep\<close>

definition orphan :: "BlobStore \<Rightarrow> int \<Rightarrow> env \<Rightarrow> blob_row \<Rightarrow> bool" where
  "orphan S olderThan s u \<longleftrightarrow> b_created_at u < olderThan \<and> \<not> bs_claimed S s u"

definition orphan_candidates :: "BlobStore \<Rightarrow> int \<Rightarrow> env \<Rightarrow> blob_row list" where
  "orphan_candidates S olderThan s =
     take SWEEP_BATCH_SIZE (sort_key b_created_at (filter (orphan S olderThan s) (bs_rows S s)))"

text \<open>One round of the loop, for the candidates it found.\<close>

definition orphan_round :: "BlobStore \<Rightarrow> blob_row list \<Rightarrow> unit handler" where
  "orphan_round S rows =
     (if \<not> bs_expires S then deleteUnclaimedBlobs S (map b_key rows)
      else bindS (writeS (\<lambda>s. bs_put S (delete_rows (\<lambda>u. u \<in> set rows) (bs_rows S s)) s)) (\<lambda>_.
           deleteForgottenBlobs S (map b_key rows)))"

fun orphan_loop :: "nat \<Rightarrow> BlobStore \<Rightarrow> int \<Rightarrow> unit handler" where
  "orphan_loop 0 S olderThan = retS ()"
| "orphan_loop (Suc fuel) S olderThan =
     bindS (readS (orphan_candidates S olderThan)) (\<lambda>rows.
     if rows = [] then retS ()
     else bindS (orphan_round S rows) (\<lambda>_. orphan_loop fuel S olderThan))"

text \<open>Every round that ends drops a row, so the rows there are bound the rounds.\<close>

definition purgeOrphanBlobs :: "BlobStore \<Rightarrow> int \<Rightarrow> unit handler" where
  "purgeOrphanBlobs S olderThan s = orphan_loop (Suc (length (bs_rows S s))) S olderThan s"

section \<open>Facts about rows\<close>

lemma sum_size_simps [simp]:
  "sum_size c [] = 0"
  "sum_size c (r # t) = (if c r then b_size r + sum_size c t else sum_size c t)"
  "sum_size c (t @ t') = sum_size c t + sum_size c t'"
  by (simp_all add: sum_size_def)

lemma sum_size_split:
  "sum_size c t = sum_size (\<lambda>r. c r \<and> e r) t + sum_size (\<lambda>r. c r \<and> \<not> e r) t"
  by (induction t) auto

lemma sum_size_unique:
  assumes "pk b_key t" and "r \<in> set t"
  shows "sum_size (\<lambda>x. b_key x = b_key r) t = b_size r"
  using assms
proof (induction t)
  case (Cons x t)
  have z: "sum_size (\<lambda>y. b_key y = b_key x) t = 0" if "b_key x \<notin> b_key ` set t"
    using that by (induction t) auto
  from Cons.prems have x: "b_key x \<notin> b_key ` set t" and t: "pk b_key t" by (auto simp: pk_def)
  show ?case
  proof (cases "b_key x = b_key r")
    case True
    with Cons.prems x have "r = x" by auto
    with z [OF x] show ?thesis by simp
  next
    case False
    with Cons.prems have "r \<in> set t" by auto
    with Cons.IH t False show ?thesis by auto
  qed
qed simp

lemma sum_size_none: "\<forall>r \<in> set t. \<not> c r \<Longrightarrow> sum_size c t = 0"
  by (induction t) auto

lemma sum_size_update:
  assumes "\<And>r. e r \<Longrightarrow> \<not> c r" and "\<And>r. c (f r) \<Longrightarrow> c r"
  shows "sum_size c (update_rows e f t) = sum_size c t"
proof -
  have "c (if e r then f r else r) = c r \<and> (c r \<longrightarrow> (if e r then f r else r) = r)" for r
    using assms by metis
  then show ?thesis by (induction t) (simp_all add: update_rows_def)
qed

lemma pk_upsert_blob: "pk b_key t \<Longrightarrow> pk b_key (snd (upsert_blob g k sz now t))"
  by (auto simp: upsert_blob_def pk_snoc table_simps pk_update_rows)

lemma blobStorageKey_inj:
  "CHR ''/'' \<notin> set g \<Longrightarrow> CHR ''/'' \<notin> set g' \<Longrightarrow>
     blobStorageKey g k = blobStorageKey g' k' \<longleftrightarrow> g = g' \<and> k = k'"
  unfolding blobStorageKey_def using field_split [of "CHR ''/''" g g' k k'] by auto

lemma upsert_blob_usage:
  assumes "pk b_key t"
  shows "sum_size (\<lambda>r. b_group_id r = g) (snd (upsert_blob g k sz now t))
    \<le> sum_size (\<lambda>r. b_group_id r = g \<and> b_r2_key r \<noteq> k) t
      + max sz (case first_row (\<lambda>r. b_key r = (g, k)) t of None \<Rightarrow> 0 | Some r \<Rightarrow> b_size r)"
proof -
  let ?o = "\<lambda>r. b_group_id r = g \<and> b_r2_key r \<noteq> k"
  let ?t' = "snd (upsert_blob g k sz now t)"
  have split: "sum_size (\<lambda>r. b_group_id r = g) x = sum_size (\<lambda>r. b_key r = (g, k)) x + sum_size ?o x" for x
    using sum_size_split [of "\<lambda>r. b_group_id r = g" x "\<lambda>r. b_r2_key r = k"] by simp
  show ?thesis
  proof (cases "first_row (\<lambda>r. b_key r = (g, k)) t")
    case None
    then have no: "\<forall>r \<in> set t. b_key r \<noteq> (g, k)" by (simp add: table_simps)
    then have "\<not> exists_row (\<lambda>r. b_key r = (g, k)) t" by (simp add: table_simps)
    then have "?t' = t @ [\<lparr>b_group_id = g, b_r2_key = k, b_size = sz, b_created_at = now\<rparr>]"
      unfolding upsert_blob_def by simp
    moreover have "sum_size (\<lambda>r. b_key r = (g, k)) t = 0" using no by (rule sum_size_none)
    ultimately show ?thesis unfolding split None by simp
  next
    case (Some r)
    then have r: "r \<in> set t" "b_key r = (g, k)" by (auto dest: first_row_Some)
    let ?e = "\<lambda>r. b_key r = (g, k) \<and> b_created_at r \<noteq> RESERVED_FOR_DELETION"
    let ?f = "\<lambda>r. r\<lparr>b_size := max (b_size r) sz, b_created_at := now\<rparr>"
    have "exists_row (\<lambda>r. b_key r = (g, k)) t" using r by (auto simp: table_simps)
    then have t': "?t' = update_rows ?e ?f t" unfolding upsert_blob_def by simp
    have o: "sum_size ?o ?t' = sum_size ?o t" unfolding t' by (rule sum_size_update) simp_all
    have pk': "pk b_key ?t'" using assms by (rule pk_upsert_blob)
    define r' where "r' = (if ?e r then ?f r else r)"
    have "r' \<in> set ?t'" using r(1) unfolding t' set_update_rows r'_def by blast
    moreover have key: "b_key r' = (g, k)" and sz: "b_size r' \<le> max sz (b_size r)"
      using r by (simp_all add: r'_def)
    ultimately have "sum_size (\<lambda>x. b_key x = b_key r') ?t' = b_size r'"
      by (intro sum_size_unique [OF pk'])
    then have "sum_size (\<lambda>r. b_key r = (g, k)) ?t' = b_size r'" unfolding key .
    with o sz show ?thesis unfolding split Some by simp
  qed
qed

section \<open>What every store promises\<close>

locale blob_store =
  fixes S :: BlobStore
  assumes rows_put [simp]: "bs_rows S (bs_put S t s) = t"
    and put_rows [simp]: "bs_put S (bs_rows S s) s = s"
    and put_put [simp]: "bs_put S t (bs_put S t' s) = bs_put S t s"
    and put_bucket_id [simp]: "bs_put_bucket S (bs_bucket S s) s = s"
    and put_bucket_twice [simp]: "bs_put_bucket S b (bs_put_bucket S b' s) = bs_put_bucket S b s"
    and put_commute [simp]: "bs_put S t (bs_put_bucket S b s) = bs_put_bucket S b (bs_put S t s)"
    and rows_put_bucket [simp]: "bs_rows S (bs_put_bucket S b s) = bs_rows S s"
    and bucket_put [simp]: "bs_bucket S (bs_put S t s) = bs_bucket S s"
    and bucket_put_bucket [simp]: "bs_bucket S (bs_put_bucket S b s) = b"
    and down_put [simp]: "bs_down S (bs_put S t s) = bs_down S s"
    and down_put_bucket [simp]: "bs_down S (bs_put_bucket S b s) = bs_down S s"
    and claimed_put [simp]: "bs_claimed S (bs_put S t s) = bs_claimed S s"
    and claimed_put_bucket [simp]: "bs_claimed S (bs_put_bucket S b s) = bs_claimed S s"
    and claimed_key: "b_key u = b_key u' \<Longrightarrow> bs_claimed S s u = bs_claimed S s u'"
begin

lemma reserve_within_quota:
  assumes "pk b_key (bs_rows S s)" and "reserveBlob S g k sz quota now s = (Inr True, s')"
  shows "usage S g s' \<le> quota"
  using assms(2) upsert_blob_usage [OF assms(1), of g k sz now]
  by (auto simp: reserveBlob_def usage_def Let_def split: if_splits prod.splits)

lemma reserve_refused:
  assumes "reserveBlob S g k sz quota now s = (Inr False, s')"
  shows "bs_rows S s' = bs_rows S s"
proof -
  have "update_rows c f t = t" if "\<not> exists_row c t" for c f and t :: "blob_row table"
    using that by (auto simp: update_rows_def table_simps intro: map_idI)
  with assms show ?thesis
    by (auto simp: reserveBlob_def upsert_blob_def Let_def split: if_splits)
qed

lemma reserve_pk: "pk b_key (bs_rows S s) \<Longrightarrow> pk b_key (bs_rows S (snd (reserveBlob S g k sz quota now s)))"
  by (simp add: reserveBlob_def Let_def pk_upsert_blob case_prod_beta)

text \<open>A reserved row stays out of reach: an upload can neither revive nor resize it.\<close>

lemma reserve_reserved:
  assumes "pk b_key (bs_rows S s)" and "r \<in> set (bs_rows S s)" and "b_key r = (g, k)"
    and "b_created_at r = RESERVED_FOR_DELETION"
  shows "fst (reserveBlob S g k sz quota now s) = Inr False"
  using assms by (auto simp: reserveBlob_def upsert_blob_def Let_def table_simps
      dest: pk_unique [OF assms(1)])

text \<open>The rows a deletion of \<open>blobs\<close> is for, and what is left once it succeeded.\<close>

definition goner :: "(string \<times> string) list \<Rightarrow> env \<Rightarrow> blob_row \<Rightarrow> bool" where
  "goner blobs s u \<longleftrightarrow> b_key u \<in> set blobs \<and> \<not> bs_claimed S s u"

definition erase :: "(blob_row \<Rightarrow> bool) \<Rightarrow> env \<Rightarrow> env" where
  "erase p s = bs_put_bucket S
     (filter (\<lambda>x. fst x \<notin> storage_key ` b_key ` {u \<in> set (bs_rows S s). p u}) (bs_bucket S s))
     (bs_put S (delete_rows p (bs_rows S s)) s)"

lemma erase_simps [simp]:
  "bs_rows S (erase p s) = delete_rows p (bs_rows S s)"
  "bs_down S (erase p s) = bs_down S s"
  "bs_claimed S (erase p s) = bs_claimed S s"
  by (simp_all add: erase_def)

lemma goner_same_key: "b_key u = b_key u' \<Longrightarrow> goner blobs s u = goner blobs s u'"
  unfolding goner_def using claimed_key by metis

lemma reserve_unclaimed_set:
  "fst (reserve_unclaimed S blobs s) = Inr res \<Longrightarrow>
     set res = b_key ` {u \<in> set (bs_rows S s). goner blobs s u}"
proof -
  assume "fst (reserve_unclaimed S blobs s) = Inr res"
  then have res: "res = concat (map (\<lambda>gk. map b_key
      (filter (\<lambda>u. b_key u = gk \<and> \<not> bs_claimed S s u) (bs_rows S s))) blobs)"
    unfolding reserve_unclaimed_def Let_def fst_conv by (rule sum.inject(2) [THEN iffD1, symmetric])
  show ?thesis unfolding res set_concat set_map set_filter image_image goner_def by blast
qed

lemma mark_then_drop:
  assumes res: "set res = b_key ` {u \<in> set (bs_rows S s). goner blobs s u}"
  shows "delete_rows (\<lambda>u. b_key u \<in> set res \<and> b_created_at u = RESERVED_FOR_DELETION)
      (update_rows (goner blobs s) (\<lambda>u. u\<lparr>b_created_at := RESERVED_FOR_DELETION\<rparr>) (bs_rows S s))
    = delete_rows (goner blobs s) (bs_rows S s)"
proof -
  have in_res: "b_key u \<in> set res \<longleftrightarrow> goner blobs s u" if "u \<in> set (bs_rows S s)" for u
  proof
    assume "b_key u \<in> set res"
    then obtain u' where "b_key u = b_key u'" "goner blobs s u'" unfolding res by (rule imageE) simp
    then show "goner blobs s u" using goner_same_key by metis
  qed (simp add: res that)
  have "filter (\<lambda>u. \<not> (b_key u \<in> set res \<and> b_created_at u = RESERVED_FOR_DELETION))
      (map (\<lambda>u. if goner blobs s u then u\<lparr>b_created_at := RESERVED_FOR_DELETION\<rparr> else u) t)
    = filter (\<lambda>u. \<not> goner blobs s u) t" if "set t \<subseteq> set (bs_rows S s)" for t
    using that by (induction t) (auto simp: in_res)
  then show ?thesis by (simp add: delete_rows_def update_rows_def)
qed

lemma delete_rows_none: "\<forall>u \<in> set t. \<not> p u \<Longrightarrow> delete_rows p t = t"
  by (simp add: delete_rows_def)

lemma erase_none: "\<forall>u \<in> set (bs_rows S s). \<not> p u \<Longrightarrow> erase p s = s"
proof -
  assume "\<forall>u \<in> set (bs_rows S s). \<not> p u"
  then have none: "{u \<in> set (bs_rows S s). p u} = {}" and rows: "delete_rows p (bs_rows S s) = bs_rows S s"
    by (auto simp: delete_rows_none)
  have all: "filter (\<lambda>x. fst x \<notin> {}) b = b" for b :: bucket by (rule filter_True) simp
  show ?thesis unfolding erase_def none rows image_empty all put_rows by (rule put_bucket_id)
qed

lemma reserve_unclaimed_state:
  "snd (reserve_unclaimed S blobs s) = bs_put S (update_rows (goner blobs s)
     (\<lambda>u. u\<lparr>b_created_at := RESERVED_FOR_DELETION\<rparr>) (bs_rows S s)) s"
proof -
  have g: "(\<lambda>u. b_key u \<in> set blobs \<and> \<not> bs_claimed S s u) = goner blobs s"
    by (rule ext) (simp only: goner_def)
  show ?thesis unfolding reserve_unclaimed_def Let_def snd_conv g ..
qed

lemma delete_unclaimed_batch_ok:
  assumes "\<not> bs_down S s"
  shows "delete_unclaimed_batch S blobs s = (Inr (), erase (goner blobs s) s)"
proof -
  obtain res where r: "fst (reserve_unclaimed S blobs s) = Inr res"
    by (simp add: reserve_unclaimed_def Let_def)
  note set_res = reserve_unclaimed_set [OF r]
  show ?thesis
  proof (cases "res = []")
    case True
    with set_res have "\<forall>u \<in> set (bs_rows S s). \<not> goner blobs s u" by auto
    with True r show ?thesis
      by (simp add: delete_unclaimed_batch_def bindS_def split_beta reserve_unclaimed_state retS_def
          erase_none update_rows_none exists_row_iff)
  next
    case False
    have "bucket_delete (map storage_key res) b =
        filter (\<lambda>x. fst x \<notin> storage_key ` b_key ` {u \<in> set (bs_rows S s). goner blobs s u}) b" for b
      unfolding bucket_delete_def set_map set_res ..
    with False r assms mark_then_drop [OF set_res] show ?thesis
      by (simp add: delete_unclaimed_batch_def bindS_def split_beta reserve_unclaimed_state
          r2_delete_def writeS_def drop_reserved_def erase_def)
  qed
qed

lemma erase_erase: "erase q (erase p s) = erase (\<lambda>u. p u \<or> q u) s"
proof -
  have "delete_rows q (delete_rows p t) = delete_rows (\<lambda>u. p u \<or> q u) t" for t :: "blob_row table"
    by (simp add: delete_rows_def conj_commute)
  moreover have "k \<notin> storage_key ` b_key ` {u \<in> set t. p u} \<and>
      k \<notin> storage_key ` b_key ` {u \<in> set (delete_rows p t). q u} \<longleftrightarrow>
      k \<notin> storage_key ` b_key ` {u \<in> set t. p u \<or> q u}" for k t
    by (auto simp: table_simps)
  ultimately show ?thesis
    by (simp add: erase_def)
qed

lemma goner_erase: "goner blobs (erase p s) = goner blobs s"
  by (simp add: goner_def fun_eq_iff)

lemma delete_batches_ok:
  "\<not> bs_down S s \<Longrightarrow>
     forS bs (delete_unclaimed_batch S) s = (Inr (), erase (goner (concat bs) s) s)"
proof (induction bs arbitrary: s)
  case Nil
  then show ?case by (simp add: retS_def erase_none goner_def)
next
  case (Cons b bs)
  have "(\<lambda>u. goner b s u \<or> goner (concat bs) s u) = goner (concat (b # bs)) s"
    by (auto simp: goner_def fun_eq_iff)
  with Cons show ?case
    by (simp add: bindS_def delete_unclaimed_batch_ok erase_erase goner_erase)
qed

lemma deleteUnclaimedBlobs_ok:
  "\<not> bs_down S s \<Longrightarrow> deleteUnclaimedBlobs S blobs s = (Inr (), erase (goner blobs s) s)"
  unfolding deleteUnclaimedBlobs_def
  by (simp add: delete_batches_ok concat_batches SWEEP_BATCH_SIZE_def)

text \<open>When R2 fails, nothing but reservation marks of unclaimed rows has been written.\<close>

lemma delete_batches_down:
  "bs_down S s \<Longrightarrow> \<exists>p. snd (forS bs (delete_unclaimed_batch S) s) =
     bs_put S (update_rows p (\<lambda>u. u\<lparr>b_created_at := RESERVED_FOR_DELETION\<rparr>) (bs_rows S s)) s
     \<and> (\<forall>u. p u \<longrightarrow> goner (concat bs) s u)"
proof (induction bs)
  case Nil
  show ?case by (rule exI [of _ "\<lambda>_. False"]) (simp add: retS_def update_rows_none exists_row_iff)
next
  case (Cons b bs)
  obtain res where r: "fst (reserve_unclaimed S b s) = Inr res"
    by (simp add: reserve_unclaimed_def Let_def)
  show ?case
  proof (cases "res = []")
    case True
    with reserve_unclaimed_set [OF r] have "\<forall>u \<in> set (bs_rows S s). \<not> goner b s u" by auto
    with True r have "delete_unclaimed_batch S b s = (Inr (), s)"
      by (simp add: delete_unclaimed_batch_def bindS_def split_beta reserve_unclaimed_state retS_def
          update_rows_none exists_row_iff)
    with Cons show ?thesis by (auto simp: bindS_def goner_def)
  next
    case False
    with r Cons.prems have "delete_unclaimed_batch S b s = (Inl Thrown, snd (reserve_unclaimed S b s))"
      by (simp add: delete_unclaimed_batch_def bindS_def split_beta r2_delete_def reserve_unclaimed_state)
    then show ?thesis
      by (intro exI [of _ "goner b s"] conjI) (simp_all add: bindS_def reserve_unclaimed_state, simp add: goner_def)
  qed
qed

lemma backed_erase: "backed S s \<Longrightarrow> backed S (erase p s)"
proof -
  assume b: "backed S s"
  have "k \<in> storage_key ` b_key ` set (delete_rows p (bs_rows S s))"
    if "k \<in> fst ` set (bs_bucket S s)" "k \<notin> storage_key ` b_key ` {u \<in> set (bs_rows S s). p u}" for k
  proof -
    from b that(1) obtain u where "u \<in> set (bs_rows S s)" "k = storage_key (b_key u)"
      unfolding backed_def by blast
    with that(2) have "u \<in> set (delete_rows p (bs_rows S s))" 
      unfolding set_delete_rows by blast
    with \<open>k = _\<close> show ?thesis by blast
  qed
  then show ?thesis unfolding backed_def erase_simps by (force simp: erase_def)
qed

lemma backed_marked:
  "backed S s \<Longrightarrow> backed S (bs_put S (update_rows p (\<lambda>u. u\<lparr>b_created_at := c\<rparr>) (bs_rows S s)) s)"
proof -
  have "b_key ` set (update_rows p (\<lambda>u. u\<lparr>b_created_at := c\<rparr>) t) = b_key ` set t" for t
    by (rule update_rows_keys) simp
  then show "backed S s \<Longrightarrow> ?thesis" by (simp add: backed_def)
qed

lemma backed_deleteUnclaimed: "backed S s \<Longrightarrow> backed S (snd (deleteUnclaimedBlobs S blobs s))"
proof (cases "bs_down S s")
  case True
  assume "backed S s"
  from delete_batches_down [OF True, of "batches SWEEP_BATCH_SIZE blobs"] obtain p where
    "snd (deleteUnclaimedBlobs S blobs s) =
      bs_put S (update_rows p (\<lambda>u. u\<lparr>b_created_at := RESERVED_FOR_DELETION\<rparr>) (bs_rows S s)) s"
    unfolding deleteUnclaimedBlobs_def by blast
  with backed_marked [OF \<open>backed S s\<close>] show ?thesis by simp
qed (simp add: deleteUnclaimedBlobs_ok backed_erase)

text \<open>What a deletion spares: the rows, and the objects, of everything still claimed.\<close>

lemma erase_spares:
  assumes "\<forall>u \<in> set (bs_rows S s). CHR ''/'' \<notin> set (b_group_id u)"
    and "u \<in> set (bs_rows S s)" and "\<not> p u" and "\<And>u'. u' \<in> set (bs_rows S s) \<Longrightarrow> b_key u = b_key u' \<Longrightarrow> p u' = p u"
  shows "u \<in> set (bs_rows S (erase p s))"
    and "map_of (bs_bucket S (erase p s)) (storage_key (b_key u)) = map_of (bs_bucket S s) (storage_key (b_key u))"
proof -
  show "u \<in> set (bs_rows S (erase p s))" using assms(2,3) by (simp add: table_simps)
  have keep: "storage_key (b_key u) \<notin> storage_key ` b_key ` {u \<in> set (bs_rows S s). p u}"
  proof
    assume "storage_key (b_key u) \<in> storage_key ` b_key ` {u \<in> set (bs_rows S s). p u}"
    then obtain u' where u': "u' \<in> set (bs_rows S s)" "p u'" "storage_key (b_key u) = storage_key (b_key u')"
      by auto
    then have "b_key u = b_key u'" using blobStorageKey_inj assms(1,2) by auto
    with assms(3,4) u'(1,2) show False by blast
  qed
  have "map_of (filter (\<lambda>x. fst x \<notin> K) b) k = map_of b k" if "k \<notin> K" for K k and b :: bucket
    using that by (induction b) auto
  with keep show "map_of (bs_bucket S (erase p s)) (storage_key (b_key u)) = map_of (bs_bucket S s) (storage_key (b_key u))"
    by (simp add: erase_def)
qed

subsection \<open>The sweep\<close>

lemma orphan_same_state [simp]: "orphan S t (erase p s) = orphan S t s"
  by (simp add: orphan_def fun_eq_iff)

lemma candidates_subset:
  "set (orphan_candidates S t s) \<subseteq> {u \<in> set (bs_rows S s). orphan S t s u}"
  unfolding orphan_candidates_def by (auto dest!: in_set_takeD)

lemma candidates_Nil:
  "orphan_candidates S t s = [] \<longleftrightarrow> (\<forall>u \<in> set (bs_rows S s). \<not> orphan S t s u)"
proof -
  have "orphan_candidates S t s = [] \<longleftrightarrow> filter (orphan S t s) (bs_rows S s) = []"
    using length_sort [of b_created_at "filter (orphan S t s) (bs_rows S s)"]
    by (auto simp: orphan_candidates_def SWEEP_BATCH_SIZE_def simp del: length_sort)
  then show ?thesis by (simp add: filter_empty_conv)
qed

lemma deleteForgotten_ok:
  "\<not> bs_down S s \<Longrightarrow> deleteForgottenBlobs S blobs s =
     (Inr (), bs_put_bucket S (bucket_delete (map storage_key blobs) (bs_bucket S s)) s)"
proof -
  have "forS bs (\<lambda>b. r2_delete S (map storage_key b)) s =
     (Inr (), bs_put_bucket S (bucket_delete (map storage_key (concat bs)) (bs_bucket S s)) s)"
    if "\<not> bs_down S s" for bs s using that
  proof (induction bs arbitrary: s)
    case Nil
    then show ?case by (simp add: retS_def bucket_delete_def)
  next
    case (Cons b bs)
    then show ?case
      by (simp add: bindS_def r2_delete_def bucket_delete_def conj_commute)
  qed
  then show "\<not> bs_down S s \<Longrightarrow> ?thesis"
    unfolding deleteForgottenBlobs_def by (simp add: concat_batches SWEEP_BATCH_SIZE_def)
qed

lemma orphan_round_ok:
  assumes "pk b_key (bs_rows S s)" and "\<not> bs_down S s"
    and "set rows \<subseteq> {u \<in> set (bs_rows S s). \<not> bs_claimed S s u}"
  shows "orphan_round S rows s = (Inr (), erase (\<lambda>u. u \<in> set rows) s)"
proof (cases "bs_expires S")
  case True
  have "{u \<in> set (bs_rows S s). u \<in> set rows} = set rows" using assms(3) by auto
  with True assms(2) show ?thesis
    by (simp add: orphan_round_def bindS_def writeS_def deleteForgotten_ok erase_def bucket_delete_def image_image)
next
  case False
  have *: "goner (map b_key rows) s u = (u \<in> set rows)" if "u \<in> set (bs_rows S s)" for u
    using that assms(1,3) by (auto simp: goner_def dest: pk_unique [OF assms(1)])
  have "{u \<in> set (bs_rows S s). goner (map b_key rows) s u} = {u \<in> set (bs_rows S s). u \<in> set rows}"
    and "delete_rows (goner (map b_key rows) s) (bs_rows S s) = delete_rows (\<lambda>u. u \<in> set rows) (bs_rows S s)"
    using * by (auto simp: delete_rows_def intro: filter_cong)
  with False assms(2) show ?thesis
    by (simp add: orphan_round_def deleteUnclaimedBlobs_ok erase_def)
qed

lemma orphan_loop_ok:
  "pk b_key (bs_rows S s) \<Longrightarrow> \<not> bs_down S s \<Longrightarrow> length (bs_rows S s) < fuel \<Longrightarrow>
     orphan_loop fuel S t s = (Inr (), erase (orphan S t s) s)"
proof (induction fuel arbitrary: s)
  case (Suc fuel)
  let ?c = "orphan_candidates S t s"
  show ?case
  proof (cases "?c = []")
    case True
    then show ?thesis by (simp add: bindS_def readS_def retS_def erase_none candidates_Nil [THEN iffD1])
  next
    case False
    let ?s' = "erase (\<lambda>u. u \<in> set ?c) s"
    have sub: "set ?c \<subseteq> {u \<in> set (bs_rows S s). orphan S t s u}" by (rule candidates_subset)
    then have round: "orphan_round S ?c s = (Inr (), ?s')"
      by (intro orphan_round_ok Suc.prems) (auto simp: orphan_def)
    from False obtain u where "u \<in> set ?c" by (cases ?c) auto
    with sub have "length (bs_rows S ?s') < length (bs_rows S s)"
      by (auto simp: delete_rows_def intro!: length_filter_less)
    then have "orphan_loop fuel S t ?s' = (Inr (), erase (orphan S t ?s') ?s')"
      using Suc.prems by (intro Suc.IH) (simp_all add: pk_delete_rows)
    moreover have "erase (orphan S t ?s') ?s' = erase (orphan S t s) s"
    proof -
      have "erase (\<lambda>u. u \<in> set ?c \<or> orphan S t s u) s = erase (orphan S t s) s"
        using sub unfolding erase_def delete_rows_def
        by (intro arg_cong2 [of _ _ _ _ "bs_put_bucket S"] arg_cong2 [of _ _ _ _ "bs_put S"] filter_cong) auto
      then show ?thesis by (simp add: erase_erase)
    qed
    ultimately show ?thesis using False round by (simp add: bindS_def readS_def)
  qed
qed simp

lemma purgeOrphanBlobs_ok:
  "pk b_key (bs_rows S s) \<Longrightarrow> \<not> bs_down S s \<Longrightarrow>
     purgeOrphanBlobs S t s = (Inr (), erase (orphan S t s) s)"
  unfolding purgeOrphanBlobs_def by (rule orphan_loop_ok) simp_all

end

interpretation message_files: blob_store MESSAGE_FILES
  by unfold_locales (auto simp: MESSAGE_FILES_def)

interpretation vault_store: blob_store VAULT_BLOBS
  by unfold_locales (auto simp: VAULT_BLOBS_def)

section \<open>Properties\<close>

lemma store_cases: "S \<in> {MESSAGE_FILES, VAULT_BLOBS} \<Longrightarrow> blob_store S"
  using message_files.blob_store_axioms vault_store.blob_store_axioms by blast

lemma upsert_blob_size:
  assumes "pk b_key t" and "fst (upsert_blob g k sz now t)"
  shows "\<exists>n \<ge> sz. map_option b_size (first_row (\<lambda>r. b_key r = (g, k)) (snd (upsert_blob g k sz now t))) = Some n"
proof -
  let ?e = "\<lambda>r. b_key r = (g, k) \<and> b_created_at r \<noteq> RESERVED_FOR_DELETION"
  let ?f = "\<lambda>r. r\<lparr>b_size := max (b_size r) sz, b_created_at := now\<rparr>"
  have "\<exists>r \<in> set (snd (upsert_blob g k sz now t)). b_key r = (g, k) \<and> sz \<le> b_size r"
  proof (cases "exists_row (\<lambda>r. b_key r = (g, k)) t")
    case True
    with assms(2) obtain r where r: "r \<in> set t" "?e r" by (auto simp: upsert_blob_def exists_row_iff)
    then have "?f r \<in> set (update_rows ?e ?f t)"
      unfolding set_update_rows by (intro rev_image_eqI [OF r(1)]) (rule if_P [symmetric])
    with True r show ?thesis unfolding upsert_blob_def by (intro bexI [of _ "?f r"]) simp_all
  qed (simp add: upsert_blob_def)
  then obtain r where r: "r \<in> set (snd (upsert_blob g k sz now t))" "b_key r = (g, k)" "sz \<le> b_size r" by blast
  have "first_row (\<lambda>x. b_key x = (g, k)) (snd (upsert_blob g k sz now t)) = Some r"
    by (rule first_row_unique [where c = "\<lambda>x. b_key x = (g, k)", OF pk_upsert_blob [OF assms(1)] r(1,2)]) (simp add: r(2))
  with r(3) show ?thesis by simp
qed

text \<open>C8. The quota is never passed. In either store a reservation that is granted leaves the space
  within its quota and accounts for at least the bytes it admitted; one that is refused changes
  no row; and no reservation throws.\<close>

theorem reserve_quota:
  assumes "S \<in> {MESSAGE_FILES, VAULT_BLOBS}" and "pk b_key (bs_rows S s)"
  shows "(\<exists>s'. reserveBlob S g k sz quota now s = (Inr True, s') \<and> usage S g s' \<le> quota
        \<and> (\<exists>n \<ge> sz. blobSize S g k s' = Some n))
    \<or> (\<exists>s'. reserveBlob S g k sz quota now s = (Inr False, s') \<and> bs_rows S s' = bs_rows S s)"
proof -
  note store = store_cases [OF assms(1)]
  let ?u = "upsert_blob g k sz now (bs_rows S s)"
  let ?r = "reserveBlob S g k sz quota now s"
  have "?r = (Inr False, snd ?r) \<or> fst ?u \<and> ?r = (Inr True, bs_put S (snd ?u) s)"
    by (cases "fst ?u") (simp_all add: reserveBlob_def Let_def case_prod_beta)
  then consider "?r = (Inr False, snd ?r)" | "fst ?u" "?r = (Inr True, bs_put S (snd ?u) s)" by blast
  then show ?thesis
  proof cases
    case 1
    with blob_store.reserve_refused [OF store 1] show ?thesis by blast
  next
    case 2
    have "blobSize S g k (bs_put S (snd ?u) s) = map_option b_size (first_row (\<lambda>r. b_key r = (g, k)) (snd ?u))"
      unfolding blobSize_def blob_store.rows_put [OF store] ..
    with 2 blob_store.reserve_within_quota [OF store assms(2) 2(2)] upsert_blob_size [OF assms(2) 2(1)]
    show ?thesis by auto
  qed
qed

theorem reserve_quota_witness:
  "usage VAULT_BLOBS ''g'' (snd (reserveBlob VAULT_BLOBS ''g'' ''k'' 5 8 1
     (empty_env\<lparr>vault_blobs := [\<lparr>b_group_id = ''g'', b_r2_key = ''j'', b_size = 3, b_created_at = 1\<rparr>]\<rparr>))) \<le> 8"
proof -
  let ?s = "empty_env\<lparr>vault_blobs := [\<lparr>b_group_id = ''g'', b_r2_key = ''j'', b_size = 3, b_created_at = 1\<rparr>]\<rparr>"
  have "pk b_key (bs_rows VAULT_BLOBS ?s)" "usage VAULT_BLOBS ''g'' ?s \<le> 8" by code_simp+
  then show ?thesis
    using reserve_quota [of VAULT_BLOBS ?s "''g''" "''k''" 5 8 1] by (auto simp: usage_def)
qed

text \<open>C9. The orphan sweep ends and sweeps exactly the orphans. In either store, when R2 answers, it
  returns with every row that nothing claims and that is older than the limit gone together with
  its object, and with every other row, and the object of every other row, still there.\<close>

theorem sweep_exact:
  assumes "S \<in> {MESSAGE_FILES, VAULT_BLOBS}" and "pk b_key (bs_rows S s)" and "\<not> bs_down S s"
    and "\<forall>u \<in> set (bs_rows S s). CHR ''/'' \<notin> set (b_group_id u)"
  shows "\<exists>s'. purgeOrphanBlobs S t s = (Inr (), s') \<and> bs_rows S s' = delete_rows (orphan S t s) (bs_rows S s)
    \<and> (\<forall>u \<in> set (bs_rows S s). map_of (bs_bucket S s') (storage_key (b_key u)) =
         (if orphan S t s u then None else map_of (bs_bucket S s) (storage_key (b_key u))))"
proof -
  note store = store_cases [OF assms(1)]
  let ?s' = "blob_store.erase S (orphan S t s) s"
  have gone: "map_of (filter (\<lambda>x. fst x \<notin> K) b) k = None" if "k \<in> K" for K k and b :: bucket
    using that by (induction b) auto
  have "map_of (bs_bucket S ?s') (storage_key (b_key u)) = None" if "u \<in> set (bs_rows S s)" "orphan S t s u" for u
    unfolding blob_store.erase_def [OF store] blob_store.bucket_put_bucket [OF store]
    by (rule gone) (use that in blast)
  moreover have "map_of (bs_bucket S ?s') (storage_key (b_key u)) = map_of (bs_bucket S s) (storage_key (b_key u))"
    if "u \<in> set (bs_rows S s)" "\<not> orphan S t s u" for u
  proof (rule blob_store.erase_spares(2) [where p = "orphan S t s", OF store assms(4) that])
    fix u'
    assume "u' \<in> set (bs_rows S s)" and "b_key u = b_key u'"
    then show "orphan S t s u' = orphan S t s u" using pk_unique [OF assms(2) that(1)] by metis
  qed
  ultimately show ?thesis
    using blob_store.purgeOrphanBlobs_ok [OF store assms(2,3), of t] blob_store.erase_simps(1) [OF store] by auto
qed

definition sweep_env :: env where
  "sweep_env = empty_env\<lparr>uploads := [\<lparr>b_group_id = ''g'', b_r2_key = ''k'', b_size = 3, b_created_at = 1\<rparr>,
     \<lparr>b_group_id = ''g'', b_r2_key = ''j'', b_size = 3, b_created_at = 9\<rparr>], FILES := [(''g/k'', 3), (''g/j'', 3)]\<rparr>"

theorem sweep_exact_witness:
  "bs_rows MESSAGE_FILES (snd (purgeOrphanBlobs MESSAGE_FILES 5 sweep_env))
   = [\<lparr>b_group_id = ''g'', b_r2_key = ''j'', b_size = 3, b_created_at = 9\<rparr>]"
proof -
  have "pk b_key (bs_rows MESSAGE_FILES sweep_env)" "\<not> bs_down MESSAGE_FILES sweep_env"
    "\<forall>u \<in> set (bs_rows MESSAGE_FILES sweep_env). CHR ''/'' \<notin> set (b_group_id u)" by code_simp+
  from sweep_exact [OF _ this, of 5] have "bs_rows MESSAGE_FILES (snd (purgeOrphanBlobs MESSAGE_FILES 5 sweep_env))
      = delete_rows (orphan MESSAGE_FILES 5 sweep_env) (bs_rows MESSAGE_FILES sweep_env)" by auto
  then show ?thesis by (rule trans) code_simp
qed

lemma backed_upsert:
  "S \<in> {MESSAGE_FILES, VAULT_BLOBS} \<Longrightarrow> backed S s \<Longrightarrow> backed S (bs_put S (snd (upsert_blob g k sz now (bs_rows S s))) s)"
proof -
  assume "S \<in> {MESSAGE_FILES, VAULT_BLOBS}" and b: "backed S s"
  note store = store_cases [OF this(1)]
  have "b_key ` set t \<subseteq> b_key ` set (snd (upsert_blob g k sz now t))" for t
  proof (cases "exists_row (\<lambda>r. b_key r = (g, k)) t")
    case True
    have "b_key ` set (snd (upsert_blob g k sz now t)) = b_key ` set t"
      unfolding upsert_blob_def if_P [OF True] snd_conv by (rule update_rows_keys) simp
    then show ?thesis by simp
  next
    case False
    show ?thesis unfolding upsert_blob_def if_not_P [OF False] snd_conv set_append image_Un by (rule Un_upper1)
  qed
  note keys = this
  show ?thesis
    unfolding backed_def blob_store.rows_put [OF store] blob_store.bucket_put [OF store]
    by (rule order_trans [OF b [unfolded backed_def]]) (rule image_mono, rule keys)
qed

lemma keeps_sweep:
  assumes "blob_store S" and "\<not> bs_expires S"
  shows "keeps (backed S) (orphan_loop fuel S t)"
proof (induction fuel)
  case (Suc fuel)
  have "keeps (backed S) (deleteUnclaimedBlobs S xs)" for xs
    unfolding keeps_def using blob_store.backed_deleteUnclaimed [OF assms(1)] by blast
  then show ?case using assms(2) Suc by (auto simp: orphan_round_def intro!: keeps_bindS keeps_pure)
qed (simp add: keeps_pure)

text \<open>C10. The vault never loses track of an object. Every operation on the vault's store, a reservation,
  a recording, a deletion, a cleanup or the whole sweep, leaves an accounting row behind every
  object in the bucket if there was one before, whether or not R2 answers.\<close>

theorem vault_always_backed:
  assumes "backed VAULT_BLOBS s"
  shows "backed VAULT_BLOBS (snd (reserveBlob VAULT_BLOBS g k sz quota now s))
    \<and> backed VAULT_BLOBS (snd (recordBlob VAULT_BLOBS g k sz now s))
    \<and> backed VAULT_BLOBS (snd (deleteBlob VAULT_BLOBS g k s))
    \<and> backed VAULT_BLOBS (snd (deleteUnclaimedBlobs VAULT_BLOBS blobs s))
    \<and> backed VAULT_BLOBS (snd (purgeOrphanBlobs VAULT_BLOBS t s))"
proof -
  have exp: "\<not> bs_expires VAULT_BLOBS" by (simp add: VAULT_BLOBS_def)
  have "backed VAULT_BLOBS (snd (deleteUnclaimedBlobs VAULT_BLOBS xs s))" for xs
    using assms by (rule vault_store.backed_deleteUnclaimed)
  moreover have "backed VAULT_BLOBS (snd (purgeOrphanBlobs VAULT_BLOBS t s))"
    unfolding purgeOrphanBlobs_def
    by (rule keepsD [OF keeps_sweep [OF vault_store.blob_store_axioms exp] assms])
  ultimately show ?thesis using exp backed_upsert [OF _ assms] assms
    by (simp add: reserveBlob_def recordBlob_def deleteBlob_def writeS_def Let_def case_prod_beta)
qed

theorem vault_always_backed_witness:
  "backed VAULT_BLOBS (snd (deleteBlob VAULT_BLOBS ''g'' ''k''
     (empty_env\<lparr>VAULT := [(''g/k'', 3)], VAULT_down := True,
        vault_blobs := [\<lparr>b_group_id = ''g'', b_r2_key = ''k'', b_size = 3, b_created_at = 1\<rparr>]\<rparr>)))"
  by (rule vault_always_backed [THEN conjunct2, THEN conjunct2, THEN conjunct1]) code_simp

text \<open>The other bucket expires its objects, so there a failed delete does leave one without a row.\<close>

lemma message_files_unbacked:
  "backed MESSAGE_FILES (sweep_env\<lparr>FILES_down := True\<rparr>)"
  "\<not> backed MESSAGE_FILES (snd (deleteBlob MESSAGE_FILES ''g'' ''k'' (sweep_env\<lparr>FILES_down := True\<rparr>)))"
  by code_simp+

end
