(* ===== verification/Messages.thy ===== *)
theory Messages
  imports Space Blobs
begin

text \<open>
  Storing, delivering and deleting messages (apps/worker/src/db.ts, routes/messages.ts). A message
  is stored with one delivery row per recipient and removed, with its file, when the last of them
  is acknowledged. The lemmas: every deletion is the removal of a set of messages with everything
  that hangs on them (\<open>drop_messages\<close>); the purge loops end and remove exactly what they are
  for; \<open>messages_ok\<close>, that every stored message still has a recipient to wait for, is kept.
\<close>

section \<open>Recipients\<close>

definition messageRecipients :: "env \<Rightarrow> string \<Rightarrow> string \<Rightarrow> string list" where
  "messageRecipients s g sender = map d_id (filter (\<lambda>d. d_group_id d = g \<and> active d
     \<and> \<not> d_send_only d \<and> d_id d \<noteq> sender) (devices s))"

section \<open>Deleting\<close>

definition DELETE_BATCH_SIZE :: nat where "DELETE_BATCH_SIZE = 100"

definition file_keys :: "message_row list \<Rightarrow> (string \<times> string) list" where
  "file_keys ms = List.map_filter (\<lambda>m. if truthy (m_file_r2_key m)
     then map_option (Pair (m_group_id m)) (m_file_r2_key m) else None) ms"

text \<open>The statements for one message.\<close>

definition delete_statements :: "message_row \<Rightarrow> env \<Rightarrow> env" where
  "delete_statements m s =
     (let s' = s\<lparr>delivery_status := delete_rows (\<lambda>r. ds_message_id r = m_id m) (delivery_status s),
                 messages := delete_rows (\<lambda>r. m_id r = m_id m) (messages s)\<rparr> in
      case m_file_r2_key m of
        Some k \<Rightarrow> if k = [] then s' else forgetBlob MESSAGE_FILES (m_group_id m) k s'
      | None \<Rightarrow> s')"

definition delete_message_batch :: "message_row list \<Rightarrow> unit handler" where
  "delete_message_batch batch =
     bindS (writeS (fold delete_statements batch)) (\<lambda>_.
     let fileKeys = map storage_key (file_keys batch) in
     whenS (fileKeys \<noteq> []) (r2_delete MESSAGE_FILES fileKeys))"

definition deleteMessages :: "message_row list \<Rightarrow> unit handler" where
  "deleteMessages ms = forS (batches DELETE_BATCH_SIZE ms) delete_message_batch"

definition is_pending :: "string \<Rightarrow> delivery_row \<Rightarrow> bool" where
  "is_pending i r \<longleftrightarrow> ds_message_id r = i \<and> ds_downloaded_at r = None"

definition fully_delivered :: "string \<Rightarrow> env \<Rightarrow> message_row \<Rightarrow> bool" where
  "fully_delivered g s m \<longleftrightarrow> m_group_id m = g \<and> \<not> exists_row (is_pending (m_id m)) (delivery_status s)"

definition expired :: "int \<Rightarrow> env \<Rightarrow> message_row \<Rightarrow> bool" where
  "expired olderThan s m \<longleftrightarrow> m_created_at m < olderThan"

text \<open>\<open>ORDER BY created_at ASC, id ASC LIMIT ?\<close>.\<close>

definition next_messages :: "(env \<Rightarrow> message_row \<Rightarrow> bool) \<Rightarrow> env \<Rightarrow> message_row list" where
  "next_messages p s = take DELETE_BATCH_SIZE
     (sort_key (\<lambda>m. (m_created_at m, m_id m)) (filter (p s) (messages s)))"

text \<open>The loop both purges run; every round that ends drops a message, so the messages there are
  bound the rounds.\<close>

fun purge_loop :: "nat \<Rightarrow> (env \<Rightarrow> message_row \<Rightarrow> bool) \<Rightarrow> unit handler" where
  "purge_loop 0 p = retS ()"
| "purge_loop (Suc fuel) p =
     bindS (readS (next_messages p)) (\<lambda>rows.
     if rows = [] then retS ()
     else bindS (deleteMessages rows) (\<lambda>_. purge_loop fuel p))"

definition purgeDeliveredMessages :: "string \<Rightarrow> unit handler" where
  "purgeDeliveredMessages g s = purge_loop (Suc (length (messages s))) (fully_delivered g) s"

definition purgeExpiredMessages :: "int \<Rightarrow> unit handler" where
  "purgeExpiredMessages olderThan s = purge_loop (Suc (length (messages s))) (expired olderThan) s"

definition deleteMessageById :: "string \<Rightarrow> bool handler" where
  "deleteMessageById i =
     bindS (readS (\<lambda>s. first_row (\<lambda>m. m_id m = i) (messages s))) (\<lambda>row.
     case row of None \<Rightarrow> retS False
     | Some m \<Rightarrow> bindS (deleteMessages [m]) (\<lambda>_. retS True))"

definition deleteGroupMessage :: "string \<Rightarrow> string \<Rightarrow> bool handler" where
  "deleteGroupMessage g i =
     bindS (readS (\<lambda>s. first_row (\<lambda>m. m_id m = i \<and> m_group_id m = g) (messages s))) (\<lambda>row.
     case row of None \<Rightarrow> retS False
     | Some m \<Rightarrow> bindS (deleteMessages [m]) (\<lambda>_. retS True))"

section \<open>Sending\<close>

record SendMessageRequest =
  sm_id :: string
  sm_keyEpoch :: int
  sm_encryptedPayload :: "string option"
  sm_iv :: "string option"
  sm_fileR2Key :: "string option"
  sm_fileIv :: "string option"
  sm_fileMeta :: "string option"
  sm_fileMetaIv :: "string option"
  sm_signature :: "string option"
  sm_deletesMessageId :: "string option"

text \<open>\<open>v === undefined ? undefined : requireId(v)\<close>.\<close>

definition optional_id :: "json option \<Rightarrow> string option checked" where
  "optional_id v = (case v of None \<Rightarrow> Inr None | Some j \<Rightarrow> bindE (requireId (Some j)) (\<lambda>i. Inr (Some i)))"

definition parse_message :: "json \<Rightarrow> SendMessageRequest checked" where
  "parse_message body =
     bindE (requireId (jfield body ''id'')) (\<lambda>i.
     bindE (requireInt (jfield body ''keyEpoch'') 1 MAX_SAFE_INTEGER) (\<lambda>e.
     bindE (optionalString (jfield body ''encryptedPayload'') 1000000) (\<lambda>p.
     bindE (optionalString (jfield body ''iv'') 128) (\<lambda>iv.
     bindE (optional_id (jfield body ''fileR2Key'')) (\<lambda>f.
     bindE (optionalString (jfield body ''fileIv'') 128) (\<lambda>fiv.
     bindE (optionalString (jfield body ''fileMeta'') 8192) (\<lambda>fm.
     bindE (optionalString (jfield body ''fileMetaIv'') 128) (\<lambda>fmiv.
     bindE (optionalString (jfield body ''signature'') 512) (\<lambda>sg.
     bindE (optional_id (jfield body ''deletesMessageId'')) (\<lambda>del.
     Inr \<lparr>sm_id = i, sm_keyEpoch = e, sm_encryptedPayload = p, sm_iv = iv, sm_fileR2Key = f,
          sm_fileIv = fiv, sm_fileMeta = fm, sm_fileMetaIv = fmiv, sm_signature = sg,
          sm_deletesMessageId = del\<rparr>))))))))))"

text \<open>The checks between parsing and the first query, in the code's order.\<close>

definition check_message :: "bool \<Rightarrow> SendMessageRequest \<Rightarrow> unit checked" where
  "check_message hasSigningKey r =
     (let payload = truthy (sm_encryptedPayload r); iv = truthy (sm_iv r); file = truthy (sm_fileR2Key r);
          fileIv = truthy (sm_fileIv r); meta = truthy (sm_fileMeta r); metaIv = truthy (sm_fileMetaIv r);
          deletes = truthy (sm_deletesMessageId r) in
     bindE (throwIf (\<not> payload \<and> iv) (ApiError BadRequest)) (\<lambda>_.
     bindE (throwIf (\<not> file \<and> fileIv) (ApiError BadRequest)) (\<lambda>_.
     bindE (throwIf ((\<not> meta) \<noteq> (\<not> metaIv)) (ApiError BadRequest)) (\<lambda>_.
     bindE (throwIf (file \<and> (\<not> fileIv \<or> \<not> meta \<or> \<not> metaIv)) (ApiError BadRequest)) (\<lambda>_.
     bindE (throwIf (hasSigningKey \<and> \<not> truthy (sm_signature r)) (ApiError BadRequest)) (\<lambda>_.
     bindE (throwIf (deletes \<and> (payload \<or> file \<or> meta)) (ApiError BadRequest)) (\<lambda>_.
     bindE (throwIf (sm_deletesMessageId r = Some (sm_id r)) (ApiError BadRequest)) (\<lambda>_.
     bindE (throwIf (\<not> payload \<and> \<not> file \<and> \<not> deletes) (ApiError BadRequest)) (\<lambda>_.
     bindE (throwIf (payload \<and> \<not> iv) (ApiError BadRequest)) (\<lambda>_.
     throwIf (file \<and> \<not> fileIv) (ApiError BadRequest)))))))))))"

definition new_message :: "AuthContext \<Rightarrow> SendMessageRequest \<Rightarrow> int \<Rightarrow> message_row" where
  "new_message a r now = \<lparr>m_id = sm_id r, m_group_id = au_groupId a, m_sender_device_id = au_deviceId a,
     m_encrypted_payload = sm_encryptedPayload r, m_iv = sm_iv r, m_file_r2_key = sm_fileR2Key r,
     m_file_iv = sm_fileIv r, m_file_meta = sm_fileMeta r, m_file_meta_iv = sm_fileMetaIv r,
     m_key_epoch = sm_keyEpoch r, m_signature = sm_signature r,
     m_deletes_message_id = sm_deletesMessageId r, m_created_at = now\<rparr>"

definition delivery_rows :: "string \<Rightarrow> string list \<Rightarrow> delivery_row list" where
  "delivery_rows i recipients =
     map (\<lambda>d. \<lparr>ds_message_id = i, ds_device_id = d, ds_downloaded_at = None\<rparr>) recipients"

text \<open>The batch of INSERTs; a violated key surfaces as \<open>conflict\<close>.\<close>

definition insert_message :: "AuthContext \<Rightarrow> SendMessageRequest \<Rightarrow> string list \<Rightarrow> int \<Rightarrow> unit handler" where
  "insert_message a r recipients now s =
     (if exists_row (\<lambda>m. m_id m = sm_id r) (messages s) \<or> \<not> distinct recipients
       \<or> exists_row (\<lambda>d. ds_message_id d = sm_id r \<and> ds_device_id d \<in> set recipients) (delivery_status s)
      then (Inl (ApiError Conflict), s)
      else (Inr (), s\<lparr>messages := messages s @ [new_message a r now],
              delivery_status := delivery_status s @ delivery_rows (sm_id r) recipients\<rparr>))"

text \<open>\<open>env.FILES.head(...)\<close>: is there such an object.\<close>

definition files_head :: "string \<Rightarrow> bool handler" where
  "files_head k s = (if FILES_down s then (Inl Thrown, s) else (Inr (bucket_has k (FILES s)), s))"

text \<open>From the recipients on: drop, or check the file and store.\<close>

definition store_message :: "AuthContext \<Rightarrow> SendMessageRequest \<Rightarrow> string list \<Rightarrow> int \<Rightarrow> unit handler" where
  "store_message a r recipients now =
     (if recipients = []
      then (case sm_fileR2Key r of Some k \<Rightarrow> deleteBlob MESSAGE_FILES (au_groupId a) k | None \<Rightarrow> retS ())
      else
        bindS (case sm_fileR2Key r of None \<Rightarrow> retS ()
          | Some k \<Rightarrow> bindS (files_head (blobStorageKey (au_groupId a) k)) (\<lambda>head.
              throwS (\<not> head) (ApiError BadRequest))) (\<lambda>_.
        bindS (insert_message a r recipients now) (\<lambda>_.
        notifySpace (au_groupId a) (au_deviceId a)
          (if truthy (sm_deletesMessageId r) then [] else recipients))))"

text \<open>After the checks: retract, find the recipients, store.\<close>

definition send_accepted :: "AuthContext \<Rightarrow> SendMessageRequest \<Rightarrow> int \<Rightarrow> unit handler" where
  "send_accepted a r now =
     bindS (case sm_deletesMessageId r of None \<Rightarrow> retS False
       | Some i \<Rightarrow> deleteGroupMessage (au_groupId a) i) (\<lambda>_.
     bindS (readS (\<lambda>s. messageRecipients s (au_groupId a) (au_deviceId a))) (\<lambda>recipients.
     store_message a r recipients now))"

definition sendMessage :: "conf \<Rightarrow> request \<Rightarrow> int \<Rightarrow> unit handler" where
  "sendMessage cf rq now =
     bindS (authenticateS cf rq) (\<lambda>a.
     bindS (liftE (enforceRateLimit (RL_WRITE cf) (au_deviceId a))) (\<lambda>_.
     bindS (liftE (request_json cf rq)) (\<lambda>body.
     bindS (liftE (parse_message body)) (\<lambda>r.
     bindS (liftE (check_message (au_hasSigningKey a) r)) (\<lambda>_.
     bindS (readS (\<lambda>s. exists_row (\<lambda>m. m_id m = sm_id r) (messages s))) (\<lambda>existing.
     bindS (throwS existing (ApiError Conflict)) (\<lambda>_.
     bindS (throwS (sm_keyEpoch r \<noteq> au_groupKeyEpoch a) (ApiError KeyRotated)) (\<lambda>_.
     send_accepted a r now))))))))"

section \<open>Receiving\<close>

record PendingMessagesResponse =
  pr_messages :: "PendingMessage list"
  pr_keys :: "PendingKeyDelivery list"
  pr_keyEpoch :: int
  pr_rotationPending :: bool
  pr_spaceName :: "SpaceNameRecord option"
  pr_vaultSeq :: int

definition parse_since :: "number option \<Rightarrow> int checked" where
  "parse_since v = (case (case v of None \<Rightarrow> IntN 0 | Some n \<Rightarrow> n) of
     NotFinite \<Rightarrow> Inl (ApiError BadRequest)
   | IntN i \<Rightarrow> if i < 0 then Inl (ApiError BadRequest) else Inr i
   | FracN i \<Rightarrow> if i < 0 then Inl (ApiError BadRequest) else Inr i)"

definition with_sender :: "env \<Rightarrow> message_row \<Rightarrow> PendingMessage" where
  "with_sender s m =
     (let d = first_row (\<lambda>d. d_id d = m_sender_device_id m \<and> d_group_id d = m_group_id m) (devices s) in
      \<lparr>pm_id = m_id m, pm_keyEpoch = m_key_epoch m, pm_senderDeviceId = m_sender_device_id m,
       pm_senderNameEnc = Option.bind d d_name_enc, pm_senderNameIv = Option.bind d d_name_iv,
       pm_senderNameEpoch = map_option d_name_key_epoch d, pm_encryptedPayload = m_encrypted_payload m,
       pm_iv = m_iv m, pm_fileR2Key = m_file_r2_key m, pm_fileIv = m_file_iv m,
       pm_fileMeta = m_file_meta m, pm_fileMetaIv = m_file_meta_iv m,
       pm_deletesMessageId = m_deletes_message_id m, pm_createdAt = m_created_at m,
       pm_signature = m_signature m\<rparr>)"

text \<open>The messages of the join, one per delivery row that matches.\<close>

definition pending_rows :: "env \<Rightarrow> string \<Rightarrow> int \<Rightarrow> message_row list" where
  "pending_rows s i since =
     concat (map (\<lambda>m. map (\<lambda>_. m) (filter (\<lambda>r. is_pending (m_id m) r \<and> ds_device_id r = i) (delivery_status s)))
       (filter (\<lambda>m. m_created_at m > since) (messages s)))"

definition pendingMessages :: "conf \<Rightarrow> request \<Rightarrow> number option \<Rightarrow> PendingMessagesResponse handler" where
  "pendingMessages cf rq sinceRaw =
     bindS (authenticateS cf rq) (\<lambda>a.
     bindS (liftE (parse_since sinceRaw)) (\<lambda>since.
     readS (\<lambda>s. \<lparr>
       pr_messages = map (with_sender s) (take 200 (sort_key m_created_at (pending_rows s (au_deviceId a) since))),
       pr_keys = pendingKeysFor s (au_groupId a) (au_deviceId a),
       pr_keyEpoch = au_groupKeyEpoch a,
       pr_rotationPending = au_rotationPending a,
       pr_spaceName = spaceNameRecord s (au_groupId a),
       pr_vaultSeq = au_vaultSeq a\<rparr>)))"

definition mark_downloaded :: "string \<Rightarrow> string \<Rightarrow> int \<Rightarrow> env \<Rightarrow> env" where
  "mark_downloaded i device now s = s\<lparr>delivery_status := update_rows
     (\<lambda>r. is_pending i r \<and> ds_device_id r = device) (\<lambda>r. r\<lparr>ds_downloaded_at := Some now\<rparr>) (delivery_status s)\<rparr>"

definition ackMessage :: "conf \<Rightarrow> request \<Rightarrow> string \<Rightarrow> int \<Rightarrow> bool handler" where
  "ackMessage cf rq param now =
     bindS (authenticateS cf rq) (\<lambda>a.
     bindS (liftE (requireId (Some (JStr param)))) (\<lambda>messageId.
     bindS (readS (\<lambda>s. exists_row (\<lambda>m. m_id m = messageId \<and> m_group_id m = au_groupId a) (messages s))) (\<lambda>owned.
     bindS (throwS (\<not> owned) (ApiError NotFound)) (\<lambda>_.
     bindS (writeS (mark_downloaded messageId (au_deviceId a) now)) (\<lambda>_.
     bindS (readS (\<lambda>s. count_rows (is_pending messageId) (delivery_status s))) (\<lambda>pending.
     if pending = 0 then deleteMessageById messageId else retS False))))))"

section \<open>Deletions as sets of messages\<close>

lemma file_keys_simps [simp]:
  "file_keys [] = []" "file_keys (ms @ ms') = file_keys ms @ file_keys ms'"
  "file_keys (m # ms) = (case m_file_r2_key m of None \<Rightarrow> file_keys ms
     | Some k \<Rightarrow> if k = [] then file_keys ms else (m_group_id m, k) # file_keys ms)"
  by (auto simp: file_keys_def List.map_filter_def truthy_def split: option.splits)

lemma fold_delete:
  "fold delete_statements ms s = s\<lparr>
     messages := delete_rows (\<lambda>r. m_id r \<in> m_id ` set ms) (messages s),
     delivery_status := delete_rows (\<lambda>r. ds_message_id r \<in> m_id ` set ms) (delivery_status s),
     uploads := delete_rows (\<lambda>u. b_key u \<in> set (file_keys ms)) (uploads s)\<rparr>"
proof (induction ms arbitrary: s)
  case (Cons m ms)
  have cases: "delete_statements m s = s\<lparr>
     messages := delete_rows (\<lambda>r. m_id r = m_id m) (messages s),
     delivery_status := delete_rows (\<lambda>r. ds_message_id r = m_id m) (delivery_status s),
     uploads := delete_rows (\<lambda>u. b_key u \<in> set (file_keys [m])) (uploads s)\<rparr>"
    by (auto simp: delete_statements_def forgetBlob_def MESSAGE_FILES_def split: option.split)
  have keys: "set (file_keys (m # ms)) = set (file_keys [m]) \<union> set (file_keys ms)"
    by (auto split: option.split)
  show ?case
    unfolding fold_simps Cons cases keys by (simp add: delete_rows_twice del: file_keys_simps)
qed simp

text \<open>What a deletion of \<open>ms\<close> leaves, when R2 answers.\<close>

definition erase_messages :: "message_row list \<Rightarrow> env \<Rightarrow> env" where
  "erase_messages ms s = (fold delete_statements ms s)
     \<lparr>FILES := bucket_delete (map storage_key (file_keys ms)) (FILES s)\<rparr>"

lemma erase_messages_simps [simp]:
  "messages (erase_messages ms s) = delete_rows (\<lambda>r. m_id r \<in> m_id ` set ms) (messages s)"
  "delivery_status (erase_messages ms s) = delete_rows (\<lambda>r. ds_message_id r \<in> m_id ` set ms) (delivery_status s)"
  "FILES (erase_messages ms s) = bucket_delete (map storage_key (file_keys ms)) (FILES s)"
  "uploads (erase_messages ms s) = delete_rows (\<lambda>u. b_key u \<in> set (file_keys ms)) (uploads s)"
  "FILES_down (erase_messages ms s) = FILES_down s"
  "devices (erase_messages ms s) = devices s" "groups (erase_messages ms s) = groups s"
  "key_distribution (erase_messages ms s) = key_distribution s" "notices (erase_messages ms s) = notices s"
  by (simp_all add: erase_messages_def fold_delete)

lemma erase_messages_Nil [simp]: "erase_messages [] s = s"
  by (simp add: erase_messages_def bucket_delete_def)

lemma erase_messages_append: "erase_messages ms' (erase_messages ms s) = erase_messages (ms @ ms') s"
  by (simp add: erase_messages_def fold_delete delete_rows_twice bucket_delete_def image_Un conj_commute)

lemma delete_message_batch_ok:
  "\<not> FILES_down s \<Longrightarrow> delete_message_batch b s = (Inr (), erase_messages b s)"
  by (simp add: delete_message_batch_def bindS_def writeS_def whenS_def retS_def r2_delete_def
      MESSAGE_FILES_def erase_messages_def Let_def fold_delete bucket_delete_def)

lemma deleteMessages_ok:
  "\<not> FILES_down s \<Longrightarrow> deleteMessages ms s = (Inr (), erase_messages ms s)"
proof -
  have "forS bs delete_message_batch s = (Inr (), erase_messages (concat bs) s)" if "\<not> FILES_down s" for bs s
    using that by (induction bs arbitrary: s)
      (simp_all add: retS_def bindS_def delete_message_batch_ok erase_messages_append)
  then show "\<not> FILES_down s \<Longrightarrow> ?thesis"
    unfolding deleteMessages_def by (simp add: concat_batches DELETE_BATCH_SIZE_def)
qed

text \<open>Whatever R2 answers, a deletion of \<open>ms\<close> removes some of them, each one whole.\<close>

definition removes :: "message_row set \<Rightarrow> env \<Rightarrow> env \<Rightarrow> bool" where
  "removes M s s' \<longleftrightarrow> (\<exists>ms f. set ms \<subseteq> M \<and> s' = (fold delete_statements ms s)\<lparr>FILES := f\<rparr>)"

lemma removes_refl: "removes M s s"
  unfolding removes_def by (rule exI [of _ "[]"], rule exI [of _ "FILES s"]) simp

lemma removes_mono: "removes M s s' \<Longrightarrow> M \<subseteq> M' \<Longrightarrow> removes M' s s'"
  unfolding removes_def by blast

lemma removes_trans: "removes M s s' \<Longrightarrow> removes M s' s'' \<Longrightarrow> removes M s s''"
proof -
  assume "removes M s s'" and "removes M s' s''"
  then obtain ms f ms' f' where "set ms \<subseteq> M" "set ms' \<subseteq> M"
    and s': "s' = (fold delete_statements ms s)\<lparr>FILES := f\<rparr>"
    and s'': "s'' = (fold delete_statements ms' s')\<lparr>FILES := f'\<rparr>" unfolding removes_def by blast
  moreover have "s'' = (fold delete_statements (ms @ ms') s)\<lparr>FILES := f'\<rparr>"
    unfolding s'' s' by (simp add: fold_delete delete_rows_twice image_Un)
  ultimately show ?thesis unfolding removes_def by (intro exI [of _ "ms @ ms'"] exI [of _ f']) simp
qed

lemma batch_state:
  "\<exists>f. snd (delete_message_batch b s) = (fold delete_statements b s)\<lparr>FILES := f\<rparr>"
  by (rule exI [of _ "FILES (snd (delete_message_batch b s))"])
     (simp add: delete_message_batch_def bindS_def writeS_def whenS_def retS_def r2_delete_def
        MESSAGE_FILES_def Let_def fold_delete)

lemma removes_batch: "removes (set b) s (snd (delete_message_batch b s))"
  using batch_state [of b s] unfolding removes_def by blast

lemma deleteMessages_gone: "m \<notin> set (messages (snd (deleteMessages [m] s)))"
proof -
  have "batches DELETE_BATCH_SIZE [m] = [[m]]" by (simp add: batches.simps DELETE_BATCH_SIZE_def)
  then have "snd (deleteMessages [m] s) = snd (delete_message_batch [m] s)"
    by (auto simp: deleteMessages_def bindS_def retS_def split: prod.split sum.split)
  moreover obtain f where f: "snd (delete_message_batch [m] s) = (fold delete_statements [m] s)\<lparr>FILES := f\<rparr>"
    using batch_state by blast
  ultimately show ?thesis unfolding f fold_delete by (simp add: set_delete_rows)
qed

lemma removes_deleteMessages: "removes (set ms) s (snd (deleteMessages ms s))"
proof -
  have "removes (set (concat bs)) s (snd (forS bs delete_message_batch s))" for bs
  proof (induction bs arbitrary: s)
    case Nil
    then show ?case by (simp add: retS_def removes_refl)
  next
    case (Cons b bs)
    have b: "removes (set (concat (b # bs))) s (snd (delete_message_batch b s))"
      by (rule removes_mono [OF removes_batch]) simp
    moreover have "removes (set (concat (b # bs))) (snd (delete_message_batch b s))
        (snd (forS bs delete_message_batch (snd (delete_message_batch b s))))"
      by (rule removes_mono [OF Cons.IH]) simp
    ultimately show ?case
      by (auto simp: bindS_def split: prod.split sum.split dest: removes_trans)
  qed
  then have "removes (set (concat (batches DELETE_BATCH_SIZE ms))) s (snd (deleteMessages ms s))"
    unfolding deleteMessages_def .
  then show ?thesis by (simp add: concat_batches DELETE_BATCH_SIZE_def)
qed

section \<open>Purging in rounds\<close>

text \<open>What a purge condition must promise: deleting other messages does not change its verdict.\<close>

locale purge_condition =
  fixes p :: "env \<Rightarrow> message_row \<Rightarrow> bool"
  assumes stable: "m_id m \<notin> m_id ` set ms \<Longrightarrow> p (erase_messages ms s) m = p s m"
begin

lemma next_subset: "set (next_messages p s) \<subseteq> {m \<in> set (messages s). p s m}"
  unfolding next_messages_def by (auto dest!: in_set_takeD)

lemma next_Nil: "next_messages p s = [] \<longleftrightarrow> (\<forall>m \<in> set (messages s). \<not> p s m)"
proof -
  have "next_messages p s = [] \<longleftrightarrow> filter (p s) (messages s) = []"
    using length_sort [of "\<lambda>m. (m_created_at m, m_id m)" "filter (p s) (messages s)"]
    by (auto simp: next_messages_def DELETE_BATCH_SIZE_def simp del: length_sort)
  then show ?thesis by (simp add: filter_empty_conv)
qed

lemma rest:
  assumes "pk m_id (messages s)" and "set ms \<subseteq> {m \<in> set (messages s). p s m}"
  shows "set ms \<union> {m \<in> set (messages (erase_messages ms s)). p (erase_messages ms s) m}
    = {m \<in> set (messages s). p s m}"
proof -
  have out: "m_id m \<in> m_id ` set ms \<longleftrightarrow> m \<in> set ms" if "m \<in> set (messages s)" for m
    using assms that by (intro pk_image_iff) auto
  have "m \<in> set (messages (erase_messages ms s)) \<and> p (erase_messages ms s) m \<longleftrightarrow>
      m \<in> set (messages s) \<and> m \<notin> set ms \<and> p s m" for m
    using out [of m] stable [of m ms s] by (auto simp only: erase_messages_simps set_delete_rows)
  then show ?thesis using assms(2) by blast
qed

lemma loop_ok:
  "pk m_id (messages s) \<Longrightarrow> \<not> FILES_down s \<Longrightarrow> length (messages s) < fuel \<Longrightarrow>
     \<exists>ms. purge_loop fuel p s = (Inr (), erase_messages ms s) \<and> set ms = {m \<in> set (messages s). p s m}"
proof (induction fuel arbitrary: s)
  case (Suc fuel)
  let ?c = "next_messages p s"
  show ?case
  proof (cases "?c = []")
    case True
    then have "{m \<in> set (messages s). p s m} = {}" using next_Nil [of s] by blast
    with True show ?thesis by (intro exI [of _ "[]"]) (simp add: bindS_def readS_def retS_def)
  next
    case False
    let ?s' = "erase_messages ?c s"
    from False obtain m where "m \<in> set ?c" by (cases ?c) auto
    with next_subset [of s] have "length (messages ?s') < length (messages s)"
      by (auto simp: delete_rows_def intro!: length_filter_less)
    then obtain ms where ms: "purge_loop fuel p ?s' = (Inr (), erase_messages ms ?s')"
        "set ms = {m \<in> set (messages ?s'). p ?s' m}"
      using Suc.IH [of ?s'] Suc.prems pk_delete_rows by fastforce
    have "set (?c @ ms) = {m \<in> set (messages s). p s m}"
      using rest [OF Suc.prems(1) next_subset] ms(2) by simp
    with ms(1) False Suc.prems show ?thesis
      by (intro exI [of _ "?c @ ms"]) (simp add: bindS_def readS_def deleteMessages_ok erase_messages_append)
  qed
qed simp

lemma loop_removes: "removes (set (messages s)) s (snd (purge_loop fuel p s))"
proof (induction fuel arbitrary: s)
  case 0
  then show ?case by (simp add: retS_def removes_refl)
next
  case (Suc fuel)
  show ?case
  proof (cases "next_messages p s = []")
    case True
    then show ?thesis by (simp add: bindS_def readS_def retS_def removes_refl)
  next
    case False
    let ?s' = "snd (deleteMessages (next_messages p s) s)"
    have 1: "removes (set (messages s)) s ?s'"
      using next_subset [of s] by (intro removes_mono [OF removes_deleteMessages]) auto
    then have "set (messages ?s') \<subseteq> set (messages s)"
      unfolding removes_def by (auto simp: fold_delete table_simps)
    then have "removes (set (messages s)) s (snd (purge_loop fuel p ?s'))"
      by (intro removes_trans [OF 1] removes_mono [OF Suc.IH])
    with 1 False show ?thesis
      by (auto simp: bindS_def readS_def split: prod.split sum.split)
  qed
qed

end

interpretation delivered: purge_condition "fully_delivered g"
proof
  fix m :: message_row and ms and s :: env assume "m_id m \<notin> m_id ` set (ms :: message_row list)"
  then show "fully_delivered g (erase_messages ms s) m = fully_delivered g s m"
    by (auto simp: fully_delivered_def is_pending_def table_simps)
qed

interpretation aged: purge_condition "expired olderThan"
  by unfold_locales (simp add: expired_def)

lemma purgeDelivered_ok:
  "pk m_id (messages s) \<Longrightarrow> \<not> FILES_down s \<Longrightarrow>
     \<exists>ms. purgeDeliveredMessages g s = (Inr (), erase_messages ms s)
       \<and> set ms = {m \<in> set (messages s). fully_delivered g s m}"
  unfolding purgeDeliveredMessages_def by (rule delivered.loop_ok) simp_all

lemma purgeExpired_ok:
  "pk m_id (messages s) \<Longrightarrow> \<not> FILES_down s \<Longrightarrow>
     \<exists>ms. purgeExpiredMessages t s = (Inr (), erase_messages ms s)
       \<and> set ms = {m \<in> set (messages s). m_created_at m < t}"
  unfolding purgeExpiredMessages_def using aged.loop_ok [of s "Suc (length (messages s))" t]
  by (simp add: expired_def)

section \<open>Every stored message waits for someone\<close>

text \<open>Executable, for the samples; the lemma after it reads better.\<close>

definition messages_ok :: "env \<Rightarrow> bool" where
  "messages_ok s \<longleftrightarrow> pk m_id (messages s) \<and> pk ds_key (delivery_status s)
     \<and> (\<forall>m \<in> set (messages s). exists_row (is_pending (m_id m)) (delivery_status s))
     \<and> (\<forall>r \<in> set (delivery_status s). exists_row (\<lambda>m. m_id m = ds_message_id r
          \<and> (ds_downloaded_at r = None \<longrightarrow> is_member s (m_group_id m) (ds_device_id r))) (messages s))"

lemma messages_ok_removes: "removes M s s' \<Longrightarrow> messages_ok s \<Longrightarrow> messages_ok s'"
proof -
  assume "removes M s s'" and ok: "messages_ok s"
  then obtain ms f where s': "s' = (fold delete_statements ms s)\<lparr>FILES := f\<rparr>" unfolding removes_def by blast
  have member: "is_member s' = is_member s" unfolding s' by (simp add: is_member_def fold_delete fun_eq_iff)
  have "exists_row (is_pending (m_id m)) (delivery_status s')" if "m \<in> set (messages s')" for m
  proof -
    from that have m: "m \<in> set (messages s)" "m_id m \<notin> m_id ` set ms"
      by (auto simp: s' fold_delete table_simps)
    with ok obtain r where "r \<in> set (delivery_status s)" "is_pending (m_id m) r"
      by (auto simp: messages_ok_def table_simps)
    with m(2) show ?thesis by (auto simp: s' fold_delete table_simps is_pending_def)
  qed
  moreover have "exists_row (\<lambda>m. m_id m = ds_message_id r
      \<and> (ds_downloaded_at r = None \<longrightarrow> is_member s (m_group_id m) (ds_device_id r))) (messages s')"
    if "r \<in> set (delivery_status s')" for r
  proof -
    from that have r: "r \<in> set (delivery_status s)" "ds_message_id r \<notin> m_id ` set ms"
      by (simp_all add: s' fold_delete set_delete_rows)
    with ok obtain m where "m \<in> set (messages s)" "m_id m = ds_message_id r"
      "ds_downloaded_at r = None \<longrightarrow> is_member s (m_group_id m) (ds_device_id r)"
      by (auto simp: messages_ok_def table_simps)
    with r(2) show ?thesis unfolding exists_row_iff
      by (intro bexI [of _ m]) (simp_all add: s' fold_delete set_delete_rows)
  qed
  ultimately show ?thesis using ok
    unfolding messages_ok_def member by (simp add: s' fold_delete pk_delete_rows)
qed

section \<open>What the handlers do\<close>

definition named_message :: "string \<Rightarrow> string \<Rightarrow> env \<Rightarrow> message_row list" where
  "named_message g i s = (case first_row (\<lambda>m. m_id m = i \<and> m_group_id m = g) (messages s) of
     None \<Rightarrow> [] | Some m \<Rightarrow> [m])"

lemma deleteMessages_err: "fst (deleteMessages ms s) = Inl e \<Longrightarrow> e = Thrown \<and> FILES_down s"
proof -
  assume e: "fst (deleteMessages ms s) = Inl e"
  have "wp (r2_delete MESSAGE_FILES ks) (\<lambda>_ _. True) (\<lambda>e _. e = Thrown) s" for ks s
    by (simp add: wp_def r2_delete_def)
  then have "wp (deleteMessages ms) (\<lambda>_ _. True) (\<lambda>e _. e = Thrown) s"
    unfolding deleteMessages_def by (intro wp_forS) (simp_all add: delete_message_batch_def wp_simps Let_def)
  with e have "e = Thrown" by (cases "deleteMessages ms s") (simp add: wp_def)
  moreover from e have "FILES_down s" using deleteMessages_ok [of s ms] by (cases "FILES_down s") simp_all
  ultimately show ?thesis by blast
qed

lemma deleteMessages_wp:
  "wp (deleteMessages ms)
     (\<lambda>_ s'. removes (set ms) s s' \<and> (\<not> FILES_down s \<longrightarrow> s' = erase_messages ms s))
     (\<lambda>e s'. e = Thrown \<and> FILES_down s \<and> removes (set ms) s s') s"
proof (cases "deleteMessages ms s")
  case (Pair r s')
  then have "removes (set ms) s s'" using removes_deleteMessages [of ms s] by simp
  moreover have "s' = erase_messages ms s" if "\<not> FILES_down s"
    using Pair deleteMessages_ok [OF that] by simp
  moreover have "e = Thrown \<and> FILES_down s" if "r = Inl e" for e
    using Pair that deleteMessages_err [of ms s e] by simp
  ultimately show ?thesis unfolding wp_def Pair by (cases r) simp_all
qed

lemma deleteGroupMessage_wp:
  "wp (deleteGroupMessage g i)
     (\<lambda>_ s'. removes (set (named_message g i s)) s s' \<and> (\<not> FILES_down s \<longrightarrow> s' = erase_messages (named_message g i s) s))
     (\<lambda>e s'. e = Thrown \<and> FILES_down s \<and> removes (set (named_message g i s)) s s') s"
proof (cases "first_row (\<lambda>m. m_id m = i \<and> m_group_id m = g) (messages s)")
  case None
  then show ?thesis by (simp add: deleteGroupMessage_def wp_simps named_message_def removes_refl)
next
  case (Some m)
  then show ?thesis
    using deleteMessages_wp [of "[m]" s] by (simp add: deleteGroupMessage_def wp_simps named_message_def)
qed

definition touches_files :: "env \<Rightarrow> env \<Rightarrow> bool" where
  "touches_files s s' \<longleftrightarrow> s' = s\<lparr>uploads := uploads s', FILES := FILES s'\<rparr>"

lemma touches_files_refl: "touches_files s s"
  by (simp add: touches_files_def)

lemma deleteBlob_files_wp:
  "wp (deleteBlob MESSAGE_FILES g k) (\<lambda>_ s'. touches_files s s') (\<lambda>e s'. e = Thrown \<and> touches_files s s') s"
proof -
  have "wp (r2_delete MESSAGE_FILES ks) (\<lambda>_ s'. touches_files s s') (\<lambda>e s'. e = Thrown \<and> touches_files s s')
      (forgetBlob MESSAGE_FILES g k s)" for ks
    by (simp add: wp_def r2_delete_def forgetBlob_def MESSAGE_FILES_def touches_files_def)
  then show ?thesis by (simp add: deleteBlob_def wp_simps) (simp add: MESSAGE_FILES_def)
qed

subsection \<open>Sending\<close>

text \<open>Everything a send checks before it writes.\<close>

definition accepted :: "conf \<Rightarrow> request \<Rightarrow> env \<Rightarrow> AuthContext \<Rightarrow> SendMessageRequest \<Rightarrow> bool" where
  "accepted cf rq s a r \<longleftrightarrow> authenticate cf rq s = Inr a
     \<and> bindE (request_json cf rq) parse_message = Inr r \<and> check_message (au_hasSigningKey a) r = Inr ()
     \<and> (\<forall>m \<in> set (messages s). m_id m \<noteq> sm_id r) \<and> sm_keyEpoch r = au_groupKeyEpoch a"

text \<open>The message a tombstone names, if the space has it.\<close>

definition retracted :: "AuthContext \<Rightarrow> SendMessageRequest \<Rightarrow> env \<Rightarrow> message_row list" where
  "retracted a r s = (case sm_deletesMessageId r of None \<Rightarrow> [] | Some i \<Rightarrow> named_message (au_groupId a) i s)"

definition stored :: "AuthContext \<Rightarrow> SendMessageRequest \<Rightarrow> string list \<Rightarrow> int \<Rightarrow> env \<Rightarrow> env" where
  "stored a r recipients now s = s\<lparr>messages := messages s @ [new_message a r now],
     delivery_status := delivery_status s @ delivery_rows (sm_id r) recipients,
     notices := notices s @ [\<lparr>n_group = au_groupId a, n_exclude = au_deviceId a,
       n_push = (if truthy (sm_deletesMessageId r) then [] else recipients)\<rparr>]\<rparr>"

lemma wp_insert_message [wp_simps]:
  "wp (insert_message a r recipients now) Q E = (\<lambda>s.
     if exists_row (\<lambda>m. m_id m = sm_id r) (messages s) \<or> \<not> distinct recipients
       \<or> exists_row (\<lambda>d. ds_message_id d = sm_id r \<and> ds_device_id d \<in> set recipients) (delivery_status s)
     then E (ApiError Conflict) s
     else Q () (s\<lparr>messages := messages s @ [new_message a r now],
            delivery_status := delivery_status s @ delivery_rows (sm_id r) recipients\<rparr>))"
  by (simp add: wp_def insert_message_def fun_eq_iff)

lemma wp_files_head [wp_simps]:
  "wp (files_head k) Q E = (\<lambda>s. if FILES_down s then E Thrown s else Q (bucket_has k (FILES s)) s)"
  by (simp add: wp_def files_head_def fun_eq_iff)

lemma check_message_Inr [guard_simps]:
  "check_message k r = Inr () \<Longrightarrow> truthy (sm_deletesMessageId r) \<Longrightarrow> sm_fileR2Key r = None \<or> sm_fileR2Key r = Some []"
  by (auto simp: check_message_def Let_def guard_simps truthy_def)

lemma optional_id_Inr: "optional_id v = Inr (Some i) \<Longrightarrow> valid_id i"
  by (auto simp: optional_id_def guard_simps split: option.splits)

lemma parse_message_ids:
  "parse_message b = Inr r \<Longrightarrow> valid_id (sm_id r) \<and> (\<forall>i. sm_fileR2Key r = Some i \<longrightarrow> valid_id i)
     \<and> (\<forall>i. sm_deletesMessageId r = Some i \<longrightarrow> valid_id i)"
  unfolding parse_message_def bindE_Inr_iff
  by (elim exE conjE) (auto simp: requireId_Inr dest: optional_id_Inr)

lemma valid_id_truthy: "valid_id i \<Longrightarrow> truthy (Some i)"
  by (simp add: valid_id_def truthy_def)

lemma recipients_distinct: "pk d_id (devices s) \<Longrightarrow> distinct (messageRecipients s g i)"
  unfolding messageRecipients_def pk_def by (rule distinct_map_filter)

lemma recipients_removes: "removes M s s' \<Longrightarrow> messageRecipients s' g i = messageRecipients s g i"
  by (auto simp: removes_def fold_delete messageRecipients_def)

lemma recipients_member: "i \<in> set (messageRecipients s g sender) \<Longrightarrow> is_member s g i \<and> i \<noteq> sender"
  by (auto simp: messageRecipients_def is_member_def table_simps)

lemma no_orphan_delivery:
  "messages_ok s \<Longrightarrow> \<forall>m \<in> set (messages s). m_id m \<noteq> i \<Longrightarrow> r \<in> set (delivery_status s) \<Longrightarrow> ds_message_id r \<noteq> i"
  unfolding messages_ok_def exists_row_iff by metis

lemma store_message_wp:
  assumes "messages_ok s" and "\<forall>m \<in> set (messages s). m_id m \<noteq> sm_id r" and "distinct recipients"
  shows "wp (store_message a r recipients now)
    (\<lambda>_ s'. if recipients = [] then touches_files s s' else s' = stored a r recipients now s)
    (\<lambda>e s'. (e = Thrown \<or> sm_fileR2Key r \<noteq> None \<and> s' = s) \<and> touches_files s s') s"
proof (cases "recipients = []")
  case True
  then show ?thesis
    by (cases "sm_fileR2Key r") (simp_all add: store_message_def wp_simps touches_files_refl
        wp_mono [OF deleteBlob_files_wp])
next
  case False
  have fresh: "\<not> exists_row (\<lambda>m. m_id m = sm_id r) (messages s)"
    "\<not> exists_row (\<lambda>d. ds_message_id d = sm_id r \<and> ds_device_id d \<in> set recipients) (delivery_status s)"
    using assms(2) no_orphan_delivery [OF assms(1,2)] by (auto simp: table_simps)
  then show ?thesis using False assms(3)
    by (cases "sm_fileR2Key r")
       (simp_all add: store_message_def wp_simps notifySpace_def stored_def touches_files_refl)
qed

text \<open>A send that throws has changed nothing, except that when R2 fails the message it retracts may
  be gone, and a reservation with it.\<close>

definition sent :: "AuthContext \<Rightarrow> SendMessageRequest \<Rightarrow> int \<Rightarrow> env \<Rightarrow> env \<Rightarrow> bool" where
  "sent a r now s s' \<longleftrightarrow> (\<exists>s1. removes (set (retracted a r s)) s s1
     \<and> (\<not> FILES_down s \<longrightarrow> s1 = erase_messages (retracted a r s) s)
     \<and> (let recipients = messageRecipients s (au_groupId a) (au_deviceId a) in
        if recipients = [] then touches_files s1 s' else s' = stored a r recipients now s1))"

definition unsent :: "env \<Rightarrow> failure \<Rightarrow> env \<Rightarrow> bool" where
  "unsent s e s' \<longleftrightarrow> s' = s \<or> e = Thrown \<and> (\<exists>M s1. removes M s s1 \<and> touches_files s1 s')"

lemma send_accepted_wp:
  assumes ok: "messages_ok s" and pk: "pk d_id (devices s)" and acc: "accepted cf rq s a r"
  shows "wp (send_accepted a r now) (\<lambda>_. sent a r now s) (unsent s) s"
proof -
  let ?R = "\<lambda>s. messageRecipients s (au_groupId a) (au_deviceId a)"
  have store: "wp (store_message a r (?R s1) now) (\<lambda>_. sent a r now s) (unsent s) s1"
    if rem: "removes (set (retracted a r s)) s s1"
      and up: "\<not> FILES_down s \<longrightarrow> s1 = erase_messages (retracted a r s) s"
      and del: "sm_fileR2Key r \<noteq> None \<longrightarrow> s1 = s" for s1
  proof -
    have fresh: "\<forall>m \<in> set (messages s1). m_id m \<noteq> sm_id r"
      using rem acc by (auto simp: removes_def fold_delete accepted_def table_simps)
    show ?thesis
      unfolding recipients_removes [OF rem]
    proof (rule wp_mono [OF store_message_wp [OF messages_ok_removes [OF rem ok] fresh recipients_distinct [OF pk]]])
      fix s' assume "if ?R s = [] then touches_files s1 s' else s' = stored a r (?R s) now s1"
      then show "sent a r now s s'" unfolding sent_def Let_def using rem up by blast
    next
      fix e s' assume "(e = Thrown \<or> sm_fileR2Key r \<noteq> None \<and> s' = s1) \<and> touches_files s1 s'"
      then show "unsent s e s'" unfolding unsent_def using rem del by blast
    qed
  qed
  show ?thesis
  proof (cases "sm_deletesMessageId r")
    case None
    have "wp (store_message a r (?R s) now) (\<lambda>_. sent a r now s) (unsent s) s"
      by (rule store) (simp_all add: None retracted_def removes_refl)
    with None show ?thesis by (simp add: send_accepted_def wp_simps)
  next
    case (Some i)
    from acc obtain b where b: "parse_message b = Inr r" by (auto simp: accepted_def guard_simps)
    note ids = parse_message_ids [OF b]
    from ids Some have "truthy (sm_deletesMessageId r)" by (simp add: valid_id_truthy)
    then have "sm_fileR2Key r = None \<or> sm_fileR2Key r = Some []"
      using acc check_message_Inr unfolding accepted_def by blast
    with ids have no_file: "sm_fileR2Key r = None" by (auto simp: valid_id_def)
    have eq: "retracted a r s = named_message (au_groupId a) i s" by (simp add: retracted_def Some)
    have "wp (deleteGroupMessage (au_groupId a) i)
        (\<lambda>_ s1. wp (store_message a r (?R s1) now) (\<lambda>_. sent a r now s) (unsent s) s1) (unsent s) s"
    proof (rule wp_mono [OF deleteGroupMessage_wp])
      fix b s1 assume "removes (set (named_message (au_groupId a) i s)) s s1
          \<and> (\<not> FILES_down s \<longrightarrow> s1 = erase_messages (named_message (au_groupId a) i s) s)"
      then show "wp (store_message a r (?R s1) now) (\<lambda>_. sent a r now s) (unsent s) s1"
        by (intro store) (simp_all add: eq no_file)
    next
      fix e s1 assume "e = Thrown \<and> FILES_down s \<and> removes (set (named_message (au_groupId a) i s)) s s1"
      then show "unsent s e s1" unfolding unsent_def using touches_files_refl by blast
    qed
    with Some show ?thesis by (simp add: send_accepted_def wp_simps)
  qed
qed

lemma sendMessage_wp:
  assumes "messages_ok s" and "pk d_id (devices s)"
  shows "wp (sendMessage cf rq now) (\<lambda>_ s'. \<exists>a r. accepted cf rq s a r \<and> sent a r now s s') (unsent s) s"
proof -
  have tail: "wp (send_accepted a r now) (\<lambda>_ s'. \<exists>a r. accepted cf rq s a r \<and> sent a r now s s') (unsent s) s"
    if "accepted cf rq s a r" for a r
    by (rule wp_mono [OF send_accepted_wp [OF assms that]]) (use that in blast)+
  have no: "unsent s e s" for e by (simp add: unsent_def)
  show ?thesis unfolding sendMessage_def wp_simps
    by (auto split: sum.splits simp: no exists_row_iff intro!: tail) (simp add: accepted_def)
qed

lemma removes_same_keys: "removes M s s' \<Longrightarrow> same_keys s s'"
  by (auto simp: removes_def same_keys_def fold_delete)

lemma touches_files_same:
  "touches_files s s' \<Longrightarrow> same_keys s s' \<and> messages s' = messages s \<and> delivery_status s' = delivery_status s"
  unfolding touches_files_def same_keys_def by (erule ssubst) simp

lemma messages_ok_touches: "touches_files s s' \<Longrightarrow> messages_ok s \<Longrightarrow> messages_ok s'"
  using touches_files_same [of s s'] by (simp add: messages_ok_def is_member_def same_keys_def)

lemma messages_ok_stored:
  assumes ok: "messages_ok s" and fresh: "\<forall>m \<in> set (messages s). m_id m \<noteq> sm_id r"
    and rec: "recipients \<noteq> []" "distinct recipients" "\<forall>i \<in> set recipients. is_member s (au_groupId a) i"
  shows "messages_ok (stored a r recipients now s)"
proof -
  let ?s' = "stored a r recipients now s"
  have ms: "messages ?s' = messages s @ [new_message a r now]"
    and ds: "delivery_status ?s' = delivery_status s @ delivery_rows (sm_id r) recipients"
    and mem: "is_member ?s' = is_member s"
    by (simp_all add: stored_def is_member_def fun_eq_iff)
  have old: "ds_message_id d \<noteq> sm_id r" if "d \<in> set (delivery_status s)" for d
    using no_orphan_delivery [OF ok fresh that] .
  have "pk ds_key (delivery_status ?s')"
    using ok rec(2) old unfolding ds
    by (auto simp: pk_def messages_ok_def delivery_rows_def comp_def distinct_map inj_on_def)
  moreover have "exists_row (is_pending (m_id m)) (delivery_status ?s')" if "m \<in> set (messages ?s')" for m
    using that ok rec(1) unfolding ms ds exists_row_append messages_ok_def
    by (cases recipients) (auto simp: new_message_def delivery_rows_def is_pending_def exists_row_def)
  moreover have "exists_row (\<lambda>m. m_id m = ds_message_id d \<and> (ds_downloaded_at d = None \<longrightarrow>
      is_member s (m_group_id m) (ds_device_id d))) (messages ?s')" if "d \<in> set (delivery_status ?s')" for d
    using that ok rec(3) unfolding ms ds exists_row_append messages_ok_def
    by (auto simp: new_message_def delivery_rows_def exists_row_def)
  moreover have "pk m_id (messages ?s')" using ok fresh unfolding ms by (simp add: pk_snoc messages_ok_def new_message_def)
  ultimately show ?thesis unfolding messages_ok_def mem by blast
qed

lemma sent_messages_ok:
  assumes "messages_ok s" and "pk d_id (devices s)" and "accepted cf rq s a r" and "sent a r now s s'"
  shows "messages_ok s' \<and> same_keys s s'"
proof -
  let ?R = "messageRecipients s (au_groupId a) (au_deviceId a)"
  from assms(4) obtain s1 where rem: "removes (set (retracted a r s)) s s1"
    and s': "if ?R = [] then touches_files s1 s' else s' = stored a r ?R now s1"
    by (auto simp: sent_def Let_def)
  have ok1: "messages_ok s1" using messages_ok_removes [OF rem assms(1)] .
  have k1: "same_keys s s1" using removes_same_keys [OF rem] .
  show ?thesis
  proof (cases "?R = []")
    case True
    with s' ok1 k1 messages_ok_touches touches_files_same show ?thesis by (auto simp: same_keys_def)
  next
    case False
    have "\<forall>m \<in> set (messages s1). m_id m \<noteq> sm_id r"
      using rem assms(3) by (auto simp: removes_def fold_delete accepted_def table_simps)
    moreover have "\<forall>i \<in> set ?R. is_member s1 (au_groupId a) i"
      using recipients_member k1 by (fastforce simp: is_member_def same_keys_def)
    ultimately have "messages_ok (stored a r ?R now s1)"
      using messages_ok_stored ok1 False recipients_distinct [OF assms(2)] by blast
    with s' False k1 show ?thesis by (simp add: same_keys_def stored_def)
  qed
qed

lemma unsent_messages_ok: "unsent s e s' \<Longrightarrow> messages_ok s \<Longrightarrow> messages_ok s' \<and> same_keys s s'"
proof -
  assume "unsent s e s'" and ok: "messages_ok s"
  then consider "s' = s" | M s1 where "removes M s s1" "touches_files s1 s'" unfolding unsent_def by blast
  then show ?thesis
  proof cases
    case 2
    then show ?thesis
      using messages_ok_touches [OF 2(2) messages_ok_removes [OF 2(1) ok]] removes_same_keys [OF 2(1)]
        touches_files_same [OF 2(2)] by (simp add: same_keys_def)
  qed (use ok in \<open>simp add: same_keys_def\<close>)
qed

lemma keeps_sendMessage:
  "messages_ok s \<Longrightarrow> pk d_id (devices s) \<Longrightarrow>
     wp (sendMessage cf rq now) (\<lambda>_ s'. messages_ok s' \<and> same_keys s s') (\<lambda>_ s'. messages_ok s' \<and> same_keys s s') s"
  by (rule wp_mono [OF sendMessage_wp]) (auto dest: sent_messages_ok unsent_messages_ok)

subsection \<open>Acknowledging\<close>

lemma mark_downloaded_simps [simp]:
  "messages (mark_downloaded i d now s) = messages s" "devices (mark_downloaded i d now s) = devices s"
  "groups (mark_downloaded i d now s) = groups s" "uploads (mark_downloaded i d now s) = uploads s"
  "key_distribution (mark_downloaded i d now s) = key_distribution s"
  "FILES_down (mark_downloaded i d now s) = FILES_down s" "FILES (mark_downloaded i d now s) = FILES s"
  by (simp_all add: mark_downloaded_def)

definition still_pending :: "string \<Rightarrow> string \<Rightarrow> env \<Rightarrow> bool" where
  "still_pending i d s \<longleftrightarrow> exists_row (\<lambda>r. is_pending i r \<and> ds_device_id r \<noteq> d) (delivery_status s)"

lemma mark_pending:
  "exists_row (is_pending i) (delivery_status (mark_downloaded i d now s)) \<longleftrightarrow> still_pending i d s"
proof -
  have "exists_row (is_pending i) (update_rows (\<lambda>r. is_pending i r \<and> ds_device_id r = d)
        (\<lambda>r. r\<lparr>ds_downloaded_at := Some now\<rparr>) t)
      = exists_row (\<lambda>r. is_pending i r \<and> ds_device_id r \<noteq> d) t" for t
    by (induction t) (auto simp: exists_row_def update_rows_def is_pending_def)
  then show ?thesis by (simp add: mark_downloaded_def still_pending_def)
qed

lemma mark_pending_other:
  "i' \<noteq> i \<Longrightarrow> exists_row (is_pending i') (delivery_status (mark_downloaded i d now s))
     = exists_row (is_pending i') (delivery_status s)"
  unfolding mark_downloaded_def by (simp, rule exists_row_update_other) (simp add: is_pending_def)

text \<open>What an acknowledgement of \<open>m\<close> leaves.\<close>

definition acked :: "AuthContext \<Rightarrow> message_row \<Rightarrow> int \<Rightarrow> env \<Rightarrow> env \<Rightarrow> bool" where
  "acked a m now s s' \<longleftrightarrow> m \<in> set (messages s) \<and> m_group_id m = au_groupId a
     \<and> (let s1 = mark_downloaded (m_id m) (au_deviceId a) now s in
        if still_pending (m_id m) (au_deviceId a) s then s' = s1
        else removes {m} s1 s' \<and> m \<notin> set (messages s') \<and> (\<not> FILES_down s \<longrightarrow> s' = erase_messages [m] s1))"

lemma deleteMessageById_wp:
  assumes "pk m_id (messages s)" and "m \<in> set (messages s)"
  shows "wp (deleteMessageById (m_id m))
      (\<lambda>deleted s'. deleted \<and> removes {m} s s' \<and> m \<notin> set (messages s') \<and> (\<not> FILES_down s \<longrightarrow> s' = erase_messages [m] s))
      (\<lambda>e s'. e = Thrown \<and> FILES_down s \<and> removes {m} s s' \<and> m \<notin> set (messages s')) s"
proof -
  have row: "first_row (\<lambda>x. m_id x = m_id m) (messages s) = Some m"
    by (rule messages_table.lookup_unique [OF assms])
  have "wp (deleteMessages [m])
      (\<lambda>_ s'. removes {m} s s' \<and> m \<notin> set (messages s') \<and> (\<not> FILES_down s \<longrightarrow> s' = erase_messages [m] s))
      (\<lambda>e s'. e = Thrown \<and> FILES_down s \<and> removes {m} s s' \<and> m \<notin> set (messages s')) s"
    using deleteMessages_wp [of "[m]" s] deleteMessages_gone [of m s]
    by (cases "deleteMessages [m] s"; cases "fst (deleteMessages [m] s)") (simp_all add: wp_def)
  then show ?thesis unfolding deleteMessageById_def by (simp add: wp_simps row)
qed

lemma ackMessage_wp:
  assumes pk: "pk m_id (messages s)"
  shows "wp (ackMessage cf rq i now)
    (\<lambda>deleted s'. \<exists>a m. authenticate cf rq s = Inr a \<and> m_id m = i \<and> acked a m now s s'
       \<and> deleted = (\<not> still_pending i (au_deviceId a) s))
    (\<lambda>e s'. s' = s \<or> e = Thrown \<and> FILES_down s \<and> (\<exists>a m. authenticate cf rq s = Inr a \<and> m_id m = i
       \<and> acked a m now s s' \<and> \<not> still_pending i (au_deviceId a) s)) s"
proof -
  define Q where "Q deleted s' \<longleftrightarrow> (\<exists>a m. authenticate cf rq s = Inr a \<and> m_id m = i \<and> acked a m now s s'
     \<and> deleted = (\<not> still_pending i (au_deviceId a) s))" for deleted s'
  define E where "E e s' \<longleftrightarrow> s' = s \<or> e = Thrown \<and> FILES_down s \<and> (\<exists>a m. authenticate cf rq s = Inr a
     \<and> m_id m = i \<and> acked a m now s s' \<and> \<not> still_pending i (au_deviceId a) s)" for e s'
  have unchanged: "E e s" for e by (simp add: E_def)
  have zero: "(count_rows c t = 0) = (\<not> exists_row c t)" for c and t :: "delivery_row table"
    by (simp add: table_simps)
  have fin: "wp (if count_rows (is_pending (m_id m)) (delivery_status (mark_downloaded (m_id m) (au_deviceId a) now s)) = 0
        then deleteMessageById (m_id m) else retS False) Q E (mark_downloaded (m_id m) (au_deviceId a) now s)"
    if a: "authenticate cf rq s = Inr a" and m: "m \<in> set (messages s)" "m_group_id m = au_groupId a"
      and i: "m_id m = i" for a m
  proof (cases "still_pending i (au_deviceId a) s")
    case True
    with a m i have "acked a m now s (mark_downloaded i (au_deviceId a) now s)"
      by (simp add: acked_def Let_def)
    then have "Q False (mark_downloaded i (au_deviceId a) now s)" unfolding Q_def using True a i by blast
    with True i show ?thesis by (simp add: zero mark_pending wp_simps)
  next
    case False
    let ?s1 = "mark_downloaded i (au_deviceId a) now s"
    have ack: "acked a m now s s'" if "removes {m} ?s1 s'" "m \<notin> set (messages s')"
        "\<not> FILES_down s \<longrightarrow> s' = erase_messages [m] ?s1" for s'
      using False m i that by (simp add: acked_def Let_def)
    have "wp (deleteMessageById (m_id m)) Q E ?s1"
    proof (rule wp_mono [OF deleteMessageById_wp])
      fix d s' assume "d \<and> removes {m} ?s1 s' \<and> m \<notin> set (messages s')
          \<and> (\<not> FILES_down ?s1 \<longrightarrow> s' = erase_messages [m] ?s1)"
      then show "Q d s'" unfolding Q_def using ack [of s'] a i False by auto
    next
      fix e s' assume "e = Thrown \<and> FILES_down ?s1 \<and> removes {m} ?s1 s' \<and> m \<notin> set (messages s')"
      then show "E e s'" unfolding E_def using ack [of s'] a i False by auto
    qed (use pk m in simp_all)
    then show ?thesis using False i by (simp add: zero mark_pending)
  qed
  have "wp (ackMessage cf rq i now) Q E s"
    unfolding ackMessage_def wp_bindS wp_authenticateS wp_liftE wp_readS wp_throwS wp_writeS
    apply (auto split: sum.splits simp: exists_row_iff requireId_Inr unchanged)
    subgoal for a m using fin [of a m] by simp
    subgoal for a m using fin [of a m] by simp
    done
  then show ?thesis unfolding Q_def E_def .
qed

lemma messages_ok_mark:
  assumes ok: "messages_ok s" and other: "still_pending i d s"
  shows "messages_ok (mark_downloaded i d now s)"
proof -
  let ?s' = "mark_downloaded i d now s"
  have "pk ds_key (delivery_status ?s')" using ok by (simp add: mark_downloaded_def messages_ok_def pk_update_rows)
  moreover have "exists_row (is_pending (m_id m)) (delivery_status ?s')" if "m \<in> set (messages s)" for m
    using that ok other mark_pending [of i d now s] mark_pending_other [of "m_id m" i d now s]
    by (cases "m_id m = i") (simp_all add: messages_ok_def)
  moreover have "\<forall>r \<in> set (delivery_status ?s'). exists_row (\<lambda>m. m_id m = ds_message_id r
      \<and> (ds_downloaded_at r = None \<longrightarrow> is_member s (m_group_id m) (ds_device_id r))) (messages s)"
  proof -
    have "exists_row (\<lambda>m. m_id m = ds_message_id r) (messages s)" if "r \<in> set (delivery_status s)" for r
      using ok that unfolding messages_ok_def exists_row_iff by blast
    then show ?thesis using ok by (simp add: mark_downloaded_def ball_update_rows messages_ok_def)
  qed
  moreover have "is_member ?s' = is_member s" by (simp add: is_member_def fun_eq_iff)
  ultimately show ?thesis using ok by (simp add: messages_ok_def)
qed

text \<open>Marking and removing commute, so the last acknowledgement passes through no state without
  a waiting message.\<close>

lemma erase_mark:
  "m \<in> set ms \<Longrightarrow> (fold delete_statements ms (mark_downloaded (m_id m) d now s))\<lparr>FILES := f\<rparr>
     = (fold delete_statements ms s)\<lparr>FILES := f\<rparr>"
proof -
  assume "m \<in> set ms"
  then have "delete_rows (\<lambda>r. ds_message_id r \<in> m_id ` set ms) (delivery_status (mark_downloaded (m_id m) d now s))
      = delete_rows (\<lambda>r. ds_message_id r \<in> m_id ` set ms) (delivery_status s)"
  proof -
    have "filter (\<lambda>r. ds_message_id r \<notin> m_id ` set ms) (map (\<lambda>r. if is_pending (m_id m) r \<and> ds_device_id r = d
        then r\<lparr>ds_downloaded_at := Some now\<rparr> else r) t) = filter (\<lambda>r. ds_message_id r \<notin> m_id ` set ms) t" for t
      using \<open>m \<in> set ms\<close> by (induction t) (auto simp: is_pending_def)
    then show ?thesis by (simp add: delete_rows_def mark_downloaded_def update_rows_def)
  qed
  then show ?thesis unfolding fold_delete by (simp add: mark_downloaded_def)
qed

lemma acked_messages_ok:
  assumes ok: "messages_ok s" and ack: "acked a m now s s'"
  shows "messages_ok s' \<and> same_keys s s'"
proof (cases "still_pending (m_id m) (au_deviceId a) s")
  case True
  with ack messages_ok_mark [OF ok True] show ?thesis by (simp add: acked_def Let_def same_keys_def)
next
  case False
  with ack have rem: "removes {m} (mark_downloaded (m_id m) (au_deviceId a) now s) s'"
    and gone: "m \<notin> set (messages s')" and m: "m \<in> set (messages s)" by (simp_all add: acked_def Let_def)
  from rem obtain ms f where ms: "set ms \<subseteq> {m}"
    and s': "s' = (fold delete_statements ms (mark_downloaded (m_id m) (au_deviceId a) now s))\<lparr>FILES := f\<rparr>"
    unfolding removes_def by blast
  have "m \<in> set ms"
  proof (rule ccontr)
    assume "m \<notin> set ms"
    with ms have "ms = []" by (cases ms) auto
    with s' gone m show False by simp
  qed
  then have "s' = (fold delete_statements ms s)\<lparr>FILES := f\<rparr>" unfolding s' by (rule erase_mark)
  then have "removes {m} s s'" unfolding removes_def using ms by blast
  then show ?thesis using messages_ok_removes ok removes_same_keys by blast
qed

lemma keeps_ackMessage:
  "messages_ok s \<Longrightarrow>
     wp (ackMessage cf rq i now) (\<lambda>_ s'. messages_ok s' \<and> same_keys s s') (\<lambda>_ s'. messages_ok s' \<and> same_keys s s') s"
proof (rule wp_mono [OF ackMessage_wp])
  assume ok: "messages_ok s"
  show "pk m_id (messages s)" using ok by (simp add: messages_ok_def)
qed (auto dest: acked_messages_ok)

lemma named_message_subset: "set (named_message g i s) \<subseteq> set (messages s)"
proof (cases "first_row (\<lambda>m. m_id m = i \<and> m_group_id m = g) (messages s)")
  case (Some m)
  from first_row_Some [OF this] Some show ?thesis by (simp add: named_message_def)
qed (simp add: named_message_def)

lemma retracted_subset: "set (retracted a r s) \<subseteq> set (messages s)"
  by (cases "sm_deletesMessageId r") (simp_all add: retracted_def named_message_subset)

section \<open>Properties\<close>

text \<open>C2. What a send stores. When \<open>sendMessage\<close> succeeds in a space with other devices that receive,
  the message was encrypted under the space's current key, its id was new, it is stored once, and
  the delivery rows added are exactly one pending row for each active device of the space that
  receives, the sender excepted; a tombstone wakes no closed app.\<close>

theorem sendMessage_stores:
  assumes "messages_ok s" and "pk d_id (devices s)" and "\<not> FILES_down s"
    and "sendMessage cf rq now s = (Inr (), s')"
  shows "\<exists>a r. accepted cf rq s a r \<and>
    (let recipients = messageRecipients s (au_groupId a) (au_deviceId a) in recipients \<noteq> [] \<longrightarrow>
       messages s' = delete_rows (\<lambda>m. m \<in> set (retracted a r s)) (messages s) @ [new_message a r now]
     \<and> m_key_epoch (new_message a r now) = au_groupKeyEpoch a
     \<and> filter (\<lambda>d. ds_message_id d = sm_id r) (delivery_status s') = delivery_rows (sm_id r) recipients
     \<and> notices s' = notices s @ [\<lparr>n_group = au_groupId a, n_exclude = au_deviceId a,
          n_push = (if sm_deletesMessageId r = None then recipients else [])\<rparr>])"
proof -
  from wpD [OF sendMessage_wp [OF assms(1,2)] assms(4)] obtain a r where
    acc: "accepted cf rq s a r" and "sent a r now s s'" by blast
  let ?R = "messageRecipients s (au_groupId a) (au_deviceId a)"
  have s': "s' = stored a r ?R now (erase_messages (retracted a r s) s)" if "?R \<noteq> []"
    using \<open>sent a r now s s'\<close> assms(3) that unfolding sent_def Let_def by auto
  have ids: "m_id x \<in> m_id ` set (retracted a r s) \<longleftrightarrow> x \<in> set (retracted a r s)" if "x \<in> set (messages s)" for x
    using assms(1) that retracted_subset by (intro pk_image_iff) (auto simp: messages_ok_def)
  then have del: "delete_rows (\<lambda>m. m_id m \<in> m_id ` set (retracted a r s)) (messages s)
      = delete_rows (\<lambda>m. m \<in> set (retracted a r s)) (messages s)"
    unfolding delete_rows_def by (intro filter_cong) simp_all
  from acc have "\<forall>m \<in> set (messages s). m_id m \<noteq> sm_id r" by (simp add: accepted_def)
  then have "\<forall>d \<in> set (delivery_status s). ds_message_id d \<noteq> sm_id r"
    using no_orphan_delivery [OF assms(1)] by blast
  then have rows: "filter (\<lambda>d. ds_message_id d = sm_id r)
      (delivery_status (stored a r ?R now (erase_messages ms s))) = delivery_rows (sm_id r) ?R" for ms
    by (auto simp: stored_def delete_rows_def delivery_rows_def filter_empty_conv intro!: filter_True)
  obtain b where "parse_message b = Inr r" using acc by (auto simp: accepted_def guard_simps)
  then have "truthy (sm_deletesMessageId r) \<longleftrightarrow> sm_deletesMessageId r \<noteq> None"
    using parse_message_ids [of b r] by (cases "sm_deletesMessageId r") (auto simp: truthy_def valid_id_def)
  with acc s' rows del show ?thesis
    by (intro exI [of _ a] exI [of _ r]) (simp add: Let_def stored_def new_message_def accepted_def)
qed

text \<open>A send that fails leaves the database as it was. Whatever the request, when \<open>sendMessage\<close>
  throws an API error nothing has been written: no row, no object, no notification.\<close>

theorem sendMessage_error_unchanged:
  assumes "messages_ok s" and "pk d_id (devices s)" and "sendMessage cf rq now s = (Inl (ApiError c), s')"
  shows "s' = s"
  using wpD_err [OF sendMessage_wp [OF assms(1,2)] assms(3)] by (simp add: unsent_def)

text \<open>C3. An acknowledgement acts inside the caller's space only: every message of another space is
  still stored, with the delivery rows it had, whatever id the caller names.\<close>

theorem ackMessage_isolated:
  assumes "messages_ok s" and "ackMessage cf rq i now s = (r, s')" and "authenticate cf rq s = Inr a"
    and "m \<in> set (messages s)" and "m_group_id m \<noteq> au_groupId a"
  shows "m \<in> set (messages s') \<and> filter (\<lambda>d. ds_message_id d = m_id m) (delivery_status s')
    = filter (\<lambda>d. ds_message_id d = m_id m) (delivery_status s)"
proof -
  have pk: "pk m_id (messages s)" using assms(1) by (simp add: messages_ok_def)
  have mark: "filter (\<lambda>d. ds_message_id d = m_id m) (delivery_status (mark_downloaded i d now s))
      = filter (\<lambda>d. ds_message_id d = m_id m) (delivery_status s)" if "i \<noteq> m_id m" for i d
  proof -
    have "filter (\<lambda>d. ds_message_id d = m_id m) (update_rows (\<lambda>r. is_pending i r \<and> ds_device_id r = d)
        (\<lambda>r. r\<lparr>ds_downloaded_at := Some now\<rparr>) t) = filter (\<lambda>d. ds_message_id d = m_id m) t" for t
      using that by (induction t) (auto simp: update_rows_def is_pending_def)
    then show ?thesis by (simp add: mark_downloaded_def)
  qed
  have iso: ?thesis if "acked a x now s s'" for x
  proof -
    from that have x: "x \<in> set (messages s)" "m_group_id x = au_groupId a" by (simp_all add: acked_def)
    with assms(4,5) pk have ne: "m_id x \<noteq> m_id m" using pk_unique by metis
    let ?s1 = "mark_downloaded (m_id x) (au_deviceId a) now s"
    from that have "removes {x} ?s1 s'"
      by (cases "still_pending (m_id x) (au_deviceId a) s") (simp_all add: acked_def Let_def removes_refl)
    then obtain ms f where ms: "set ms \<subseteq> {x}" and s': "s' = (fold delete_statements ms ?s1)\<lparr>FILES := f\<rparr>"
      unfolding removes_def by blast
    have out: "m_id m \<notin> m_id ` set ms" using ms ne by auto
    then have "filter (\<lambda>d. ds_message_id d = m_id m) (delete_rows (\<lambda>r. ds_message_id r \<in> m_id ` set ms) t)
        = filter (\<lambda>d. ds_message_id d = m_id m) t" for t :: "delivery_row table"
      by (induction t) (auto simp: delete_rows_def)
    with mark [OF ne] out assms(4) show ?thesis
      unfolding s' fold_delete by (simp add: set_delete_rows)
  qed
  show ?thesis
  proof (cases r)
    case (Inl e)
    with wpD_err [OF ackMessage_wp [OF pk]] assms(2) have "s' = s \<or> (\<exists>x. acked a x now s s')"
      using assms(3) by fastforce
    with iso assms(4) show ?thesis by auto
  next
    case (Inr d)
    with wpD [OF ackMessage_wp [OF pk]] assms(2,3) iso show ?thesis by fastforce
  qed
qed

text \<open>The last acknowledgement deletes. When no other device still waits for a message of the
  caller's space, acknowledging it answers \<open>deleted\<close> and leaves no message row, no delivery row,
  no accounting row and no object of it; while another device waits, the message stays.\<close>

theorem ackMessage_last_deletes:
  assumes "messages_ok s" and "\<not> FILES_down s" and "authenticate cf rq s = Inr a"
    and "m \<in> set (messages s)" and "m_group_id m = au_groupId a" and "valid_id (m_id m)"
    and "ackMessage cf rq (m_id m) now s = (r, s')"
  shows "r = Inr (\<not> still_pending (m_id m) (au_deviceId a) s)
    \<and> (if still_pending (m_id m) (au_deviceId a) s then m \<in> set (messages s')
       else m \<notin> set (messages s') \<and> (\<forall>d \<in> set (delivery_status s'). ds_message_id d \<noteq> m_id m)
         \<and> (\<forall>k. m_file_r2_key m = Some k \<and> k \<noteq> [] \<longrightarrow> \<not> bucket_has (blobStorageKey (m_group_id m) k) (FILES s')
              \<and> (\<forall>u \<in> set (uploads s'). b_key u \<noteq> (m_group_id m, k))))"
proof -
  have pk: "pk m_id (messages s)" using assms(1) by (simp add: messages_ok_def)
  have "\<exists>d. r = Inr d"
  proof (cases r)
    case (Inl e)
    with wpD_err [OF ackMessage_wp [OF pk]] assms(2,7) have "s' = s" by blast
    have "exists_row (\<lambda>x. m_id x = m_id m \<and> m_group_id x = au_groupId a) (messages s)"
      using assms(4,5) by (auto simp: exists_row_iff)
    with Inl assms(2,3,6,7) deleteMessageById_wp [of "mark_downloaded (m_id m) (au_deviceId a) now s" m] pk assms(4)
    show ?thesis
      by (auto simp: ackMessage_def bindS_def authenticateS_def liftE_def readS_def throwS_def throwIf_def writeS_def
          requireId_Inr [THEN iffD2] retS_def wp_def split: if_splits prod.splits sum.splits)
  qed simp
  then obtain d where d: "r = Inr d" by blast
  from wpD [OF ackMessage_wp [OF pk]] assms(3,7) d obtain x where
    x: "m_id x = m_id m" "acked a x now s s'" "d = (\<not> still_pending (m_id m) (au_deviceId a) s)" by fastforce
  then have "x = m" using pk_unique [OF pk] assms(4) by (auto simp: acked_def)
  with x assms(2,4) show ?thesis unfolding d
    by (auto simp: acked_def Let_def set_delete_rows bucket_has_def image_iff split: if_splits)
qed

text \<open>C4. What a poll returns. \<open>pendingMessages\<close> changes nothing and lists, oldest first and at most
  200 at a time, messages of the caller's own space that are still pending for the calling device;
  when fewer than 200 are listed, none newer than \<open>since\<close> is missing.\<close>

theorem pendingMessages_exact:
  assumes "messages_ok s" and "pk d_id (devices s)" and "pendingMessages cf rq v s = (Inr resp, s')"
  shows "s' = s \<and> (\<exists>a since. authenticate cf rq s = Inr a \<and> parse_since v = Inr since
    \<and> sorted (map pm_createdAt (pr_messages resp)) \<and> length (pr_messages resp) \<le> 200
    \<and> (\<forall>p \<in> set (pr_messages resp). \<exists>m \<in> set (messages s). p = with_sender s m
         \<and> m_group_id m = au_groupId a \<and> m_created_at m > since
         \<and> exists_row (\<lambda>r. is_pending (m_id m) r \<and> ds_device_id r = au_deviceId a) (delivery_status s))
    \<and> (length (pr_messages resp) < 200 \<longrightarrow> (\<forall>m \<in> set (messages s). m_created_at m > since
         \<and> exists_row (\<lambda>r. is_pending (m_id m) r \<and> ds_device_id r = au_deviceId a) (delivery_status s)
         \<longrightarrow> with_sender s m \<in> set (pr_messages resp))))"
proof -
  have "wp (pendingMessages cf rq v) (\<lambda>x t. t = s \<and> (\<exists>a since. authenticate cf rq s = Inr a \<and> parse_since v = Inr since
      \<and> pr_messages x = map (with_sender s) (take 200 (sort_key m_created_at (pending_rows s (au_deviceId a) since)))))
      (\<lambda>_ _. True) s"
    unfolding pendingMessages_def wp_simps by (auto split: sum.splits)
  from wpD [OF this assms(3)] obtain a since where s': "s' = s" and a: "authenticate cf rq s = Inr a"
    and since: "parse_since v = Inr since"
    and msgs: "pr_messages resp = map (with_sender s) (take 200 (sort_key m_created_at (pending_rows s (au_deviceId a) since)))"
    by blast
  let ?rows = "sort_key m_created_at (pending_rows s (au_deviceId a) since)"
  let ?p = "\<lambda>m. exists_row (\<lambda>r. is_pending (m_id m) r \<and> ds_device_id r = au_deviceId a) (delivery_status s)"
  have rows: "set ?rows = {m \<in> set (messages s). m_created_at m > since \<and> ?p m}"
    by (auto simp: pending_rows_def exists_row_iff)
  from authenticate_device [OF a] obtain d where
    d: "d \<in> set (devices s)" "d_id d = au_deviceId a" "d_group_id d = au_groupId a" by blast
  have group: "m_group_id m = au_groupId a" if "m \<in> set (messages s)" "?p m" for m
  proof -
    from that(2) obtain r where r: "r \<in> set (delivery_status s)" "ds_message_id r = m_id m"
        "ds_downloaded_at r = None" "ds_device_id r = au_deviceId a"
      by (auto simp: exists_row_iff is_pending_def)
    with assms(1) obtain m' where "m' \<in> set (messages s)" "m_id m' = m_id m"
        "is_member s (m_group_id m') (au_deviceId a)"
      unfolding messages_ok_def exists_row_iff by metis
    then have "is_member s (m_group_id m) (au_deviceId a)"
      using assms(1) that(1) pk_unique unfolding messages_ok_def by metis
    then obtain d' where "d' \<in> set (devices s)" "d_id d' = au_deviceId a" "d_group_id d' = m_group_id m"
      by (auto simp: is_member_def exists_row_iff)
    with d pk_unique [OF assms(2)] show ?thesis by metis
  qed
  have created: "pm_createdAt (with_sender s m) = m_created_at m" for m by (simp add: with_sender_def Let_def)
  have "sorted (map pm_createdAt (pr_messages resp))"
    unfolding msgs by (simp add: comp_def created take_map [symmetric] sorted_wrt_take)
  moreover have "with_sender s m \<in> set (pr_messages resp)"
    if "length (pr_messages resp) < 200" "m \<in> set ?rows" for m
    using that unfolding msgs by simp
  moreover have "\<forall>p \<in> set (pr_messages resp). \<exists>m \<in> set ?rows. p = with_sender s m"
    unfolding msgs by (fastforce dest: in_set_takeD)
  ultimately show ?thesis unfolding s' using a since rows group msgs
    by (intro conjI exI [of _ a] exI [of _ since]) fastforce+
qed

text \<open>C5. The purges end, whatever there is to purge, and remove exactly what they are for: all fully
  delivered messages of a space, or all messages older than a time, and no other message.\<close>

theorem purges_terminate_exactly:
  assumes "pk m_id (messages s)" and "\<not> FILES_down s"
  shows "(\<exists>s'. purgeDeliveredMessages g s = (Inr (), s')
       \<and> messages s' = delete_rows (fully_delivered g s) (messages s))
    \<and> (\<exists>s'. purgeExpiredMessages t s = (Inr (), s')
       \<and> messages s' = delete_rows (\<lambda>m. m_created_at m < t) (messages s))"
proof -
  have rows: "messages (erase_messages ms s) = delete_rows p (messages s)"
    if "set ms = {m \<in> set (messages s). p m}" for ms p
  proof -
    have "m_id m \<in> m_id ` set ms \<longleftrightarrow> p m" if "m \<in> set (messages s)" for m
      using pk_image_iff [OF assms(1) _ that, of "set ms"] that \<open>set ms = _\<close> by auto
    then show ?thesis by (simp add: delete_rows_def cong: filter_cong)
  qed
  show ?thesis using purgeDelivered_ok [OF assms, of g] purgeExpired_ok [OF assms, of t] rows by metis
qed

section \<open>At concrete inputs\<close>

definition sample_message :: "string \<Rightarrow> string \<Rightarrow> string \<Rightarrow> string option \<Rightarrow> message_row" where
  "sample_message i g sender file = \<lparr>m_id = i, m_group_id = g, m_sender_device_id = sender,
     m_encrypted_payload = Some ''x'', m_iv = Some ''v'', m_file_r2_key = file, m_file_iv = file,
     m_file_meta = file, m_file_meta_iv = file, m_key_epoch = 1, m_signature = None,
     m_deletes_message_id = None, m_created_at = 5\<rparr>"

text \<open>Two spaces; \<open>b\<close> sent \<open>m\<close>, with a file, to \<open>a\<close>, and \<open>z\<close> is another space's message.\<close>

definition mail_env :: env where
  "mail_env = (sample_env [sample_group ''g'' 1 False, sample_group ''h'' 1 False]
     [sample_device ''g'' ''a'' Owner 1, sample_device ''g'' ''b'' Member 1, sample_device ''h'' ''y'' Owner 1])
     \<lparr>messages := [sample_message ''m'' ''g'' ''b'' (Some ''f''), sample_message ''z'' ''h'' ''x'' None],
      delivery_status := delivery_rows ''m'' [''a''] @ delivery_rows ''z'' [''y''],
      uploads := [\<lparr>b_group_id = ''g'', b_r2_key = ''f'', b_size = 3, b_created_at = 5\<rparr>],
      FILES := [(''g/f'', 3)]\<rparr>"

definition send_body :: json where
  "send_body = JObj [(''id'', JStr ''n''), (''keyEpoch'', JNum (IntN 1)),
     (''encryptedPayload'', JStr ''x''), (''iv'', JStr ''v'')]"

theorem sendMessage_stores_witness:
  "\<exists>r. messages (snd (sendMessage (sample_conf send_body) (sample_request ''a'') 9 mail_env))
      = delete_rows (\<lambda>m. m \<in> set (retracted (auth_context (sample_device ''g'' ''a'' Owner 1)
          (sample_group ''g'' 1 False)) r mail_env)) (messages mail_env)
        @ [new_message (auth_context (sample_device ''g'' ''a'' Owner 1) (sample_group ''g'' 1 False)) r 9]"
proof -
  let ?r = "sendMessage (sample_conf send_body) (sample_request ''a'') 9 mail_env"
  let ?a = "auth_context (sample_device ''g'' ''a'' Owner 1) (sample_group ''g'' 1 False)"
  have r: "?r = (Inr (), snd ?r)" by (rule run_fst) code_simp
  have auth: "authenticate (sample_conf send_body) (sample_request ''a'') mail_env = Inr ?a" by code_simp
  have rec: "messageRecipients mail_env (au_groupId ?a) (au_deviceId ?a) = [''b'']" by code_simp
  have "messages_ok mail_env" "pk d_id (devices mail_env)" "\<not> FILES_down mail_env" by code_simp+
  from sendMessage_stores [OF this r] obtain a r where acc: "accepted (sample_conf send_body) (sample_request ''a'') mail_env a r"
    and post: "let recipients = messageRecipients mail_env (au_groupId a) (au_deviceId a) in recipients \<noteq> [] \<longrightarrow>
       messages (snd ?r) = delete_rows (\<lambda>m. m \<in> set (retracted a r mail_env)) (messages mail_env) @ [new_message a r 9]"
    unfolding Let_def by blast
  from acc auth have "a = ?a" by (simp add: accepted_def)
  with post rec show ?thesis by (auto simp: Let_def)
qed

theorem sendMessage_error_unchanged_witness:
  "snd (sendMessage (sample_conf (JObj [])) (sample_request ''a'') 9 mail_env) = mail_env"
proof -
  have "messages_ok mail_env" "pk d_id (devices mail_env)" by code_simp+
  then show ?thesis
    by (rule sendMessage_error_unchanged [where c = BadRequest]) (rule run_fst, code_simp)
qed

theorem ackMessage_isolated_witness:
  "sample_message ''z'' ''h'' ''x'' None
     \<in> set (messages (snd (ackMessage (sample_conf JNull) (sample_request ''a'') ''z'' 9 mail_env)))"
proof -
  have "messages_ok mail_env" by code_simp
  from ackMessage_isolated [OF this surjective_pairing, of "sample_conf JNull" "sample_request ''a''"
      "auth_context (sample_device ''g'' ''a'' Owner 1) (sample_group ''g'' 1 False)" "sample_message ''z'' ''h'' ''x'' None" "''z''" 9]
  show ?thesis by (rule conjunct1) code_simp+
qed

theorem ackMessage_last_deletes_witness:
  "fst (ackMessage (sample_conf JNull) (sample_request ''a'') ''m'' 9 mail_env) = Inr True"
proof -
  let ?m = "sample_message ''m'' ''g'' ''b'' (Some ''f'')"
  let ?a = "auth_context (sample_device ''g'' ''a'' Owner 1) (sample_group ''g'' 1 False)"
  have "messages_ok mail_env" "\<not> FILES_down mail_env"
    "authenticate (sample_conf JNull) (sample_request ''a'') mail_env = Inr ?a"
    "?m \<in> set (messages mail_env)" "m_group_id ?m = au_groupId ?a" "valid_id (m_id ?m)" by code_simp+
  from ackMessage_last_deletes [OF this surjective_pairing, of 9]
  have "fst (ackMessage (sample_conf JNull) (sample_request ''a'') (m_id ?m) 9 mail_env)
      = Inr (\<not> still_pending (m_id ?m) (au_deviceId ?a) mail_env)" by blast
  moreover have "\<not> still_pending (m_id ?m) (au_deviceId ?a) mail_env" "m_id ?m = ''m''" by code_simp+
  ultimately show ?thesis by simp
qed

theorem pendingMessages_exact_witness:
  "snd (pendingMessages (sample_conf JNull) (sample_request ''a'') None mail_env) = mail_env
   \<and> map_sum id (map pm_id \<circ> pr_messages) (fst (pendingMessages (sample_conf JNull) (sample_request ''a'') None mail_env))
      = Inr [''m'']"
proof -
  let ?p = "pendingMessages (sample_conf JNull) (sample_request ''a'') None mail_env"
  have "messages_ok mail_env" "pk d_id (devices mail_env)" by code_simp+
  moreover have "fst ?p = Inr (projr (fst ?p))" by code_simp
  ultimately have "snd ?p = mail_env"
    using pendingMessages_exact [of mail_env "sample_conf JNull" "sample_request ''a''" None "projr (fst ?p)" "snd ?p"]
    by (metis prod.collapse)
  then show ?thesis by (rule conjI) code_simp
qed

theorem purges_terminate_exactly_witness:
  "messages (snd (purgeExpiredMessages 6 mail_env)) = []"
proof -
  have "pk m_id (messages mail_env)" "\<not> FILES_down mail_env" by code_simp+
  from purges_terminate_exactly [OF this, of "''g''" 6]
  have "messages (snd (purgeExpiredMessages 6 mail_env)) = delete_rows (\<lambda>m. m_created_at m < 6) (messages mail_env)"
    by auto
  then show ?thesis by (rule trans) code_simp
qed

end
