(* ===== verification/Devices.thy ===== *)
theory Devices
  imports Messages
begin

text \<open>
  The devices of a space (apps/worker/src/routes/devices.ts): listing, revoking, publishing a
  signing key, changing a role. The lemmas: a revocation takes effect in one batch and then drops
  the messages that only waited for the revoked device, so \<open>messages_ok\<close> and \<open>keys_ok\<close> are kept;
  the owner is out of reach of revocation and of role changes; a signing key is set once.
\<close>

section \<open>Operations\<close>

record DevicesListResponse =
  dl_devices :: "DeviceInfo list"
  dl_currentRole :: DeviceRole
  dl_keyEpoch :: int
  dl_rotationPending :: bool

definition device_info :: "device_row \<Rightarrow> DeviceInfo" where
  "device_info d = \<lparr>di_id = d_id d, di_encryptedName = d_name_enc d, di_nameIv = d_name_iv d,
     di_createdAt = d_created_at d, di_role = d_role d, di_publicKey = d_public_key d,
     di_signingPublicKey = d_signing_public_key d, di_attestation = d_attestation d,
     di_keyEpoch = d_key_epoch d, di_nameKeyEpoch = d_name_key_epoch d, di_sendOnly = d_send_only d\<rparr>"

definition listDevices :: "conf \<Rightarrow> request \<Rightarrow> DevicesListResponse handler" where
  "listDevices cf rq =
     bindS (authenticateS cf rq) (\<lambda>a.
     readS (\<lambda>s. \<lparr>dl_devices = map device_info (sort_key (\<lambda>d. (d_created_at d, d_id d))
         (filter (\<lambda>d. d_group_id d = au_groupId a \<and> active d) (devices s))),
       dl_currentRole = au_role a, dl_keyEpoch = au_groupKeyEpoch a,
       dl_rotationPending = au_rotationPending a\<rparr>))"

text \<open>Who may revoke whom.\<close>

definition check_revocation :: "AuthContext \<Rightarrow> string \<Rightarrow> env \<Rightarrow> unit checked" where
  "check_revocation a i s =
     (case first_row (\<lambda>d. d_id d = i \<and> d_group_id d = au_groupId a \<and> active d) (devices s) of
        None \<Rightarrow> Inl (ApiError NotFound)
      | Some d \<Rightarrow>
          bindE (throwIf (d_role d = Owner) (ApiError Forbidden)) (\<lambda>_.
          throwIf (d_role d = Admin \<and> au_role a \<noteq> Owner) (ApiError Forbidden)))"

definition revocation_batch :: "string \<Rightarrow> string \<Rightarrow> int \<Rightarrow> env \<Rightarrow> env" where
  "revocation_batch g i now s = update_group g (\<lambda>r. r\<lparr>g_rotation_pending := True\<rparr>) (s\<lparr>
     devices := update_rows (\<lambda>d. d_id d = i \<and> d_group_id d = g) (\<lambda>d. d\<lparr>d_revoked_at := Some now\<rparr>) (devices s),
     delivery_status := delete_rows (\<lambda>r. ds_device_id r = i \<and> ds_downloaded_at r = None) (delivery_status s),
     key_distribution := delete_rows (\<lambda>k. kd_device_id k = i \<and> kd_group_id k = g) (key_distribution s),
     push_subscriptions := delete_rows (\<lambda>p. ps_device_id p = i \<and> ps_group_id p = g) (push_subscriptions s)\<rparr>)"

definition revokeDevice :: "conf \<Rightarrow> request \<Rightarrow> string \<Rightarrow> int \<Rightarrow> unit handler" where
  "revokeDevice cf rq param now =
     bindS (authenticateS cf rq) (\<lambda>a.
     bindS (liftE (requireAdmin a)) (\<lambda>_.
     bindS (liftE (requireId (Some (JStr param)))) (\<lambda>deviceId.
     bindS (throwS (deviceId = au_deviceId a) (ApiError BadRequest)) (\<lambda>_.
     bindS (readS (check_revocation a deviceId)) (\<lambda>checks.
     bindS (liftE checks) (\<lambda>_.
     bindS (writeS (revocation_batch (au_groupId a) deviceId now)) (\<lambda>_.
     bindS (purgeDeliveredMessages (au_groupId a)) (\<lambda>_.
     notifySpace (au_groupId a) (au_deviceId a) []))))))))"

text \<open>The UPDATE of \<open>publishSigningKey\<close>: the rows it changes.\<close>

definition may_publish :: "AuthContext \<Rightarrow> string \<Rightarrow> device_row \<Rightarrow> bool" where
  "may_publish a key d \<longleftrightarrow> d_id d = au_deviceId a \<and> d_group_id d = au_groupId a \<and> active d
     \<and> (d_signing_public_key d = None \<or> d_signing_public_key d = Some key)"

definition publishSigningKey :: "conf \<Rightarrow> request \<Rightarrow> unit handler" where
  "publishSigningKey cf rq =
     bindS (authenticateS cf rq) (\<lambda>a.
     bindS (liftE (request_json cf rq)) (\<lambda>body.
     bindS (liftE (requireString (jfield body ''signingPublicKey'') 2048)) (\<lambda>key.
     bindS (readS (\<lambda>s. count_rows (may_publish a key) (devices s))) (\<lambda>changes.
     bindS (writeS (\<lambda>s. s\<lparr>devices := update_rows (may_publish a key)
       (\<lambda>d. d\<lparr>d_signing_public_key := Some key\<rparr>) (devices s)\<rparr>)) (\<lambda>_.
     throwS (changes = 0) (ApiError Conflict))))))"

definition parse_role :: "json \<Rightarrow> DeviceRole checked" where
  "parse_role body = (case jfield body ''role'' of
     Some (JStr r) \<Rightarrow> (if r = ''admin'' then Inr Admin else if r = ''member'' then Inr Member
       else Inl (ApiError BadRequest))
   | _ \<Rightarrow> Inl (ApiError BadRequest))"

definition role_target :: "AuthContext \<Rightarrow> string \<Rightarrow> device_row \<Rightarrow> bool" where
  "role_target a i d \<longleftrightarrow> d_id d = i \<and> d_group_id d = au_groupId a \<and> active d \<and> d_role d \<noteq> Owner"

definition updateDeviceRole :: "conf \<Rightarrow> request \<Rightarrow> string \<Rightarrow> unit handler" where
  "updateDeviceRole cf rq param =
     bindS (authenticateS cf rq) (\<lambda>a.
     bindS (liftE (requireOwner a)) (\<lambda>_.
     bindS (liftE (requireId (Some (JStr param)))) (\<lambda>deviceId.
     bindS (throwS (deviceId = au_deviceId a) (ApiError BadRequest)) (\<lambda>_.
     bindS (liftE (request_json cf rq)) (\<lambda>body.
     bindS (liftE (parse_role body)) (\<lambda>role.
     bindS (readS (\<lambda>s. first_row (role_target a deviceId) (devices s))) (\<lambda>target.
     bindS (liftE (case target of None \<Rightarrow> Inl (ApiError NotFound)
       | Some d \<Rightarrow> throwIf (role = Admin \<and> d_send_only d) (ApiError BadRequest))) (\<lambda>_.
     bindS (readS (\<lambda>s. count_rows (role_target a deviceId) (devices s))) (\<lambda>changes.
     bindS (writeS (\<lambda>s. s\<lparr>devices := update_rows (role_target a deviceId) (\<lambda>d. d\<lparr>d_role := role\<rparr>) (devices s)\<rparr>)) (\<lambda>_.
     throwS (changes = 0) (ApiError NotFound)))))))))))"

section \<open>Revoking\<close>

lemma check_revocation_Inr [guard_simps]:
  "check_revocation a i s = Inr () \<longleftrightarrow> (\<exists>d. first_row (\<lambda>d. d_id d = i \<and> d_group_id d = au_groupId a \<and> active d) (devices s) = Some d
     \<and> d_role d \<noteq> Owner \<and> (d_role d = Admin \<longrightarrow> au_role a = Owner))"
  by (auto simp: check_revocation_def guard_simps split: option.split)

lemma revocation_batch_simps [simp]:
  "messages (revocation_batch g i now s) = messages s"
  "delivery_status (revocation_batch g i now s) = delete_rows (\<lambda>r. ds_device_id r = i \<and> ds_downloaded_at r = None) (delivery_status s)"
  "devices (revocation_batch g i now s) = update_rows (\<lambda>d. d_id d = i \<and> d_group_id d = g) (\<lambda>d. d\<lparr>d_revoked_at := Some now\<rparr>) (devices s)"
  "key_distribution (revocation_batch g i now s) = delete_rows (\<lambda>k. kd_device_id k = i \<and> kd_group_id k = g) (key_distribution s)"
  "push_subscriptions (revocation_batch g i now s) = delete_rows (\<lambda>p. ps_device_id p = i \<and> ps_group_id p = g) (push_subscriptions s)"
  "FILES_down (revocation_batch g i now s) = FILES_down s"
  by (simp_all add: revocation_batch_def)

lemma revocation_member:
  "is_member (revocation_batch g i now s) g' j \<longleftrightarrow> is_member s g' j \<and> (g', j) \<noteq> (g, i)"
  by (auto simp: is_member_def exists_row_iff bex_update_rows active_def split: if_splits)

lemma revocation_epoch: "epoch_of (revocation_batch g i now s) g' = epoch_of s g'"
  unfolding revocation_batch_def by (simp add: epoch_of_update_group) (simp add: epoch_of_def group_of_def)

lemma keys_ok_revocation: "keys_ok s \<Longrightarrow> keys_ok (revocation_batch g i now s)"
proof -
  assume ok: "keys_ok s"
  have "within (revocation_batch g i now s) = within s"
    by (simp add: fun_eq_iff within_def revocation_epoch)
  moreover have "pk g_id (groups (revocation_batch g i now s))"
    using ok by (simp add: keys_ok_def revocation_batch_def update_group_def pk_update_rows)
  ultimately show ?thesis
    using ok by (simp add: keys_ok_def pk_update_rows pk_delete_rows ball_update_rows set_delete_rows) blast
qed

text \<open>After the batch only messages of the space itself can be without a waiting device, and the
  purge drops exactly those.\<close>

lemma messages_ok_revocation:
  assumes ok: "messages_ok s" and pk: "pk d_id (devices s)" and member: "is_member s g i"
    and purge: "purgeDeliveredMessages g (revocation_batch g i now s) = (r, s')" and up: "\<not> FILES_down s"
  shows "messages_ok s'"
proof -
  let ?s1 = "revocation_batch g i now s"
  have "pk m_id (messages ?s1)" "\<not> FILES_down ?s1" using ok up by (simp_all add: messages_ok_def)
  from purgeDelivered_ok [OF this, of g] purge obtain ms where s': "s' = erase_messages ms ?s1"
    and ms: "set ms = {m \<in> set (messages s). fully_delivered g ?s1 m}" by auto
  have ids: "m_id m \<in> m_id ` set ms \<longleftrightarrow> m \<in> set ms" if "m \<in> set (messages s)" for m
    using ok that ms by (intro pk_image_iff [where t = "messages s"]) (auto simp: messages_ok_def)
  have home: "g' = g" if "is_member s g' i" for g'
  proof -
    from member that obtain d d' where "d \<in> set (devices s)" "d' \<in> set (devices s)" "d_id d = i" "d_id d' = i"
      "d_group_id d = g" "d_group_id d' = g'" unfolding is_member_def exists_row_iff by blast
    with pk show ?thesis using pk_unique by metis
  qed
  have mem: "is_member s' g' j \<longleftrightarrow> is_member s g' j \<and> (g', j) \<noteq> (g, i)" for g' j
    unfolding s' revocation_member [of g i now s, symmetric] by (simp add: is_member_def)
  have waiting: "exists_row (is_pending (m_id m)) (delivery_status s')" if "m \<in> set (messages s')" for m
  proof -
    from that have m: "m \<in> set (messages s)" and out: "m_id m \<notin> m_id ` set ms"
      by (simp_all add: s' set_delete_rows)
    then have "\<not> fully_delivered g ?s1 m" using ids [OF m] ms by blast
    moreover have "exists_row (is_pending (m_id m)) (delivery_status ?s1)" if "m_group_id m \<noteq> g"
    proof -
      from ok m obtain r where r: "r \<in> set (delivery_status s)" "is_pending (m_id m) r"
        by (auto simp: messages_ok_def exists_row_iff)
      with ok obtain m' where "m' \<in> set (messages s)" "m_id m' = m_id m"
        "is_member s (m_group_id m') (ds_device_id r)"
        unfolding messages_ok_def exists_row_iff is_pending_def by metis
      then have "is_member s (m_group_id m) (ds_device_id r)"
        using ok m pk_unique unfolding messages_ok_def by metis
      then have "ds_device_id r \<noteq> i" using home that by blast
      with r show ?thesis by (auto simp: exists_row_iff set_delete_rows)
    qed
    ultimately have "exists_row (is_pending (m_id m)) (delivery_status ?s1)"
      by (auto simp: fully_delivered_def)
    with out show ?thesis by (auto simp: s' exists_row_iff set_delete_rows is_pending_def)
  qed
  moreover have "exists_row (\<lambda>m. m_id m = ds_message_id r
      \<and> (ds_downloaded_at r = None \<longrightarrow> is_member s' (m_group_id m) (ds_device_id r))) (messages s')"
    if "r \<in> set (delivery_status s')" for r
  proof -
    from that have r: "r \<in> set (delivery_status s)" "ds_message_id r \<notin> m_id ` set ms"
      "ds_device_id r = i \<longrightarrow> ds_downloaded_at r \<noteq> None" by (auto simp: s' set_delete_rows)
    with ok obtain m where "m \<in> set (messages s)" "m_id m = ds_message_id r"
      "ds_downloaded_at r = None \<longrightarrow> is_member s (m_group_id m) (ds_device_id r)"
      by (auto simp: messages_ok_def exists_row_iff)
    with r show ?thesis unfolding exists_row_iff mem
      by (intro bexI [of _ m]) (auto simp: s' set_delete_rows)
  qed
  ultimately show ?thesis using ok
    by (simp add: messages_ok_def) (simp add: s' pk_delete_rows)
qed

text \<open>A revocation that went through.\<close>

definition may_revoke :: "conf \<Rightarrow> request \<Rightarrow> env \<Rightarrow> AuthContext \<Rightarrow> string \<Rightarrow> bool" where
  "may_revoke cf rq s a i \<longleftrightarrow> authenticate cf rq s = Inr a \<and> au_role a \<in> {Owner, Admin} \<and> i \<noteq> au_deviceId a
     \<and> check_revocation a i s = Inr ()"

lemma may_revoke_member: "may_revoke cf rq s a i \<Longrightarrow> is_member s (au_groupId a) i"
  by (auto simp: may_revoke_def guard_simps is_member_def exists_row_iff dest!: first_row_Some)

lemma purgeDelivered_wp:
  "wp (purgeDeliveredMessages g) (\<lambda>_ s'. purgeDeliveredMessages g s = (Inr (), s'))
     (\<lambda>e s'. purgeDeliveredMessages g s = (Inl e, s')) s"
  by (cases "purgeDeliveredMessages g s"; cases "fst (purgeDeliveredMessages g s)") (simp_all add: wp_def)

lemma revokeDevice_wp:
  "wp (revokeDevice cf rq i now)
     (\<lambda>_ s'. \<exists>a s1. may_revoke cf rq s a i
        \<and> purgeDeliveredMessages (au_groupId a) (revocation_batch (au_groupId a) i now s) = (Inr (), s1)
        \<and> s' = s1\<lparr>notices := notices s1 @ [\<lparr>n_group = au_groupId a, n_exclude = au_deviceId a, n_push = []\<rparr>]\<rparr>)
     (\<lambda>e s'. s' = s \<or> (\<exists>a. may_revoke cf rq s a i
        \<and> purgeDeliveredMessages (au_groupId a) (revocation_batch (au_groupId a) i now s) = (Inl e, s'))) s"
proof -
  define Q where "Q s' \<longleftrightarrow> (\<exists>a s1. may_revoke cf rq s a i
     \<and> purgeDeliveredMessages (au_groupId a) (revocation_batch (au_groupId a) i now s) = (Inr (), s1)
     \<and> s' = s1\<lparr>notices := notices s1 @ [\<lparr>n_group = au_groupId a, n_exclude = au_deviceId a, n_push = []\<rparr>]\<rparr>)" for s'
  define E where "E e s' \<longleftrightarrow> s' = s \<or> (\<exists>a. may_revoke cf rq s a i
     \<and> purgeDeliveredMessages (au_groupId a) (revocation_batch (au_groupId a) i now s) = (Inl e, s'))" for e s'
  have unchanged: "E e s" for e by (simp add: E_def)
  have fin: "wp (purgeDeliveredMessages (au_groupId a))
      (\<lambda>_ t. Q (t\<lparr>notices := notices t @ [\<lparr>n_group = au_groupId a, n_exclude = au_deviceId a, n_push = []\<rparr>]\<rparr>))
      E (revocation_batch (au_groupId a) i now s)" if "may_revoke cf rq s a i" for a
  proof (rule wp_mono [OF purgeDelivered_wp])
    show "Q (t\<lparr>notices := notices t @ [\<lparr>n_group = au_groupId a, n_exclude = au_deviceId a, n_push = []\<rparr>]\<rparr>)"
      if "purgeDeliveredMessages (au_groupId a) (revocation_batch (au_groupId a) i now s) = (Inr (), t)" for t
      unfolding Q_def using that \<open>may_revoke cf rq s a i\<close> by blast
    show "E e t"
      if "purgeDeliveredMessages (au_groupId a) (revocation_batch (au_groupId a) i now s) = (Inl e, t)" for e t
      unfolding E_def using that \<open>may_revoke cf rq s a i\<close> by auto
  qed
  have "wp (revokeDevice cf rq i now) (\<lambda>_. Q) E s"
    unfolding revokeDevice_def wp_simps notifySpace_def
    by (auto split: sum.splits simp: requireId_Inr guard_simps unchanged intro!: fin)
       (simp_all add: may_revoke_def guard_simps)
  then show ?thesis unfolding Q_def E_def .
qed

lemma purgeDelivered_removes: "removes (set (messages s)) s (snd (purgeDeliveredMessages g s))"
  unfolding purgeDeliveredMessages_def by (rule delivered.loop_removes)

lemma purged_same_keys: "purgeDeliveredMessages g s = (r, s') \<Longrightarrow> same_keys s s'"
  using removes_same_keys [OF purgeDelivered_removes [of s g]] by simp

lemma keys_ok_notices [simp]: "keys_ok (s\<lparr>notices := n\<rparr>) = keys_ok s"
  by (simp add: keys_ok_def within_def epoch_of_def group_of_def)

lemma messages_ok_notices [simp]: "messages_ok (s\<lparr>notices := n\<rparr>) = messages_ok s"
  by (simp add: messages_ok_def is_member_def)

text \<open>Whatever a revocation does, the roster afterwards is the one before or the revoked one.\<close>

lemma revokeDevice_outcome:
  assumes "revokeDevice cf rq i now s = (r, s')"
  shows "s' = s \<or> (\<exists>a s1. may_revoke cf rq s a i \<and> same_keys (revocation_batch (au_groupId a) i now s) s1
    \<and> same_keys s1 s' \<and> messages_ok s' = messages_ok s1
    \<and> purgeDeliveredMessages (au_groupId a) (revocation_batch (au_groupId a) i now s) = (r, s1))"
proof (cases r)
  case (Inl e)
  with wpD_err [OF revokeDevice_wp] assms purged_same_keys show ?thesis by (metis same_keys_refl)
next
  case (Inr u)
  with wpD [OF revokeDevice_wp] assms obtain a s1 where
    "may_revoke cf rq s a i" "purgeDeliveredMessages (au_groupId a) (revocation_batch (au_groupId a) i now s) = (Inr (), s1)"
    "s' = s1\<lparr>notices := notices s1 @ [\<lparr>n_group = au_groupId a, n_exclude = au_deviceId a, n_push = []\<rparr>]\<rparr>"
    by blast
  with Inr purged_same_keys show ?thesis by (intro disjI2 exI [of _ a] exI [of _ s1]) (auto simp: same_keys_def)
qed

lemma keeps_revokeDevice: "keeps keys_ok (revokeDevice cf rq i now)"
  unfolding keeps_def
proof (intro allI impI)
  fix s assume ok: "keys_ok s"
  from revokeDevice_outcome [of cf rq i now s "fst (revokeDevice cf rq i now s)" "snd (revokeDevice cf rq i now s)"]
  show "keys_ok (snd (revokeDevice cf rq i now s))"
    using ok by (auto intro: keys_ok_same [OF _ keys_ok_same [OF _ keys_ok_revocation [OF ok]]])
qed

section \<open>Properties\<close>

text \<open>C11. What a revocation leaves. When \<open>revokeDevice\<close> succeeds, an administrator or the owner revoked
  another device that was active and not the owner; that device is a member no more, every other
  member still is, the space owes a rotation, no pending delivery, queued key or push subscription of the revoked device is left, and
  every message still stored waits for a device that remains.\<close>

theorem revokeDevice_effect:
  assumes "messages_ok s" and "keys_ok s" and "\<not> FILES_down s" and "revokeDevice cf rq i now s = (Inr (), s')"
  shows "\<exists>a. authenticate cf rq s = Inr a \<and> au_role a \<in> {Owner, Admin} \<and> i \<noteq> au_deviceId a
    \<and> is_member s (au_groupId a) i \<and> (\<forall>d \<in> set (devices s). d_id d = i \<longrightarrow> d_role d \<noteq> Owner)
    \<and> (\<forall>g j. is_member s' g j \<longleftrightarrow> is_member s g j \<and> (g, j) \<noteq> (au_groupId a, i))
    \<and> (\<exists>g. group_of s' (au_groupId a) = Some g \<and> g_rotation_pending g)
    \<and> (\<forall>r \<in> set (delivery_status s'). ds_device_id r = i \<longrightarrow> ds_downloaded_at r \<noteq> None)
    \<and> (\<forall>k \<in> set (key_distribution s'). (kd_group_id k, kd_device_id k) \<noteq> (au_groupId a, i))
    \<and> set (push_subscriptions s') = {p \<in> set (push_subscriptions s). (ps_group_id p, ps_device_id p) \<noteq> (au_groupId a, i)}
    \<and> messages_ok s' \<and> keys_ok s'"
proof -
  from wpD [OF revokeDevice_wp assms(4)] obtain a s1 where may: "may_revoke cf rq s a i"
    and purge: "purgeDeliveredMessages (au_groupId a) (revocation_batch (au_groupId a) i now s) = (Inr (), s1)"
    and s': "s' = s1\<lparr>notices := notices s1 @ [\<lparr>n_group = au_groupId a, n_exclude = au_deviceId a, n_push = []\<rparr>]\<rparr>"
    by blast
  let ?g = "au_groupId a" and ?b = "revocation_batch (au_groupId a) i now s"
  have pk: "pk d_id (devices s)" using assms(2) by (simp add: keys_ok_def)
  have same: "same_keys ?b s1" using purged_same_keys [OF purge] .
  have member: "is_member s ?g i" using may_revoke_member [OF may] .
  have ok: "messages_ok s1" using messages_ok_revocation [OF assms(1) pk member purge assms(3)] .
  have keys: "keys_ok s1" using keys_ok_same [OF same keys_ok_revocation [OF assms(2)]] .
  from may authenticate_group obtain gr where gr: "group_of s ?g = Some gr" unfolding may_revoke_def by blast
  have pending: "group_of ?b ?g = Some (gr\<lparr>g_rotation_pending := True\<rparr>)"
    using gr unfolding revocation_batch_def by (simp add: group_of_update_group) (simp add: group_of_def)
  have "d_role d \<noteq> Owner" if "d \<in> set (devices s)" "d_id d = i" for d
    using may pk that by (auto simp: may_revoke_def guard_simps dest!: first_row_Some dest: pk_unique)
  moreover have "is_member s' g j \<longleftrightarrow> is_member s g j \<and> (g, j) \<noteq> (?g, i)" for g j
    unfolding revocation_member [of ?g i now s, symmetric] using same by (simp add: s' is_member_def same_keys_def)
  moreover have "group_of s' ?g = group_of ?b ?g" using same by (simp add: s' group_of_def same_keys_def)
  moreover have "ds_downloaded_at r \<noteq> None" if "r \<in> set (delivery_status s')" "ds_device_id r = i" for r
    using that purgeDelivered_removes [of ?b ?g] purge
    by (auto simp: s' removes_def fold_delete set_delete_rows)
  moreover have "key_distribution s' = key_distribution ?b" using same by (simp add: s' same_keys_def)
  moreover have "push_subscriptions s' = push_subscriptions ?b"
    using purgeDelivered_removes [of ?b ?g] purge by (auto simp: s' removes_def fold_delete)
  then have "set (push_subscriptions s') = {p \<in> set (push_subscriptions s). (ps_group_id p, ps_device_id p) \<noteq> (?g, i)}"
    by (auto simp: set_delete_rows)
  ultimately show ?thesis using may member pending ok keys
    by (intro exI [of _ a]) (auto simp: may_revoke_def s' set_delete_rows)
qed

text \<open>C12. The owner is out of reach. No request to revoke a device or to change a role, whoever makes
  it and however it ends, changes the row of an active owner in any space.\<close>

theorem owner_untouchable:
  assumes "pk d_id (devices s)" and "d \<in> set (devices s)" and "d_role d = Owner" and "active d"
  shows "d \<in> set (devices (snd (revokeDevice cf rq i now s)))
    \<and> d \<in> set (devices (snd (updateDeviceRole cf rq i s)))"
proof
  show "d \<in> set (devices (snd (revokeDevice cf rq i now s)))"
  proof (cases "snd (revokeDevice cf rq i now s) = s")
    case False
    with revokeDevice_outcome [of cf rq i now s "fst (revokeDevice cf rq i now s)" "snd (revokeDevice cf rq i now s)"]
    obtain a where may: "may_revoke cf rq s a i"
      and dev: "devices (snd (revokeDevice cf rq i now s)) = devices (revocation_batch (au_groupId a) i now s)"
      by (auto simp: same_keys_def)
    have "d_id d \<noteq> i" using may assms(1-3)
      by (auto simp: may_revoke_def guard_simps dest!: first_row_Some dest: pk_unique)
    then show ?thesis unfolding dev using assms(2) by (auto simp: set_update_rows intro!: rev_image_eqI [OF assms(2)])
  qed (use assms(2) in simp)
  have "wp (updateDeviceRole cf rq i) (\<lambda>_ t. d \<in> set (devices t)) (\<lambda>_ t. d \<in> set (devices t)) s"
  proof -
    have "d \<in> set (update_rows (role_target a j) (\<lambda>d. d\<lparr>d_role := r\<rparr>) (devices s))" for a j r
      unfolding set_update_rows using assms(3) by (intro rev_image_eqI [OF assms(2)]) (simp add: role_target_def)
    then show ?thesis unfolding updateDeviceRole_def wp_simps using assms(2) by (auto split: sum.splits)
  qed
  then show "d \<in> set (devices (snd (updateDeviceRole cf rq i s)))"
    by (cases "updateDeviceRole cf rq i s"; cases "fst (updateDeviceRole cf rq i s)") (simp_all add: wp_def)
qed

text \<open>A signing key is set once. Whatever \<open>publishSigningKey\<close> is asked, a device that had
  published a key still has that key; and when it succeeds the calling device's key is the one in
  the request.\<close>

theorem signing_key_set_once:
  assumes "pk d_id (devices s)" and "publishSigningKey cf rq s = (r, s')"
  shows "(\<forall>d \<in> set (devices s). d_signing_public_key d \<noteq> None \<longrightarrow> d \<in> set (devices s'))
    \<and> (r = Inr () \<longrightarrow> (\<exists>a body key. authenticate cf rq s = Inr a \<and> request_json cf rq = Inr body
         \<and> jfield body ''signingPublicKey'' = Some (JStr key)
         \<and> (\<forall>d \<in> set (devices s'). d_id d = au_deviceId a \<longrightarrow> d_signing_public_key d = Some key)))"
proof -
  let ?u = "\<lambda>a key. update_rows (may_publish a key) (\<lambda>d. d\<lparr>d_signing_public_key := Some key\<rparr>) (devices s)"
  have kept: "d \<in> set (?u a key)" if "d \<in> set (devices s)" "d_signing_public_key d \<noteq> None" for d a key
    unfolding set_update_rows using that(2) by (intro rev_image_eqI [OF that(1)]) (auto simp: may_publish_def)
  have set: "d_signing_public_key d = Some key"
    if "count_rows (may_publish a key) (devices s) \<noteq> 0" "d \<in> set (?u a key)" "d_id d = au_deviceId a" for d a key
  proof -
    from that(1) obtain x where x: "x \<in> set (devices s)" "may_publish a key x" by (auto simp: count_rows_0)
    from that(2) obtain y where y: "y \<in> set (devices s)"
      "d = (if may_publish a key y then y\<lparr>d_signing_public_key := Some key\<rparr> else y)" by (auto simp: set_update_rows)
    with that(3) have "d_id y = d_id x" using x(2) by (auto simp: may_publish_def split: if_splits)
    with y x show ?thesis using pk_unique [OF assms(1) y(1) x(1)] by simp
  qed
  let ?k = "\<lambda>t. \<forall>d \<in> set (devices s). d_signing_public_key d \<noteq> None \<longrightarrow> d \<in> set (devices t)"
  have "wp (publishSigningKey cf rq)
     (\<lambda>_ t. ?k t \<and> (\<exists>a body key. authenticate cf rq s = Inr a \<and> request_json cf rq = Inr body
         \<and> jfield body ''signingPublicKey'' = Some (JStr key)
         \<and> (\<forall>d \<in> set (devices t). d_id d = au_deviceId a \<longrightarrow> d_signing_public_key d = Some key)))
     (\<lambda>_. ?k) s"
    unfolding publishSigningKey_def wp_simps
    by (auto split: sum.splits simp: requireString_Inr kept intro: set)
  with assms(2) show ?thesis by (cases r) (auto simp: wp_def)
qed

section \<open>At concrete inputs\<close>

text \<open>\<open>b\<close> waits for \<open>n\<close> alone and shares \<open>m\<close> with \<open>c\<close>; it is revoked.\<close>

definition team_env :: env where
  "team_env = (sample_env [sample_group ''g'' 1 False]
     [sample_device ''g'' ''a'' Owner 1, sample_device ''g'' ''b'' Member 1, sample_device ''g'' ''c'' Admin 1])
     \<lparr>messages := [sample_message ''m'' ''g'' ''a'' None, sample_message ''n'' ''g'' ''a'' None],
      delivery_status := delivery_rows ''m'' [''b'', ''c''] @ delivery_rows ''n'' [''b'']\<rparr>"

theorem revokeDevice_effect_witness:
  "map m_id (messages (snd (revokeDevice (sample_conf JNull) (sample_request ''a'') ''b'' 9 team_env))) = [''m'']
   \<and> messages_ok (snd (revokeDevice (sample_conf JNull) (sample_request ''a'') ''b'' 9 team_env))"
proof -
  let ?r = "revokeDevice (sample_conf JNull) (sample_request ''a'') ''b'' 9 team_env"
  have "messages_ok team_env" "keys_ok team_env" "\<not> FILES_down team_env" by code_simp+
  moreover have "?r = (Inr (), snd ?r)" by (rule run_fst) code_simp
  ultimately have "messages_ok (snd ?r)" using revokeDevice_effect by blast
  moreover have "map m_id (messages (snd ?r)) = [''m'']" by code_simp
  ultimately show ?thesis by blast
qed

theorem owner_untouchable_witness:
  "sample_device ''g'' ''a'' Owner 1
     \<in> set (devices (snd (revokeDevice (sample_conf JNull) (sample_request ''c'') ''a'' 9 team_env)))"
  by (rule owner_untouchable [THEN conjunct1]) code_simp+

theorem signing_key_set_once_witness:
  "(sample_device ''g'' ''a'' Owner 1)\<lparr>d_signing_public_key := Some ''old''\<rparr>
     \<in> set (devices (snd (publishSigningKey (sample_conf (JObj [(''signingPublicKey'', JStr ''new'')]))
          (sample_request ''a'') (sample_env [sample_group ''g'' 1 False]
            [(sample_device ''g'' ''a'' Owner 1)\<lparr>d_signing_public_key := Some ''old''\<rparr>]))))"
proof -
  let ?s = "sample_env [sample_group ''g'' 1 False]
            [(sample_device ''g'' ''a'' Owner 1)\<lparr>d_signing_public_key := Some ''old''\<rparr>]"
  have "pk d_id (devices ?s)" by code_simp
  note kept = signing_key_set_once [OF this surjective_pairing, THEN conjunct1, rule_format]
  show ?thesis by (rule kept) code_simp+
qed

end
