(* ===== verification/Pairing.thy ===== *)
theory Pairing
  imports Devices
begin

text \<open>
  Adding a device (apps/worker/src/routes/pairing.ts). A slot is opened by the joining device,
  completed once by an administrator of a space, polled and deleted. The lemmas: the two writes of
  a completion happen together or not at all; what a completion leaves; it keeps \<open>keys_ok\<close> and
  \<open>messages_ok\<close>; and a slot that names a device the space already has replaces that device,
  whatever its role.
\<close>

section \<open>Opening a slot\<close>

definition optional_bool :: "json option \<Rightarrow> bool checked" where
  "optional_bool v = (case v of None \<Rightarrow> Inr False | Some (JBool b) \<Rightarrow> Inr b | _ \<Rightarrow> Inl (ApiError BadRequest))"

definition parse_slot :: "json \<Rightarrow> SlotDevice checked" where
  "parse_slot body =
     bindE (require_device (jfield body ''device'')) (\<lambda>device.
     bindE (optionalString (jfield device ''signingPublicKey'') 2048) (\<lambda>sp.
     bindE (optional_bool (jfield body ''sendOnly'')) (\<lambda>sendOnly.
     bindE (optionalString (jfield body ''invite'') 4096) (\<lambda>invite.
     bindE (requireId (jfield device ''id'')) (\<lambda>i.
     bindE (requireString (jfield device ''publicKey'') 2048) (\<lambda>p.
     Inr \<lparr>sl_device = \<lparr>dd_id = i, dd_publicKey = p, dd_signingPublicKey = sp\<rparr>,
          sl_sendOnly = sendOnly, sl_invite = invite\<rparr>))))))"

definition slot_of :: "string \<Rightarrow> env \<Rightarrow> pairing_row option" where
  "slot_of i s = first_row (\<lambda>p. p_pairing_id p = i) (pairing s)"

text \<open>\<open>INSERT ... ON CONFLICT(pairing_id) DO NOTHING\<close>: whether a row was added.\<close>

definition open_slot :: "string \<Rightarrow> SlotDevice \<Rightarrow> int \<Rightarrow> bool handler" where
  "open_slot i device now s =
     (if exists_row (\<lambda>p. p_pairing_id p = i) (pairing s) then (Inr False, s)
      else (Inr True, s\<lparr>pairing := pairing s @ [\<lparr>p_pairing_id = i, p_group_id = None, p_wrapped_package = None,
        p_ephemeral_public_key = None, p_new_device = Some device, p_created_at = now\<rparr>]\<rparr>))"

definition requestPairing :: "conf \<Rightarrow> request \<Rightarrow> string \<Rightarrow> int \<Rightarrow> unit handler" where
  "requestPairing cf rq param now =
     bindS (liftE (enforceRateLimit (RL_PUBLIC cf) (clientIp rq))) (\<lambda>_.
     bindS (liftE (requireId (Some (JStr param)))) (\<lambda>pairingId.
     bindS (liftE (request_json cf rq)) (\<lambda>body.
     bindS (liftE (parse_slot body)) (\<lambda>descriptor.
     bindS (open_slot pairingId descriptor now) (\<lambda>inserted.
     if inserted then retS ()
     else bindS (readS (slot_of pairingId)) (\<lambda>existing.
       throwS (Option.bind existing p_new_device \<noteq> Some descriptor) (ApiError Conflict)))))))"

section \<open>Completing it\<close>

record PairingCompleteBody =
  pc_wrappedPackage :: string
  pc_ephemeralPublicKey :: string
  pc_scannedPublicKey :: string
  pc_scannedSigningPublicKey :: "string option"
  pc_encryptedName :: string
  pc_nameIv :: string
  pc_deviceAuthTokenHash :: string
  pc_keyEpoch :: int

definition parse_completion :: "json \<Rightarrow> PairingCompleteBody checked" where
  "parse_completion body =
     bindE (requireString (jfield body ''wrappedPackage'') 65536) (\<lambda>w.
     bindE (requireString (jfield body ''ephemeralPublicKey'') 2048) (\<lambda>e.
     bindE (requireString (jfield body ''scannedPublicKey'') 2048) (\<lambda>p.
     bindE (optionalString (jfield body ''scannedSigningPublicKey'') 2048) (\<lambda>sp.
     bindE (requireString (jfield body ''encryptedName'') 1024) (\<lambda>n.
     bindE (requireString (jfield body ''nameIv'') 128) (\<lambda>iv.
     bindE (requireSha256Hex (jfield body ''deviceAuthTokenHash'')) (\<lambda>h.
     bindE (requireInt (jfield body ''keyEpoch'') 1 MAX_SAFE_INTEGER) (\<lambda>k.
     Inr \<lparr>pc_wrappedPackage = w, pc_ephemeralPublicKey = e, pc_scannedPublicKey = p,
          pc_scannedSigningPublicKey = sp, pc_encryptedName = n, pc_nameIv = iv,
          pc_deviceAuthTokenHash = h, pc_keyEpoch = k\<rparr>))))))))"

text \<open>The slot's device, if the slot is open and is what was scanned.\<close>

definition check_slot :: "PairingCompleteBody \<Rightarrow> pairing_row option \<Rightarrow> SlotDevice checked" where
  "check_slot r slot = (case slot of None \<Rightarrow> Inl (ApiError NotFound)
     | Some p \<Rightarrow> (case p_new_device p of None \<Rightarrow> Inl (ApiError NotFound)
       | Some device \<Rightarrow>
           bindE (throwIf (truthy (p_wrapped_package p)) (ApiError Conflict)) (\<lambda>_.
           bindE (throwIf (dd_publicKey (sl_device device) \<noteq> pc_scannedPublicKey r) (ApiError Conflict)) (\<lambda>_.
           bindE (throwIf (dd_signingPublicKey (sl_device device) \<noteq> pc_scannedSigningPublicKey r) (ApiError Conflict)) (\<lambda>_.
           Inr device)))))"

definition completion_attestation :: "AuthContext \<Rightarrow> json \<Rightarrow> SlotDevice \<Rightarrow> DeviceAttestation option checked" where
  "completion_attestation a body device =
     bindE (optionalAttestation (jfield body ''attestation'')
       \<lparr>ex_groupId = au_groupId a, ex_deviceId = dd_id (sl_device device),
        ex_publicKey = dd_publicKey (sl_device device),
        ex_signingPublicKey = dd_signingPublicKey (sl_device device)\<rparr>) (\<lambda>att.
     bindE (throwIf (case att of None \<Rightarrow> False | Some x \<Rightarrow> at_signerDeviceId x \<noteq> au_deviceId a) (ApiError BadRequest)) (\<lambda>_.
     Inr att))"

text \<open>The row the INSERT offers, and the same row as the conflict clause writes it over an old one.\<close>

definition joined_row :: "AuthContext \<Rightarrow> PairingCompleteBody \<Rightarrow> SlotDevice \<Rightarrow> DeviceAttestation option \<Rightarrow> int \<Rightarrow> device_row" where
  "joined_row a r device att now = \<lparr>d_id = dd_id (sl_device device), d_group_id = au_groupId a,
     d_name_enc = Some (pc_encryptedName r), d_name_iv = Some (pc_nameIv r),
     d_public_key = dd_publicKey (sl_device device),
     d_signing_public_key = dd_signingPublicKey (sl_device device), d_attestation = att,
     d_auth_token_hash = Some (pc_deviceAuthTokenHash r), d_role = Member, d_key_epoch = pc_keyEpoch r,
     d_name_key_epoch = pc_keyEpoch r, d_send_only = sl_sendOnly device, d_created_at = now,
     d_revoked_at = None\<rparr>"

definition slot_open :: "AuthContext \<Rightarrow> PairingCompleteBody \<Rightarrow> string \<Rightarrow> env \<Rightarrow> bool" where
  "slot_open a r i s \<longleftrightarrow> epoch_of s (au_groupId a) = Some (pc_keyEpoch r)
     \<and> exists_row (\<lambda>p. p_pairing_id p = i \<and> p_wrapped_package p = None) (pairing s)"

text \<open>The first statement: the rows it changed, or nothing when the token hash is another device's.\<close>

definition register_device :: "AuthContext \<Rightarrow> PairingCompleteBody \<Rightarrow> string \<Rightarrow> device_row \<Rightarrow> env \<Rightarrow> (nat \<times> env) option" where
  "register_device a r i row s =
     (let mine = (\<lambda>d. d_id d = d_id row); same = (\<lambda>d. mine d \<and> d_group_id d = d_group_id row) in
      if \<not> slot_open a r i s \<or> (exists_row mine (devices s) \<and> \<not> exists_row same (devices s)) then Some (0, s)
      else if exists_row (\<lambda>d. \<not> mine d \<and> d_auth_token_hash d = d_auth_token_hash row) (devices s) then None
      else if exists_row same (devices s)
      then Some (1, s\<lparr>devices := update_rows same (\<lambda>d. row\<lparr>d_created_at := d_created_at d\<rparr>) (devices s)\<rparr>)
      else Some (1, s\<lparr>devices := devices s @ [row]\<rparr>))"

definition fill_slot :: "AuthContext \<Rightarrow> PairingCompleteBody \<Rightarrow> string \<Rightarrow> string \<Rightarrow> env \<Rightarrow> nat \<times> env" where
  "fill_slot a r i device s =
     (let c = (\<lambda>p. p_pairing_id p = i \<and> p_wrapped_package p = None) in
      if epoch_of s (au_groupId a) = Some (pc_keyEpoch r) \<and> is_member s (au_groupId a) device
      then (count_rows c (pairing s), s\<lparr>pairing := update_rows c (\<lambda>p. p\<lparr>p_group_id := Some (au_groupId a),
          p_wrapped_package := Some (pc_wrappedPackage r),
          p_ephemeral_public_key := Some (pc_ephemeralPublicKey r)\<rparr>) (pairing s)\<rparr>)
      else (0, s))"

definition completion_batch :: "AuthContext \<Rightarrow> PairingCompleteBody \<Rightarrow> string \<Rightarrow> device_row \<Rightarrow> (nat \<times> nat) handler" where
  "completion_batch a r i row s =
     (case register_device a r i row s of None \<Rightarrow> (Inl Thrown, s)
      | Some (n, s1) \<Rightarrow> let (m, s2) = fill_slot a r i (d_id row) s1 in (Inr (n, m), s2))"

definition foreign_device :: "AuthContext \<Rightarrow> string \<Rightarrow> env \<Rightarrow> bool" where
  "foreign_device a i s = (case first_row (\<lambda>d. d_id d = i) (devices s) of None \<Rightarrow> False
     | Some d \<Rightarrow> d_group_id d \<noteq> au_groupId a)"

definition completePairing :: "conf \<Rightarrow> request \<Rightarrow> string \<Rightarrow> int \<Rightarrow> unit handler" where
  "completePairing cf rq param now =
     bindS (authenticateS cf rq) (\<lambda>a.
     bindS (liftE (requireAdmin a)) (\<lambda>_.
     bindS (liftE (requireId (Some (JStr param)))) (\<lambda>pairingId.
     bindS (liftE (request_json cf rq)) (\<lambda>body.
     bindS (liftE (parse_completion body)) (\<lambda>r.
     bindS (throwS (pc_keyEpoch r \<noteq> au_groupKeyEpoch a) (ApiError KeyRotated)) (\<lambda>_.
     bindS (readS (\<lambda>s. check_slot r (slot_of pairingId s))) (\<lambda>slot.
     bindS (liftE slot) (\<lambda>device.
     bindS (liftE (completion_attestation a body device)) (\<lambda>att.
     bindS (readS (foreign_device a (dd_id (sl_device device)))) (\<lambda>foreign.
     bindS (throwS foreign (ApiError Conflict)) (\<lambda>_.
     bindS (completion_batch a r pairingId (joined_row a r device att now)) (\<lambda>(n, m).
     throwS (n \<noteq> 1 \<or> m \<noteq> 1) (ApiError Conflict)))))))))))))"

section \<open>Watching and closing it\<close>

record PairingJoinerResponse =
  pj_device :: DeviceDescriptor
  pj_sendOnly :: bool
  pj_invite :: string

text \<open>Nothing stands for \<open>{ present: false }\<close>.\<close>

definition pairingJoiner :: "conf \<Rightarrow> request \<Rightarrow> string \<Rightarrow> PairingJoinerResponse option handler" where
  "pairingJoiner cf rq param =
     bindS (authenticateS cf rq) (\<lambda>a.
     bindS (liftE (requireAdmin a)) (\<lambda>_.
     bindS (liftE (requireId (Some (JStr param)))) (\<lambda>pairingId.
     readS (\<lambda>s. case slot_of pairingId s of None \<Rightarrow> None
       | Some p \<Rightarrow> (case p_new_device p of None \<Rightarrow> None
         | Some device \<Rightarrow> (case sl_invite device of None \<Rightarrow> None
           | Some invite \<Rightarrow> if \<not> truthy (Some invite) \<or> truthy (p_wrapped_package p) then None
               else Some \<lparr>pj_device = sl_device device, pj_sendOnly = sl_sendOnly device, pj_invite = invite\<rparr>))))))"

text \<open>Nothing stands for \<open>{ ready: false }\<close>.\<close>

definition pollPairing :: "conf \<Rightarrow> request \<Rightarrow> string \<Rightarrow> (string \<times> string) option handler" where
  "pollPairing cf rq param =
     bindS (liftE (enforceRateLimit (RL_PUBLIC cf) (clientIp rq))) (\<lambda>_.
     bindS (liftE (requireId (Some (JStr param)))) (\<lambda>pairingId.
     readS (\<lambda>s. case slot_of pairingId s of None \<Rightarrow> None
       | Some p \<Rightarrow> (if \<not> truthy (p_wrapped_package p) \<or> \<not> truthy (p_ephemeral_public_key p) then None
           else Some (the (p_wrapped_package p), the (p_ephemeral_public_key p))))))"

definition deletePairing :: "string \<Rightarrow> unit handler" where
  "deletePairing param =
     bindS (liftE (requireId (Some (JStr param)))) (\<lambda>pairingId.
     writeS (\<lambda>s. s\<lparr>pairing := delete_rows (\<lambda>p. p_pairing_id p = pairingId) (pairing s)\<rparr>))"

section \<open>A completion is all or nothing\<close>

lemma check_slot_Inr [guard_simps]:
  "check_slot r slot = Inr device \<longleftrightarrow> (\<exists>p. slot = Some p \<and> p_new_device p = Some device
     \<and> \<not> truthy (p_wrapped_package p) \<and> dd_publicKey (sl_device device) = pc_scannedPublicKey r
     \<and> dd_signingPublicKey (sl_device device) = pc_scannedSigningPublicKey r)"
  by (auto simp: check_slot_def guard_simps split: option.splits)

lemma parse_completion_package: "parse_completion b = Inr r \<Longrightarrow> pc_wrappedPackage r \<noteq> []"
  unfolding parse_completion_def bindE_Inr_iff by (elim exE conjE) (auto simp: requireString_Inr)

text \<open>What the batch leaves when both statements took effect.\<close>

definition completed :: "AuthContext \<Rightarrow> PairingCompleteBody \<Rightarrow> string \<Rightarrow> device_row \<Rightarrow> env \<Rightarrow> env" where
  "completed a r i row s = s\<lparr>
     devices := (if exists_row (\<lambda>d. d_id d = d_id row) (devices s)
       then update_rows (\<lambda>d. d_id d = d_id row) (\<lambda>d. row\<lparr>d_created_at := d_created_at d\<rparr>) (devices s)
       else devices s @ [row]),
     pairing := update_rows (\<lambda>p. p_pairing_id p = i \<and> p_wrapped_package p = None) (\<lambda>p. p\<lparr>p_group_id := Some (au_groupId a),
          p_wrapped_package := Some (pc_wrappedPackage r),
          p_ephemeral_public_key := Some (pc_ephemeralPublicKey r)\<rparr>) (pairing s)\<rparr>"

lemma register_device_cases:
  assumes pk: "pk d_id (devices s)" and row: "d_group_id row = au_groupId a" "active row"
  shows "register_device a r i row s = None
    \<or> register_device a r i row s = Some (0, s) \<and> (slot_open a r i s \<longrightarrow> \<not> is_member s (au_groupId a) (d_id row))
    \<or> register_device a r i row s = Some (1, s\<lparr>devices := devices (completed a r i row s)\<rparr>) \<and> slot_open a r i s
      \<and> (\<forall>d \<in> set (devices s). d_id d = d_id row \<longrightarrow> d_group_id d = au_groupId a)
      \<and> (\<forall>d \<in> set (devices s). d_id d \<noteq> d_id row \<longrightarrow> d_auth_token_hash d \<noteq> d_auth_token_hash row)"
proof -
  let ?mine = "\<lambda>d. d_id d = d_id row"
  let ?same = "\<lambda>d. d_id d = d_id row \<and> d_group_id d = d_group_id row"
  have one: "d_group_id d = d_group_id row" if "exists_row ?same (devices s)" "d \<in> set (devices s)" "d_id d = d_id row" for d
    
  proof -
    from that(1) obtain e where "e \<in> set (devices s)" "d_id e = d_id row" "d_group_id e = d_group_id row"
      unfolding exists_row_iff by blast
    with that(2,3) pk_unique [OF pk, of d e] show ?thesis by simp
  qed
  have upd: "update_rows ?same f (devices s) = update_rows ?mine f (devices s)" if "exists_row ?same (devices s)" for f
    unfolding update_rows_def by (rule map_cong [OF refl]) (use one [OF that] in metis)
  have up: "exists_row ?mine (devices s)" if "exists_row ?same (devices s)" using that by (auto simp: exists_row_iff)
  have none: "\<not> exists_row ?same (devices s) \<Longrightarrow> \<not> is_member s (au_groupId a) (d_id row)"
    using row(1) by (auto simp: is_member_def exists_row_iff)
  let ?clash = "exists_row (\<lambda>d. \<not> ?mine d \<and> d_auth_token_hash d = d_auth_token_hash row) (devices s)"
  consider "\<not> slot_open a r i s" | "exists_row ?mine (devices s)" "\<not> exists_row ?same (devices s)"
    | "slot_open a r i s" "exists_row ?mine (devices s) \<longrightarrow> exists_row ?same (devices s)" "?clash"
    | "slot_open a r i s" "exists_row ?mine (devices s) \<longrightarrow> exists_row ?same (devices s)" "\<not> ?clash" by blast
  then show ?thesis
  proof cases
    case 4
    then have hash: "\<forall>d \<in> set (devices s). d_id d \<noteq> d_id row \<longrightarrow> d_auth_token_hash d \<noteq> d_auth_token_hash row"
      unfolding exists_row_iff by blast
    show ?thesis
    proof (cases "exists_row ?same (devices s)")
      case True
      from 4 True have "register_device a r i row s = Some (1, s\<lparr>devices := devices (completed a r i row s)\<rparr>)"
        by (simp add: register_device_def Let_def upd [OF True] up [OF True] completed_def)
      then show ?thesis using hash 4 one [OF True] row(1) by simp
    next
      case False
      with 4 have no: "\<not> exists_row ?mine (devices s)" by blast
      with 4 False have "register_device a r i row s = Some (1, s\<lparr>devices := devices (completed a r i row s)\<rparr>)"
        by (simp add: register_device_def Let_def completed_def)
      then show ?thesis using hash 4 no by (auto simp: exists_row_iff)
    qed
  qed (use none in \<open>simp_all add: register_device_def Let_def\<close>)
qed

lemma fill_slot_none: "\<not> (\<exists>p \<in> set (pairing s). p_pairing_id p = i \<and> p_wrapped_package p = None) \<Longrightarrow> fill_slot a r i d s = (0, s)"
  by (simp add: fill_slot_def Let_def count_rows_0 update_rows_none exists_row_iff)

lemma completion_batch_cases:
  assumes pk: "pk d_id (devices s)" "pk p_pairing_id (pairing s)"
    and row: "d_group_id row = au_groupId a" "active row"
  shows "completion_batch a r i row s = (Inl Thrown, s) \<or> (\<exists>n. completion_batch a r i row s = (Inr (0, n), s))
    \<or> completion_batch a r i row s = (Inr (1, 1), completed a r i row s) \<and> slot_open a r i s
      \<and> (\<forall>d \<in> set (devices s). d_id d = d_id row \<longrightarrow> d_group_id d = au_groupId a)
      \<and> (\<forall>d \<in> set (devices s). d_id d \<noteq> d_id row \<longrightarrow> d_auth_token_hash d \<noteq> d_auth_token_hash row)"
  using register_device_cases [OF pk(1) row, of r i]
proof (elim disjE conjE)
  assume none: "register_device a r i row s = Some (0, s)"
    and out: "slot_open a r i s \<longrightarrow> \<not> is_member s (au_groupId a) (d_id row)"
  have "snd (fill_slot a r i (d_id row) s) = s"
  proof (cases "slot_open a r i s")
    case True
    then show ?thesis using out by (simp add: fill_slot_def Let_def)
  next
    case False
    then show ?thesis
      by (auto simp: slot_open_def fill_slot_def Let_def update_rows_none)
  qed
  then show ?thesis by (simp add: completion_batch_def none case_prod_beta)
next
  let ?s1 = "s\<lparr>devices := devices (completed a r i row s)\<rparr>"
  assume one: "register_device a r i row s = Some (1, ?s1)" and sl: "slot_open a r i s"
    and home: "\<forall>d \<in> set (devices s). d_id d = d_id row \<longrightarrow> d_group_id d = au_groupId a"
    and hash: "\<forall>d \<in> set (devices s). d_id d \<noteq> d_id row \<longrightarrow> d_auth_token_hash d \<noteq> d_auth_token_hash row"
  have member: "is_member ?s1 (au_groupId a) (d_id row)"
  proof (cases "exists_row (\<lambda>d. d_id d = d_id row) (devices s)")
    case True
    then obtain d where d: "d \<in> set (devices s)" "d_id d = d_id row" by (auto simp: exists_row_iff)
    then have "row\<lparr>d_created_at := d_created_at d\<rparr> \<in> set (devices ?s1)"
      using True by (auto simp: completed_def set_update_rows intro!: rev_image_eqI)
    then show ?thesis unfolding is_member_def exists_row_iff
      using row by (intro bexI [of _ "row\<lparr>d_created_at := d_created_at d\<rparr>"]) (simp_all add: active_def)
  next
    case False
    then show ?thesis using row by (simp add: is_member_def completed_def exists_row_append) (simp add: exists_row_def)
  qed
  have epoch: "epoch_of ?s1 (au_groupId a) = Some (pc_keyEpoch r)"
    using sl by (simp add: slot_open_def epoch_of_def group_of_def)
  have "count_rows (\<lambda>p. p_pairing_id p = i \<and> p_wrapped_package p = None) (pairing s) = 1"
    using sl pk_count [OF pk(2)] by (simp add: slot_open_def)
  then have "fill_slot a r i (d_id row) ?s1 = (1, completed a r i row s)"
    unfolding fill_slot_def Let_def if_P [OF conjI [OF epoch member]] by (simp add: completed_def)
  with one sl show ?thesis
    using home hash by (simp add: completion_batch_def)
qed (simp add: completion_batch_def)

text \<open>What the guards of \<open>completePairing\<close> let through.\<close>

definition may_complete :: "conf \<Rightarrow> request \<Rightarrow> string \<Rightarrow> env \<Rightarrow> AuthContext \<Rightarrow> PairingCompleteBody \<Rightarrow> SlotDevice
    \<Rightarrow> DeviceAttestation option \<Rightarrow> bool" where
  "may_complete cf rq i s a r device att \<longleftrightarrow> authenticate cf rq s = Inr a \<and> au_role a \<in> {Owner, Admin}
     \<and> (\<exists>body. request_json cf rq = Inr body \<and> parse_completion body = Inr r
          \<and> completion_attestation a body device = Inr att)
     \<and> pc_keyEpoch r = au_groupKeyEpoch a \<and> check_slot r (slot_of i s) = Inr device"

lemma completion_batch_wp:
  assumes "pk d_id (devices s)" "pk p_pairing_id (pairing s)"
    and row: "d_group_id row = au_groupId a" "active row" and "E s"
    and "slot_open a r i s \<Longrightarrow> \<forall>d \<in> set (devices s). d_id d = d_id row \<longrightarrow> d_group_id d = au_groupId a \<Longrightarrow>
      \<forall>d \<in> set (devices s). d_id d \<noteq> d_id row \<longrightarrow> d_auth_token_hash d \<noteq> d_auth_token_hash row \<Longrightarrow>
      Q (completed a r i row s)"
  shows "wp (completion_batch a r i row)
    (\<lambda>x s'. case x of (n, m) \<Rightarrow> if n \<noteq> 1 \<or> m \<noteq> 1 then E s' else Q s') (\<lambda>_. E) s"
  using completion_batch_cases [OF assms(1,2) row, of r i] assms(5,6)
  by (auto simp: wp_def)

lemma completePairing_wp:
  assumes "pk d_id (devices s)" "pk p_pairing_id (pairing s)"
  shows "wp (completePairing cf rq i now)
    (\<lambda>_ s'. \<exists>a r device att. may_complete cf rq i s a r device att \<and> slot_open a r i s
       \<and> (\<forall>d \<in> set (devices s). d_id d = dd_id (sl_device device) \<longrightarrow> d_group_id d = au_groupId a)
       \<and> (\<forall>d \<in> set (devices s). d_id d \<noteq> dd_id (sl_device device)
            \<longrightarrow> d_auth_token_hash d \<noteq> Some (pc_deviceAuthTokenHash r))
       \<and> s' = completed a r i (joined_row a r device att now) s)
    (\<lambda>_ s'. s' = s) s"
proof -
  define Q where "Q s' \<longleftrightarrow> (\<exists>a r device att. may_complete cf rq i s a r device att \<and> slot_open a r i s
       \<and> (\<forall>d \<in> set (devices s). d_id d = dd_id (sl_device device) \<longrightarrow> d_group_id d = au_groupId a)
       \<and> (\<forall>d \<in> set (devices s). d_id d \<noteq> dd_id (sl_device device)
            \<longrightarrow> d_auth_token_hash d \<noteq> Some (pc_deviceAuthTokenHash r))
       \<and> s' = completed a r i (joined_row a r device att now) s)" for s'
  define E where "E s' \<longleftrightarrow> s' = s" for s'
  have E: "E s" by (simp add: E_def)
  have fin: "wp (completion_batch a r i (joined_row a r device att now))
      (\<lambda>x s'. case x of (n, m) \<Rightarrow> if n \<noteq> 1 \<or> m \<noteq> 1 then E s' else Q s') (\<lambda>_. E) s"
    if "may_complete cf rq i s a r device att" for a r device att
  proof (rule completion_batch_wp [where Q = Q and E = E, OF assms])
    assume "slot_open a r i s"
      and "\<forall>d \<in> set (devices s). d_id d = d_id (joined_row a r device att now) \<longrightarrow> d_group_id d = au_groupId a"
      and "\<forall>d \<in> set (devices s). d_id d \<noteq> d_id (joined_row a r device att now)
        \<longrightarrow> d_auth_token_hash d \<noteq> d_auth_token_hash (joined_row a r device att now)"
    then show "Q (completed a r i (joined_row a r device att now) s)"
      unfolding Q_def using that by (simp add: joined_row_def) blast
  qed (simp_all add: joined_row_def active_def E)
  have "wp (completePairing cf rq i now) (\<lambda>_. Q) (\<lambda>_. E) s"
    unfolding completePairing_def wp_simps
    by (auto split: sum.splits simp: E requireId_Inr requireAdmin_Inr intro!: wp_mono [OF fin])
       (auto simp: may_complete_def)
  then show ?thesis unfolding Q_def E_def .
qed

lemma completed_rows [simp]:
  "groups (completed a r i row s) = groups s" "messages (completed a r i row s) = messages s"
  "key_distribution (completed a r i row s) = key_distribution s"
  "delivery_status (completed a r i row s) = delivery_status s"
  by (simp_all add: completed_def)

lemma completed_devices:
  "d \<in> set (devices (completed a r i row s)) \<longleftrightarrow>
     (d \<in> set (devices s) \<and> d_id d \<noteq> d_id row)
     \<or> (\<exists>x \<in> set (devices s). d_id x = d_id row \<and> d = row\<lparr>d_created_at := d_created_at x\<rparr>)
     \<or> (d = row \<and> (\<forall>x \<in> set (devices s). d_id x \<noteq> d_id row))"
  by (auto simp: completed_def exists_row_iff set_update_rows image_iff)

lemma completed_self:
  assumes "d \<in> set (devices (completed a r i row s))" and "d_id d = d_id row"
  shows "\<exists>c. d = row\<lparr>d_created_at := c\<rparr>"
proof -
  have "row = row\<lparr>d_created_at := d_created_at row\<rparr>" by simp
  then show ?thesis using assms unfolding completed_devices by blast
qed

lemma completed_member:
  assumes "d_group_id row = au_groupId a" "active row"
    and "\<forall>d \<in> set (devices s). d_id d = d_id row \<longrightarrow> d_group_id d = au_groupId a"
  shows "is_member (completed a r i row s) g j \<longleftrightarrow> is_member s g j \<or> (g = au_groupId a \<and> j = d_id row)"
proof (cases "\<exists>x \<in> set (devices s). d_id x = d_id row")
  case True
  then obtain x where x: "x \<in> set (devices s)" "d_id x = d_id row" by blast
  have dev: "devices (completed a r i row s)
      = update_rows (\<lambda>d. d_id d = d_id row) (\<lambda>d. row\<lparr>d_created_at := d_created_at d\<rparr>) (devices s)"
    using True by (simp add: completed_def exists_row_iff)
  show ?thesis
  proof (cases "j = d_id row")
    case same: True
    have "is_member (completed a r i row s) g j \<longleftrightarrow> g = au_groupId a"
      unfolding is_member_def exists_row_iff dev bex_update_rows using assms(1,2) x same
      by (auto simp: active_def split: if_splits)
    moreover have "is_member s g j \<longrightarrow> g = au_groupId a"
      unfolding is_member_def exists_row_iff using assms(3) same by blast
    ultimately show ?thesis using same by blast
  next
    case False
    then show ?thesis unfolding is_member_def exists_row_iff dev bex_update_rows
      by (intro disjI1 iffI) (auto split: if_splits)
  qed
next
  case False
  then show ?thesis using assms(1,2) unfolding is_member_def exists_row_iff
    by (auto simp: completed_def exists_row_iff)
qed

lemma keys_ok_completed:
  assumes ok: "keys_ok s" and row: "d_group_id row = au_groupId a" "d_key_epoch row = pc_keyEpoch r"
    and "slot_open a r i s"
  shows "keys_ok (completed a r i row s)"
proof -
  let ?s = "completed a r i row s"
  have w: "within ?s g n = within s g n" for g n by (simp add: within_def epoch_of_def group_of_def)
  have "pk d_id (devices ?s)"
    using ok unfolding keys_ok_def completed_def by (auto simp: pk_update_rows pk_snoc exists_row_iff)
  moreover have "within s (au_groupId a) (pc_keyEpoch r)" using assms(4) by (simp add: slot_open_def within_def)
  ultimately show ?thesis using ok row by (auto simp: keys_ok_def w completed_devices)
qed

lemma messages_ok_grows:
  assumes "messages_ok s" and "messages s' = messages s" "delivery_status s' = delivery_status s"
    and "\<And>g j. is_member s g j \<Longrightarrow> is_member s' g j"
  shows "messages_ok s'"
  using assms unfolding messages_ok_def exists_row_iff by simp blast

section \<open>Properties\<close>

text \<open>What a request says under a name, as a string; what the parser reads is that.\<close>

definition spelled :: "json \<Rightarrow> string \<Rightarrow> string option" where
  "spelled body f = (case jfield body f of Some (JStr x) \<Rightarrow> Some x | _ \<Rightarrow> None)"

lemma parse_completion_spelled:
  assumes "parse_completion body = Inr r"
  shows "spelled body ''scannedPublicKey'' = Some (pc_scannedPublicKey r)"
    "spelled body ''scannedSigningPublicKey'' = pc_scannedSigningPublicKey r"
    "spelled body ''encryptedName'' = Some (pc_encryptedName r)" "spelled body ''nameIv'' = Some (pc_nameIv r)"
    "spelled body ''deviceAuthTokenHash'' = Some (pc_deviceAuthTokenHash r)"
    "spelled body ''wrappedPackage'' = Some (pc_wrappedPackage r)"
  using assms unfolding parse_completion_def bindE_Inr_iff
  by (elim exE conjE; auto simp: spelled_def guard_simps)+

text \<open>C13. Who a completion admits. \<open>completePairing\<close> either changes nothing or, as one of the space's
  administrators asked, admits exactly the device its slot described, under the two public keys that the
  administrator's request says were scanned, with the name and the token of that request, as a plain member holding the space's
  current key; everyone else stays what they were, the slot holds the package of the request and is spent, and the
  invariants of keys and messages still hold.\<close>

theorem completePairing_admits:
  assumes "keys_ok s" and "pk p_pairing_id (pairing s)" and "completePairing cf rq i now s = (res, s')"
  shows "if res = Inr () then
      (\<exists>a p device d body. authenticate cf rq s = Inr a \<and> au_role a \<in> {Owner, Admin} \<and> request_json cf rq = Inr body
        \<and> slot_of i s = Some p \<and> p_new_device p = Some device \<and> p_wrapped_package p = None
        \<and> d \<in> set (devices s') \<and> d_id d = dd_id (sl_device device) \<and> d_group_id d = au_groupId a
        \<and> d_public_key d = dd_publicKey (sl_device device) \<and> d_signing_public_key d = dd_signingPublicKey (sl_device device)
        \<and> spelled body ''scannedPublicKey'' = Some (d_public_key d)
        \<and> spelled body ''scannedSigningPublicKey'' = d_signing_public_key d
        \<and> spelled body ''encryptedName'' = d_name_enc d \<and> spelled body ''nameIv'' = d_name_iv d
        \<and> spelled body ''deviceAuthTokenHash'' = d_auth_token_hash d
        \<and> d_role d = Member \<and> active d
        \<and> Some (d_key_epoch d) = epoch_of s (au_groupId a)
        \<and> (\<forall>g j. is_member s' g j \<longleftrightarrow> is_member s g j \<or> (g = au_groupId a \<and> j = d_id d))
        \<and> (\<forall>x \<in> set (devices s). d_id x \<noteq> d_id d \<longrightarrow> x \<in> set (devices s'))
        \<and> (\<forall>p \<in> set (pairing s'). p_pairing_id p = i \<longrightarrow> truthy (p_wrapped_package p)
             \<and> spelled body ''wrappedPackage'' = p_wrapped_package p)
        \<and> keys_ok s' \<and> (messages_ok s \<longrightarrow> messages_ok s'))
    else s' = s" (is "if _ then ?admitted else _")
proof (cases res)
  case (Inl e)
  have pk: "pk d_id (devices s)" using assms(1) by (simp add: keys_ok_def)
  from wpD_err [OF completePairing_wp [OF pk assms(2)], of cf rq i now e s'] assms(3) Inl show ?thesis by simp
next
  case (Inr u)
  have pk: "pk d_id (devices s)" using assms(1) by (simp add: keys_ok_def)
  from wpD [OF completePairing_wp [OF pk assms(2)], of cf rq i now u s'] assms(3) Inr
  obtain a r device att where may: "may_complete cf rq i s a r device att" and sl: "slot_open a r i s"
    and home: "\<forall>d \<in> set (devices s). d_id d = dd_id (sl_device device) \<longrightarrow> d_group_id d = au_groupId a"
    and s': "s' = completed a r i (joined_row a r device att now) s" by blast
  let ?row = "joined_row a r device att now"
  have row: "d_group_id ?row = au_groupId a" "active ?row" "d_key_epoch ?row = pc_keyEpoch r"
    "d_id ?row = dd_id (sl_device device)"
    by (simp_all add: joined_row_def active_def)
  have mem: "is_member s' g j \<longleftrightarrow> is_member s g j \<or> (g = au_groupId a \<and> j = d_id ?row)" for g j
    unfolding s' by (rule completed_member) (use row home in simp_all)
  then have msgs: "messages_ok s \<longrightarrow> messages_ok s'" by (auto intro: messages_ok_grows simp: s')
  have keys: "keys_ok s'" unfolding s' using keys_ok_completed [OF assms(1) row(1,3) sl] .
  from may obtain p where p: "slot_of i s = Some p" "p_new_device p = Some device" "\<not> truthy (p_wrapped_package p)"
    by (auto simp: may_complete_def guard_simps)
  from sl obtain q where q: "q \<in> set (pairing s)" "p_pairing_id q = i" "p_wrapped_package q = None"
    by (auto simp: slot_open_def exists_row_iff)
  have only: "x = q" if "x \<in> set (pairing s)" "p_pairing_id x = i" for x
    using pk_unique [OF assms(2) that(1) q(1)] that(2) q(2) by simp
  have "p = q" using p(1) only by (auto simp: slot_of_def dest: first_row_Some)
  from may obtain body where body: "request_json cf rq = Inr body" "parse_completion body = Inr r" by (auto simp: may_complete_def)
  note said = parse_completion_spelled [OF body(2)]
  have spent: "truthy (p_wrapped_package x) \<and> spelled body ''wrappedPackage'' = p_wrapped_package x"
    if "x \<in> set (pairing s')" "p_pairing_id x = i" for x
  proof -
    let ?c = "\<lambda>p. p_pairing_id p = i \<and> p_wrapped_package p = None"
    let ?f = "\<lambda>p. p\<lparr>p_group_id := Some (au_groupId a), p_wrapped_package := Some (pc_wrappedPackage r),
          p_ephemeral_public_key := Some (pc_ephemeralPublicKey r)\<rparr>"
    have "pairing s' = update_rows ?c ?f (pairing s)" by (simp add: s' completed_def)
    with that(1) obtain y where y: "y \<in> set (pairing s)" "x = (if ?c y then ?f y else y)"
      by (auto simp: set_update_rows)
    with that(2) have "p_pairing_id y = i" by (simp split: if_splits)
    with y(1) only have "y = q" by blast
    with y(2) q have "p_wrapped_package x = Some (pc_wrappedPackage r)" by simp
    then show ?thesis using said(6) parse_completion_package [OF body(2)] by (simp add: truthy_def)
  qed
  have others: "x \<in> set (devices s')" if "x \<in> set (devices s)" "d_id x \<noteq> d_id ?row" for x
    using that by (simp add: s' completed_devices)
  have "is_member s' (au_groupId a) (d_id ?row)" using mem by blast
  then obtain d where d: "d \<in> set (devices s')" "d_id d = d_id ?row"
    unfolding is_member_def exists_row_iff by blast
  then obtain c where "d = ?row\<lparr>d_created_at := c\<rparr>" unfolding s' by (blast dest: completed_self)
  then have "d_id d = dd_id (sl_device device)" "d_group_id d = au_groupId a" "d_role d = Member" "active d"
    "d_public_key d = dd_publicKey (sl_device device)" "d_signing_public_key d = dd_signingPublicKey (sl_device device)"
    "d_name_enc d = Some (pc_encryptedName r)" "d_name_iv d = Some (pc_nameIv r)" "d_auth_token_hash d = Some (pc_deviceAuthTokenHash r)"
    "Some (d_key_epoch d) = epoch_of s (au_groupId a)"
    using sl by (simp_all add: joined_row_def active_def slot_open_def)
  moreover have "dd_publicKey (sl_device device) = pc_scannedPublicKey r" "dd_signingPublicKey (sl_device device) = pc_scannedSigningPublicKey r"
    using may by (auto simp: may_complete_def guard_simps)
  moreover have "authenticate cf rq s = Inr a" "au_role a \<in> {Owner, Admin}" using may by (simp_all add: may_complete_def)
  moreover have "p_wrapped_package p = None" using q(3) \<open>p = q\<close> by simp
  ultimately have ?admitted
    using p(1,2) d mem others spent keys msgs row(4) body(1) said
    by (intro exI [of _ a] exI [of _ p] exI [of _ device] exI [of _ d] exI [of _ body] conjI) simp_all
  with Inr show ?thesis by simp
qed

text \<open>C14. What a slot may not name. Nothing stops a slot from naming a device that the space already
  has: completing it, which any administrator may do, makes that device, were it the owner, a plain
  member under the slot's key and a token that the completing administrator chose.\<close>

theorem completion_overwrites_device:
  assumes "keys_ok s" and "pk p_pairing_id (pairing s)" and "d \<in> set (devices s)"
    and "slot_of i s = Some p" and "p_new_device p = Some device" and "dd_id (sl_device device) = d_id d"
    and "completePairing cf rq i now s = (Inr (), s')"
  shows "\<forall>x \<in> set (devices s'). d_id x = d_id d \<longrightarrow> d_role x = Member
    \<and> d_public_key x = dd_publicKey (sl_device device)
    \<and> (\<exists>body token. request_json cf rq = Inr body \<and> jfield body ''deviceAuthTokenHash'' = Some (JStr token)
         \<and> d_auth_token_hash x = Some token)"
proof -
  have pk: "pk d_id (devices s)" using assms(1) by (simp add: keys_ok_def)
  from wpD [OF completePairing_wp [OF pk assms(2)] assms(7)]
  obtain a r device' att where may: "may_complete cf rq i s a r device' att"
    and s': "s' = completed a r i (joined_row a r device' att now) s" by blast
  from may assms(4,5) have dev: "device' = device" by (auto simp: may_complete_def guard_simps)
  from may obtain body where body: "request_json cf rq = Inr body" "parse_completion body = Inr r"
    by (auto simp: may_complete_def)
  from body(2) have "jfield body ''deviceAuthTokenHash'' = Some (JStr (pc_deviceAuthTokenHash r))"
    unfolding parse_completion_def bindE_Inr_iff by (elim exE conjE) (auto simp: requireSha256Hex_Inr)
  with body(1) show ?thesis using assms(3,6)
    by (auto simp: s' completed_devices dev joined_row_def)
qed

section \<open>At concrete inputs\<close>

text \<open>The administrator \<open>c\<close> completes a slot that names the owner \<open>a\<close>.\<close>

definition join_body :: json where
  "join_body = JObj [(''wrappedPackage'', JStr ''w''), (''ephemeralPublicKey'', JStr ''e''),
     (''scannedPublicKey'', JStr ''mine''), (''encryptedName'', JStr ''n''), (''nameIv'', JStr ''iv''),
     (''deviceAuthTokenHash'', JStr (replicate 64 CHR ''0'')), (''keyEpoch'', JNum (IntN 1))]"

definition join_env :: "string \<Rightarrow> env" where
  "join_env i = team_env\<lparr>pairing := [\<lparr>p_pairing_id = ''slot-1'', p_group_id = None, p_wrapped_package = None,
     p_ephemeral_public_key = None, p_new_device = Some \<lparr>sl_device = \<lparr>dd_id = i, dd_publicKey = ''mine'',
       dd_signingPublicKey = None\<rparr>, sl_sendOnly = False, sl_invite = None\<rparr>, p_created_at = 0\<rparr>]\<rparr>"

definition join_run :: "string \<Rightarrow> (failure + unit) \<times> env" where
  "join_run i = completePairing (sample_conf join_body) (sample_request ''c'') ''slot-1'' 9 (join_env i)"

theorem completePairing_admits_witness:
  "fst (join_run ''z'') = Inr () \<and> is_member (snd (join_run ''z'')) ''g'' ''z'' \<and> keys_ok (snd (join_run ''z''))"
proof -
  have r: "fst (join_run ''z'') = Inr ()" by code_simp
  have run: "completePairing (sample_conf join_body) (sample_request ''c'') ''slot-1'' 9 (join_env ''z'')
     = (Inr (), snd (join_run ''z''))" using run_fst [OF r] unfolding join_run_def .
  have "keys_ok (join_env ''z'')" "pk p_pairing_id (pairing (join_env ''z''))" by code_simp+
  from completePairing_admits [OF this run] have "keys_ok (snd (join_run ''z''))" by auto
  moreover have "is_member (snd (join_run ''z'')) ''g'' ''z''" by code_simp
  ultimately show ?thesis using r by blast
qed

theorem completion_overwrites_device_witness:
  "list_all (\<lambda>x. d_role x = Member \<and> d_public_key x = ''mine'')
     (filter (\<lambda>x. d_id x = ''a'') (devices (snd (join_run ''a''))))"
proof -
  have r: "fst (join_run ''a'') = Inr ()" by code_simp
  have run: "completePairing (sample_conf join_body) (sample_request ''c'') ''slot-1'' 9 (join_env ''a'')
     = (Inr (), snd (join_run ''a''))" using run_fst [OF r] unfolding join_run_def .
  have "keys_ok (join_env ''a'')" "pk p_pairing_id (pairing (join_env ''a''))" by code_simp+
  moreover have "sample_device ''g'' ''a'' Owner 1 \<in> set (devices (join_env ''a''))"
    by (simp add: join_env_def team_env_def sample_env_def)
  ultimately show ?thesis
    using completion_overwrites_device [OF _ _ _ _ _ _ run, of "sample_device ''g'' ''a'' Owner 1"]
    by (auto simp: sample_device_def slot_of_def first_row_def join_env_def list_all_iff)
qed

end
