(* ===== verification/Vault.thy ===== *)
theory Vault
  imports Pairing
begin

text \<open>
  The vault's storage (apps/worker/src/vault.ts): the change counter, purging an item with
  everything in it, the trash and the forgetting of tombstones. The recursive query that lists a
  subtree is a closure iterated at most once per row, and \<open>subtree_iff\<close> says it is the inductive
  relation \<open>below\<close>. The lemmas describe a purge exactly, whatever R2 does: which rows become
  tombstones, that each takes a change number of its own, and that the loops end. The relation
  \<open>advances\<close> is what the sync of a device relies on: a changed row always carries a newer number.
\<close>

section \<open>Items\<close>

definition live :: "vault_row \<Rightarrow> bool" where
  "live r \<longleftrightarrow> v_removed_at r = None"

text \<open>\<open>VAULT_ITEM_COLUMNS\<close>. The sealed columns of a live row are never NULL.\<close>

definition item_of :: "vault_row \<Rightarrow> VaultItemRecord" where
  "item_of r = \<lparr>vi_id = v_id r, vi_parentId = v_parent_id r, vi_kind = v_kind r,
     vi_keyEpoch = (case v_key_epoch r of None \<Rightarrow> 0 | Some e \<Rightarrow> e),
     vi_meta = (case v_meta r of None \<Rightarrow> [] | Some m \<Rightarrow> m),
     vi_metaIv = (case v_meta_iv r of None \<Rightarrow> [] | Some m \<Rightarrow> m),
     vi_blobKey = v_blob_key r, vi_blobSize = v_blob_size r, vi_revision = v_revision r,
     vi_createdAt = v_created_at r, vi_updatedAt = v_updated_at r, vi_trashedAt = v_trashed_at r,
     vi_seq = v_seq r\<rparr>"

definition PURGE_BATCH_SIZE :: nat where "PURGE_BATCH_SIZE = 40"

definition nextVaultSeq :: "string \<Rightarrow> env \<Rightarrow> env" where
  "nextVaultSeq g = update_group g (\<lambda>r. r\<lparr>g_vault_seq := g_vault_seq r + 1\<rparr>)"

definition VAULT_SEQ :: "env \<Rightarrow> string \<Rightarrow> int" where
  "VAULT_SEQ s g = (case group_of s g of None \<Rightarrow> 0 | Some r \<Rightarrow> g_vault_seq r)"

definition vault_row_of :: "env \<Rightarrow> string \<Rightarrow> string \<Rightarrow> vault_row option" where
  "vault_row_of s g i = first_row (\<lambda>r. v_group_id r = g \<and> v_id r = i \<and> live r) (vault_items s)"

definition vaultItem :: "env \<Rightarrow> string \<Rightarrow> string \<Rightarrow> VaultItemRecord option" where
  "vaultItem s g i = map_option item_of (vault_row_of s g i)"

section \<open>Subtrees\<close>

definition inside :: "string \<Rightarrow> string list \<Rightarrow> vault_row \<Rightarrow> bool" where
  "inside g ids r \<longleftrightarrow> v_group_id r = g
     \<and> (case v_parent_id r of None \<Rightarrow> False | Some p \<Rightarrow> p \<in> set ids)"

fun tree_closure :: "nat \<Rightarrow> string \<Rightarrow> vault_row table \<Rightarrow> string list \<Rightarrow> string list" where
  "tree_closure 0 g t ids = ids"
| "tree_closure (Suc n) g t ids =
     (let found = filter (\<lambda>r. inside g ids r \<and> v_id r \<notin> set ids) t in
      if found = [] then ids else tree_closure n g t (ids @ map v_id found))"

definition SUBTREE :: "string \<Rightarrow> string \<Rightarrow> vault_row table \<Rightarrow> string list" where
  "SUBTREE g root t = tree_closure (length t) g t [root]"

inductive below :: "string \<Rightarrow> vault_row table \<Rightarrow> string \<Rightarrow> string \<Rightarrow> bool" for g t root where
  below_self: "below g t root root"
| below_child: "below g t root p \<Longrightarrow> r \<in> set t \<Longrightarrow> v_group_id r = g \<Longrightarrow> v_parent_id r = Some p
    \<Longrightarrow> below g t root (v_id r)"

inductive_cases below_cases: "below g t root i"

section \<open>Purging\<close>

definition tombstone_row :: "int \<Rightarrow> int \<Rightarrow> vault_row \<Rightarrow> vault_row" where
  "tombstone_row now n r = r\<lparr>v_removed_at := Some now, v_trashed_at := None, v_key_epoch := None,
     v_meta := None, v_meta_iv := None, v_blob_key := None, v_blob_size := 0, v_updated_at := now,
     v_seq := n\<rparr>"

text \<open>The rows changed, and the state.\<close>

definition tombstone :: "string \<Rightarrow> string \<Rightarrow> int \<Rightarrow> (vault_row \<Rightarrow> bool) \<Rightarrow> env \<Rightarrow> nat \<times> env" where
  "tombstone g i now guard s =
     (let c = (\<lambda>r. v_group_id r = g \<and> v_id r = i \<and> live r \<and> guard r) in
      (count_rows c (vault_items s),
       s\<lparr>vault_items := update_rows c (tombstone_row now (VAULT_SEQ s g)) (vault_items s)\<rparr>))"

text \<open>The walk: live rows of the tree, none if the item has no row at all.\<close>

definition purge_walk :: "string \<Rightarrow> string \<Rightarrow> env \<Rightarrow> vault_row list" where
  "purge_walk g i s =
     (if exists_row (\<lambda>r. v_group_id r = g \<and> v_id r = i) (vault_items s)
      then filter (\<lambda>r. v_group_id r = g \<and> v_id r \<in> set (SUBTREE g i (vault_items s)) \<and> live r) (vault_items s)
      else [])"

text \<open>One D1 batch, two statements per row: the rows it purged, and the state.\<close>

fun purge_batch :: "string \<Rightarrow> string \<Rightarrow> int \<Rightarrow> vault_row list \<Rightarrow> env \<Rightarrow> vault_row list \<times> env" where
  "purge_batch g root now [] s = ([], s)"
| "purge_batch g root now (r # rs) s =
     (let s0 = nextVaultSeq g s; (n, s1) = tombstone g (v_id r) now (\<lambda>x. v_id x \<in> set (SUBTREE g root (vault_items s0))) s0;
          (done, s2) = purge_batch g root now rs s1
      in (if n = 1 then r # done else done, s2))"

definition blob_keys :: "string \<Rightarrow> vault_row list \<Rightarrow> (string \<times> string) list" where
  "blob_keys g rs = concat (map (\<lambda>r. if truthy (v_blob_key r) then [(g, the (v_blob_key r))] else []) rs)"

fun purge_batches :: "string \<Rightarrow> string \<Rightarrow> int \<Rightarrow> string list \<Rightarrow> vault_row list list \<Rightarrow> string list handler" where
  "purge_batches g root now purged [] = retS purged"
| "purge_batches g root now purged (b # bs) =
     bindS (\<lambda>s. let (done, s') = purge_batch g root now b s in (Inr done, s')) (\<lambda>done.
     bindS (catchS (deleteUnclaimedBlobs VAULT_BLOBS (blob_keys g done))) (\<lambda>_.
     purge_batches g root now (purged @ map v_id done) bs))"

fun purge_rounds :: "nat \<Rightarrow> string \<Rightarrow> string \<Rightarrow> int \<Rightarrow> string list \<Rightarrow> string list handler" where
  "purge_rounds 0 g i now purged = retS purged"
| "purge_rounds (Suc fuel) g i now purged =
     bindS (readS (purge_walk g i)) (\<lambda>rows.
     if rows = [] then retS purged
     else bindS (purge_batches g i now purged (batches PURGE_BATCH_SIZE rows)) (\<lambda>purged'.
       purge_rounds fuel g i now purged'))"

text \<open>A round that runs alone leaves nothing for the next, so two rounds reach the end
  (\<open>purgeVaultItem_exact\<close>); the loop is given one more round than there are rows.\<close>

definition purgeVaultItem :: "string \<Rightarrow> string \<Rightarrow> int \<Rightarrow> string list handler" where
  "purgeVaultItem g i now s = purge_rounds (Suc (length (vault_items s))) g i now [] s"

definition purgeExpiredVaultItem :: "string \<Rightarrow> string \<Rightarrow> int \<Rightarrow> int \<Rightarrow> string list handler" where
  "purgeExpiredVaultItem g i expiredBefore now =
     bindS (readS (\<lambda>s. first_row (\<lambda>r. v_group_id r = g \<and> v_id r = i \<and> live r
       \<and> (case v_trashed_at r of None \<Rightarrow> False | Some t \<Rightarrow> t < expiredBefore)) (vault_items s))) (\<lambda>root.
     case root of None \<Rightarrow> retS []
     | Some row \<Rightarrow>
       bindS (\<lambda>s. let (n, s') = tombstone g i now (\<lambda>r. (case v_trashed_at r of None \<Rightarrow> False | Some t \<Rightarrow> t < expiredBefore)
           \<and> v_blob_key r = v_blob_key row) (nextVaultSeq g s) in (Inr n, s')) (\<lambda>changes.
       if changes \<noteq> 1 then retS []
       else bindS (if truthy (v_blob_key row) then catchS (deleteUnclaimedBlobs VAULT_BLOBS [(g, the (v_blob_key row))])
         else retS ()) (\<lambda>_.
       bindS (purgeVaultItem g i now) (\<lambda>rest. retS (i # rest)))))"

section \<open>The scheduled clean-up\<close>

definition trash_expired :: "int \<Rightarrow> vault_row \<Rightarrow> bool" where
  "trash_expired expiredBefore r \<longleftrightarrow> (case v_trashed_at r of None \<Rightarrow> False | Some t \<Rightarrow> t < expiredBefore) \<and> live r"

fun trash_loop :: "nat \<Rightarrow> int \<Rightarrow> int \<Rightarrow> unit handler" where
  "trash_loop 0 expiredBefore now = retS ()"
| "trash_loop (Suc fuel) expiredBefore now =
     bindS (readS (\<lambda>s. take 50 (filter (trash_expired expiredBefore) (vault_items s)))) (\<lambda>rows.
     if rows = [] then retS ()
     else bindS (forS rows (\<lambda>r. bindS (purgeExpiredVaultItem (v_group_id r) (v_id r) expiredBefore now) (\<lambda>_. retS ())))
       (\<lambda>_. trash_loop fuel expiredBefore now))"

definition forgettable :: "int \<Rightarrow> vault_row \<Rightarrow> bool" where
  "forgettable forgottenBefore r = (case v_removed_at r of None \<Rightarrow> False | Some t \<Rightarrow> t < forgottenBefore)"

definition forget_tombstones :: "int \<Rightarrow> env \<Rightarrow> env" where
  "forget_tombstones forgottenBefore s = s\<lparr>
     groups := map (\<lambda>g. let gone = map v_seq (filter (\<lambda>r. v_group_id r = g_id g \<and> forgettable forgottenBefore r) (vault_items s))
       in if gone = [] then g else g\<lparr>g_vault_floor := max (g_vault_floor g) (Max (set gone))\<rparr>) (groups s),
     vault_items := delete_rows (forgettable forgottenBefore) (vault_items s)\<rparr>"

text \<open>Every round that finds rows purges one, so the rows bound the rounds.\<close>

definition cleanUpVault :: "int \<Rightarrow> unit handler" where
  "cleanUpVault now =
     bindS (\<lambda>s. trash_loop (Suc (length (vault_items s))) (now - VAULT_TRASH_TTL_MS) now s) (\<lambda>_.
     writeS (forget_tombstones (now - VAULT_TOMBSTONE_TTL_MS)))"

section \<open>The subtree query\<close>

lemma closure_sound:
  "\<forall>i \<in> set ids. below g t root i \<Longrightarrow> i \<in> set (tree_closure n g t ids) \<Longrightarrow> below g t root i"
proof (induction n arbitrary: ids)
  case (Suc n)
  let ?found = "filter (\<lambda>r. inside g ids r \<and> v_id r \<notin> set ids) t"
  have "below g t root (v_id r)" if "r \<in> set ?found" for r
    using that Suc.prems(1) by (auto simp: inside_def split: option.splits intro: below_child)
  then have found: "\<forall>i \<in> set (ids @ map v_id ?found). below g t root i" using Suc.prems(1) by auto
  show ?case
  proof (cases "?found = []")
    case True
    with Suc.prems show ?thesis by (simp add: Let_def)
  next
    case False
    with Suc.prems(2) have "i \<in> set (tree_closure n g t (ids @ map v_id ?found))"
      by (simp only: tree_closure.simps Let_def if_False)
    with Suc.IH [OF found] show ?thesis .
  qed
qed simp

lemma closure_grows: "set ids \<subseteq> set (tree_closure n g t ids)"
proof (induction n arbitrary: ids)
  case (Suc n)
  let ?found = "filter (\<lambda>r. inside g ids r \<and> v_id r \<notin> set ids) t"
  show ?case
  proof (cases "?found = []")
    case False
    have "set ids \<subseteq> set (ids @ map v_id ?found)" by simp
    also have "\<dots> \<subseteq> set (tree_closure n g t (ids @ map v_id ?found))" by (rule Suc.IH)
    finally show ?thesis using False by (simp only: tree_closure.simps Let_def if_False)
  qed simp
qed simp

text \<open>Rows still outside bound the rounds that can find something.\<close>

lemma closure_closed:
  "length (filter (\<lambda>r. v_id r \<notin> set ids) t) \<le> n \<Longrightarrow> r \<in> set t \<Longrightarrow>
     inside g (tree_closure n g t ids) r \<Longrightarrow> v_id r \<in> set (tree_closure n g t ids)"
proof (induction n arbitrary: ids)
  case 0
  then show ?case by (auto simp: filter_empty_conv)
next
  case (Suc n)
  let ?found = "filter (\<lambda>r. inside g ids r \<and> v_id r \<notin> set ids) t"
  show ?case
  proof (cases "?found = []")
    case True
    with Suc.prems show ?thesis by (auto simp: Let_def filter_empty_conv)
  next
    case False
    let ?ids = "ids @ map v_id ?found"
    from False obtain x where x: "x \<in> set t" "v_id x \<notin> set ids" "v_id x \<in> set ?ids"
      by (auto simp: filter_empty_conv)
    have "filter (\<lambda>r. v_id r \<notin> set ?ids) t = filter (\<lambda>r. v_id r \<notin> set ?ids) (filter (\<lambda>r. v_id r \<notin> set ids) t)"
      unfolding filter_filter by (rule filter_cong) auto
    moreover have "x \<in> set (filter (\<lambda>r. v_id r \<notin> set ids) t)" using x by simp
    ultimately have "length (filter (\<lambda>r. v_id r \<notin> set ?ids) t) < length (filter (\<lambda>r. v_id r \<notin> set ids) t)"
      using x(3) length_filter_less [of x "filter (\<lambda>r. v_id r \<notin> set ids) t" "\<lambda>r. v_id r \<notin> set ?ids"] by simp
    with Suc.prems(1) have "length (filter (\<lambda>r. v_id r \<notin> set ?ids) t) \<le> n" by linarith
    from Suc.IH [OF this Suc.prems(2)] Suc.prems(3) False show ?thesis by (simp only: tree_closure.simps Let_def if_False)
  qed
qed

text \<open>The closure the query computes is the relation it stands for.\<close>

lemma subtree_iff: "i \<in> set (SUBTREE g root t) \<longleftrightarrow> below g t root i"
proof
  show "i \<in> set (SUBTREE g root t) \<Longrightarrow> below g t root i"
    unfolding SUBTREE_def by (rule closure_sound) (auto intro: below_self)
  show "below g t root i \<Longrightarrow> i \<in> set (SUBTREE g root t)"
  proof (induction rule: below.induct)
    case below_self
    show ?case unfolding SUBTREE_def using closure_grows by fastforce
  next
    case (below_child p r)
    then show ?case unfolding SUBTREE_def
      by (intro closure_closed) (auto simp: inside_def intro: length_filter_le)
  qed
qed

text \<open>A write that leaves ids, spaces and parents alone leaves every subtree alone.\<close>

definition same_shape :: "(vault_row \<Rightarrow> vault_row) \<Rightarrow> bool" where
  "same_shape h \<longleftrightarrow> (\<forall>r. v_id (h r) = v_id r \<and> v_group_id (h r) = v_group_id r \<and> v_parent_id (h r) = v_parent_id r)"

lemma closure_map: "same_shape h \<Longrightarrow> tree_closure n g (map h t) ids = tree_closure n g t ids"
proof (induction n arbitrary: ids)
  case (Suc n)
  have ids: "map v_id (filter c (map h t)) = map v_id (filter c t)" if "\<And>r. c (h r) = c r" for c
    using that Suc.prems by (induction t) (auto simp: same_shape_def)
  have found: "map v_id (filter (\<lambda>r. inside g ids r \<and> v_id r \<notin> set ids) (map h t))
      = map v_id (filter (\<lambda>r. inside g ids r \<and> v_id r \<notin> set ids) t)"
    by (rule ids) (use Suc.prems in \<open>simp add: same_shape_def inside_def\<close>)
  show ?case
  proof (cases "filter (\<lambda>r. inside g ids r \<and> v_id r \<notin> set ids) t = []")
    case True
    with found have "filter (\<lambda>r. inside g ids r \<and> v_id r \<notin> set ids) (map h t) = []"
      by (simp only: list.map(1) map_is_Nil_conv)
    with True show ?thesis by simp
  next
    case False
    have "filter (\<lambda>r. inside g ids r \<and> v_id r \<notin> set ids) (map h t) \<noteq> []"
    proof
      assume "filter (\<lambda>r. inside g ids r \<and> v_id r \<notin> set ids) (map h t) = []"
      from found [unfolded this list.map(1)] False show False by (simp only: map_is_Nil_conv Nil_is_map_conv)
    qed
    with False show ?thesis by (simp only: tree_closure.simps Let_def if_False found Suc)
  qed
qed simp

lemma SUBTREE_map: "same_shape h \<Longrightarrow> SUBTREE g root (map h t) = SUBTREE g root t"
  by (simp add: SUBTREE_def closure_map)

section \<open>What a purge does\<close>

text \<open>\<open>V\<close>, live items of the space \<open>g\<close>, became tombstones at \<open>now\<close>, each under a number of its own that
  the space's counter had not given yet. Nothing else changed but the accounting of blobs.\<close>

definition buried :: "string \<Rightarrow> string set \<Rightarrow> int \<Rightarrow> (string \<Rightarrow> int) \<Rightarrow> vault_row \<Rightarrow> vault_row" where
  "buried g V now q r = (if v_group_id r = g \<and> v_id r \<in> V \<and> live r then tombstone_row now (q (v_id r)) r else r)"

definition purges :: "string \<Rightarrow> string set \<Rightarrow> int \<Rightarrow> env \<Rightarrow> env \<Rightarrow> bool" where
  "purges g V now s s' \<longleftrightarrow> (\<exists>q k t b.
     s' = (update_group g (\<lambda>r. r\<lparr>g_vault_seq := g_vault_seq r + k\<rparr>) s)
       \<lparr>vault_items := map (buried g V now q) (vault_items s), vault_blobs := t, VAULT := b\<rparr>
     \<and> 0 \<le> k \<and> inj_on q V \<and> (\<forall>i \<in> V. VAULT_SEQ s g < q i \<and> q i \<le> VAULT_SEQ s g + k))"

lemma same_shape_buried: "same_shape (buried g V now q)"
  by (simp add: same_shape_def buried_def tombstone_row_def)

lemma VAULT_SEQ_bump:
  "group_of s g \<noteq> None \<Longrightarrow> VAULT_SEQ (update_group g (\<lambda>r. r\<lparr>g_vault_seq := g_vault_seq r + k\<rparr>) s) g' =
     (if g' = g then VAULT_SEQ s g + k else VAULT_SEQ s g')"
  by (auto simp: VAULT_SEQ_def group_of_update_group split: option.split)

lemma bump_items [simp]:
  "group_of (s\<lparr>vault_items := t, vault_blobs := u, VAULT := b\<rparr>) g = group_of s g"
  "group_of (s\<lparr>vault_items := t\<rparr>) g = group_of s g"
  "VAULT_SEQ (s\<lparr>vault_items := t, vault_blobs := u, VAULT := b\<rparr>) g = VAULT_SEQ s g"
  "VAULT_SEQ (s\<lparr>vault_items := t\<rparr>) g = VAULT_SEQ s g"
  by (simp_all add: VAULT_SEQ_def group_of_def)

lemma bump_bump:
  "update_group g (\<lambda>r. r\<lparr>g_vault_seq := g_vault_seq r + j\<rparr>)
     ((update_group g (\<lambda>r. r\<lparr>g_vault_seq := g_vault_seq r + k\<rparr>) s)\<lparr>vault_items := t, vault_blobs := u, VAULT := b\<rparr>)
   = (update_group g (\<lambda>r. r\<lparr>g_vault_seq := g_vault_seq r + (k + j)\<rparr>) s)\<lparr>vault_items := t, vault_blobs := u, VAULT := b\<rparr>"
  by (simp add: update_group_def update_rows_def comp_def if_distrib add.assoc cong: if_cong)

lemma purges_refl: "purges g {} now s s"
proof -
  have "update_group g (\<lambda>r. r\<lparr>g_vault_seq := g_vault_seq r + 0\<rparr>) s = s"
    by (simp add: update_group_def update_rows_def)
  then show ?thesis unfolding purges_def
    by (intro exI [of _ "\<lambda>_. 0"] exI [of _ 0] exI [of _ "vault_blobs s"] exI [of _ "VAULT s"])
       (simp add: buried_def [abs_def])
qed

lemma purges_seq:
  assumes "purges g V now s s'" and "group_of s g \<noteq> None"
  shows "VAULT_SEQ s g \<le> VAULT_SEQ s' g" and "group_of s' g \<noteq> None"
  using assms by (auto simp: purges_def VAULT_SEQ_bump group_of_update_group)

lemma purges_trans:
  assumes "purges g V now s s1" and "purges g W now s1 s2" and "V \<inter> W = {}" and "group_of s g \<noteq> None"
  shows "purges g (V \<union> W) now s s2"
proof -
  from assms(1) obtain q k t b where 1: "s1 = (update_group g (\<lambda>r. r\<lparr>g_vault_seq := g_vault_seq r + k\<rparr>) s)
       \<lparr>vault_items := map (buried g V now q) (vault_items s), vault_blobs := t, VAULT := b\<rparr>"
     "0 \<le> k" "inj_on q V" "\<forall>i \<in> V. VAULT_SEQ s g < q i \<and> q i \<le> VAULT_SEQ s g + k" unfolding purges_def by blast
  from assms(2) obtain p j u c where 2: "s2 = (update_group g (\<lambda>r. r\<lparr>g_vault_seq := g_vault_seq r + j\<rparr>) s1)
       \<lparr>vault_items := map (buried g W now p) (vault_items s1), vault_blobs := u, VAULT := c\<rparr>"
     "0 \<le> j" "inj_on p W" "\<forall>i \<in> W. VAULT_SEQ s1 g < p i \<and> p i \<le> VAULT_SEQ s1 g + j" unfolding purges_def by blast
  have seq: "VAULT_SEQ s1 g = VAULT_SEQ s g + k" using assms(4) by (simp add: 1(1) VAULT_SEQ_bump)
  define f where "f i = (if i \<in> V then q i else p i)" for i
  have "buried g W now p (buried g V now q r) = buried g (V \<union> W) now f r" for r
  proof -
    from assms(3) have "v_id r \<in> V \<Longrightarrow> v_id r \<notin> W" by blast
    then show ?thesis by (cases "v_id r \<in> V") (simp_all add: buried_def f_def tombstone_row_def live_def)
  qed
  then have items: "map (buried g W now p) (vault_items s1) = map (buried g (V \<union> W) now f) (vault_items s)"
    by (simp add: 1(1))
  have "s2 = (update_group g (\<lambda>r. r\<lparr>g_vault_seq := g_vault_seq r + (k + j)\<rparr>) s)
       \<lparr>vault_items := map (buried g (V \<union> W) now f) (vault_items s), vault_blobs := u, VAULT := c\<rparr>"
    unfolding 2(1) items by (subst 1(1), subst bump_bump) simp
  moreover have "inj_on f (V \<union> W)"
  proof (rule inj_onI)
    fix x y assume "x \<in> V \<union> W" "y \<in> V \<union> W" "f x = f y"
    then show "x = y" using 1(3,4) 2(3,4) assms(3) unfolding f_def seq
      by (cases "x \<in> V"; cases "y \<in> V") (force dest: inj_onD)+
  qed
  moreover have "\<forall>i \<in> V \<union> W. VAULT_SEQ s g < f i \<and> f i \<le> VAULT_SEQ s g + (k + j)"
    using 1(2,4) 2(2,4) unfolding f_def seq by fastforce
  ultimately show ?thesis unfolding purges_def using 1(2) 2(2)
    by (intro exI [of _ f] exI [of _ "k + j"] exI [of _ u] exI [of _ c]) simp
qed

text \<open>The clean-up of blobs touches no item.\<close>

lemma deleteUnclaimed_blobs_only:
  "\<exists>t b. snd (deleteUnclaimedBlobs VAULT_BLOBS ks s) = s\<lparr>vault_blobs := t, VAULT := b\<rparr>"
proof (cases "bs_down VAULT_BLOBS s")
  case True
  from vault_store.delete_batches_down [OF True, of "batches SWEEP_BATCH_SIZE ks"] obtain t where
    "snd (deleteUnclaimedBlobs VAULT_BLOBS ks s) = bs_put VAULT_BLOBS t s"
    unfolding deleteUnclaimedBlobs_def by blast
  then show ?thesis by (intro exI [of _ t] exI [of _ "VAULT s"]) (simp add: VAULT_BLOBS_def)
next
  case False
  then have "snd (deleteUnclaimedBlobs VAULT_BLOBS ks s) = vault_store.erase (vault_store.goner ks s) s"
    by (simp add: vault_store.deleteUnclaimedBlobs_ok)
  also have "\<dots> = bs_put_bucket VAULT_BLOBS (bs_bucket VAULT_BLOBS (vault_store.erase (vault_store.goner ks s) s))
      (bs_put VAULT_BLOBS (bs_rows VAULT_BLOBS (vault_store.erase (vault_store.goner ks s) s)) s)"
    by (simp add: vault_store.erase_def)
  finally show ?thesis by (simp add: VAULT_BLOBS_def) blast
qed

lemma purges_blobs: "purges g {} now s (snd (catchS (deleteUnclaimedBlobs VAULT_BLOBS ks) s))"
proof -
  obtain t b where tb: "snd (deleteUnclaimedBlobs VAULT_BLOBS ks s) = s\<lparr>vault_blobs := t, VAULT := b\<rparr>"
    using deleteUnclaimed_blobs_only by blast
  have "update_group g (\<lambda>r. r\<lparr>g_vault_seq := g_vault_seq r + 0\<rparr>) s = s"
    by (simp add: update_group_def update_rows_def)
  then show ?thesis unfolding purges_def catchS_def
    by (intro exI [of _ "\<lambda>_. 0"] exI [of _ 0] exI [of _ t] exI [of _ b])
       (simp add: tb buried_def [abs_def])
qed

lemma purges_one:
  assumes "pk v_key (vault_items s)" and "r \<in> set (vault_items s)" "live r" "v_group_id r = g" and "guard r"
    and "group_of s g \<noteq> None"
  shows "fst (tombstone g (v_id r) now guard (nextVaultSeq g s)) = 1"
    and "purges g {v_id r} now s (snd (tombstone g (v_id r) now guard (nextVaultSeq g s)))"
proof -
  let ?c = "\<lambda>x. v_group_id x = g \<and> v_id x = v_id r \<and> live x \<and> guard x"
  have only: "x = r" if "x \<in> set (vault_items s)" "v_group_id x = g" "v_id x = v_id r" for x
    using pk_unique [OF assms(1) that(1) assms(2)] that(2,3) assms(4) by simp
  have "exists_row (\<lambda>x. v_key x = (g, v_id r) \<and> live x \<and> guard x) (vault_items s)"
    using assms(2-5) by (auto simp: exists_row_iff)
  from pk_count [OF assms(1) this] show "fst (tombstone g (v_id r) now guard (nextVaultSeq g s)) = 1"
    by (simp add: tombstone_def Let_def nextVaultSeq_def conj_assoc)
  have rows: "update_rows ?c (tombstone_row now (VAULT_SEQ (nextVaultSeq g s) g)) (vault_items s)
      = map (buried g {v_id r} now (\<lambda>_. VAULT_SEQ s g + 1)) (vault_items s)"
    unfolding update_rows_def
  proof (rule map_cong [OF refl])
    fix x assume x: "x \<in> set (vault_items s)"
    show "(if ?c x then tombstone_row now (VAULT_SEQ (nextVaultSeq g s) g) x else x)
        = buried g {v_id r} now (\<lambda>_. VAULT_SEQ s g + 1) x"
      using only [OF x] assms(3,5,6)
      by (cases "v_group_id x = g \<and> v_id x = v_id r") (auto simp: buried_def nextVaultSeq_def VAULT_SEQ_bump)
  qed
  show "purges g {v_id r} now s (snd (tombstone g (v_id r) now guard (nextVaultSeq g s)))"
    unfolding purges_def
    by (intro exI [of _ "\<lambda>_. VAULT_SEQ s g + 1"] exI [of _ 1] exI [of _ "vault_blobs s"] exI [of _ "VAULT s"])
       (simp add: tombstone_def Let_def rows [unfolded nextVaultSeq_def] nextVaultSeq_def)
qed

lemma purges_rows:
  assumes "purges g V now s s'"
  shows "pk v_key (vault_items s') = pk v_key (vault_items s)"
    and "SUBTREE h i (vault_items s') = SUBTREE h i (vault_items s)"
    and "r \<in> set (vault_items s) \<Longrightarrow> v_id r \<notin> V \<Longrightarrow> r \<in> set (vault_items s')"
    and "length (vault_items s') = length (vault_items s)"
proof -
  from assms obtain q where q: "vault_items s' = map (buried g V now q) (vault_items s)"
    unfolding purges_def by fastforce
  have "v_key (buried g V now q r) = v_key r" for r by (simp add: buried_def tombstone_row_def)
  then show "pk v_key (vault_items s') = pk v_key (vault_items s)" by (simp add: pk_def q comp_def)
  show "SUBTREE h i (vault_items s') = SUBTREE h i (vault_items s)"
    unfolding q by (rule SUBTREE_map [OF same_shape_buried])
  show "r \<in> set (vault_items s) \<Longrightarrow> v_id r \<notin> V \<Longrightarrow> r \<in> set (vault_items s')"
    unfolding q by (auto simp: buried_def intro!: rev_image_eqI)
  show "length (vault_items s') = length (vault_items s)" by (simp add: q)
qed

lemma purge_batch_exact:
  assumes "pk v_key (vault_items s)" and "group_of s g \<noteq> None" and "distinct (map v_id rs)"
    and "\<forall>r \<in> set rs. r \<in> set (vault_items s) \<and> live r \<and> v_group_id r = g \<and> v_id r \<in> set (SUBTREE g root (vault_items s))"
  shows "fst (purge_batch g root now rs s) = rs \<and> purges g (v_id ` set rs) now s (snd (purge_batch g root now rs s))"
  using assms
proof (induction rs arbitrary: s)
  case Nil
  show ?case by (simp add: purges_refl)
next
  case (Cons r rs)
  let ?s0 = "nextVaultSeq g s"
  let ?gd = "\<lambda>x. v_id x \<in> set (SUBTREE g root (vault_items ?s0))"
  let ?t = "tombstone g (v_id r) now ?gd ?s0"
  have r: "r \<in> set (vault_items s)" "live r" "v_group_id r = g" "?gd r"
    using Cons.prems(4) by (simp_all add: nextVaultSeq_def)
  note one = purges_one [where guard = ?gd and now = now, OF Cons.prems(1) r Cons.prems(2)]
  note rows = purges_rows [OF one(2)]
  have "\<forall>x \<in> set rs. x \<in> set (vault_items (snd ?t)) \<and> live x \<and> v_group_id x = g
      \<and> v_id x \<in> set (SUBTREE g root (vault_items (snd ?t)))"
    using Cons.prems(3,4) rows(2,3) by (auto simp: image_iff)
  with Cons.IH [of "snd ?t"] Cons.prems(1-3) rows(1) purges_seq(2) [OF one(2) Cons.prems(2)]
  have rest: "fst (purge_batch g root now rs (snd ?t)) = rs"
    "purges g (v_id ` set rs) now (snd ?t) (snd (purge_batch g root now rs (snd ?t)))" by auto
  have eq: "purge_batch g root now (r # rs) s = (r # rs, snd (purge_batch g root now rs (snd ?t)))"
    using one(1) rest(1) by (simp add: Let_def case_prod_beta)
  have "{v_id r} \<inter> v_id ` set rs = {}" using Cons.prems(3) by auto
  from purges_trans [OF one(2) rest(2) this Cons.prems(2)] show ?case
    unfolding eq by simp
qed

lemma purges_live:
  assumes "purges g V now s s'" and "r \<in> set (vault_items s')" and "live r"
  shows "r \<in> set (vault_items s) \<and> (v_group_id r = g \<longrightarrow> v_id r \<notin> V)"
proof -
  from assms(1,2) obtain q where "r \<in> buried g V now q ` set (vault_items s)"
    unfolding purges_def by fastforce
  then obtain x where x: "x \<in> set (vault_items s)" "r = buried g V now q x" by blast
  have "\<not> (v_group_id x = g \<and> v_id x \<in> V \<and> live x)"
  proof
    assume "v_group_id x = g \<and> v_id x \<in> V \<and> live x"
    with x(2) have "r = tombstone_row now (q (v_id x)) x" by (simp add: buried_def)
    with assms(3) show False by (simp add: live_def tombstone_row_def)
  qed
  moreover from this x(2) have "r = x" by (auto simp: buried_def)
  ultimately show ?thesis using x(1) assms(3) by blast
qed

lemma purge_batches_exact:
  assumes "pk v_key (vault_items s)" and "group_of s g \<noteq> None" and "distinct (map v_id (concat bs))"
    and "\<forall>r \<in> set (concat bs). r \<in> set (vault_items s) \<and> live r \<and> v_group_id r = g
      \<and> v_id r \<in> set (SUBTREE g root (vault_items s))"
  shows "fst (purge_batches g root now ids bs s) = Inr (ids @ map v_id (concat bs))
    \<and> purges g (v_id ` set (concat bs)) now s (snd (purge_batches g root now ids bs s))"
  using assms
proof (induction bs arbitrary: s ids)
  case Nil
  show ?case by (simp add: purges_refl retS_def)
next
  case (Cons b bs)
  let ?p = "purge_batch g root now b s"
  let ?d = "catchS (deleteUnclaimedBlobs VAULT_BLOBS (blob_keys g b)) (snd ?p)"
  have b: "fst ?p = b" "purges g (v_id ` set b) now s (snd ?p)"
    using purge_batch_exact [OF Cons.prems(1,2), of b root now] Cons.prems(3,4) by auto
  have "purges g (v_id ` set b \<union> {}) now s (snd ?d)"
    by (rule purges_trans [OF b(2) purges_blobs]) (use Cons.prems(2) in simp_all)
  then have d: "purges g (v_id ` set b) now s (snd ?d)" by simp
  note rows = purges_rows [OF d]
  have disj: "v_id ` set b \<inter> v_id ` set (concat bs) = {}" using Cons.prems(3) by auto
  have "\<forall>r \<in> set (concat bs). r \<in> set (vault_items (snd ?d)) \<and> live r \<and> v_group_id r = g
      \<and> v_id r \<in> set (SUBTREE g root (vault_items (snd ?d)))"
  proof
    fix r assume r: "r \<in> set (concat bs)"
    with disj have "v_id r \<notin> v_id ` set b" by blast
    with r Cons.prems(4) rows(2,3) show "r \<in> set (vault_items (snd ?d)) \<and> live r \<and> v_group_id r = g
      \<and> v_id r \<in> set (SUBTREE g root (vault_items (snd ?d)))" by simp
  qed
  with Cons.IH [of "snd ?d" "ids @ map v_id b"] Cons.prems(1-3) rows(1) purges_seq(2) [OF d Cons.prems(2)]
  have rest: "fst (purge_batches g root now (ids @ map v_id b) bs (snd ?d)) = Inr ((ids @ map v_id b) @ map v_id (concat bs))"
    "purges g (v_id ` set (concat bs)) now (snd ?d) (snd (purge_batches g root now (ids @ map v_id b) bs (snd ?d)))" by auto
  have "purge_batches g root now ids (b # bs) s = purge_batches g root now (ids @ map v_id b) bs (snd ?d)"
    by (simp add: bindS_def case_prod_beta b(1) catchS_def)
  with rest purges_trans [OF d rest(2) disj Cons.prems(2)] show ?case by (simp add: image_Un)
qed

lemma purge_walk_iff:
  "r \<in> set (purge_walk g i s) \<longleftrightarrow> (\<exists>x \<in> set (vault_items s). v_key x = (g, i))
     \<and> r \<in> set (vault_items s) \<and> v_group_id r = g \<and> below g (vault_items s) i (v_id r) \<and> live r"
  by (auto simp: purge_walk_def exists_row_iff subtree_iff)

text \<open>A purge ends, returns the ids of the live items of the subtree, and is exactly their burial,
  whether R2 answers or not.\<close>

lemma purgeVaultItem_exact:
  assumes "pk v_key (vault_items s)" and "group_of s g \<noteq> None"
  shows "fst (purgeVaultItem g i now s) = Inr (map v_id (purge_walk g i s))
    \<and> purges g (v_id ` set (purge_walk g i s)) now s (snd (purgeVaultItem g i now s))"
proof (cases "purge_walk g i s = []")
  case True
  then show ?thesis by (simp add: purgeVaultItem_def bindS_def readS_def retS_def purges_refl)
next
  case False
  then have "vault_items s \<noteq> []" by (auto simp: purge_walk_def exists_row_def)
  then obtain n where n: "length (vault_items s) = Suc n" by (cases "vault_items s") auto
  let ?bs = "batches PURGE_BATCH_SIZE (purge_walk g i s)"
  let ?x = "purge_batches g i now [] ?bs s"
  have bs: "concat ?bs = purge_walk g i s" by (simp add: concat_batches PURGE_BATCH_SIZE_def)
  have "distinct (map v_id (filter c t))" if "pk v_key t" "\<And>r. c r \<Longrightarrow> v_group_id r = g" for c t
    using that by (induction t) (auto simp: pk_def image_iff)
  from this [OF assms(1), of "\<lambda>r. v_group_id r = g \<and> v_id r \<in> set (SUBTREE g i (vault_items s)) \<and> live r"]
  have "distinct (map v_id (concat ?bs))" unfolding bs by (simp add: purge_walk_def)
  moreover have "\<forall>r \<in> set (concat ?bs). r \<in> set (vault_items s) \<and> live r \<and> v_group_id r = g
      \<and> v_id r \<in> set (SUBTREE g i (vault_items s))" unfolding bs by (simp add: purge_walk_iff subtree_iff)
  ultimately have x: "fst ?x = Inr (map v_id (purge_walk g i s))"
    "purges g (v_id ` set (purge_walk g i s)) now s (snd ?x)"
    using purge_batches_exact [OF assms, of ?bs i now "[]"] bs by simp_all
  have none: "purge_walk g i (snd ?x) = []"
  proof -
    have False if r: "r \<in> set (purge_walk g i (snd ?x))" for r
    proof -
      from r purges_live [OF x(2)] have r': "r \<in> set (vault_items s)" "v_id r \<notin> v_id ` set (purge_walk g i s)"
        "v_group_id r = g" "live r" by (auto simp: purge_walk_iff)
      from r have "v_id r \<in> set (SUBTREE g i (vault_items (snd ?x)))" by (simp add: purge_walk_iff subtree_iff)
      then have "below g (vault_items s) i (v_id r)" unfolding purges_rows(2) [OF x(2)] subtree_iff .
      moreover from False obtain y where "y \<in> set (purge_walk g i s)" by (cases "purge_walk g i s") auto
      then have "\<exists>x \<in> set (vault_items s). v_key x = (g, i)" by (simp add: purge_walk_iff)
      ultimately have "r \<in> set (purge_walk g i s)" using r' by (simp add: purge_walk_iff)
      with r'(2) show False by blast
    qed
    then show ?thesis by (cases "purge_walk g i (snd ?x)") auto
  qed
  have "purgeVaultItem g i now s = purge_rounds (Suc n) g i now (map v_id (purge_walk g i s)) (snd ?x)"
    using False x(1) by (simp add: purgeVaultItem_def n bindS_def readS_def case_prod_beta del: purge_rounds.simps(2))
      (simp add: bindS_def readS_def case_prod_beta)
  also have "\<dots> = (Inr (map v_id (purge_walk g i s)), snd ?x)"
    using none by (simp add: bindS_def readS_def retS_def)
  finally show ?thesis using x(2) by simp
qed

section \<open>Numbers never go back\<close>

definition vault_floor_of :: "env \<Rightarrow> string \<Rightarrow> int" where
  "vault_floor_of s g = (case group_of s g of None \<Rightarrow> 0 | Some r \<Rightarrow> g_vault_floor r)"

text \<open>Change numbers are a space's own and no two rows share one; the counter and the floor bound them.\<close>

definition seqs_ok :: "env \<Rightarrow> bool" where
  "seqs_ok s \<longleftrightarrow> pk g_id (groups s) \<and> pk v_key (vault_items s)
     \<and> pk (\<lambda>r. (v_group_id r, v_seq r)) (vault_items s)
     \<and> (\<forall>g \<in> set (groups s). 0 \<le> g_vault_floor g \<and> g_vault_floor g \<le> g_vault_seq g)
     \<and> (\<forall>r \<in> set (vault_items s). group_of s (v_group_id r) \<noteq> None \<and> 0 < v_seq r
          \<and> v_seq r \<le> VAULT_SEQ s (v_group_id r))"

text \<open>What any write means to a device that has seen everything up to some number: what it did not
  see yet carries a newer one; a row that disappears was a tombstone, and the floor says so.\<close>

definition advances :: "env \<Rightarrow> env \<Rightarrow> bool" where
  "advances s s' \<longleftrightarrow>
     (\<forall>g. VAULT_SEQ s g \<le> VAULT_SEQ s' g \<and> vault_floor_of s g \<le> vault_floor_of s' g)
     \<and> (\<forall>r \<in> set (vault_items s'). r \<in> set (vault_items s) \<or> VAULT_SEQ s (v_group_id r) < v_seq r)
     \<and> (\<forall>r \<in> set (vault_items s). if live r
          then v_key r \<in> v_key ` set (vault_items s') \<or> VAULT_SEQ s (v_group_id r) < vault_floor_of s' (v_group_id r)
          else r \<in> set (vault_items s') \<or> v_seq r \<le> vault_floor_of s' (v_group_id r))"

lemma advances_refl [simp]: "advances s s"
  by (auto simp: advances_def)

lemma advances_trans:
  assumes "advances s s1" and "advances s1 s2" and "pk v_key (vault_items s)"
  shows "advances s s2"
proof -
  from assms have mono: "VAULT_SEQ s g \<le> VAULT_SEQ s1 g" "VAULT_SEQ s1 g \<le> VAULT_SEQ s2 g"
    "vault_floor_of s g \<le> vault_floor_of s1 g" "vault_floor_of s1 g \<le> vault_floor_of s2 g" for g
    by (simp_all add: advances_def)
  have new: "r \<in> set (vault_items s) \<or> VAULT_SEQ s (v_group_id r) < v_seq r" if "r \<in> set (vault_items s2)" for r
  proof (cases "r \<in> set (vault_items s1)")
    case True
    with assms(1) show ?thesis by (auto simp: advances_def)
  next
    case False
    with that assms(2) have "VAULT_SEQ s1 (v_group_id r) < v_seq r" by (auto simp: advances_def)
    with mono(1) [of "v_group_id r"] show ?thesis by simp
  qed
  have step: "if live r then v_key r \<in> v_key ` set (vault_items s2) \<or> VAULT_SEQ s1 (v_group_id r) < vault_floor_of s2 (v_group_id r)
      else r \<in> set (vault_items s2) \<or> v_seq r \<le> vault_floor_of s2 (v_group_id r)" if "r \<in> set (vault_items s1)" for r
    using that assms(2) unfolding advances_def by blast
  have gone: "v_key r \<in> v_key ` set (vault_items s2) \<or> VAULT_SEQ s (v_group_id r) < vault_floor_of s2 (v_group_id r)"
    if r: "r \<in> set (vault_items s)" "live r" and k: "v_key r \<in> v_key ` set (vault_items s1)" for r
  proof -
    from k obtain x where x: "x \<in> set (vault_items s1)" "v_key r = v_key x" by blast
    show ?thesis
    proof (cases "live x")
      case True
      with step [OF x(1)] x(2) mono(1) [of "v_group_id r"] show ?thesis by auto
    next
      case False
      then have "x \<notin> set (vault_items s)" using pk_unique [OF assms(3) r(1)] x(2) r(2) by metis
      with x assms(1) have "VAULT_SEQ s (v_group_id r) < v_seq x" by (auto simp: advances_def)
      with step [OF x(1)] x False show ?thesis by (auto simp: image_iff)
    qed
  qed
  have "if live r then v_key r \<in> v_key ` set (vault_items s2) \<or> VAULT_SEQ s (v_group_id r) < vault_floor_of s2 (v_group_id r)
      else r \<in> set (vault_items s2) \<or> v_seq r \<le> vault_floor_of s2 (v_group_id r)" if r: "r \<in> set (vault_items s)" for r
  proof (cases "live r")
    case True
    from r True assms(1) have "v_key r \<in> v_key ` set (vault_items s1) \<or> VAULT_SEQ s (v_group_id r) < vault_floor_of s1 (v_group_id r)"
      unfolding advances_def by auto
    with gone [OF r True] mono(4) [of "v_group_id r"] True show ?thesis by auto
  next
    case False
    from r False assms(1) have "r \<in> set (vault_items s1) \<or> v_seq r \<le> vault_floor_of s1 (v_group_id r)"
      unfolding advances_def by auto
    with step [of r] mono(4) [of "v_group_id r"] False show ?thesis by auto
  qed
  with new mono show ?thesis unfolding advances_def by (meson order_trans)
qed

lemma pk_map_change:
  assumes "pk k t" and "pk e t"
    and "\<And>x y. x \<in> set t \<Longrightarrow> y \<in> set t \<Longrightarrow> k x \<noteq> k y \<Longrightarrow> e x \<noteq> e y \<Longrightarrow> f (h x) \<noteq> f (h y)"
  shows "pk f (map h t)"
  using assms by (induction t) (auto simp: pk_def image_iff)

text \<open>A write of one space's items, in the terms above: rows change under new numbers only.\<close>

definition renumbers :: "string \<Rightarrow> (vault_row \<Rightarrow> vault_row) \<Rightarrow> int \<Rightarrow> env \<Rightarrow> bool" where
  "renumbers g h k s \<longleftrightarrow> 0 \<le> k
     \<and> (\<forall>r \<in> set (vault_items s). h r = r \<or> v_group_id r = g \<and> live r \<and> v_key (h r) = v_key r
          \<and> VAULT_SEQ s g < v_seq (h r) \<and> v_seq (h r) \<le> VAULT_SEQ s g + k)
     \<and> (\<forall>x \<in> set (vault_items s). \<forall>y \<in> set (vault_items s).
          v_key x \<noteq> v_key y \<longrightarrow> h x \<noteq> x \<longrightarrow> h y \<noteq> y \<longrightarrow> v_seq (h x) \<noteq> v_seq (h y))"

definition bumped :: "string \<Rightarrow> int \<Rightarrow> env \<Rightarrow> env \<Rightarrow> bool" where
  "bumped g k s s' \<longleftrightarrow> groups s' = groups (update_group g (\<lambda>r. r\<lparr>g_vault_seq := g_vault_seq r + k\<rparr>) s)"

lemma bumped_facts:
  assumes "bumped g k s s'"
  shows "group_of s g \<noteq> None \<Longrightarrow> VAULT_SEQ s' h = (if h = g then VAULT_SEQ s g + k else VAULT_SEQ s h)"
    and "vault_floor_of s' h = vault_floor_of s h"
    and "group_of s' h = None \<longleftrightarrow> group_of s h = None"
    and "pk g_id (groups s') = pk g_id (groups s)"
    and "0 \<le> k \<Longrightarrow> \<forall>x \<in> set (groups s). 0 \<le> g_vault_floor x \<and> g_vault_floor x \<le> g_vault_seq x \<Longrightarrow>
      \<forall>x \<in> set (groups s'). 0 \<le> g_vault_floor x \<and> g_vault_floor x \<le> g_vault_seq x"
proof -
  let ?u = "update_group g (\<lambda>r. r\<lparr>g_vault_seq := g_vault_seq r + k\<rparr>) s"
  have grp: "group_of s' x = group_of ?u x" for x using assms by (simp add: bumped_def group_of_def)
  show "group_of s g \<noteq> None \<Longrightarrow> VAULT_SEQ s' h = (if h = g then VAULT_SEQ s g + k else VAULT_SEQ s h)"
    using VAULT_SEQ_bump [of s g k h] by (simp add: VAULT_SEQ_def grp)
  show "vault_floor_of s' h = vault_floor_of s h"
    by (auto simp: vault_floor_of_def grp group_of_update_group split: option.split)
  show "group_of s' h = None \<longleftrightarrow> group_of s h = None" by (auto simp: grp group_of_update_group)
  show "pk g_id (groups s') = pk g_id (groups s)"
    using assms by (simp add: bumped_def update_group_def pk_update_rows)
  show "\<forall>x \<in> set (groups s'). 0 \<le> g_vault_floor x \<and> g_vault_floor x \<le> g_vault_seq x"
    if "0 \<le> k" "\<forall>x \<in> set (groups s). 0 \<le> g_vault_floor x \<and> g_vault_floor x \<le> g_vault_seq x"
    using that assms by (auto simp: bumped_def update_group_def set_update_rows)
qed

lemma renumber_advances:
  assumes ok: "seqs_ok s" and grp: "group_of s g \<noteq> None" and b: "bumped g k s s'"
    and items: "vault_items s' = map h (vault_items s)" and re: "renumbers g h k s"
  shows "advances s s' \<and> seqs_ok s'"
proof -
  note seq = bumped_facts(1) [OF b grp] and floor = bumped_facts(2) [OF b]
  have k: "0 \<le> k" using re by (simp add: renumbers_def)
  have same: "h r = r \<or> v_group_id r = g \<and> live r \<and> v_key (h r) = v_key r
      \<and> VAULT_SEQ s g < v_seq (h r) \<and> v_seq (h r) \<le> VAULT_SEQ s g + k" if "r \<in> set (vault_items s)" for r
    using that re by (simp add: renumbers_def)
  have key: "v_key (h r) = v_key r" if "r \<in> set (vault_items s)" for r using same [OF that] by auto
  have old: "v_seq r \<le> VAULT_SEQ s (v_group_id r)" "0 < v_seq r" "group_of s (v_group_id r) \<noteq> None"
    if "r \<in> set (vault_items s)" for r using that ok by (simp_all add: seqs_ok_def)
  have pks: "pk v_key (vault_items s)" "pk (\<lambda>r. (v_group_id r, v_seq r)) (vault_items s)"
    using ok by (simp_all add: seqs_ok_def)
  have "advances s s'"
    unfolding advances_def
  proof (intro conjI ballI allI)
    show "VAULT_SEQ s x \<le> VAULT_SEQ s' x" for x using k by (simp add: seq)
    show "vault_floor_of s x \<le> vault_floor_of s' x" for x by (simp add: floor)
    show "r \<in> set (vault_items s) \<or> VAULT_SEQ s (v_group_id r) < v_seq r" if "r \<in> set (vault_items s')" for r
    proof -
      from that obtain x where "x \<in> set (vault_items s)" "r = h x" unfolding items by auto
      with same [of x] show ?thesis by auto
    qed
    show "if live r then v_key r \<in> v_key ` set (vault_items s') \<or> VAULT_SEQ s (v_group_id r) < vault_floor_of s' (v_group_id r)
        else r \<in> set (vault_items s') \<or> v_seq r \<le> vault_floor_of s' (v_group_id r)" if r: "r \<in> set (vault_items s)" for r
    proof (cases "live r")
      case True
      have "v_key (h r) \<in> v_key ` set (vault_items s')" unfolding items using r by simp
      with True show ?thesis unfolding key [OF r] by simp
    next
      case False
      then have "h r = r" using same [OF r] by blast
      with r have "r \<in> set (vault_items s')" unfolding items by (auto intro!: rev_image_eqI)
      with False show ?thesis by simp
    qed
  qed
  moreover have "seqs_ok s'"
    unfolding seqs_ok_def
  proof (intro conjI ballI)
    show "pk g_id (groups s')" using ok bumped_facts(4) [OF b] by (simp add: seqs_ok_def)
    have "map v_key (map h (vault_items s)) = map v_key (vault_items s)" using key by simp
    then show "pk v_key (vault_items s')" using pks(1) unfolding items pk_def by metis
    have diff: "(v_group_id (h x), v_seq (h x)) \<noteq> (v_group_id (h y), v_seq (h y))"
      if "x \<in> set (vault_items s)" "y \<in> set (vault_items s)" "v_key x \<noteq> v_key y"
        "(v_group_id x, v_seq x) \<noteq> (v_group_id y, v_seq y)" for x y
    proof (cases "h x \<noteq> x \<and> h y \<noteq> y")
      case True
      with that(1-3) re show ?thesis by (simp add: renumbers_def)
    next
      case False
      have gr: "v_group_id (h x) = v_group_id x" "v_group_id (h y) = v_group_id y"
        using key [OF that(1)] key [OF that(2)] by simp_all
      have lt: "v_group_id b = v_group_id a \<Longrightarrow> v_seq (h a) \<noteq> v_seq b"
        if "a \<in> set (vault_items s)" "b \<in> set (vault_items s)" "h a \<noteq> a" for a b
        using same [OF that(1)] old(1) [OF that(2)] that(3) by force
      from False consider "h x = x" "h y = y" | "h x \<noteq> x" "h y = y" | "h x = x" "h y \<noteq> y" by blast
      then show ?thesis
      proof cases
        case 1
        with that(4) show ?thesis by simp
      next
        case 2
        with lt [OF that(1,2)] gr show ?thesis by auto
      next
        case 3
        with lt [OF that(2,1)] gr show ?thesis by auto
      qed
    qed
    show "pk (\<lambda>r. (v_group_id r, v_seq r)) (vault_items s')"
      unfolding items by (rule pk_map_change [where k = v_key, OF pks]) (rule diff)
    have "\<forall>x \<in> set (groups s). 0 \<le> g_vault_floor x \<and> g_vault_floor x \<le> g_vault_seq x"
      using ok unfolding seqs_ok_def by blast
    from bumped_facts(5) [OF b k this]
    show "0 \<le> g_vault_floor x" "g_vault_floor x \<le> g_vault_seq x" if "x \<in> set (groups s')" for x
      using that by blast+
    show "group_of s' (v_group_id r) \<noteq> None" "0 < v_seq r" "v_seq r \<le> VAULT_SEQ s' (v_group_id r)"
      if r: "r \<in> set (vault_items s')" for r
    proof -
      from r obtain x where x: "x \<in> set (vault_items s)" "r = h x" unfolding items by auto
      have kx: "v_group_id r = v_group_id x" using key [OF x(1)] x(2) by simp
      show "group_of s' (v_group_id r) \<noteq> None" using old(3) [OF x(1)] bumped_facts(3) [OF b] kx by simp
      have "0 < v_seq (h x) \<and> v_seq (h x) \<le> VAULT_SEQ s' (v_group_id x)"
      proof (cases "h x = x")
        case True
        with old(1,2) [OF x(1)] k show ?thesis by (cases "v_group_id x = g") (simp_all add: seq)
      next
        case False
        with same [OF x(1)] old(1,2) [OF x(1)] show ?thesis by (simp add: seq)
      qed
      then show "0 < v_seq r" "v_seq r \<le> VAULT_SEQ s' (v_group_id r)" unfolding kx unfolding x(2) by simp_all
    qed
  qed
  ultimately show ?thesis ..
qed

lemma purges_bumped: "purges g V now s s' \<Longrightarrow> \<exists>q k. bumped g k s s' \<and> vault_items s' = map (buried g V now q) (vault_items s)
    \<and> renumbers g (buried g V now q) k s"
proof -
  assume "purges g V now s s'"
  then obtain q k t b where s': "s' = (update_group g (\<lambda>r. r\<lparr>g_vault_seq := g_vault_seq r + k\<rparr>) s)
       \<lparr>vault_items := map (buried g V now q) (vault_items s), vault_blobs := t, VAULT := b\<rparr>"
     and k: "0 \<le> k" and q: "inj_on q V" "\<forall>i \<in> V. VAULT_SEQ s g < q i \<and> q i \<le> VAULT_SEQ s g + k" unfolding purges_def by blast
  have changed: "v_group_id r = g \<and> v_id r \<in> V \<and> live r \<and> v_seq (buried g V now q r) = q (v_id r)"
    if "buried g V now q r \<noteq> r" for r
    using that by (auto simp: buried_def tombstone_row_def split: if_splits)
  have "renumbers g (buried g V now q) k s"
    unfolding renumbers_def
  proof (intro conjI ballI impI)
    show "0 \<le> k" by fact
    show "buried g V now q r = r \<or> v_group_id r = g \<and> live r \<and> v_key (buried g V now q r) = v_key r
        \<and> VAULT_SEQ s g < v_seq (buried g V now q r) \<and> v_seq (buried g V now q r) \<le> VAULT_SEQ s g + k" for r
    proof (cases "buried g V now q r = r")
      case False
      have "v_key (buried g V now q r) = v_key r" by (simp add: buried_def tombstone_row_def)
      with changed [OF False] q(2) show ?thesis by simp
    qed simp
    show "v_seq (buried g V now q x) \<noteq> v_seq (buried g V now q y)"
      if "v_key x \<noteq> v_key y" "buried g V now q x \<noteq> x" "buried g V now q y \<noteq> y" for x y
      using changed [OF that(2)] changed [OF that(3)] that(1) q(1) by (auto dest: inj_onD)
  qed
  moreover have "bumped g k s s'" "vault_items s' = map (buried g V now q) (vault_items s)"
    by (simp_all add: s' bumped_def update_group_def)
  ultimately show ?thesis by blast
qed

lemma purges_advances:
  "seqs_ok s \<Longrightarrow> group_of s g \<noteq> None \<Longrightarrow> purges g V now s s' \<Longrightarrow> advances s s' \<and> seqs_ok s'"
  using purges_bumped renumber_advances by metis

section \<open>The vault is a forest\<close>

text \<open>A live item hangs, through live folders of its space, from the top.\<close>

inductive rooted :: "vault_row table \<Rightarrow> string \<Rightarrow> string \<Rightarrow> bool" for t g where
  rooted_top: "r \<in> set t \<Longrightarrow> v_group_id r = g \<Longrightarrow> live r \<Longrightarrow> v_parent_id r = None \<Longrightarrow> rooted t g (v_id r)"
| rooted_in: "rooted t g p \<Longrightarrow> f \<in> set t \<Longrightarrow> v_key f = (g, p) \<Longrightarrow> v_kind f = Folder \<Longrightarrow> live f \<Longrightarrow>
    r \<in> set t \<Longrightarrow> v_group_id r = g \<Longrightarrow> live r \<Longrightarrow> v_parent_id r = Some p \<Longrightarrow> rooted t g (v_id r)"

definition forest :: "env \<Rightarrow> bool" where
  "forest s \<longleftrightarrow> (\<forall>r \<in> set (vault_items s). live r \<longrightarrow> rooted (vault_items s) (v_group_id r) (v_id r))"

lemma rooted_mono:
  assumes "rooted t g i"
    and "\<And>r. r \<in> set t \<Longrightarrow> v_group_id r = g \<Longrightarrow> live r \<Longrightarrow> P (v_id r) \<Longrightarrow> r \<in> set t'"
    and "\<And>r p. r \<in> set t \<Longrightarrow> v_group_id r = g \<Longrightarrow> live r \<Longrightarrow> v_parent_id r = Some p \<Longrightarrow> P (v_id r) \<Longrightarrow> P p"
    and "P i"
  shows "rooted t' g i"
  using assms(1,4)
proof (induction rule: rooted.induct)
  case (rooted_top r)
  then show ?case using assms(2) by (intro rooted.rooted_top) auto
next
  case (rooted_in p f r)
  from assms(3) [OF rooted_in.hyps(6-9)] rooted_in.prems have "P p" .
  with rooted_in assms(2) show ?case by (intro rooted.rooted_in [of t' g p f r]) auto
qed

lemma forest_purge:
  assumes f: "forest s" and p: "purges g V now s s'"
    and V: "\<And>r p. r \<in> set (vault_items s) \<Longrightarrow> v_group_id r = g \<Longrightarrow> live r \<Longrightarrow> v_parent_id r = Some p \<Longrightarrow> p \<in> V \<Longrightarrow> v_id r \<in> V"
  shows "forest s'"
  unfolding forest_def
proof (intro ballI impI)
  fix r assume r: "r \<in> set (vault_items s')" "live r"
  from purges_live [OF p r] have old: "r \<in> set (vault_items s)" and out: "v_group_id r = g \<longrightarrow> v_id r \<notin> V" by auto
  from p obtain q where items: "vault_items s' = map (buried g V now q) (vault_items s)" unfolding purges_def by fastforce
  from f old r(2) have root: "rooted (vault_items s) (v_group_id r) (v_id r)" by (simp add: forest_def)
  show "rooted (vault_items s') (v_group_id r) (v_id r)"
  proof (cases "v_group_id r = g")
    case True
    have keep: "x \<in> set (vault_items s')" if "x \<in> set (vault_items s)" "v_id x \<notin> V" for x
      by (rule purges_rows(3) [OF p that])
    from root out show ?thesis unfolding True
      by (elim rooted_mono [where P = "\<lambda>i. i \<notin> V"]) (use keep V True in blast)+
  next
    case False
    have "x \<in> set (vault_items s')" if "x \<in> set (vault_items s)" "v_group_id x = v_group_id r" for x
      unfolding items using that False by (auto simp: buried_def intro!: rev_image_eqI)
    then show ?thesis using rooted_mono [OF root, of "\<lambda>_. True" "vault_items s'"] by blast
  qed
qed

section \<open>The scheduled clean-up ends and takes only what it is for\<close>

definition decays :: "int \<Rightarrow> int \<Rightarrow> env \<Rightarrow> env \<Rightarrow> bool" where
  "decays X now s s' \<longleftrightarrow> seqs_ok s' \<and> forest s' \<and> advances s s'
     \<and> (\<exists>h. same_shape h \<and> vault_items s' = map h (vault_items s)
          \<and> (\<forall>r \<in> set (vault_items s). h r = r \<or> live r \<and> v_removed_at (h r) = Some now
               \<and> (\<exists>x \<in> set (vault_items s). trash_expired X x \<and> v_group_id x = v_group_id r
                    \<and> below (v_group_id r) (vault_items s) (v_id x) (v_id r))))"

lemma decays_refl: "seqs_ok s \<Longrightarrow> forest s \<Longrightarrow> decays X now s s"
  unfolding decays_def by (intro conjI exI [of _ "\<lambda>r. r"]) (simp_all add: same_shape_def)

lemma below_map: "same_shape h \<Longrightarrow> below g (map h t) root i = below g t root i"
  by (simp add: subtree_iff [symmetric] SUBTREE_map)

lemma decays_trans:
  assumes "decays X now s s1" and "decays X now s1 s2" and "seqs_ok s"
  shows "decays X now s s2"
proof -
  from assms(1) obtain h where h: "same_shape h" "vault_items s1 = map h (vault_items s)"
    and h1: "\<And>r. r \<in> set (vault_items s) \<Longrightarrow> h r = r \<or> live r \<and> v_removed_at (h r) = Some now
      \<and> (\<exists>x \<in> set (vault_items s). trash_expired X x \<and> v_group_id x = v_group_id r
           \<and> below (v_group_id r) (vault_items s) (v_id x) (v_id r))" unfolding decays_def by blast
  from assms(2) obtain f where f: "same_shape f" "vault_items s2 = map f (vault_items s1)"
    and f1: "\<And>r. r \<in> set (vault_items s1) \<Longrightarrow> f r = r \<or> live r \<and> v_removed_at (f r) = Some now
      \<and> (\<exists>x \<in> set (vault_items s1). trash_expired X x \<and> v_group_id x = v_group_id r
           \<and> below (v_group_id r) (vault_items s1) (v_id x) (v_id r))" unfolding decays_def by blast
  have "same_shape (f \<circ> h)" using f(1) h(1) by (simp add: same_shape_def)
  moreover have "vault_items s2 = map (f \<circ> h) (vault_items s)" by (simp add: f(2) h(2))
  moreover have "(f \<circ> h) r = r \<or> live r \<and> v_removed_at ((f \<circ> h) r) = Some now
      \<and> (\<exists>x \<in> set (vault_items s). trash_expired X x \<and> v_group_id x = v_group_id r
           \<and> below (v_group_id r) (vault_items s) (v_id x) (v_id r))" if r: "r \<in> set (vault_items s)" for r
  proof (cases "h r = r")
    case True
    have r1: "r \<in> set (vault_items s1)" unfolding h(2) set_map by (rule rev_image_eqI [OF r]) (simp add: True)
    show ?thesis
    proof (cases "f r = r")
      case False
      with f1 [OF r1] obtain x where "live r" "v_removed_at (f r) = Some now" and x: "x \<in> set (vault_items s1)"
        "trash_expired X x" "v_group_id x = v_group_id r" "below (v_group_id r) (vault_items s1) (v_id x) (v_id r)" by blast
      from x(1) obtain y where y: "y \<in> set (vault_items s)" "x = h y" unfolding h(2) by auto
      have "h y = y" using h1 [OF y(1)] x(2) y(2) by (auto simp: trash_expired_def live_def)
      with x y have "trash_expired X y" "v_group_id y = v_group_id r"
        "below (v_group_id r) (vault_items s) (v_id y) (v_id r)" unfolding h(2) by (simp_all add: below_map h(1))
      with y(1) \<open>live r\<close> \<open>v_removed_at (f r) = Some now\<close> True show ?thesis by auto
    qed (simp add: True)
  next
    case False
    with h1 [OF r] have "\<not> live (h r)" by (auto simp: live_def)
    moreover have "h r \<in> set (vault_items s1)" unfolding h(2) using r by simp
    ultimately have "f (h r) = h r" using f1 by blast
    with h1 [OF r] show ?thesis by simp
  qed
  moreover have "advances s s2"
    using advances_trans assms unfolding decays_def seqs_ok_def by blast
  ultimately show ?thesis using assms(2) unfolding decays_def by blast
qed

text \<open>What becomes of an item purged from the trash.\<close>

lemma walk_closed:
  assumes "r \<in> set (vault_items s)" "v_group_id r = g" "live r" "v_parent_id r = Some p" "p \<in> v_id ` set (purge_walk g i s)"
  shows "v_id r \<in> v_id ` set (purge_walk g i s)"
proof -
  from assms(5) obtain x where "x \<in> set (purge_walk g i s)" "v_id x = p" by auto
  then have "below g (vault_items s) i p" "\<exists>x \<in> set (vault_items s). v_key x = (g, i)" by (auto simp: purge_walk_iff)
  with assms(1-4) below_child [OF this(1) assms(1,2,4)] have "r \<in> set (purge_walk g i s)" by (simp add: purge_walk_iff)
  then show ?thesis by (rule imageI)
qed

lemma decays_purge:
  assumes ok: "seqs_ok s" "forest s" and x: "x \<in> set (vault_items s)" "trash_expired X x"
    and p: "purges (v_group_id x) (v_id ` set (purge_walk (v_group_id x) (v_id x) s)) now s s'"
  shows "decays X now s s'"
proof -
  let ?g = "v_group_id x" and ?V = "v_id ` set (purge_walk (v_group_id x) (v_id x) s)"
  have grp: "group_of s ?g \<noteq> None" using ok(1) x(1) by (simp add: seqs_ok_def)
  from p obtain q where items: "vault_items s' = map (buried ?g ?V now q) (vault_items s)" unfolding purges_def by fastforce
  have "buried ?g ?V now q r = r \<or> live r \<and> v_removed_at (buried ?g ?V now q r) = Some now
      \<and> (\<exists>x \<in> set (vault_items s). trash_expired X x \<and> v_group_id x = v_group_id r
           \<and> below (v_group_id r) (vault_items s) (v_id x) (v_id r))" if r: "r \<in> set (vault_items s)" for r
  proof (cases "v_group_id r = ?g \<and> v_id r \<in> ?V \<and> live r")
    case True
    then have "below ?g (vault_items s) (v_id x) (v_id r)" by (auto simp: purge_walk_iff)
    with True x show ?thesis by (intro disjI2 conjI bexI [of _ x]) (simp_all add: buried_def tombstone_row_def)
  next
    case False
    then show ?thesis unfolding buried_def by (intro disjI1) (rule if_not_P)
  qed
  moreover have "forest s'" by (rule forest_purge [OF ok(2) p]) (rule walk_closed)
  ultimately show ?thesis using purges_advances [OF ok(1) grp p] items same_shape_buried unfolding decays_def by blast
qed

lemma purgeExpired_none:
  assumes "\<not> (\<exists>x \<in> set (vault_items s). v_key x = (g, i) \<and> trash_expired X x)"
  shows "purgeExpiredVaultItem g i X now s = (Inr [], s)"
proof -
  let ?c = "\<lambda>r. v_group_id r = g \<and> v_id r = i \<and> live r \<and> (case v_trashed_at r of None \<Rightarrow> False | Some t \<Rightarrow> t < X)"
  have "first_row ?c (vault_items s) = None"
    using assms unfolding first_row_None by (auto simp: trash_expired_def)
  then show ?thesis by (simp add: purgeExpiredVaultItem_def bindS_def readS_def retS_def)
qed

lemma purgeExpired_exact:
  assumes ok: "seqs_ok s" and x: "x \<in> set (vault_items s)" "trash_expired X x"
  shows "\<exists>ids. fst (purgeExpiredVaultItem (v_group_id x) (v_id x) X now s) = Inr ids
    \<and> set ids = v_id ` set (purge_walk (v_group_id x) (v_id x) s)
    \<and> purges (v_group_id x) (set ids) now s (snd (purgeExpiredVaultItem (v_group_id x) (v_id x) X now s))"
proof -
  let ?g = "v_group_id x" and ?i = "v_id x"
  let ?old = "\<lambda>r. case v_trashed_at r of None \<Rightarrow> False | Some t \<Rightarrow> t < X"
  let ?gd = "\<lambda>r. ?old r \<and> v_blob_key r = v_blob_key x"
  have grp: "group_of s ?g \<noteq> None" and pk: "pk v_key (vault_items s)" using ok x(1) by (simp_all add: seqs_ok_def)
  have root: "first_row (\<lambda>r. v_group_id r = ?g \<and> v_id r = ?i \<and> live r \<and> ?old r) (vault_items s) = Some x"
    by (rule first_row_unique [OF pk x(1)]) (use x(2) in \<open>simp_all add: trash_expired_def\<close>)
  have lx: "live x" "?gd x" using x(2) by (simp_all add: trash_expired_def)
  let ?t = "tombstone ?g ?i now ?gd (nextVaultSeq ?g s)"
  note one = purges_one [where guard = ?gd and now = now, OF pk x(1) lx(1) refl lx(2) grp]
  let ?d = "if truthy (v_blob_key x) then catchS (deleteUnclaimedBlobs VAULT_BLOBS [(?g, the (v_blob_key x))]) else retS ()"
  have "purges ?g ({?i} \<union> {}) now s (snd (?d (snd ?t)))"
  proof (cases "truthy (v_blob_key x)")
    case True
    show ?thesis by (rule purges_trans [OF one(2)]) (use True purges_blobs grp in simp_all)
  qed (use one(2) in \<open>simp add: retS_def\<close>)
  then have d: "purges ?g {?i} now s (snd (?d (snd ?t)))" by simp
  have fd: "fst (?d (snd ?t)) = Inr ()" by (simp add: catchS_def retS_def)
  let ?s2 = "snd (?d (snd ?t))"
  have pk2: "pk v_key (vault_items ?s2)" using purges_rows(1) [OF d] pk by simp
  note rest = purgeVaultItem_exact [OF pk2 purges_seq(2) [OF d grp], of ?i now]
  have walk: "v_id ` set (purge_walk ?g ?i ?s2) = v_id ` set (purge_walk ?g ?i s) - {?i}"
  proof (intro equalityI subsetI)
    fix j assume "j \<in> v_id ` set (purge_walk ?g ?i ?s2)"
    then obtain r where r: "j = v_id r" "r \<in> set (purge_walk ?g ?i ?s2)" by blast
    then have "r \<in> set (vault_items ?s2)" "live r" "v_group_id r = ?g"
      "v_id r \<in> set (SUBTREE ?g ?i (vault_items ?s2))" by (auto simp: purge_walk_iff subtree_iff)
    with purges_live [OF d] have "r \<in> set (vault_items s)" "v_id r \<noteq> ?i" "live r" "v_group_id r = ?g"
      "below ?g (vault_items s) ?i (v_id r)" unfolding purges_rows(2) [OF d] by (auto simp: subtree_iff)
    with x(1) r(1) have "r \<in> set (purge_walk ?g ?i s)" "j \<noteq> ?i" by (auto simp: purge_walk_iff)
    with r(1) show "j \<in> v_id ` set (purge_walk ?g ?i s) - {?i}" by blast
  next
    fix j assume "j \<in> v_id ` set (purge_walk ?g ?i s) - {?i}"
    then obtain r where r: "j = v_id r" "r \<in> set (purge_walk ?g ?i s)" "v_id r \<noteq> ?i" by blast
    have "r \<in> set (vault_items ?s2)" by (rule purges_rows(3) [OF d]) (use r in \<open>auto simp: purge_walk_iff\<close>)
    moreover have "below ?g (vault_items ?s2) ?i (v_id r)"
      unfolding subtree_iff [symmetric] purges_rows(2) [OF d] using r by (simp add: purge_walk_iff subtree_iff)
    moreover have "\<exists>y \<in> set (vault_items ?s2). v_key y = (?g, ?i)"
    proof -
      from d obtain q where "vault_items ?s2 = map (buried ?g {?i} now q) (vault_items s)" unfolding purges_def by fastforce
      moreover have "v_key (buried ?g {?i} now q x) = (?g, ?i)" for q by (simp add: buried_def tombstone_row_def)
      ultimately show ?thesis using x(1) by (intro bexI [of _ "buried ?g {?i} now q x"]) auto
    qed
    ultimately have "r \<in> set (purge_walk ?g ?i ?s2)" using r(2) by (simp add: purge_walk_iff)
    with r(1) show "j \<in> v_id ` set (purge_walk ?g ?i ?s2)" by blast
  qed
  have "?i \<in> v_id ` set (purge_walk ?g ?i s)"
    using x(1) lx(1) by (intro imageI) (auto simp: purge_walk_iff below_self)
  then have un: "{?i} \<union> v_id ` set (purge_walk ?g ?i ?s2) = v_id ` set (purge_walk ?g ?i s)" unfolding walk by blast
  have "purges ?g ({?i} \<union> v_id ` set (purge_walk ?g ?i ?s2)) now s (snd (purgeVaultItem ?g ?i now ?s2))"
    by (rule purges_trans [OF d]) (use rest walk grp in auto)
  moreover have "purgeExpiredVaultItem ?g ?i X now s
      = (Inr (?i # map v_id (purge_walk ?g ?i ?s2)), snd (purgeVaultItem ?g ?i now ?s2))"
    using rest fd one(1) by (simp add: purgeExpiredVaultItem_def bindS_def readS_def root case_prod_beta retS_def)
  ultimately show ?thesis unfolding un using un
    by (intro exI [of _ "?i # map v_id (purge_walk ?g ?i ?s2)"]) simp
qed

definition expired_count :: "int \<Rightarrow> env \<Rightarrow> nat" where
  "expired_count X s = count_rows (trash_expired X) (vault_items s)"

lemma decays_unexpired:
  assumes "decays X now s s'"
  shows "\<forall>r \<in> set (vault_items s'). trash_expired X r \<longrightarrow> r \<in> set (vault_items s)"
    and "expired_count X s' \<le> expired_count X s"
    and "x \<in> set (vault_items s) \<Longrightarrow> trash_expired X x \<Longrightarrow> x \<notin> set (vault_items s') \<Longrightarrow> expired_count X s' < expired_count X s"
proof -
  from assms obtain h where h: "vault_items s' = map h (vault_items s)"
    "\<forall>r \<in> set (vault_items s). h r = r \<or> live r \<and> v_removed_at (h r) = Some now" unfolding decays_def by blast
  then have stay: "h r = r" if "r \<in> set (vault_items s)" "trash_expired X (h r)" for r
    using that by (auto simp: trash_expired_def live_def)
  then show "\<forall>r \<in> set (vault_items s'). trash_expired X r \<longrightarrow> r \<in> set (vault_items s)"
    unfolding h(1) by fastforce
  have le: "length (filter (p \<circ> h) t) \<le> length (filter p t)" if "\<forall>r \<in> set t. p (h r) \<longrightarrow> p r" for p t
    using that by (induction t) auto
  have lt: "length (filter (p \<circ> h) t) < length (filter p t)"
    if "\<forall>r \<in> set t. p (h r) \<longrightarrow> p r" "y \<in> set t" "p y" "\<not> p (h y)" for p t y
    using that by (induction t) (auto simp: less_Suc_eq_le le)
  have expired: "\<forall>r \<in> set (vault_items s). trash_expired X (h r) \<longrightarrow> trash_expired X r" using stay by metis
  from le [OF this] show "expired_count X s' \<le> expired_count X s"
    by (simp add: expired_count_def count_rows_def h(1) filter_map)
  show "expired_count X s' < expired_count X s"
    if x: "x \<in> set (vault_items s)" "trash_expired X x" "x \<notin> set (vault_items s')"
  proof -
    have "\<not> trash_expired X (h x)"
    proof
      assume "trash_expired X (h x)"
      with stay [OF x(1)] have "h x = x" .
      with x(1,3) show False unfolding h(1) by (metis image_eqI list.set_map)
    qed
    from lt [OF expired x(1,2) this] show ?thesis
      by (simp add: expired_count_def count_rows_def h(1) filter_map)
  qed
qed

abbreviation purge_each :: "int \<Rightarrow> int \<Rightarrow> vault_row list \<Rightarrow> unit handler" where
  "purge_each X now rows \<equiv>
     forS rows (\<lambda>r. bindS (purgeExpiredVaultItem (v_group_id r) (v_id r) X now) (\<lambda>_. retS ()))"

lemma purge_each_decays:
  "seqs_ok s \<Longrightarrow> forest s \<Longrightarrow> fst (purge_each X now rows s) = Inr () \<and> decays X now s (snd (purge_each X now rows s))
     \<and> (\<forall>r \<in> set rows. \<forall>x \<in> set (vault_items (snd (purge_each X now rows s))). trash_expired X x \<longrightarrow> v_key x \<noteq> v_key r)"
proof (induction rows arbitrary: s)
  case Nil
  then show ?case by (simp add: retS_def decays_refl)
next
  case (Cons r rows)
  let ?p = "purgeExpiredVaultItem (v_group_id r) (v_id r) X now s"
  have first: "(\<exists>ids. fst ?p = Inr ids) \<and> decays X now s (snd ?p)
      \<and> (\<forall>x \<in> set (vault_items (snd ?p)). trash_expired X x \<longrightarrow> v_key x \<noteq> v_key r)"
  proof (cases "\<exists>x \<in> set (vault_items s). v_key x = v_key r \<and> trash_expired X x")
    case True
    then obtain x where x: "x \<in> set (vault_items s)" "trash_expired X x" "v_key x = v_key r" by blast
    from purgeExpired_exact [OF Cons.prems(1) x(1,2), of now] x(3) obtain ids where ids: "fst ?p = Inr ids"
      "set ids = v_id ` set (purge_walk (v_group_id x) (v_id x) s)" "purges (v_group_id x) (set ids) now s (snd ?p)" by auto
    from decays_purge [OF Cons.prems x(1,2)] ids(2,3) have d: "decays X now s (snd ?p)" by simp
    have "x \<in> set (purge_walk (v_group_id x) (v_id x) s)"
      using x by (auto simp: purge_walk_iff below_self trash_expired_def)
    then have "v_id x \<in> set ids" unfolding ids(2) by (rule imageI)
    then have "v_key y \<noteq> v_key r" if "y \<in> set (vault_items (snd ?p))" "trash_expired X y" for y
      using purges_live [OF ids(3) that(1)] that(2) x(3) by (auto simp: trash_expired_def)
    with ids(1) d show ?thesis by blast
  next
    case False
    then have "?p = (Inr [], s)" by (intro purgeExpired_none) auto
    with Cons.prems False show ?thesis by (auto simp: decays_refl)
  qed
  then obtain ids where ids: "fst ?p = Inr ids" and d: "decays X now s (snd ?p)" by blast
  let ?q = "purge_each X now rows (snd ?p)"
  have q: "fst ?q = Inr ()" "decays X now (snd ?p) (snd ?q)"
    "\<forall>r \<in> set rows. \<forall>x \<in> set (vault_items (snd ?q)). trash_expired X x \<longrightarrow> v_key x \<noteq> v_key r"
    using Cons.IH [of "snd ?p"] d by (simp_all add: decays_def)
  have "purge_each X now (r # rows) s = ?q" using ids by (simp add: bindS_def case_prod_beta retS_def)
  with q decays_trans [OF d q(2) Cons.prems(1)] first decays_unexpired(1) [OF q(2)] show ?case by auto
qed

lemma trash_loop_ends:
  "seqs_ok s \<Longrightarrow> forest s \<Longrightarrow> expired_count X s \<le> fuel \<Longrightarrow>
     fst (trash_loop fuel X now s) = Inr () \<and> decays X now s (snd (trash_loop fuel X now s))
     \<and> expired_count X (snd (trash_loop fuel X now s)) = 0"
proof (induction fuel arbitrary: s)
  case 0
  then show ?case by (simp add: retS_def decays_refl)
next
  case (Suc fuel)
  let ?rows = "take 50 (filter (trash_expired X) (vault_items s))"
  show ?case
  proof (cases "filter (trash_expired X) (vault_items s)")
    case Nil
    with Suc.prems show ?thesis
      by (simp add: bindS_def readS_def retS_def decays_refl expired_count_def count_rows_def)
  next
    case (Cons x xs)
    then have "x \<in> set (filter (trash_expired X) (vault_items s))" by simp
    then have x: "x \<in> set (vault_items s)" "trash_expired X x" by simp_all
    have ne: "?rows \<noteq> []" and xin: "x \<in> set ?rows" using Cons by simp_all
    let ?q = "purge_each X now ?rows s"
    note q = purge_each_decays [where X = X and now = now and rows = ?rows, OF Suc.prems(1,2)]
    have "x \<notin> set (vault_items (snd ?q))" using q xin x(2) by blast
    with decays_unexpired(3) [of X now s "snd ?q" x] q x Suc.prems(3) have "expired_count X (snd ?q) \<le> fuel" by force
    with Suc.IH [of "snd ?q"] q have r: "fst (trash_loop fuel X now (snd ?q)) = Inr ()"
      "decays X now (snd ?q) (snd (trash_loop fuel X now (snd ?q)))"
      "expired_count X (snd (trash_loop fuel X now (snd ?q))) = 0" by (simp_all add: decays_def)
    have "trash_loop (Suc fuel) X now s = trash_loop fuel X now (snd ?q)"
    proof -
      have "trash_loop (Suc fuel) X now s = bindS (purge_each X now ?rows) (\<lambda>_. trash_loop fuel X now) s"
        using ne by (simp add: bindS_Inr [of "readS _"] readS_def)
      also have "\<dots> = trash_loop fuel X now (snd ?q)" by (rule bindS_Inr) (use q in blast)
      finally show ?thesis .
    qed
    with r decays_trans [OF _ r(2) Suc.prems(1)] q show ?thesis by simp
  qed
qed

text \<open>Forgetting.\<close>

lemma vault_floor_forget:
  "vault_floor_of (forget_tombstones X s) g = (case group_of s g of None \<Rightarrow> 0 | Some r \<Rightarrow>
     let gone = map v_seq (filter (\<lambda>r. v_group_id r = g \<and> forgettable X r) (vault_items s))
     in if gone = [] then g_vault_floor r else max (g_vault_floor r) (Max (set gone)))"
proof -
  let ?h = "\<lambda>g. let gone = map v_seq (filter (\<lambda>r. v_group_id r = g_id g \<and> forgettable X r) (vault_items s))
       in if gone = [] then g else g\<lparr>g_vault_floor := max (g_vault_floor g) (Max (set gone))\<rparr>"
  have "group_of (forget_tombstones X s) g = map_option ?h (group_of s g)"
    unfolding group_of_def forget_tombstones_def first_row_def
    by (simp, rule find_map_keep) (simp add: Let_def)
  then show ?thesis by (auto simp: vault_floor_of_def Let_def dest: group_of_Some split: option.split)
qed

lemma forget_facts:
  "VAULT_SEQ (forget_tombstones X s) g = VAULT_SEQ s g"
  "group_of (forget_tombstones X s) g = None \<longleftrightarrow> group_of s g = None"
proof -
  let ?h = "\<lambda>g. let gone = map v_seq (filter (\<lambda>r. v_group_id r = g_id g \<and> forgettable X r) (vault_items s))
       in if gone = [] then g else g\<lparr>g_vault_floor := max (g_vault_floor g) (Max (set gone))\<rparr>"
  have grp: "group_of (forget_tombstones X s) g = map_option ?h (group_of s g)"
    unfolding group_of_def forget_tombstones_def first_row_def
    by (simp, rule find_map_keep) (simp add: Let_def)
  then show "VAULT_SEQ (forget_tombstones X s) g = VAULT_SEQ s g"
    by (auto simp: VAULT_SEQ_def Let_def split: option.split)
  from grp show "group_of (forget_tombstones X s) g = None \<longleftrightarrow> group_of s g = None" by simp
qed

lemma forget_floor:
  assumes "r \<in> set (vault_items s)" "forgettable X r" "group_of s (v_group_id r) \<noteq> None"
  shows "v_seq r \<le> vault_floor_of (forget_tombstones X s) (v_group_id r)"
proof -
  let ?gone = "map v_seq (filter (\<lambda>x. v_group_id x = v_group_id r \<and> forgettable X x) (vault_items s))"
  have "v_seq r \<in> set ?gone" using assms(1,2) by simp
  moreover from this have "?gone \<noteq> []" by (cases ?gone) simp_all
  ultimately have "?gone \<noteq> []" "v_seq r \<le> Max (set ?gone)" using Max_ge [OF finite_set] by blast+
  with assms(3) show ?thesis unfolding vault_floor_forget by (auto simp: Let_def max_def)
qed

lemma forget_advances:
  assumes ok: "seqs_ok s"
  shows "advances s (forget_tombstones X s) \<and> seqs_ok (forget_tombstones X s)"
proof -
  let ?s = "forget_tombstones X s"
  have items: "vault_items ?s = delete_rows (forgettable X) (vault_items s)" by (simp add: forget_tombstones_def)
  have row: "group_of s (v_group_id r) \<noteq> None" "0 < v_seq r" "v_seq r \<le> VAULT_SEQ s (v_group_id r)"
    if "r \<in> set (vault_items s)" for r using that ok unfolding seqs_ok_def by blast+
  have fl: "0 \<le> g_vault_floor g \<and> g_vault_floor g \<le> g_vault_seq g" if "g \<in> set (groups s)" for g
    using that ok unfolding seqs_ok_def by blast
  have "advances s ?s"
    unfolding advances_def
  proof (intro conjI ballI allI)
    show "VAULT_SEQ s g \<le> VAULT_SEQ ?s g" for g by (simp add: forget_facts)
    show "vault_floor_of s g \<le> vault_floor_of ?s g" for g
      unfolding vault_floor_forget by (auto simp: vault_floor_of_def Let_def split: option.split)
    show "r \<in> set (vault_items s) \<or> VAULT_SEQ s (v_group_id r) < v_seq r" if "r \<in> set (vault_items ?s)" for r
      using that by (simp add: items set_delete_rows)
    show "if live r then v_key r \<in> v_key ` set (vault_items ?s) \<or> VAULT_SEQ s (v_group_id r) < vault_floor_of ?s (v_group_id r)
        else r \<in> set (vault_items ?s) \<or> v_seq r \<le> vault_floor_of ?s (v_group_id r)" if r: "r \<in> set (vault_items s)" for r
    proof (cases "forgettable X r")
      case True
      then have "\<not> live r" by (auto simp: forgettable_def live_def split: option.splits)
      with forget_floor [OF r True row(1) [OF r]] show ?thesis by simp
    next
      case False
      with r have "r \<in> set (vault_items ?s)" by (simp add: items set_delete_rows)
      then show ?thesis by (cases "live r") (simp_all add: rev_image_eqI)
    qed
  qed
  moreover have "seqs_ok ?s"
    unfolding seqs_ok_def
  proof (intro conjI ballI)
    have "map g_id (groups ?s) = map g_id (groups s)" by (simp add: forget_tombstones_def Let_def)
    then show "pk g_id (groups ?s)" using ok by (simp add: seqs_ok_def pk_def)
    show "pk v_key (vault_items ?s)" "pk (\<lambda>r. (v_group_id r, v_seq r)) (vault_items ?s)"
      using ok by (simp_all add: items seqs_ok_def pk_delete_rows)
    show "group_of ?s (v_group_id r) \<noteq> None" "0 < v_seq r" "v_seq r \<le> VAULT_SEQ ?s (v_group_id r)"
      if "r \<in> set (vault_items ?s)" for r
      using that row [of r] by (simp_all add: items set_delete_rows forget_facts)
    show "0 \<le> g_vault_floor g" "g_vault_floor g \<le> g_vault_seq g" if "g \<in> set (groups ?s)" for g
    proof -
      from that obtain x where x: "x \<in> set (groups s)" and g: "g = (let gone = map v_seq (filter (\<lambda>r. v_group_id r = g_id x \<and> forgettable X r) (vault_items s))
         in if gone = [] then x else x\<lparr>g_vault_floor := max (g_vault_floor x) (Max (set gone))\<rparr>)"
        by (auto simp: forget_tombstones_def)
      let ?gone = "map v_seq (filter (\<lambda>r. v_group_id r = g_id x \<and> forgettable X r) (vault_items s))"
      have "group_of s (g_id x) = Some x" using group_of_unique [OF _ x] ok by (simp add: seqs_ok_def)
      then have seq: "VAULT_SEQ s (g_id x) = g_vault_seq x" by (simp add: VAULT_SEQ_def)
      have "Max (set ?gone) \<le> g_vault_seq x" if "?gone \<noteq> []"
      proof (rule Max.boundedI [OF finite_set])
        show "set ?gone \<noteq> {}" using that by (simp only: set_empty not_False_eq_True)
        show "a \<le> g_vault_seq x" if "a \<in> set ?gone" for a using that row(3) unfolding seq [symmetric] by force
      qed
      with fl [OF x] g show "0 \<le> g_vault_floor g" "g_vault_floor g \<le> g_vault_seq g"
        by (auto simp: Let_def)
    qed
  qed
  ultimately show ?thesis ..
qed

lemma forest_forget: "forest s \<Longrightarrow> forest (forget_tombstones X s)"
  unfolding forest_def
proof (intro ballI impI)
  fix r assume f: "\<forall>r \<in> set (vault_items s). live r \<longrightarrow> rooted (vault_items s) (v_group_id r) (v_id r)"
    and r: "r \<in> set (vault_items (forget_tombstones X s))" "live r"
  then have "rooted (vault_items s) (v_group_id r) (v_id r)" by (simp add: forget_tombstones_def set_delete_rows)
  then show "rooted (vault_items (forget_tombstones X s)) (v_group_id r) (v_id r)"
    by (elim rooted_mono [where P = "\<lambda>_. True"])
       (auto simp: forget_tombstones_def set_delete_rows forgettable_def live_def split: option.splits)
qed

lemma rooted_ancestors:
  assumes pk: "pk v_key t" and "below g t x i" and "rooted t g i"
  shows "\<exists>y \<in> set t. v_key y = (g, x) \<and> live y"
  using assms(2,3)
proof (induction rule: below.induct)
  case below_self
  then show ?case by (cases rule: rooted.cases) auto
next
  case (below_child p r)
  from below_child.prems have "rooted t g p"
  proof (cases rule: rooted.cases)
    case (rooted_top y)
    then show ?thesis using pk_unique [OF pk below_child.hyps(2), of y] below_child.hyps(3,4) by simp
  next
    case (rooted_in q f y)
    then show ?thesis using pk_unique [OF pk below_child.hyps(2), of y] below_child.hyps(3,4) by simp
  qed
  then show ?case by (rule below_child.IH)
qed

section \<open>Properties\<close>

text \<open>The items a clean-up purges: those in the trash for too long, with everything inside them.\<close>

definition doomed :: "int \<Rightarrow> env \<Rightarrow> vault_row \<Rightarrow> bool" where
  "doomed X s r \<longleftrightarrow> exists_row (\<lambda>x. trash_expired X x \<and> v_group_id x = v_group_id r
     \<and> v_id r \<in> set (SUBTREE (v_group_id r) (v_id x) (vault_items s))) (vault_items s)"

text \<open>C15. The scheduled clean-up of the vault. On any vault that is a forest with orderly change numbers, and
  whether R2 answers or not, \<open>cleanUpVault\<close> ends without an error and leaves such a vault; every
  live item becomes a tombstone under a number no device has seen yet if it or a folder around it
  was in the trash past its time, and is untouched otherwise; no expired trash and no tombstone
  past its time is left, and the floor of each space covers what was forgotten.\<close>

theorem cleanUpVault_exact:
  assumes "seqs_ok s" and "forest s"
  shows "\<exists>s'. cleanUpVault now s = (Inr (), s') \<and> seqs_ok s' \<and> forest s' \<and> advances s s'
    \<and> (\<forall>r \<in> set (vault_items s). live r \<longrightarrow>
         (if doomed (now - VAULT_TRASH_TTL_MS) s r
          then \<exists>r' \<in> set (vault_items s'). v_key r' = v_key r \<and> v_removed_at r' = Some now \<and> VAULT_SEQ s (v_group_id r) < v_seq r'
          else r \<in> set (vault_items s')))
    \<and> (\<forall>r \<in> set (vault_items s'). \<not> trash_expired (now - VAULT_TRASH_TTL_MS) r \<and> \<not> forgettable (now - VAULT_TOMBSTONE_TTL_MS) r)
    \<and> (\<forall>r \<in> set (vault_items s). forgettable (now - VAULT_TOMBSTONE_TTL_MS) r \<longrightarrow> v_seq r \<le> vault_floor_of s' (v_group_id r))"
proof -
  let ?X = "now - VAULT_TRASH_TTL_MS" and ?F = "now - VAULT_TOMBSTONE_TTL_MS"
  let ?l = "trash_loop (Suc (length (vault_items s))) ?X now s"
  define s1 where "s1 = snd ?l"
  let ?s2 = "forget_tombstones ?F s1"
  have "expired_count ?X s \<le> Suc (length (vault_items s))"
    unfolding expired_count_def count_rows_def by (rule le_SucI) (rule length_filter_le)
  from trash_loop_ends [OF assms this, of now] have l: "fst ?l = Inr ()" and d: "decays ?X now s s1"
    and zero: "expired_count ?X s1 = 0" unfolding s1_def by blast+
  from d have ok1: "seqs_ok s1" and f1: "forest s1" and adv1: "advances s s1" by (simp_all add: decays_def)
  note fg = forget_advances [OF ok1, of ?F]
  have items2: "vault_items ?s2 = delete_rows (forgettable ?F) (vault_items s1)" by (simp add: forget_tombstones_def)
  from d obtain h where h: "same_shape h" "vault_items s1 = map h (vault_items s)"
    and h1: "\<And>r. r \<in> set (vault_items s) \<Longrightarrow> h r = r \<or> live r \<and> v_removed_at (h r) = Some now
      \<and> (\<exists>x \<in> set (vault_items s). trash_expired ?X x \<and> v_group_id x = v_group_id r
           \<and> below (v_group_id r) (vault_items s) (v_id x) (v_id r))" unfolding decays_def by blast
  have in1: "h r \<in> set (vault_items s1)" if "r \<in> set (vault_items s)" for r using that unfolding h(2) by simp
  have fresh: "\<not> forgettable ?F (h r)" if "v_removed_at (h r) = Some now" for r
    using that by (simp add: forgettable_def VAULT_TOMBSTONE_TTL_MS_def)
  have run: "cleanUpVault now s = (Inr (), ?s2)"
    unfolding cleanUpVault_def using l unfolding s1_def by (simp only: bindS_Inr writeS_def)
  have live_case: "if doomed ?X s r
      then \<exists>r' \<in> set (vault_items ?s2). v_key r' = v_key r \<and> v_removed_at r' = Some now \<and> VAULT_SEQ s (v_group_id r) < v_seq r'
      else r \<in> set (vault_items ?s2)" if r: "r \<in> set (vault_items s)" "live r" for r
  proof (cases "doomed ?X s r")
    case False
    then have "h r = r" using h1 [OF r(1)] by (auto simp: doomed_def exists_row_iff subtree_iff)
    with in1 [OF r(1)] r(2) False show ?thesis
      by (simp add: items2 set_delete_rows forgettable_def live_def)
  next
    case True
    then obtain x where x: "x \<in> set (vault_items s)" "trash_expired ?X x" "v_group_id x = v_group_id r"
      "below (v_group_id r) (vault_items s) (v_id x) (v_id r)" by (auto simp: doomed_def exists_row_iff subtree_iff)
    have "\<not> trash_expired ?X (h x)" using zero in1 [OF x(1)] by (auto simp: expired_count_def count_rows_0)
    then have hx: "h x \<noteq> x" using x(2) by auto
    with h1 [OF x(1)] have "v_removed_at (h x) = Some now" by blast
    then have dead: "\<not> live (h x)" by (simp add: live_def)
    have "h r \<noteq> r"
    proof
      assume same: "h r = r"
      with in1 [OF r(1)] have "r \<in> set (vault_items s1)" by simp
      with r(2) f1 have root: "rooted (vault_items s1) (v_group_id r) (v_id r)" unfolding forest_def by blast
      have bel: "below (v_group_id r) (vault_items s1) (v_id x) (v_id r)" unfolding h(2) below_map [OF h(1)] by fact
      have pk1: "pk v_key (vault_items s1)" using ok1 by (simp add: seqs_ok_def)
      from rooted_ancestors [OF this bel root] obtain y where
        y: "y \<in> set (vault_items s1)" "v_key y = (v_group_id r, v_id x)" "live y" by blast
      have "v_key (h x) = (v_group_id r, v_id x)" using h(1) x(3) by (simp add: same_shape_def)
      with pk_unique [OF pk1 in1 [OF x(1)] y(1)] y(2,3) dead show False by simp
    qed
    with h1 [OF r(1)] have rem: "v_removed_at (h r) = Some now" by blast
    have "VAULT_SEQ s (v_group_id (h r)) < v_seq (h r)"
    proof -
      have "h r \<notin> set (vault_items s)"
        using pk_unique [of v_key "vault_items s" "h r" r] assms(1) r(1) \<open>h r \<noteq> r\<close> h(1)
        by (auto simp: seqs_ok_def same_shape_def)
      with adv1 in1 [OF r(1)] show ?thesis unfolding advances_def by blast
    qed
    moreover have "v_key (h r) = v_key r" using h(1) by (simp add: same_shape_def)
    ultimately show ?thesis using True rem in1 [OF r(1)] fresh [OF rem]
      by (auto simp: items2 set_delete_rows intro!: bexI [of _ "h r"])
  qed
  have clean: "\<not> trash_expired ?X r \<and> \<not> forgettable ?F r" if "r \<in> set (vault_items ?s2)" for r
    using that zero by (simp add: items2 set_delete_rows expired_count_def count_rows_0)
  have floor: "v_seq r \<le> vault_floor_of ?s2 (v_group_id r)" if r: "r \<in> set (vault_items s)" "forgettable ?F r" for r
  proof -
    have "\<not> live r" using r(2) by (auto simp: forgettable_def live_def split: option.splits)
    then have "h r = r" using h1 [OF r(1)] by blast
    with in1 [OF r(1)] have "r \<in> set (vault_items s1)" by simp
    with forget_floor [OF this r(2)] ok1 show ?thesis by (auto simp: seqs_ok_def)
  qed
  have "advances s ?s2" using advances_trans [OF adv1] fg assms(1) by (simp add: seqs_ok_def)
  then show ?thesis using run fg forest_forget [OF f1] live_case clean floor by blast
qed

section \<open>At concrete inputs\<close>

definition sample_item :: "string \<Rightarrow> string \<Rightarrow> string option \<Rightarrow> VaultItemKind \<Rightarrow> int \<Rightarrow> vault_row" where
  "sample_item g i parent kind n = \<lparr>v_group_id = g, v_id = i, v_parent_id = parent, v_kind = kind,
     v_key_epoch = Some 1, v_meta = Some ''m'', v_meta_iv = Some ''iv'',
     v_blob_key = (if kind = Folder then None else Some (''blob-'' @ i)), v_blob_size = 7, v_revision = 1,
     v_seq = n, v_created_at = 0, v_updated_at = 0, v_trashed_at = None, v_removed_at = None\<rparr>"

text \<open>A folder in the trash with a note inside, and a note outside.\<close>

definition vault_env :: env where
  "vault_env = (sample_env [(sample_group ''g'' 1 False)\<lparr>g_vault_seq := 3\<rparr>] [sample_device ''g'' ''a'' Owner 1])
     \<lparr>vault_items := [(sample_item ''g'' ''f'' None Folder 1)\<lparr>v_trashed_at := Some 1\<rparr>,
        sample_item ''g'' ''n'' (Some ''f'') Note 2, sample_item ''g'' ''o'' None Note 3]\<rparr>"

lemma vault_env_ok: "seqs_ok vault_env" "forest vault_env"
proof -
  show "seqs_ok vault_env" by code_simp
  let ?t = "vault_items vault_env"
  let ?f = "(sample_item ''g'' ''f'' None Folder 1)\<lparr>v_trashed_at := Some 1\<rparr>"
  have f: "rooted ?t ''g'' (v_id ?f)"
    by (rule rooted_top) (simp_all add: vault_env_def sample_item_def live_def)
  have n: "rooted ?t ''g'' (v_id (sample_item ''g'' ''n'' (Some ''f'') Note 2))"
    by (rule rooted_in [where p = "''f''" and f = ?f])
       (use f in \<open>simp_all add: vault_env_def sample_item_def live_def\<close>)
  have "rooted ?t ''g'' (v_id (sample_item ''g'' ''o'' None Note 3))"
    by (rule rooted_top) (simp_all add: vault_env_def sample_item_def live_def)
  with f n show "forest vault_env"
    by (simp add: forest_def vault_env_def sample_item_def)
qed

theorem cleanUpVault_exact_witness:
  "map live (vault_items (snd (cleanUpVault (VAULT_TRASH_TTL_MS + 9) vault_env))) = [False, False, True]
   \<and> forest (snd (cleanUpVault (VAULT_TRASH_TTL_MS + 9) vault_env))"
proof -
  from cleanUpVault_exact [OF vault_env_ok, of "VAULT_TRASH_TTL_MS + 9"]
  have "forest (snd (cleanUpVault (VAULT_TRASH_TTL_MS + 9) vault_env))" by force
  moreover have "map live (vault_items (snd (cleanUpVault (VAULT_TRASH_TTL_MS + 9) vault_env))) = [False, False, True]"
    by code_simp
  ultimately show ?thesis by blast
qed

end
