(* ===== verification/Files.thy ===== *)
theory Files
  imports Vault
begin

text \<open>
  Streaming encrypted blobs in and out (apps/worker/src/routes/files.ts), for messages and for the
  vault. A body is its chunks. What the runtime is relied on for: a \<open>FixedLengthStream\<close> accepts
  exactly the declared number of bytes, a bucket stores what it was sent under its key or fails,
  and an upload whose stream failed stores nothing. The lemmas: an upload either is there in full,
  accounted for and within the quota, or has left no object; the vault's accounting survives both.
\<close>

section \<open>The upload cap\<close>

text \<open>The transform of \<open>boundedUploadBody\<close>: the chunks it passes on, and whether it broke off.\<close>

fun bounded_chunks :: "int \<Rightarrow> nat list list \<Rightarrow> nat list list \<times> bool" where
  "bounded_chunks n [] = ([], False)"
| "bounded_chunks n (c # cs) =
     (if n + int (length c) > MAX_UPLOAD_SIZE then ([], True)
      else let (out, exceeded) = bounded_chunks (n + int (length c)) cs in (c # out, exceeded))"

definition boundedUploadBody :: "nat list list \<Rightarrow> nat list list \<times> bool" where
  "boundedUploadBody body = bounded_chunks 0 body"

text \<open>Copying into \<open>new FixedLengthStream(length)\<close>.\<close>

definition copy_body :: "int \<Rightarrow> nat list list \<Rightarrow> bool" where
  "copy_body len body = (case boundedUploadBody body of (out, exceeded) \<Rightarrow>
     \<not> exceeded \<and> int (length (concat out)) = len)"

lemma bounded_chunks_exceeded:
  "n \<le> MAX_UPLOAD_SIZE \<Longrightarrow> snd (bounded_chunks n cs) \<longleftrightarrow> MAX_UPLOAD_SIZE < n + int (length (concat cs))"
  by (induction cs arbitrary: n) (auto simp: case_prod_beta add.assoc)

lemma bounded_chunks_all: "\<not> snd (bounded_chunks n cs) \<Longrightarrow> fst (bounded_chunks n cs) = cs"
  by (induction cs arbitrary: n) (auto simp: case_prod_beta split: if_splits)

section \<open>Receiving and sending\<close>

definition discardUpload :: "BlobStore \<Rightarrow> string \<Rightarrow> string \<Rightarrow> unit handler" where
  "discardUpload S g k = catchS (deleteBlob S g k)"

text \<open>\<open>Content-Length\<close> as \<open>Number\<close> reads it. HTTP allows digits only, so a value that is no whole
  number does not reach the code; the model lets it throw.\<close>

definition check_length :: "number option \<Rightarrow> int checked" where
  "check_length h = (case h of None \<Rightarrow> Inl (ApiError BadRequest)
     | Some n \<Rightarrow> bindE (throwIf (n = NotFinite \<or> \<not> num_above 0 n) (ApiError BadRequest)) (\<lambda>_.
         bindE (throwIf (num_above MAX_UPLOAD_SIZE n) (ApiError PayloadTooLarge)) (\<lambda>_.
         case n of IntN i \<Rightarrow> Inr i | _ \<Rightarrow> Inl Thrown)))"

text \<open>\<open>bucket.put\<close> of a stream that was copied in full: the size it reports.\<close>

definition r2_put :: "BlobStore \<Rightarrow> string \<Rightarrow> int \<Rightarrow> int handler" where
  "r2_put S k sz s = (if bs_down S s then (Inl Thrown, s)
     else (Inr sz, bs_put_bucket S ((k, sz) # bucket_delete [k] (bs_bucket S s)) s))"

definition store_body :: "BlobStore \<Rightarrow> string \<Rightarrow> string \<Rightarrow> int \<Rightarrow> nat list list \<Rightarrow> int \<Rightarrow> unit handler" where
  "store_body S g k len body now =
     (if \<not> copy_body len body
      then bindS (discardUpload S g k) (\<lambda>_. liftE (Inl (ApiError
        (if snd (boundedUploadBody body) then PayloadTooLarge else BadRequest))))
      else (\<lambda>s. case r2_put S (blobStorageKey g k) len s of
          (Inl e, s') \<Rightarrow> bindS (discardUpload S g k) (\<lambda>_. liftE (Inl e)) s'
        | (Inr sz, s') \<Rightarrow>
            (if sz > MAX_UPLOAD_SIZE
             then bindS (deleteBlob S g k) (\<lambda>_. liftE (Inl (ApiError PayloadTooLarge))) s'
             else recordBlob S g k sz now s')))"

definition receiveBlob :: "conf \<Rightarrow> request \<Rightarrow> BlobStore \<Rightarrow> int \<Rightarrow> string \<Rightarrow> int \<Rightarrow> unit handler" where
  "receiveBlob cf rq S quota param now =
     bindS (authenticateS cf rq) (\<lambda>a.
     bindS (liftE (enforceRateLimit (RL_UPLOAD cf) (au_deviceId a))) (\<lambda>_.
     bindS (liftE (requireId (Some (JStr param)))) (\<lambda>key.
     bindS (liftE (check_length (rq_content_length rq))) (\<lambda>len.
     bindS (liftE (case rq_body rq of None \<Rightarrow> Inl (ApiError BadRequest) | Some b \<Rightarrow> Inr b)) (\<lambda>body.
     bindS (reserveBlob S (au_groupId a) key len quota now) (\<lambda>reserved.
     bindS (throwS (\<not> reserved) (ApiError QuotaExceeded)) (\<lambda>_.
     store_body S (au_groupId a) key len body now)))))))"

text \<open>The size it announces; the bytes are opaque.\<close>

definition sendBlob :: "conf \<Rightarrow> request \<Rightarrow> BlobStore \<Rightarrow> string \<Rightarrow> int handler" where
  "sendBlob cf rq S param =
     bindS (authenticateS cf rq) (\<lambda>a.
     bindS (liftE (requireId (Some (JStr param)))) (\<lambda>key.
     bindS (\<lambda>s. (if bs_down S s then Inl Thrown else Inr (map_of (bs_bucket S s) (blobStorageKey (au_groupId a) key)), s)) (\<lambda>object.
     liftE (case object of None \<Rightarrow> Inl (ApiError NotFound) | Some sz \<Rightarrow> Inr sz))))"

definition uploadFile :: "conf \<Rightarrow> request \<Rightarrow> string \<Rightarrow> int \<Rightarrow> unit handler" where
  "uploadFile cf rq = receiveBlob cf rq MESSAGE_FILES SPACE_PENDING_BYTES_QUOTA"

definition downloadFile :: "conf \<Rightarrow> request \<Rightarrow> string \<Rightarrow> int handler" where
  "downloadFile cf rq = sendBlob cf rq MESSAGE_FILES"

definition uploadVaultBlob :: "conf \<Rightarrow> request \<Rightarrow> string \<Rightarrow> int \<Rightarrow> unit handler" where
  "uploadVaultBlob cf rq = receiveBlob cf rq VAULT_BLOBS VAULT_BYTES_QUOTA"

definition downloadVaultBlob :: "conf \<Rightarrow> request \<Rightarrow> string \<Rightarrow> int handler" where
  "downloadVaultBlob cf rq = sendBlob cf rq VAULT_BLOBS"

section \<open>An upload is there in full or not at all\<close>

lemma copy_body_iff: "copy_body len body \<longleftrightarrow> int (length (concat body)) = len \<and> len \<le> MAX_UPLOAD_SIZE"
proof (cases "snd (boundedUploadBody body)")
  case True
  then show ?thesis using bounded_chunks_exceeded [of 0 body]
    by (auto simp: copy_body_def boundedUploadBody_def MAX_UPLOAD_SIZE_def MAX_FILE_SIZE_def split: prod.split)
next
  case False
  then have "fst (boundedUploadBody body) = body" unfolding boundedUploadBody_def by (rule bounded_chunks_all)
  with False show ?thesis using bounded_chunks_exceeded [of 0 body]
    by (auto simp: copy_body_def boundedUploadBody_def MAX_UPLOAD_SIZE_def MAX_FILE_SIZE_def split: prod.splits)
qed

lemma check_length_Inr [guard_simps]: "check_length h = Inr n \<longleftrightarrow> h = Some (IntN n) \<and> 0 < n \<and> n \<le> MAX_UPLOAD_SIZE"
proof -
  have "check_length (Some x) = Inr n \<longleftrightarrow> x = IntN n \<and> 0 < n \<and> n \<le> MAX_UPLOAD_SIZE" for x
    by (cases x) (auto simp: check_length_def guard_simps)
  then show ?thesis by (cases h) (auto simp: check_length_def)
qed

lemma store_body_ok:
  "copy_body len body \<Longrightarrow> \<not> bs_down S s \<Longrightarrow> store_body S g k len body now s
     = recordBlob S g k len now (bs_put_bucket S ((blobStorageKey g k, len) # bucket_delete [blobStorageKey g k] (bs_bucket S s)) s)"
  by (simp add: store_body_def r2_put_def copy_body_iff)

lemma store_body_err:
  "\<not> (copy_body len body \<and> \<not> bs_down S s) \<Longrightarrow> \<exists>e. store_body S g k len body now s = (Inl e, snd (deleteBlob S g k s))"
  by (auto simp: store_body_def r2_put_def bindS_def discardUpload_def catchS_def liftE_def)

lemma deleteBlob_shrinks:
  assumes "S \<in> {MESSAGE_FILES, VAULT_BLOBS}"
  shows "set (bs_bucket S (snd (deleteBlob S g k s))) \<subseteq> set (bs_bucket S s)"
proof (cases "bs_expires S")
  case True
  note store = store_cases [OF assms]
  from True show ?thesis
    unfolding deleteBlob_def if_P [OF True]
    by (auto simp: bindS_def writeS_def r2_delete_def forgetBlob_def bucket_delete_def
        blob_store.bucket_put [OF store] blob_store.bucket_put_bucket [OF store])
next
  case False
  note store = store_cases [OF assms]
  have del: "deleteBlob S g k s = deleteUnclaimedBlobs S [(g, k)] s" using False by (simp add: deleteBlob_def)
  show ?thesis
  proof (cases "bs_down S s")
    case True
    from blob_store.delete_batches_down [OF store True, of "batches SWEEP_BATCH_SIZE [(g, k)]"] obtain t where
      "snd (deleteUnclaimedBlobs S [(g, k)] s) = bs_put S t s" unfolding deleteUnclaimedBlobs_def by blast
    then show ?thesis by (simp add: del blob_store.bucket_put [OF store])
  next
    case False
    show ?thesis unfolding del blob_store.deleteUnclaimedBlobs_ok [OF store False] snd_conv
        blob_store.erase_def [OF store] blob_store.bucket_put_bucket [OF store] by auto
  qed
qed

lemma usage_record:
  assumes store: "blob_store S" and pk: "pk b_key (bs_rows S s)" and size: "blobSize S g k s = Some n" "sz \<le> n"
  shows "usage S g (snd (recordBlob S g k sz now s)) \<le> usage S g s"
proof -
  obtain r where r: "first_row (\<lambda>r. b_key r = (g, k)) (bs_rows S s) = Some r" "b_size r = n"
    using size(1) by (auto simp: blobSize_def)
  from upsert_blob_usage [OF pk, of g k sz now] r size(2)
  have "usage S g (snd (recordBlob S g k sz now s)) \<le> sum_size (\<lambda>r. b_group_id r = g \<and> b_r2_key r \<noteq> k) (bs_rows S s) + n"
    by (simp add: usage_def recordBlob_def writeS_def blob_store.rows_put [OF store])
  also have "\<dots> = usage S g s"
  proof -
    have k: "b_key r = (g, k)" "r \<in> set (bs_rows S s)" using first_row_Some [OF r(1)] by simp_all
    have "sum_size (\<lambda>x. b_key x = b_key r) (bs_rows S s) = n" using sum_size_unique [OF pk k(2)] r(2) by simp
    then show ?thesis unfolding usage_def
      using sum_size_split [of "\<lambda>r. b_group_id r = g" "bs_rows S s" "\<lambda>r. b_r2_key r = k"] k(1) by simp
  qed
  finally show ?thesis .
qed

lemma receiveBlob_wp:
  "wp (receiveBlob cf rq S quota i now)
     (\<lambda>_ s'. \<exists>a len body s1. authenticate cf rq s = Inr a \<and> rq_content_length rq = Some (IntN len) \<and> 0 < len
        \<and> len \<le> MAX_UPLOAD_SIZE \<and> rq_body rq = Some body \<and> reserveBlob S (au_groupId a) i len quota now s = (Inr True, s1)
        \<and> store_body S (au_groupId a) i len body now s1 = (Inr (), s'))
     (\<lambda>e s'. s' = s \<or> (\<exists>a len. authenticate cf rq s = Inr a \<and> (reserveBlob S (au_groupId a) i len quota now s = (Inr False, s')
        \<or> (\<exists>s1 body. reserveBlob S (au_groupId a) i len quota now s = (Inr True, s1)
             \<and> store_body S (au_groupId a) i len body now s1 = (Inl e, s'))))) s"
proof -
  define Q where "Q s' \<longleftrightarrow> (\<exists>a len body s1. authenticate cf rq s = Inr a \<and> rq_content_length rq = Some (IntN len) \<and> 0 < len
        \<and> len \<le> MAX_UPLOAD_SIZE \<and> rq_body rq = Some body \<and> reserveBlob S (au_groupId a) i len quota now s = (Inr True, s1)
        \<and> store_body S (au_groupId a) i len body now s1 = (Inr (), s'))" for s'
  define E where "E e s' \<longleftrightarrow> s' = s \<or> (\<exists>a len. authenticate cf rq s = Inr a \<and> (reserveBlob S (au_groupId a) i len quota now s = (Inr False, s')
        \<or> (\<exists>s1 body. reserveBlob S (au_groupId a) i len quota now s = (Inr True, s1)
             \<and> store_body S (au_groupId a) i len body now s1 = (Inl e, s'))))" for e s'
  have unchanged: "E e s" for e by (simp add: E_def)
  have total: "\<exists>b s1. reserveBlob S g k len quota now s = (Inr b, s1)" for g k len
    unfolding reserveBlob_def Let_def by (auto split: if_split prod.split)
  have rest: "wp (bindS (reserveBlob S (au_groupId a) i len quota now)
      (\<lambda>b. bindS (throwS (\<not> b) (ApiError QuotaExceeded)) (\<lambda>_. store_body S (au_groupId a) i len body now))) (\<lambda>_. Q) E s"
    if "authenticate cf rq s = Inr a" "rq_content_length rq = Some (IntN len)" "0 < len" "len \<le> MAX_UPLOAD_SIZE"
      "rq_body rq = Some body" for a len body
  proof -
    obtain b s1 where b: "reserveBlob S (au_groupId a) i len quota now s = (Inr b, s1)" using total by blast
    show ?thesis
    proof (cases b)
      case True
      then have b': "reserveBlob S (au_groupId a) i len quota now s = (Inr True, s1)" using b by simp
      have "wp (store_body S (au_groupId a) i len body now) (\<lambda>_. Q) E s1"
        unfolding wp_iff
      proof (intro conjI allI impI)
        show "Q s'" if "store_body S (au_groupId a) i len body now s1 = (Inr u, s')" for u s'
          unfolding Q_def using b' that \<open>authenticate cf rq s = Inr a\<close> \<open>rq_content_length rq = Some (IntN len)\<close>
            \<open>0 < len\<close> \<open>len \<le> MAX_UPLOAD_SIZE\<close> \<open>rq_body rq = Some body\<close> by auto
        show "E e s'" if "store_body S (au_groupId a) i len body now s1 = (Inl e, s')" for e s'
          unfolding E_def using b' that \<open>authenticate cf rq s = Inr a\<close> by blast
      qed
      with True show ?thesis by (simp add: wp_value [where m = "reserveBlob S (au_groupId a) i len quota now", OF b] wp_simps)
    next
      case False
      with b \<open>authenticate cf rq s = Inr a\<close> show ?thesis by (auto simp: wp_value [where m = "reserveBlob S (au_groupId a) i len quota now", OF b] wp_simps E_def)
    qed
  qed
  have "wp (receiveBlob cf rq S quota i now) (\<lambda>_. Q) E s"
    unfolding receiveBlob_def wp_bindS wp_liftE wp_authenticateS
    by (auto split: sum.splits option.splits simp: requireId_Inr check_length_Inr unchanged wp_bindS [symmetric] intro!: rest)
  then show ?thesis unfolding Q_def E_def .
qed

section \<open>Properties\<close>

text \<open>C16. An upload is there in full, within the quota, or not at all. In either store, when
  \<open>receiveBlob\<close> succeeds, the body had exactly the declared length, which is within the cap, the
  object is in the caller's own namespace with that size, a row accounts for at least as much,
  and the space is within its quota. When it fails, whatever failed, no object appeared. Either
  way the vault's objects all keep their rows.\<close>

theorem upload_in_full_or_not:
  assumes "S \<in> {MESSAGE_FILES, VAULT_BLOBS}" and "pk b_key (bs_rows S s)"
    and "receiveBlob cf rq S quota i now s = (r, s')"
  shows "(if r = Inr () then (\<exists>a len body. authenticate cf rq s = Inr a \<and> rq_body rq = Some body
         \<and> int (length (concat body)) = len \<and> rq_content_length rq = Some (IntN len) \<and> len \<le> MAX_UPLOAD_SIZE
         \<and> map_of (bs_bucket S s') (blobStorageKey (au_groupId a) i) = Some len
         \<and> (\<exists>n \<ge> len. blobSize S (au_groupId a) i s' = Some n) \<and> usage S (au_groupId a) s' \<le> quota)
      else set (bs_bucket S s') \<subseteq> set (bs_bucket S s))
    \<and> (S = VAULT_BLOBS \<and> backed S s \<longrightarrow> backed S s')"
proof (cases r)
  case (Inl e)
  note store = store_cases [OF assms(1)]
  from wpD_err [OF receiveBlob_wp] assms(3) Inl have "s' = s \<or> (\<exists>a len. authenticate cf rq s = Inr a \<and> (reserveBlob S (au_groupId a) i len quota now s = (Inr False, s')
        \<or> (\<exists>s1 body. reserveBlob S (au_groupId a) i len quota now s = (Inr True, s1)
             \<and> store_body S (au_groupId a) i len body now s1 = (Inl e, s'))))" by blast
  then have "set (bs_bucket S s') \<subseteq> set (bs_bucket S s) \<and> (S = VAULT_BLOBS \<and> backed S s \<longrightarrow> backed S s')"
  proof (elim disjE exE conjE)
    fix a :: AuthContext and len
    assume r: "reserveBlob S (au_groupId a) i len quota now s = (Inr False, s')"
    have "bs_bucket S s' = bs_bucket S s" using r
      by (auto simp: reserveBlob_def Let_def case_prod_beta blob_store.bucket_put [OF store] split: if_splits)
    moreover have "bs_rows S s' = bs_rows S s" by (rule blob_store.reserve_refused [OF store r])
    ultimately have "bs_bucket S s' = bs_bucket S s" "backed S s' = backed S s" by (simp_all add: backed_def)
    then show ?thesis by (intro conjI impI) (simp, metis)
  next
    fix a :: AuthContext and len s1 body
    assume r: "reserveBlob S (au_groupId a) i len quota now s = (Inr True, s1)"
      and st: "store_body S (au_groupId a) i len body now s1 = (Inl e, s')"
    from r have s1: "s1 = bs_put S (snd (upsert_blob (au_groupId a) i len now (bs_rows S s))) s"
      by (auto simp: reserveBlob_def Let_def case_prod_beta split: if_splits)
    have "\<not> (copy_body len body \<and> \<not> bs_down S s1)"
      using st store_body_ok [of len body S s1 "au_groupId a" i now] by (auto simp: recordBlob_def writeS_def)
    from store_body_err [OF this, of "au_groupId a" i now] st have s': "s' = snd (deleteBlob S (au_groupId a) i s1)" by force
    have "set (bs_bucket S s') \<subseteq> set (bs_bucket S s)"
      using deleteBlob_shrinks [OF assms(1)] unfolding s' s1 by (metis blob_store.bucket_put [OF store])
    moreover have "backed S s'" if S: "S = VAULT_BLOBS" "backed S s"
    proof -
      have "backed VAULT_BLOBS s1" using backed_upsert [OF assms(1) S(2)] by (simp add: s1 S(1))
      from vault_store.backed_deleteUnclaimed [OF this] show ?thesis
        unfolding s' S(1) by (simp add: deleteBlob_def VAULT_BLOBS_def [symmetric]) (simp add: VAULT_BLOBS_def)
    qed
    ultimately show ?thesis by blast
  qed (use subset_refl in blast)
  moreover have "r \<noteq> Inr ()" using Inl by simp
  ultimately show ?thesis by (simp only: if_False not_False_eq_True) blast
next
  case (Inr u)
  note store = store_cases [OF assms(1)]
  from wpD [OF receiveBlob_wp, of cf rq S quota i now s u s'] assms(3) Inr obtain a len body s1 where
    a: "authenticate cf rq s = Inr a" "rq_content_length rq = Some (IntN len)" "0 < len" "len \<le> MAX_UPLOAD_SIZE"
      "rq_body rq = Some body" and r: "reserveBlob S (au_groupId a) i len quota now s = (Inr True, s1)"
    and st: "store_body S (au_groupId a) i len body now s1 = (Inr (), s')" by auto
  let ?g = "au_groupId a"
  from r have s1: "s1 = bs_put S (snd (upsert_blob ?g i len now (bs_rows S s))) s"
    and ups: "fst (upsert_blob ?g i len now (bs_rows S s))"
    by (auto simp: reserveBlob_def Let_def case_prod_beta split: if_splits)
  have cb: "copy_body len body" "\<not> bs_down S s1" using st store_body_err [of len body S s1 ?g i now] by auto
  let ?s2 = "bs_put_bucket S ((blobStorageKey ?g i, len) # bucket_delete [blobStorageKey ?g i] (bs_bucket S s1)) s1"
  from store_body_ok [OF cb, of ?g i now] st have s': "s' = snd (recordBlob S ?g i len now ?s2)" by (simp add: recordBlob_def writeS_def)
  have pk1: "pk b_key (bs_rows S s1)" using assms(2) by (simp add: s1 blob_store.rows_put [OF store] pk_upsert_blob)
  have rows2: "bs_rows S ?s2 = bs_rows S s1" by (rule blob_store.rows_put_bucket [OF store])
  obtain n where n: "n \<ge> len" "blobSize S ?g i ?s2 = Some n"
  proof -
    have "bs_rows S s1 = snd (upsert_blob ?g i len now (bs_rows S s))" by (simp add: s1 blob_store.rows_put [OF store])
    with upsert_blob_size [OF assms(2) ups] that show ?thesis by (auto simp: blobSize_def rows2)
  qed
  have "usage S ?g s' \<le> usage S ?g ?s2"
    unfolding s' by (rule usage_record [OF store _ n(2,1)]) (simp add: rows2 pk1)
  also have "\<dots> = usage S ?g s1" by (simp add: usage_def rows2)
  also have "\<dots> \<le> quota" by (rule blob_store.reserve_within_quota [OF store assms(2) r])
  finally have within: "usage S ?g s' \<le> quota" .
  have bucket: "bs_bucket S s' = (blobStorageKey ?g i, len) # bucket_delete [blobStorageKey ?g i] (bs_bucket S s1)"
    by (simp add: s' recordBlob_def writeS_def blob_store.bucket_put [OF store] blob_store.bucket_put_bucket [OF store])
  have "\<exists>m \<ge> len. blobSize S ?g i s' = Some m"
  proof -
    let ?u = "upsert_blob ?g i len now (bs_rows S s1)"
    from n(2) obtain x where x: "first_row (\<lambda>r. b_key r = (?g, i)) (bs_rows S s1) = Some x" "b_size x = n"
      by (auto simp: blobSize_def rows2)
    show ?thesis
    proof (cases "fst ?u")
      case True
      from upsert_blob_size [OF pk1 True] show ?thesis
        by (simp add: blobSize_def s' recordBlob_def writeS_def blob_store.rows_put [OF store] rows2)
    next
      case False
      then have "snd ?u = bs_rows S s1" by (auto simp: upsert_blob_def update_rows_none split: if_splits)
      then have "blobSize S ?g i s' = Some n"
        using x by (simp add: blobSize_def s' recordBlob_def writeS_def blob_store.rows_put [OF store] rows2)
      with n(1) show ?thesis by blast
    qed
  qed
  moreover have "backed S s'" if S: "S = VAULT_BLOBS" "backed S s"
  proof -
    have b1: "backed S s1" unfolding s1 by (rule backed_upsert [OF assms(1) S(2)])
    from n(2) have "(?g, i) \<in> b_key ` set (bs_rows S s1)"
      by (force simp: blobSize_def rows2 dest: first_row_Some)
    then have "storage_key (?g, i) \<in> storage_key ` b_key ` set (bs_rows S s1)" by (rule imageI)
    with b1 have "backed S ?s2"
      unfolding backed_def blob_store.rows_put_bucket [OF store] blob_store.bucket_put_bucket [OF store] bucket_delete_def fst_conv snd_conv
      by (auto simp del: image_image)
    from backed_upsert [OF assms(1) this] show ?thesis by (simp add: s' recordBlob_def writeS_def)
  qed
  ultimately show ?thesis using Inr a within bucket cb(1) by (auto simp: copy_body_iff)
qed

section \<open>At a concrete input\<close>

definition upload_run :: "nat list list \<Rightarrow> (failure + unit) \<times> env" where
  "upload_run body = receiveBlob (sample_conf JNull) ((sample_request ''a'')\<lparr>rq_content_length := Some (IntN 3), rq_body := Some body\<rparr>)
     VAULT_BLOBS VAULT_BYTES_QUOTA ''key-1'' 9 vault_env"

theorem upload_in_full_or_not_witness:
  "VAULT (snd (upload_run [[1, 2], [3]])) = [(''g/key-1'', 3)] \<and> VAULT (snd (upload_run [[1, 2]])) = []"
proof -
  have pk: "pk b_key (bs_rows VAULT_BLOBS vault_env)" by code_simp
  have "fst (upload_run [[1, 2]]) = Inl (ApiError BadRequest)" by code_simp
  from run_fst [OF this] have run: "receiveBlob (sample_conf JNull)
      ((sample_request ''a'')\<lparr>rq_content_length := Some (IntN 3), rq_body := Some [[1, 2]]\<rparr>)
     VAULT_BLOBS VAULT_BYTES_QUOTA ''key-1'' 9 vault_env = (Inl (ApiError BadRequest), snd (upload_run [[1, 2]]))"
    unfolding upload_run_def .
  have "set (bs_bucket VAULT_BLOBS (snd (upload_run [[1, 2]]))) \<subseteq> set (bs_bucket VAULT_BLOBS vault_env)"
    using upload_in_full_or_not [OF _ pk run] by simp
  then have "VAULT (snd (upload_run [[1, 2]])) = []"
    by (simp add: VAULT_BLOBS_def vault_env_def sample_env_def empty_env_def)
  moreover have "VAULT (snd (upload_run [[1, 2], [3]])) = [(''g/key-1'', 3)]" by code_simp
  ultimately show ?thesis by blast
qed

end
