(* ===== verification/VaultRoutes.thy ===== *)
theory VaultRoutes
  imports Files
begin

text \<open>
  The vault's requests (apps/worker/src/routes/vault.ts): the change listing, creating, editing,
  re-sealing and purging items. Every write takes a change number in its own batch and is guarded
  by the item's revision. The lemmas: each operation \<open>advances\<close> the vault, keeps it a forest and
  its numbers orderly, whatever it answers; of two edits made against one revision one wins; a
  blob belongs to one live item.
\<close>

section \<open>Checks\<close>

definition MAX_META :: int where "MAX_META = 8192"

definition MAX_IV :: int where "MAX_IV = 64"

definition vaultAuth :: "conf \<Rightarrow> request \<Rightarrow> bool \<Rightarrow> AuthContext handler" where
  "vaultAuth cf rq write =
     bindS (authenticateS cf rq) (\<lambda>a.
     bindS (liftE (if write then enforceRateLimit (RL_WRITE cf) (au_deviceId a) else Inr ())) (\<lambda>_.
     retS a))"

definition announce :: "AuthContext \<Rightarrow> unit handler" where
  "announce a = notifySpace (au_groupId a) (au_deviceId a) []"

definition requireKind :: "json option \<Rightarrow> VaultItemKind checked" where
  "requireKind v = (case v of
     Some (JStr k) \<Rightarrow> (if k = ''folder'' then Inr Folder else if k = ''note'' then Inr Note
       else if k = ''file'' then Inr VFile else Inl (ApiError BadRequest))
   | _ \<Rightarrow> Inl (ApiError BadRequest))"

definition parentIdOf :: "json option \<Rightarrow> string option checked" where
  "parentIdOf v = (case v of None \<Rightarrow> Inr None | Some JNull \<Rightarrow> Inr None
     | _ \<Rightarrow> bindE (requireId v) (\<lambda>p. Inr (Some p)))"

definition requireCurrentEpoch :: "AuthContext \<Rightarrow> json option \<Rightarrow> int checked" where
  "requireCurrentEpoch a v =
     bindE (requireInt v 1 MAX_SAFE_INTEGER) (\<lambda>epoch.
     bindE (throwIf (epoch \<noteq> au_groupKeyEpoch a) (ApiError KeyRotated)) (\<lambda>_. Inr epoch))"

definition requireFolder :: "env \<Rightarrow> string \<Rightarrow> string \<Rightarrow> unit checked" where
  "requireFolder s g i = (case vaultItem s g i of None \<Rightarrow> Inl (ApiError NotFound)
     | Some parent \<Rightarrow> throwIf (vi_kind parent \<noteq> Folder) (ApiError NotFound))"

definition blob_owned :: "env \<Rightarrow> string \<Rightarrow> string \<Rightarrow> bool" where
  "blob_owned s g k = exists_row (\<lambda>r. v_group_id r = g \<and> v_blob_key r = Some k \<and> live r) (vault_items s)"

definition requireFreeBlob :: "env \<Rightarrow> string \<Rightarrow> string \<Rightarrow> int checked" where
  "requireFreeBlob s g k = (case blobSize VAULT_BLOBS g k s of None \<Rightarrow> Inl (ApiError BadRequest)
     | Some sz \<Rightarrow> bindE (throwIf (blob_owned s g k) (ApiError Conflict)) (\<lambda>_. Inr sz))"

definition BLOB_CLAIMABLE :: "env \<Rightarrow> string \<Rightarrow> string \<Rightarrow> bool" where
  "BLOB_CLAIMABLE s g k \<longleftrightarrow> \<not> blob_owned s g k
     \<and> exists_row (\<lambda>u. b_key u = (g, k) \<and> b_created_at u \<noteq> RESERVED_FOR_DELETION) (vault_blobs s)"

definition LIVE_FOLDER :: "env \<Rightarrow> string \<Rightarrow> string \<Rightarrow> bool" where
  "LIVE_FOLDER s g i = exists_row (\<lambda>r. v_group_id r = g \<and> v_id r = i \<and> v_kind r = Folder \<and> live r) (vault_items s)"

section \<open>Listing changes\<close>

definition parse_cursor :: "number option \<Rightarrow> int checked" where
  "parse_cursor v = (case v of None \<Rightarrow> Inr 0
     | Some (IntN i) \<Rightarrow> if i < 0 \<or> MAX_SAFE_INTEGER < i then Inl (ApiError BadRequest) else Inr i
     | _ \<Rightarrow> Inl (ApiError BadRequest))"

definition changed_rows :: "string \<Rightarrow> int \<Rightarrow> env \<Rightarrow> vault_row list" where
  "changed_rows g since s = take (VAULT_PAGE_SIZE + 1)
     (sort_key v_seq (filter (\<lambda>r. v_group_id r = g \<and> since < v_seq r) (vault_items s)))"

definition live_count :: "string \<Rightarrow> env \<Rightarrow> nat" where
  "live_count g s = count_rows (\<lambda>r. v_group_id r = g \<and> live r) (vault_items s)"

text \<open>The answer for a cursor: \<open>full\<close> is a listing begun at 0 being continued.\<close>

definition changes_since :: "string \<Rightarrow> int \<Rightarrow> bool \<Rightarrow> env \<Rightarrow> VaultChangesResponse" where
  "changes_since g requested full s =
     (let reset = \<not> full \<and> 0 < requested \<and> requested < vault_floor_of s g;
          since = (if reset then 0 else requested);
          changed = changed_rows g since s;
          more = VAULT_PAGE_SIZE < length changed;
          page = (if more then take VAULT_PAGE_SIZE changed else changed)
      in \<lparr>vc_items = map item_of (filter live page),
          vc_removed = map v_id (filter (\<lambda>r. \<not> live r) page),
          vc_cursor = (if more then (if page = [] then since else v_seq (last page)) else max (VAULT_SEQ s g) since),
          vc_more = more, vc_reset = reset,
          vc_usage = \<lparr>vu_bytes = usage VAULT_BLOBS g s, vu_items = live_count g s\<rparr>\<rparr>)"

definition vaultChanges :: "conf \<Rightarrow> request \<Rightarrow> number option \<Rightarrow> bool \<Rightarrow> VaultChangesResponse handler" where
  "vaultChanges cf rq sinceRaw full =
     bindS (vaultAuth cf rq False) (\<lambda>a.
     bindS (liftE (parse_cursor sinceRaw)) (\<lambda>requested.
     readS (changes_since (au_groupId a) requested full)))"

section \<open>Creating\<close>

record CreateVaultItemRequest =
  cv_id :: string
  cv_kind :: VaultItemKind
  cv_parentId :: "string option"
  cv_keyEpoch :: int
  cv_meta :: string
  cv_metaIv :: string
  cv_blobKey :: "string option"

definition parse_create_item :: "AuthContext \<Rightarrow> json \<Rightarrow> CreateVaultItemRequest checked" where
  "parse_create_item a body =
     bindE (requireId (jfield body ''id'')) (\<lambda>i.
     bindE (requireKind (jfield body ''kind'')) (\<lambda>kind.
     bindE (parentIdOf (jfield body ''parentId'')) (\<lambda>parent.
     bindE (requireCurrentEpoch a (jfield body ''keyEpoch'')) (\<lambda>epoch.
     bindE (requireString (jfield body ''meta'') MAX_META) (\<lambda>meta.
     bindE (requireString (jfield body ''metaIv'') MAX_IV) (\<lambda>iv.
     bindE (if kind = Folder then Inr None else bindE (requireId (jfield body ''blobKey'')) (\<lambda>k. Inr (Some k))) (\<lambda>blob.
     bindE (throwIf (kind = Folder \<and> jfield body ''blobKey'' \<noteq> None) (ApiError BadRequest)) (\<lambda>_.
     Inr \<lparr>cv_id = i, cv_kind = kind, cv_parentId = parent, cv_keyEpoch = epoch, cv_meta = meta,
          cv_metaIv = iv, cv_blobKey = blob\<rparr>))))))))"

definition new_item :: "string \<Rightarrow> CreateVaultItemRequest \<Rightarrow> int \<Rightarrow> int \<Rightarrow> int \<Rightarrow> vault_row" where
  "new_item g r sz now n = \<lparr>v_group_id = g, v_id = cv_id r, v_parent_id = cv_parentId r, v_kind = cv_kind r,
     v_key_epoch = Some (cv_keyEpoch r), v_meta = Some (cv_meta r), v_meta_iv = Some (cv_metaIv r),
     v_blob_key = cv_blobKey r, v_blob_size = sz, v_revision = 1, v_seq = n, v_created_at = now,
     v_updated_at = now, v_trashed_at = None, v_removed_at = None\<rparr>"

definition may_insert :: "string \<Rightarrow> CreateVaultItemRequest \<Rightarrow> env \<Rightarrow> bool" where
  "may_insert g r s \<longleftrightarrow> int (live_count g s) < VAULT_MAX_ITEMS
     \<and> (case cv_parentId r of None \<Rightarrow> True | Some p \<Rightarrow> LIVE_FOLDER s g p)
     \<and> (case cv_blobKey r of None \<Rightarrow> True | Some k \<Rightarrow> BLOB_CLAIMABLE s g k)
     \<and> \<not> exists_row (\<lambda>x. v_group_id x = g \<and> v_id x = cv_id r) (vault_items s)"

text \<open>The batch: the row it inserted, if it did.\<close>

definition insert_item :: "string \<Rightarrow> CreateVaultItemRequest \<Rightarrow> int \<Rightarrow> int \<Rightarrow> vault_row option handler" where
  "insert_item g r sz now s0 =
     (let s = nextVaultSeq g s0; row = new_item g r sz now (VAULT_SEQ s g) in
      if may_insert g r s then (Inr (Some row), s\<lparr>vault_items := vault_items s @ [row]\<rparr>)
      else (Inr None, s))"

definition createVaultItem :: "conf \<Rightarrow> request \<Rightarrow> int \<Rightarrow> VaultItemRecord handler" where
  "createVaultItem cf rq now =
     bindS (vaultAuth cf rq True) (\<lambda>a.
     bindS (liftE (request_json cf rq)) (\<lambda>body.
     bindS (liftE (parse_create_item a body)) (\<lambda>r.
     bindS (readS (\<lambda>s. vaultItem s (au_groupId a) (cv_id r))) (\<lambda>existing.
     case existing of
       Some item \<Rightarrow> liftE (if vi_meta item = cv_meta r \<and> vi_metaIv item = cv_metaIv r \<and> vi_kind item = cv_kind r
         then Inr item else Inl (ApiError Conflict))
     | None \<Rightarrow>
         bindS (readS (\<lambda>s. case cv_parentId r of None \<Rightarrow> Inr () | Some p \<Rightarrow> requireFolder s (au_groupId a) p)) (\<lambda>folder.
         bindS (liftE folder) (\<lambda>_.
         bindS (readS (\<lambda>s. case cv_blobKey r of None \<Rightarrow> Inr 0 | Some k \<Rightarrow> requireFreeBlob s (au_groupId a) k)) (\<lambda>free.
         bindS (liftE free) (\<lambda>sz.
         bindS (insert_item (au_groupId a) r sz now) (\<lambda>inserted.
         case inserted of
           None \<Rightarrow> bindS (readS (live_count (au_groupId a))) (\<lambda>count.
             liftE (Inl (ApiError (if VAULT_MAX_ITEMS \<le> int count then QuotaExceeded else Conflict))))
         | Some row \<Rightarrow> bindS (announce a) (\<lambda>_. retS (item_of row)))))))))))"

section \<open>Editing\<close>

text \<open>The columns an edit sets; \<open>None\<close> is a column it leaves.\<close>

record VaultEdit =
  ve_parent :: "string option option"
  ve_sealed :: "(int \<times> string \<times> string) option"
  ve_blob :: "(string \<times> int) option"
  ve_trashed :: "int option option"

definition edit_parent :: "env \<Rightarrow> string \<Rightarrow> string \<Rightarrow> VaultItemRecord \<Rightarrow> json \<Rightarrow> string option option checked" where
  "edit_parent s g i item body =
     (case jfield body ''parentId'' of None \<Rightarrow> Inr None
      | Some v \<Rightarrow> bindE (parentIdOf (Some v)) (\<lambda>p.
          if p = vi_parentId item then Inr None
          else (case p of None \<Rightarrow> Inr (Some None)
            | Some q \<Rightarrow> bindE (throwIf (q = i) (ApiError BadRequest)) (\<lambda>_.
                bindE (requireFolder s g q) (\<lambda>_. Inr (Some (Some q)))))))"

definition sealing :: "json \<Rightarrow> bool" where
  "sealing body \<longleftrightarrow> jfield body ''meta'' \<noteq> None \<or> jfield body ''metaIv'' \<noteq> None"

definition edit_sealed :: "AuthContext \<Rightarrow> json \<Rightarrow> (int \<times> string \<times> string) option checked" where
  "edit_sealed a body =
     (if sealing body \<or> jfield body ''keyEpoch'' \<noteq> None
      then bindE (requireCurrentEpoch a (jfield body ''keyEpoch'')) (\<lambda>epoch.
           bindE (requireString (jfield body ''meta'') MAX_META) (\<lambda>meta.
           bindE (requireString (jfield body ''metaIv'') MAX_IV) (\<lambda>iv. Inr (Some (epoch, meta, iv)))))
      else Inr None)"

definition edit_blob :: "env \<Rightarrow> string \<Rightarrow> VaultItemRecord \<Rightarrow> json \<Rightarrow> (string \<times> int) option checked" where
  "edit_blob s g item body =
     (if jfield body ''blobKey'' = None then Inr None
      else bindE (throwIf (vi_kind item = Folder) (ApiError BadRequest)) (\<lambda>_.
           bindE (throwIf (\<not> sealing body) (ApiError BadRequest)) (\<lambda>_.
           bindE (requireId (jfield body ''blobKey'')) (\<lambda>k.
           if Some k = vi_blobKey item then Inr None
           else bindE (requireFreeBlob s g k) (\<lambda>sz. Inr (Some (k, sz)))))))"

definition edit_trashed :: "VaultItemRecord \<Rightarrow> int \<Rightarrow> json \<Rightarrow> int option option checked" where
  "edit_trashed item now body = (case jfield body ''trashed'' of None \<Rightarrow> Inr None
     | Some (JBool b) \<Rightarrow> Inr (Some (if b then Some (case vi_trashedAt item of None \<Rightarrow> now | Some t \<Rightarrow> t) else None))
     | _ \<Rightarrow> Inl (ApiError BadRequest))"

definition parse_edit :: "AuthContext \<Rightarrow> string \<Rightarrow> VaultItemRecord \<Rightarrow> int \<Rightarrow> json \<Rightarrow> env \<Rightarrow> VaultEdit checked" where
  "parse_edit a i item now body s =
     bindE (edit_parent s (au_groupId a) i item body) (\<lambda>parent.
     bindE (edit_sealed a body) (\<lambda>sealed.
     bindE (edit_blob s (au_groupId a) item body) (\<lambda>blob.
     bindE (edit_trashed item now body) (\<lambda>trashed.
     Inr \<lparr>ve_parent = parent, ve_sealed = sealed, ve_blob = blob, ve_trashed = trashed\<rparr>))))"

definition no_edit :: "VaultEdit \<Rightarrow> bool" where
  "no_edit e \<longleftrightarrow> ve_parent e = None \<and> ve_sealed e = None \<and> ve_blob e = None \<and> ve_trashed e = None"

definition apply_edit :: "VaultEdit \<Rightarrow> int \<Rightarrow> int \<Rightarrow> vault_row \<Rightarrow> vault_row" where
  "apply_edit e now n r = r\<lparr>
     v_parent_id := (case ve_parent e of None \<Rightarrow> v_parent_id r | Some p \<Rightarrow> p),
     v_key_epoch := (case ve_sealed e of None \<Rightarrow> v_key_epoch r | Some (k, m, iv) \<Rightarrow> Some k),
     v_meta := (case ve_sealed e of None \<Rightarrow> v_meta r | Some (k, m, iv) \<Rightarrow> Some m),
     v_meta_iv := (case ve_sealed e of None \<Rightarrow> v_meta_iv r | Some (k, m, iv) \<Rightarrow> Some iv),
     v_blob_key := (case ve_blob e of None \<Rightarrow> v_blob_key r | Some (k, sz) \<Rightarrow> Some k),
     v_blob_size := (case ve_blob e of None \<Rightarrow> v_blob_size r | Some (k, sz) \<Rightarrow> sz),
     v_trashed_at := (case ve_trashed e of None \<Rightarrow> v_trashed_at r | Some t \<Rightarrow> t),
     v_revision := v_revision r + 1, v_updated_at := now, v_seq := n\<rparr>"

definition edit_guard :: "string \<Rightarrow> string \<Rightarrow> VaultEdit \<Rightarrow> env \<Rightarrow> bool" where
  "edit_guard g i e s \<longleftrightarrow>
     (case ve_parent e of Some (Some p) \<Rightarrow> LIVE_FOLDER s g p \<and> p \<notin> set (SUBTREE g i (vault_items s)) | _ \<Rightarrow> True)
     \<and> (case ve_blob e of Some (k, sz) \<Rightarrow> BLOB_CLAIMABLE s g k | None \<Rightarrow> True)"

text \<open>The batch: the row it wrote, if it did.\<close>

definition update_item :: "string \<Rightarrow> string \<Rightarrow> int \<Rightarrow> VaultEdit \<Rightarrow> int \<Rightarrow> vault_row option handler" where
  "update_item g i revision e now s0 =
     (let s = nextVaultSeq g s0;
          c = (\<lambda>r. v_group_id r = g \<and> v_id r = i \<and> v_revision r = revision \<and> live r \<and> edit_guard g i e s)
      in (Inr (if count_rows c (vault_items s) \<noteq> 1 then None
            else map_option (apply_edit e now (VAULT_SEQ s g)) (first_row c (vault_items s))),
          s\<lparr>vault_items := update_rows c (apply_edit e now (VAULT_SEQ s g)) (vault_items s)\<rparr>))"

definition write_edit :: "AuthContext \<Rightarrow> string \<Rightarrow> int \<Rightarrow> VaultItemRecord \<Rightarrow> int \<Rightarrow> VaultEdit \<Rightarrow> VaultItemRecord handler" where
  "write_edit a i revision item now e =
     (if no_edit e then retS item
      else bindS (update_item (au_groupId a) i revision e now) (\<lambda>written.
        case written of None \<Rightarrow> liftE (Inl (ApiError Conflict))
        | Some row \<Rightarrow>
            bindS (if ve_blob e \<noteq> None \<and> truthy (vi_blobKey item)
              then catchS (deleteBlob VAULT_BLOBS (au_groupId a) (the (vi_blobKey item))) else retS ()) (\<lambda>_.
            bindS (announce a) (\<lambda>_. retS (item_of row)))))"

definition updateVaultItem :: "conf \<Rightarrow> request \<Rightarrow> string \<Rightarrow> int \<Rightarrow> VaultItemRecord handler" where
  "updateVaultItem cf rq param now =
     bindS (vaultAuth cf rq True) (\<lambda>a.
     bindS (liftE (requireId (Some (JStr param)))) (\<lambda>i.
     bindS (liftE (request_json cf rq)) (\<lambda>body.
     bindS (liftE (requireInt (jfield body ''revision'') 1 MAX_SAFE_INTEGER)) (\<lambda>revision.
     bindS (readS (\<lambda>s. vaultItem s (au_groupId a) i)) (\<lambda>found.
     bindS (liftE (case found of None \<Rightarrow> Inl (ApiError NotFound)
       | Some item \<Rightarrow> if vi_revision item \<noteq> revision then Inl (ApiError Conflict) else Inr item)) (\<lambda>item.
     bindS (readS (parse_edit a i item now body)) (\<lambda>parsed.
     bindS (liftE parsed) (write_edit a i revision item now))))))))"

section \<open>Re-sealing and purging\<close>

record ResealItem =
  rs_id :: string
  rs_revision :: int
  rs_meta :: string
  rs_metaIv :: string

definition parse_reseal_item :: "json \<Rightarrow> ResealItem checked" where
  "parse_reseal_item j =
     bindE (requireId (jfield j ''id'')) (\<lambda>i.
     bindE (requireInt (jfield j ''revision'') 1 MAX_SAFE_INTEGER) (\<lambda>revision.
     bindE (requireString (jfield j ''meta'') MAX_META) (\<lambda>meta.
     bindE (requireString (jfield j ''metaIv'') MAX_IV) (\<lambda>iv.
     Inr \<lparr>rs_id = i, rs_revision = revision, rs_meta = meta, rs_metaIv = iv\<rparr>))))"

definition parse_reseal :: "AuthContext \<Rightarrow> json \<Rightarrow> (int \<times> ResealItem list) checked" where
  "parse_reseal a body =
     bindE (requireCurrentEpoch a (jfield body ''keyEpoch'')) (\<lambda>epoch.
     case jfield body ''items'' of
       Some (JArr xs) \<Rightarrow> bindE (throwIf (VAULT_RESEAL_BATCH < length xs) (ApiError BadRequest)) (\<lambda>_.
         bindE (traverseE parse_reseal_item xs) (\<lambda>items. Inr (epoch, items)))
     | _ \<Rightarrow> Inl (ApiError BadRequest))"

definition reseal_row :: "int \<Rightarrow> ResealItem \<Rightarrow> int \<Rightarrow> int \<Rightarrow> vault_row \<Rightarrow> vault_row" where
  "reseal_row epoch it now n r = r\<lparr>v_key_epoch := Some epoch, v_meta := Some (rs_meta it),
     v_meta_iv := Some (rs_metaIv it), v_updated_at := now, v_seq := n\<rparr>"

definition resealable :: "string \<Rightarrow> int \<Rightarrow> ResealItem \<Rightarrow> vault_row \<Rightarrow> bool" where
  "resealable g epoch it r \<longleftrightarrow> v_group_id r = g \<and> v_id r = rs_id it \<and> v_revision r = rs_revision it
     \<and> (case v_key_epoch r of None \<Rightarrow> False | Some e \<Rightarrow> e < epoch) \<and> live r"

text \<open>The two statements of one item: the rows changed, and the state.\<close>

definition reseal_one :: "string \<Rightarrow> int \<Rightarrow> int \<Rightarrow> ResealItem \<Rightarrow> env \<Rightarrow> nat \<times> env" where
  "reseal_one g epoch now it s0 =
     (let s = nextVaultSeq g s0 in
      (count_rows (resealable g epoch it) (vault_items s),
       s\<lparr>vault_items := update_rows (resealable g epoch it) (reseal_row epoch it now (VAULT_SEQ s g)) (vault_items s)\<rparr>))"

fun reseal_batch :: "string \<Rightarrow> int \<Rightarrow> int \<Rightarrow> ResealItem list \<Rightarrow> env \<Rightarrow> nat \<times> env" where
  "reseal_batch g epoch now [] s = (0, s)"
| "reseal_batch g epoch now (it # its) s =
     (let (n, s1) = reseal_one g epoch now it s; (m, s2) = reseal_batch g epoch now its s1
      in ((if 0 < n then Suc m else m), s2))"

definition resealVaultItems :: "conf \<Rightarrow> request \<Rightarrow> int \<Rightarrow> nat handler" where
  "resealVaultItems cf rq now =
     bindS (vaultAuth cf rq True) (\<lambda>a.
     bindS (liftE (request_json cf rq)) (\<lambda>body.
     bindS (liftE (parse_reseal a body)) (\<lambda>(epoch, items).
     if items = [] then retS 0
     else bindS (\<lambda>s. let (n, s') = reseal_batch (au_groupId a) epoch now items s in (Inr n, s')) (\<lambda>resealed.
       bindS (whenS (0 < resealed) (announce a)) (\<lambda>_. retS resealed)))))"

definition deleteVaultItem :: "conf \<Rightarrow> request \<Rightarrow> string \<Rightarrow> int \<Rightarrow> string list handler" where
  "deleteVaultItem cf rq param now =
     bindS (vaultAuth cf rq True) (\<lambda>a.
     bindS (liftE (requireId (Some (JStr param)))) (\<lambda>i.
     bindS (readS (\<lambda>s. vaultItem s (au_groupId a) i)) (\<lambda>found.
     bindS (throwS (found = None) (ApiError NotFound)) (\<lambda>_.
     bindS (purgeVaultItem (au_groupId a) i now) (\<lambda>removed.
     bindS (announce a) (\<lambda>_. retS removed))))))"

section \<open>What every write keeps\<close>

text \<open>No two live items of a space claim one blob.\<close>

definition claims_ok :: "env \<Rightarrow> bool" where
  "claims_ok s \<longleftrightarrow> (\<forall>x \<in> set (vault_items s). \<forall>y \<in> set (vault_items s). live x \<longrightarrow> live y \<longrightarrow>
     v_group_id x = v_group_id y \<longrightarrow> v_blob_key x \<noteq> None \<longrightarrow> v_blob_key x = v_blob_key y \<longrightarrow> v_key x = v_key y)"

definition vault_inv :: "env \<Rightarrow> bool" where
  "vault_inv s \<longleftrightarrow> seqs_ok s \<and> forest s \<and> claims_ok s"

definition same_vault :: "env \<Rightarrow> env \<Rightarrow> bool" where
  "same_vault s s' \<longleftrightarrow> groups s' = groups s \<and> vault_items s' = vault_items s"

definition vault_step :: "env \<Rightarrow> env \<Rightarrow> bool" where
  "vault_step s s' \<longleftrightarrow> advances s s' \<and> vault_inv s'"

lemma same_vault_refl [simp]: "same_vault s s"
  by (simp add: same_vault_def)

lemma same_vault_facts:
  assumes "same_vault s s'"
  shows "VAULT_SEQ s' g = VAULT_SEQ s g" "vault_floor_of s' g = vault_floor_of s g" "group_of s' g = group_of s g"
    "vault_items s' = vault_items s" "groups s' = groups s"
  using assms by (simp_all add: same_vault_def VAULT_SEQ_def vault_floor_of_def group_of_def)

lemma vault_step_same: "vault_step s s1 \<Longrightarrow> same_vault s1 s2 \<Longrightarrow> vault_step s s2"
proof -
  assume a: "vault_step s s1" and b: "same_vault s1 s2"
  note f = same_vault_facts [OF b]
  from a show ?thesis
    unfolding vault_step_def vault_inv_def advances_def seqs_ok_def forest_def claims_ok_def f .
qed

lemma vault_step_refl: "vault_inv s \<Longrightarrow> vault_step s s"
  by (simp add: vault_step_def)

lemma same_vault_deleteBlob: "same_vault s (snd (catchS (deleteBlob VAULT_BLOBS g k) s))"
proof -
  obtain t b where "snd (deleteUnclaimedBlobs VAULT_BLOBS [(g, k)] s) = s\<lparr>vault_blobs := t, VAULT := b\<rparr>"
    using deleteUnclaimed_blobs_only by blast
  then show ?thesis by (simp add: same_vault_def catchS_def deleteBlob_def) (simp add: VAULT_BLOBS_def)
qed

text \<open>Rows rewritten in place, under new numbers: nothing moves, and no new claim is made.\<close>

lemma forest_map:
  assumes f: "forest s" and items: "vault_items s' = map h (vault_items s)"
    and h: "\<And>r. r \<in> set (vault_items s) \<Longrightarrow> v_key (h r) = v_key r \<and> v_kind (h r) = v_kind r
      \<and> live (h r) = live r \<and> v_parent_id (h r) = v_parent_id r"
  shows "forest s'"
proof -
  have "rooted (vault_items s') g i" if "rooted (vault_items s) g i" for g i
    using that
  proof (induction rule: rooted.induct)
    case (rooted_top r)
    have "h r \<in> set (vault_items s')" unfolding items using rooted_top.hyps(1) by simp
    with h [OF rooted_top.hyps(1)] rooted_top.hyps rooted.rooted_top [of "h r" "vault_items s'" g] show ?case by simp
  next
    case (rooted_in p f r)
    have "h r \<in> set (vault_items s')" "h f \<in> set (vault_items s')" unfolding items using rooted_in.hyps by simp_all
    with h [OF rooted_in.hyps(2)] h [OF rooted_in.hyps(6)] rooted_in.hyps rooted_in.IH
      rooted.rooted_in [of "vault_items s'" g p "h f" "h r"] show ?case by simp
  qed
  with f h show ?thesis unfolding forest_def items by auto
qed

lemma rows_bumped [simp]: "vault_items (nextVaultSeq g s) = vault_items s"
  by (simp add: nextVaultSeq_def)

lemma VAULT_SEQ_next: "group_of s g \<noteq> None \<Longrightarrow> VAULT_SEQ (nextVaultSeq g s) g = VAULT_SEQ s g + 1"
  by (simp add: nextVaultSeq_def VAULT_SEQ_bump)

lemma bumped_next: "groups s' = groups (nextVaultSeq g s) \<Longrightarrow> bumped g 1 s s'"
  by (simp add: bumped_def nextVaultSeq_def)

text \<open>One row rewritten.\<close>

lemma rewrite_one:
  assumes ok: "seqs_ok s" and grp: "group_of s g \<noteq> None" and gr: "groups s' = groups (nextVaultSeq g s)"
    and items: "vault_items s' = update_rows c f (vault_items s)"
    and c: "\<And>r. c r \<Longrightarrow> v_key r = (g, i) \<and> live r"
    and f: "\<And>r. v_key (f r) = v_key r \<and> v_seq (f r) = VAULT_SEQ s g + 1"
  shows "advances s s' \<and> seqs_ok s'"
proof (rule renumber_advances [OF ok grp bumped_next [OF gr]])
  show "vault_items s' = map (\<lambda>r. if c r then f r else r) (vault_items s)"
    by (simp add: items update_rows_def)
  show "renumbers g (\<lambda>r. if c r then f r else r) 1 s"
    using c f by (fastforce simp: renumbers_def)
qed

lemma insert_advances:
  assumes ok: "seqs_ok s" and grp: "group_of s g \<noteq> None" and gr: "groups s' = groups (nextVaultSeq g s)"
    and items: "vault_items s' = vault_items s @ [row]"
    and row: "v_group_id row = g" "v_seq row = VAULT_SEQ s g + 1"
    and fresh: "\<forall>r \<in> set (vault_items s). v_key r \<noteq> v_key row"
  shows "advances s s' \<and> seqs_ok s'"
proof -
  note b = bumped_next [OF gr]
  note seq = bumped_facts(1) [OF b grp] and floor = bumped_facts(2) [OF b]
  have old: "v_seq r \<le> VAULT_SEQ s (v_group_id r)" "0 < v_seq r" "group_of s (v_group_id r) \<noteq> None"
    if "r \<in> set (vault_items s)" for r using that ok by (simp_all add: seqs_ok_def)
  have pos: "0 \<le> VAULT_SEQ s g" using ok grp
    by (force simp: seqs_ok_def VAULT_SEQ_def dest: group_of_Some)
  have "advances s s'"
    unfolding advances_def
  proof (intro conjI ballI allI)
    show "VAULT_SEQ s x \<le> VAULT_SEQ s' x" for x by (simp add: seq)
    show "vault_floor_of s x \<le> vault_floor_of s' x" for x by (simp add: floor)
    show "r \<in> set (vault_items s) \<or> VAULT_SEQ s (v_group_id r) < v_seq r" if "r \<in> set (vault_items s')" for r
      using that row by (auto simp: items)
    show "if live r then v_key r \<in> v_key ` set (vault_items s') \<or> VAULT_SEQ s (v_group_id r) < vault_floor_of s' (v_group_id r)
        else r \<in> set (vault_items s') \<or> v_seq r \<le> vault_floor_of s' (v_group_id r)" if "r \<in> set (vault_items s)" for r
      using that by (simp add: items)
  qed
  moreover have "seqs_ok s'"
    unfolding seqs_ok_def
  proof (intro conjI ballI)
    show "pk g_id (groups s')" using ok bumped_facts(4) [OF b] by (simp add: seqs_ok_def)
    show "pk v_key (vault_items s')" using ok fresh unfolding items pk_snoc seqs_ok_def by blast
    have "(v_group_id r, v_seq r) \<noteq> (v_group_id row, v_seq row)" if "r \<in> set (vault_items s)" for r
      using old(1) [OF that] row by auto
    then show "pk (\<lambda>r. (v_group_id r, v_seq r)) (vault_items s')" using ok unfolding items pk_snoc seqs_ok_def by blast
    have "\<forall>x \<in> set (groups s). 0 \<le> g_vault_floor x \<and> g_vault_floor x \<le> g_vault_seq x"
      using ok unfolding seqs_ok_def by blast
    from bumped_facts(5) [OF b _ this]
    show "0 \<le> g_vault_floor x" "g_vault_floor x \<le> g_vault_seq x" if "x \<in> set (groups s')" for x
      using that by simp_all
    show "group_of s' (v_group_id r) \<noteq> None" "0 < v_seq r" "v_seq r \<le> VAULT_SEQ s' (v_group_id r)"
      if "r \<in> set (vault_items s')" for r
    proof -
      from that consider "r \<in> set (vault_items s)" | "r = row" by (auto simp: items)
      then have "group_of s' (v_group_id r) \<noteq> None \<and> 0 < v_seq r \<and> v_seq r \<le> VAULT_SEQ s' (v_group_id r)"
      proof cases
        case 1
        with old [OF 1] bumped_facts(3) [OF b] show ?thesis by (auto simp: seq)
      next
        case 2
        with row pos grp bumped_facts(3) [OF b] show ?thesis by (simp add: seq)
      qed
      then show "group_of s' (v_group_id r) \<noteq> None" "0 < v_seq r" "v_seq r \<le> VAULT_SEQ s' (v_group_id r)" by blast+
    qed
  qed
  ultimately show ?thesis ..
qed

lemma vault_step_trans: "vault_inv s \<Longrightarrow> vault_step s s1 \<Longrightarrow> vault_step s1 s2 \<Longrightarrow> vault_step s s2"
  unfolding vault_step_def vault_inv_def seqs_ok_def using advances_trans by blast

lemma rooted_more: "rooted t g i \<Longrightarrow> set t \<subseteq> set t' \<Longrightarrow> rooted t' g i"
  by (erule rooted_mono [where P = "\<lambda>_. True"]) auto

lemma forest_move:
  assumes f: "forest s" and pk: "pk v_key (vault_items s)" and items: "vault_items s' = map h (vault_items s)"
    and x: "x \<in> set (vault_items s)" "v_key x = (g, i)" "live x"
    and h: "\<And>r. r \<in> set (vault_items s) \<Longrightarrow> r \<noteq> x \<Longrightarrow> h r = r"
    and hx: "v_key (h x) = v_key x" "v_kind (h x) = v_kind x" "live (h x)"
    and new: "v_parent_id (h x) = None \<or> (\<exists>p y. v_parent_id (h x) = Some p \<and> y \<in> set (vault_items s) \<and> v_key y = (g, p)
      \<and> v_kind y = Folder \<and> live y \<and> \<not> below g (vault_items s) i p)"
  shows "forest s'"
proof -
  let ?t = "vault_items s" and ?t' = "vault_items s'"
  have keep: "r \<in> set ?t'" if "r \<in> set ?t" "r \<noteq> x" for r
    unfolding items set_map using h [OF that] by (intro rev_image_eqI [OF that(1)]) simp
  have hxin: "h x \<in> set ?t'" unfolding items using x(1) by simp
  have only: "r = x" if "r \<in> set ?t" "v_key r = (g, i)" for r using pk_unique [OF pk that(1) x(1)] that(2) x(2) by simp
  have outside: "rooted ?t' g' j" if "rooted ?t g' j" "\<not> (g' = g \<and> below g ?t i j)" for g' j
    using that(1)
  proof (rule rooted_mono [where P = "\<lambda>j. \<not> (g' = g \<and> below g ?t i j)"])
    show "\<not> (g' = g \<and> below g ?t i j)" by fact
    show "r \<in> set ?t'" if "r \<in> set ?t" "v_group_id r = g'" "live r" "\<not> (g' = g \<and> below g ?t i (v_id r))" for r
      using that x(2) by (intro keep) (auto intro: below_self)
    show "\<not> (g' = g \<and> below g ?t i p)" if "r \<in> set ?t" "v_group_id r = g'" "live r" "v_parent_id r = Some p"
      "\<not> (g' = g \<and> below g ?t i (v_id r))" for r p using that below_child by blast
  qed
  have root: "rooted ?t' g i"
  proof (cases "v_parent_id (h x)")
    case None
    with rooted.rooted_top [OF hxin _ hx(3) None, of g] hx(1) x(2) show ?thesis by simp
  next
    case (Some p)
    with new obtain y where y: "y \<in> set ?t" "v_key y = (g, p)" "v_kind y = Folder" "live y" "\<not> below g ?t i p" by auto
    from y(1,4) f have "rooted ?t (v_group_id y) (v_id y)" by (simp add: forest_def)
    with y(2,5) have "rooted ?t' g p" by (auto intro: outside)
    moreover have "y \<noteq> x" using y(2,5) x(2) by (auto intro: below_self)
    ultimately have "rooted ?t' g (v_id (h x))"
      by (rule rooted.rooted_in [OF _ keep [OF y(1)] y(2-4) hxin _ hx(3) Some]) (use hx(1) x(2) in simp)
    with hx(1) x(2) show ?thesis by simp
  qed
  have all: "rooted ?t' g' j" if "rooted ?t g' j" for g' j
    using that
  proof (induction rule: rooted.induct)
    case (rooted_top r)
    show ?case
    proof (cases "r = x")
      case True
      with root rooted_top x(2) show ?thesis by simp
    next
      case False
      with rooted_top keep show ?thesis by (auto intro: rooted.rooted_top)
    qed
  next
    case (rooted_in p y r)
    show ?case
    proof (cases "r = x")
      case True
      with root rooted_in x(2) show ?thesis by simp
    next
      case False
      have "h y \<in> set ?t'" unfolding items using rooted_in.hyps by simp
      moreover have "v_key (h y) = (g', p)" "v_kind (h y) = Folder" "live (h y)"
        using h [of y] hx rooted_in.hyps by (cases "y = x", simp_all)+
      ultimately show ?thesis
        using rooted.rooted_in [OF rooted_in.IH, of "h y" r] keep [OF rooted_in.hyps(6) False] rooted_in.hyps by simp
    qed
  qed
  show ?thesis
    unfolding forest_def
  proof (intro ballI impI)
    fix r' assume "r' \<in> set ?t'" "live r'"
    then obtain r where r: "r \<in> set ?t" "r' = h r" unfolding items by auto
    then have "v_key r' = v_key r" "live r" using h [of r] hx x(3) \<open>live r'\<close> by (cases "r = x", simp_all)+
    with r(1) f all show "rooted ?t' (v_group_id r') (v_id r')" unfolding forest_def by simp
  qed
qed

lemma insert_item_step:
  assumes inv: "vault_inv s" and grp: "group_of s g \<noteq> None"
  shows "vault_step s (snd (insert_item g r sz now s))"
proof -
  let ?s = "nextVaultSeq g s"
  let ?row = "new_item g r sz now (VAULT_SEQ ?s g)"
  have ok: "seqs_ok s" and f: "forest s" and cl: "claims_ok s" using inv by (simp_all add: vault_inv_def)
  show ?thesis
  proof (cases "may_insert g r ?s")
    case False
    have "advances s ?s \<and> seqs_ok ?s"
      by (rule rewrite_one [OF ok grp refl, where c = "\<lambda>_. False" and f = "\<lambda>r. r\<lparr>v_seq := VAULT_SEQ s g + 1\<rparr>"])
         (simp_all add: update_rows_none exists_row_iff)
    moreover have "forest ?s" "claims_ok ?s" using f cl by (simp_all add: forest_def claims_ok_def)
    ultimately show ?thesis using False by (simp add: insert_item_def Let_def vault_step_def vault_inv_def)
  next
    case True
    let ?s' = "?s\<lparr>vault_items := vault_items s @ [?row]\<rparr>"
    have row: "v_group_id ?row = g" "v_seq ?row = VAULT_SEQ s g + 1" "v_id ?row = cv_id r" "live ?row"
      "v_parent_id ?row = cv_parentId r" "v_blob_key ?row = cv_blobKey r"
      using grp by (simp_all add: new_item_def VAULT_SEQ_next live_def)
    have fresh: "\<forall>x \<in> set (vault_items s). v_key x \<noteq> v_key ?row"
      using True row by (auto simp: may_insert_def exists_row_iff)
    have "advances s ?s' \<and> seqs_ok ?s'"
      by (rule insert_advances [OF ok grp, of _ ?row]) (use row fresh in simp_all)
    moreover have "forest ?s'"
    proof -
      have sub: "set (vault_items s) \<subseteq> set (vault_items ?s')" by auto
      have "rooted (vault_items ?s') g (v_id ?row)"
      proof (cases "cv_parentId r")
        case None
        show ?thesis by (rule rooted_top) (use row None in simp_all)
      next
        case (Some p)
        with True obtain y where y: "y \<in> set (vault_items s)" "v_key y = (g, p)" "v_kind y = Folder" "live y"
          by (auto simp: may_insert_def LIVE_FOLDER_def exists_row_iff)
        with f have "rooted (vault_items s) g p" by (force simp: forest_def)
        then have "rooted (vault_items ?s') g p" using sub by (rule rooted_more)
        then show ?thesis
          by (rule rooted_in [where f = y]) (use y row Some in simp_all)
      qed
      with f sub show ?thesis unfolding forest_def using rooted_more row(1) by (auto simp: row(1))
    qed
    moreover have "claims_ok ?s'"
    proof -
      have no: "v_blob_key x \<noteq> v_blob_key ?row" if "x \<in> set (vault_items s)" "live x" "v_group_id x = g" "v_blob_key x \<noteq> None" for x
        using that True unfolding row(6) by (auto simp: may_insert_def BLOB_CLAIMABLE_def blob_owned_def exists_row_iff)
      show ?thesis
        unfolding claims_ok_def
      proof (intro ballI impI)
        fix x y assume xy: "x \<in> set (vault_items ?s')" "y \<in> set (vault_items ?s')" "live x" "live y"
          "v_group_id x = v_group_id y" "v_blob_key x \<noteq> None" "v_blob_key x = v_blob_key y"
        then consider "x \<in> set (vault_items s)" "y \<in> set (vault_items s)" | "x \<in> set (vault_items s)" "y = ?row"
          | "x = ?row" "y \<in> set (vault_items s)" | "x = ?row" "y = ?row" by auto
        then show "v_key x = v_key y"
        proof cases
          case 1
          with cl xy(3-7) show ?thesis unfolding claims_ok_def by blast
        next
          case 2
          with no [of x] xy row(1) show ?thesis by metis
        next
          case 3
          with no [of y] xy row(1) show ?thesis by metis
        qed simp
      qed
    qed
    ultimately show ?thesis using True by (simp add: insert_item_def Let_def vault_step_def vault_inv_def)
  qed
qed

lemma update_item_step:
  assumes inv: "vault_inv s" and grp: "group_of s g \<noteq> None"
  shows "vault_step s (snd (update_item g i revision e now s))"
proof -
  let ?s = "nextVaultSeq g s"
  let ?c = "\<lambda>r. v_group_id r = g \<and> v_id r = i \<and> v_revision r = revision \<and> live r \<and> edit_guard g i e ?s"
  let ?f = "apply_edit e now (VAULT_SEQ ?s g)"
  let ?s' = "snd (update_item g i revision e now s)"
  have ok: "seqs_ok s" and f: "forest s" and cl: "claims_ok s" and pk: "pk v_key (vault_items s)"
    using inv by (simp_all add: vault_inv_def seqs_ok_def)
  have items: "vault_items ?s' = update_rows ?c ?f (vault_items s)" and gr: "groups ?s' = groups ?s"
    by (simp_all add: update_item_def Let_def)
  have fr: "v_key (?f r) = v_key r \<and> v_seq (?f r) = VAULT_SEQ s g + 1 \<and> v_kind (?f r) = v_kind r \<and> live (?f r) = live r" for r
    using grp by (simp add: apply_edit_def VAULT_SEQ_next live_def)
  have seqs: "advances s ?s' \<and> seqs_ok ?s'"
    by (rule rewrite_one [OF ok grp gr items, of i]) (use fr in simp_all)
  have "forest ?s' \<and> claims_ok ?s'"
  proof (cases "\<exists>x \<in> set (vault_items s). ?c x")
    case False
    then have "vault_items ?s' = vault_items s" unfolding items by (intro update_rows_none) (simp add: exists_row_iff)
    with f cl show ?thesis by (simp add: forest_def claims_ok_def)
  next
    case True
    then obtain x where x: "x \<in> set (vault_items s)" "?c x" by blast
    have only: "r = x" if "r \<in> set (vault_items s)" "v_key r = (g, i)" for r
      using pk_unique [OF pk that(1) x(1)] that(2) x(2) by simp
    let ?h = "\<lambda>r. if ?c r then ?f r else r"
    have it: "vault_items ?s' = map ?h (vault_items s)" unfolding items by (simp only: update_rows_def)
    have hx: "?h x = ?f x" using x(2) by (rule if_P)
    have hr: "?h r = r" if "r \<in> set (vault_items s)" "r \<noteq> x" for r
      by (rule if_not_P) (use only [OF that(1)] that(2) in auto)
    have "forest ?s'"
    proof (cases "ve_parent e")
      case None
      have "v_parent_id (?f r) = v_parent_id r" for r using None by (simp add: apply_edit_def)
      with fr show ?thesis by (intro forest_map [OF f it]) simp
    next
      case (Some q)
      have par: "v_parent_id (?f x) = q" using Some by (simp add: apply_edit_def)
      show ?thesis
      proof (rule forest_move [OF f pk it x(1), of g i])
        show "v_key x = (g, i)" "live x" using x(2) by simp_all
        show "?h r = r" if "r \<in> set (vault_items s)" "r \<noteq> x" for r by (rule hr [OF that])
        show "v_key (?h x) = v_key x" "v_kind (?h x) = v_kind x" "live (?h x)" unfolding hx using fr x(2) by simp_all
        show "v_parent_id (?h x) = None \<or> (\<exists>p y. v_parent_id (?h x) = Some p \<and> y \<in> set (vault_items s) \<and> v_key y = (g, p)
            \<and> v_kind y = Folder \<and> live y \<and> \<not> below g (vault_items s) i p)"
        proof (cases q)
          case (Some p)
          with \<open>ve_parent e = Some q\<close> x(2) have "LIVE_FOLDER ?s g p" "p \<notin> set (SUBTREE g i (vault_items s))"
            by (simp_all add: edit_guard_def)
          then have "\<exists>y \<in> set (vault_items s). v_key y = (g, p) \<and> v_kind y = Folder \<and> live y" "\<not> below g (vault_items s) i p"
            by (auto simp: LIVE_FOLDER_def exists_row_iff subtree_iff)
          then show ?thesis unfolding hx par Some by blast
        qed (simp add: hx par)
      qed
    qed
    moreover have "claims_ok ?s'"
      unfolding claims_ok_def
    proof (intro ballI impI)
      fix a b assume ab: "a \<in> set (vault_items ?s')" "b \<in> set (vault_items ?s')" "live a" "live b"
          "v_group_id a = v_group_id b" "v_blob_key a \<noteq> None" "v_blob_key a = v_blob_key b"
      from ab(1,2) obtain a' b' where a': "a' \<in> set (vault_items s)" "a = ?h a'" and b': "b' \<in> set (vault_items s)" "b = ?h b'"
        unfolding it by auto
      have free: False if r: "r \<in> set (vault_items s)" "r \<noteq> x" "live r" "v_group_id r = v_group_id x"
        "v_blob_key r \<noteq> None" "v_blob_key r = v_blob_key (?f x)" for r
      proof (cases "ve_blob e")
        case None
        then have "v_blob_key (?f x) = v_blob_key x" by (simp add: apply_edit_def)
        with r x cl have "v_key r = v_key x" unfolding claims_ok_def by metis
        with pk_unique [OF pk r(1) x(1)] r(2) show False by blast
      next
        case (Some kz)
        then have "v_blob_key (?f x) = Some (fst kz)" by (cases kz) (simp add: apply_edit_def)
        moreover from Some x(2) have "\<not> blob_owned ?s g (fst kz)"
          by (cases kz) (auto simp: edit_guard_def BLOB_CLAIMABLE_def)
        ultimately show False using r x(2) by (auto simp: blob_owned_def exists_row_iff)
      qed
      have fx: "v_key (?f x) = v_key x" using fr by blast
      have clash: False if r: "r \<in> set (vault_items s)" "r \<noteq> x" and z: "z = ?f x"
        and e: "live r" "v_group_id r = v_group_id z" "v_blob_key r \<noteq> None" "v_blob_key r = v_blob_key z" for r z
      proof (rule free [OF r e(1)])
        show "v_group_id r = v_group_id x" using e(2) fx unfolding z by simp
        show "v_blob_key r \<noteq> None" "v_blob_key r = v_blob_key (?f x)" using e(3,4) unfolding z .
      qed
      consider "a' = x" "b' = x" | "a' = x" "b' \<noteq> x" | "a' \<noteq> x" "b' = x" | "a' \<noteq> x" "b' \<noteq> x" by blast
      then show "v_key a = v_key b"
      proof cases
        case 1
        with a'(2) b'(2) show ?thesis by simp
      next
        case 2
        have "a = ?f x" by (rule trans [OF a'(2)]) (unfold 2(1), rule hx)
        from clash [OF b'(1) 2(2) this] have "\<not> (live b' \<and> v_group_id b' = v_group_id a \<and> v_blob_key b' \<noteq> None \<and> v_blob_key b' = v_blob_key a)" by blast
        moreover have "b = b'" by (rule trans [OF b'(2)]) (rule hr [OF b'(1) 2(2)])
        ultimately show ?thesis using ab(4-7) by metis
      next
        case 3
        have "b = ?f x" by (rule trans [OF b'(2)]) (unfold 3(2), rule hx)
        from clash [OF a'(1) 3(1) this] have "\<not> (live a' \<and> v_group_id a' = v_group_id b \<and> v_blob_key a' \<noteq> None \<and> v_blob_key a' = v_blob_key b)" by blast
        moreover have "a = a'" by (rule trans [OF a'(2)]) (rule hr [OF a'(1) 3(1)])
        ultimately show ?thesis using ab(3,5-7) by metis
      next
        case 4
        have "b = b'" by (rule trans [OF b'(2)]) (rule hr [OF b'(1) 4(2)])
        moreover have "a = a'" by (rule trans [OF a'(2)]) (rule hr [OF a'(1) 4(1)])
        ultimately show ?thesis using a'(1) b'(1) ab cl unfolding claims_ok_def by blast
      qed
    qed
    ultimately show ?thesis ..
  qed
  with seqs show ?thesis by (simp add: vault_step_def vault_inv_def)
qed

lemma claims_map:
  assumes "claims_ok s" and "vault_items s' = map h (vault_items s)"
    and "\<And>r. r \<in> set (vault_items s) \<Longrightarrow> v_key (h r) = v_key r \<and> live (h r) = live r \<and> v_blob_key (h r) = v_blob_key r"
  shows "claims_ok s'"
  unfolding claims_ok_def assms(2)
proof (intro ballI impI)
  fix a b assume ab: "a \<in> set (map h (vault_items s))" "b \<in> set (map h (vault_items s))" "live a" "live b"
    "v_group_id a = v_group_id b" "v_blob_key a \<noteq> None" "v_blob_key a = v_blob_key b"
  then obtain x y where xy: "x \<in> set (vault_items s)" "a = h x" "y \<in> set (vault_items s)" "b = h y" by auto
  with ab assms(3) [OF xy(1)] assms(3) [OF xy(3)] have "v_key x = v_key y"
    by (intro assms(1) [unfolded claims_ok_def, rule_format]) auto
  with xy assms(3) [OF xy(1)] assms(3) [OF xy(3)] show "v_key a = v_key b" by metis
qed

lemma reseal_one_step:
  assumes inv: "vault_inv s" and grp: "group_of s g \<noteq> None"
  shows "vault_step s (snd (reseal_one g epoch now it s))"
proof -
  let ?s = "nextVaultSeq g s" and ?c = "resealable g epoch it"
  let ?f = "reseal_row epoch it now (VAULT_SEQ ?s g)" and ?s' = "snd (reseal_one g epoch now it s)"
  have ok: "seqs_ok s" and f: "forest s" and cl: "claims_ok s" using inv by (simp_all add: vault_inv_def)
  have items: "vault_items ?s' = update_rows ?c ?f (vault_items s)" and gr: "groups ?s' = groups ?s"
    by (simp_all add: reseal_one_def Let_def)
  have it: "vault_items ?s' = map (\<lambda>r. if ?c r then ?f r else r) (vault_items s)" unfolding items by (simp only: update_rows_def)
  have fr: "v_key (?f r) = v_key r \<and> v_seq (?f r) = VAULT_SEQ s g + 1 \<and> v_kind (?f r) = v_kind r \<and> live (?f r) = live r
      \<and> v_parent_id (?f r) = v_parent_id r \<and> v_blob_key (?f r) = v_blob_key r" for r
    using grp by (simp add: reseal_row_def VAULT_SEQ_next live_def)
  have "advances s ?s' \<and> seqs_ok ?s'"
    by (rule rewrite_one [OF ok grp gr items, of "rs_id it"]) (use fr in \<open>auto simp: resealable_def\<close>)
  moreover have "forest ?s'" by (rule forest_map [OF f it]) (use fr in simp)
  moreover have "claims_ok ?s'" by (rule claims_map [OF cl it]) (use fr in simp)
  ultimately show ?thesis by (simp add: vault_step_def vault_inv_def)
qed

lemma reseal_batch_step:
  "vault_inv s \<Longrightarrow> group_of s g \<noteq> None \<Longrightarrow> vault_step s (snd (reseal_batch g epoch now its s))"
proof (induction its arbitrary: s)
  case (Cons it its)
  let ?s1 = "snd (reseal_one g epoch now it s)"
  have one: "vault_step s ?s1" by (rule reseal_one_step [OF Cons.prems])
  moreover have "group_of ?s1 g \<noteq> None"
    using Cons.prems(2) bumped_facts(3) [of g 1 s ?s1 g] bumped_next [of ?s1 g s]
    by (simp add: reseal_one_def Let_def)
  ultimately have "vault_step ?s1 (snd (reseal_batch g epoch now its ?s1))"
    by (intro Cons.IH) (simp_all add: vault_step_def)
  from vault_step_trans [OF Cons.prems(1) one this] show ?case by (simp add: case_prod_beta Let_def)
qed (simp add: vault_step_refl)

lemma purges_step:
  assumes inv: "vault_inv s" and grp: "group_of s g \<noteq> None" and p: "purges g (v_id ` set (purge_walk g i s)) now s s'"
  shows "vault_step s s'"
proof -
  have ok: "seqs_ok s" and f: "forest s" and cl: "claims_ok s" using inv by (simp_all add: vault_inv_def)
  have "claims_ok s'"
    using cl purges_live [OF p] unfolding claims_ok_def by blast
  moreover have "forest s'" by (rule forest_purge [OF f p]) (rule walk_closed)
  ultimately show ?thesis using purges_advances [OF ok grp p] by (simp add: vault_step_def vault_inv_def)
qed

lemma announce_wp [wp_simps]:
  "wp (announce a) Q E = (\<lambda>s. Q () (s\<lparr>notices := notices s @ [\<lparr>n_group = au_groupId a, n_exclude = au_deviceId a, n_push = []\<rparr>]\<rparr>))"
  by (simp add: announce_def notifySpace_def wp_simps)

lemma vault_step_notices: "vault_step s t \<Longrightarrow> vault_step s (t\<lparr>notices := n\<rparr>)"
  by (rule vault_step_same) (simp_all add: same_vault_def)

lemma wp_act: "wp m Q E s \<longleftrightarrow> (case fst (m s) of Inl e \<Rightarrow> E e (snd (m s)) | Inr x \<Rightarrow> Q x (snd (m s)))"
  by (cases "m s") (simp add: wp_def split: sum.split)

lemma wp_vaultAuth [wp_simps]:
  "wp (vaultAuth cf rq w) Q E = (\<lambda>s. case authenticate cf rq s of Inl e \<Rightarrow> E e s
     | Inr a \<Rightarrow> (case if w then enforceRateLimit (RL_WRITE cf) (au_deviceId a) else Inr () of Inl e \<Rightarrow> E e s | Inr _ \<Rightarrow> Q a s))"
  by (simp add: vaultAuth_def wp_simps fun_eq_iff split: sum.split)

lemma authenticate_space: "authenticate cf rq s = Inr a \<Longrightarrow> group_of s (au_groupId a) \<noteq> None"
  using authenticate_group by fastforce

lemma createVaultItem_step:
  assumes inv: "vault_inv s"
  shows "wp (createVaultItem cf rq now) (\<lambda>_. vault_step s) (\<lambda>_. vault_step s) s"
proof -
  define P where "P = vault_step s"
  have s: "P s" using inv by (simp add: P_def vault_step_refl)
  have n: "P (t\<lparr>notices := n\<rparr>)" if "P t" for t n using that by (simp add: P_def vault_step_notices)
  have ins: "wp (insert_item (au_groupId a) r sz now) Q E s"
    if "authenticate cf rq s = Inr a" "\<And>x t. P t \<Longrightarrow> Q x t" for a r sz Q E
  proof -
    have "\<exists>y. fst (insert_item (au_groupId a) r sz now s) = Inr y" by (simp add: insert_item_def Let_def)
    then obtain y where "fst (insert_item (au_groupId a) r sz now s) = Inr y" ..
    with that(2) insert_item_step [OF inv authenticate_space [OF that(1)], of r sz now] show ?thesis
      by (simp add: wp_act P_def)
  qed
  have "wp (createVaultItem cf rq now) (\<lambda>_. P) (\<lambda>_. P) s"
    unfolding createVaultItem_def wp_simps
    by (auto split: sum.splits option.splits simp: s n intro!: ins)
  then show ?thesis by (simp add: P_def)
qed

lemma updateVaultItem_step:
  assumes inv: "vault_inv s"
  shows "wp (updateVaultItem cf rq i now) (\<lambda>_. vault_step s) (\<lambda>_. vault_step s) s"
proof -
  define P where "P = vault_step s"
  have s: "P s" using inv by (simp add: P_def vault_step_refl)
  have n: "P (t\<lparr>notices := n\<rparr>)" if "P t" for t n using that by (simp add: P_def vault_step_notices)
  have upd: "wp (update_item (au_groupId a) i revision e now) Q E s"
    if "authenticate cf rq s = Inr a" "\<And>x t. P t \<Longrightarrow> Q x t" for a i revision e Q E
  proof -
    have "\<exists>y. fst (update_item (au_groupId a) i revision e now s) = Inr y" by (simp add: update_item_def Let_def)
    then obtain y where "fst (update_item (au_groupId a) i revision e now s) = Inr y" ..
    with that(2) update_item_step [OF inv authenticate_space [OF that(1)], of i revision e now] show ?thesis
      by (simp add: wp_act P_def)
  qed
  have del: "wp (catchS (deleteBlob VAULT_BLOBS g k)) Q E t" if "P t" "\<And>t. P t \<Longrightarrow> Q () t" for g k Q E t
    using that vault_step_same [OF _ same_vault_deleteBlob, of s t] by (simp add: wp_act P_def) (simp add: catchS_def)
  have "wp (updateVaultItem cf rq i now) (\<lambda>_. P) (\<lambda>_. P) s"
    unfolding updateVaultItem_def write_edit_def wp_bindS wp_vaultAuth wp_liftE wp_readS wp_if wp_retS wp_case_option announce_wp
    by (auto split: sum.splits option.splits simp: s n intro!: upd del)
  then show ?thesis by (simp add: P_def)
qed

lemma resealVaultItems_step:
  assumes inv: "vault_inv s"
  shows "wp (resealVaultItems cf rq now) (\<lambda>_. vault_step s) (\<lambda>_. vault_step s) s"
proof -
  define P where "P = vault_step s"
  have s: "P s" using inv by (simp add: P_def vault_step_refl)
  have n: "P (t\<lparr>notices := n\<rparr>)" if "P t" for t n using that by (simp add: P_def vault_step_notices)
  have batch: "wp (\<lambda>s. case reseal_batch (au_groupId a) epoch now items s of (n, s') \<Rightarrow> (Inr n, s')) Q E s"
    if "authenticate cf rq s = Inr a" "\<And>x t. P t \<Longrightarrow> Q x t" for a epoch items Q and E :: "failure \<Rightarrow> env \<Rightarrow> bool"
    using that(2) reseal_batch_step [OF inv authenticate_space [OF that(1)], of epoch now items]
    by (simp add: wp_act P_def case_prod_beta Let_def)
  have "wp (resealVaultItems cf rq now) (\<lambda>_. P) (\<lambda>_. P) s"
    unfolding resealVaultItems_def wp_simps Let_def
    by (auto split: sum.splits simp: s n intro!: batch)
  then show ?thesis by (simp add: P_def)
qed

lemma deleteVaultItem_wp:
  assumes inv: "vault_inv s"
  shows "wp (deleteVaultItem cf rq i now)
    (\<lambda>ids s'. \<exists>a s1 ns. authenticate cf rq s = Inr a \<and> vaultItem s (au_groupId a) i \<noteq> None
       \<and> ids = map v_id (purge_walk (au_groupId a) i s) \<and> purges (au_groupId a) (set ids) now s s1
       \<and> s' = s1\<lparr>notices := ns\<rparr>)
    (\<lambda>e s'. s' = s) s"
proof -
  define Q where "Q ids s' \<longleftrightarrow> (\<exists>a s1 ns. authenticate cf rq s = Inr a \<and> vaultItem s (au_groupId a) i \<noteq> None
       \<and> ids = map v_id (purge_walk (au_groupId a) i s) \<and> purges (au_groupId a) (set ids) now s s1
       \<and> s' = s1\<lparr>notices := ns\<rparr>)" for ids s'
  define E where "E s' \<longleftrightarrow> s' = s" for s'
  have e: "E s" by (simp add: E_def)
  have pk: "pk v_key (vault_items s)" using inv by (simp add: vault_inv_def seqs_ok_def)
  have purge: "wp (purgeVaultItem (au_groupId a) i now) (\<lambda>x t. Q x (t\<lparr>notices :=
      notices t @ [\<lparr>n_group = au_groupId a, n_exclude = au_deviceId a, n_push = []\<rparr>]\<rparr>)) (\<lambda>_. E) s"
    if "authenticate cf rq s = Inr a" "vaultItem s (au_groupId a) i = Some y" for a y
    using purgeVaultItem_exact [OF pk authenticate_space [OF that(1)], of i now] that
    by (auto simp: wp_act Q_def)
  have "wp (deleteVaultItem cf rq i now) Q (\<lambda>_. E) s"
    unfolding deleteVaultItem_def wp_simps
    by (auto split: sum.splits simp: e requireId_Inr intro!: purge)
  then show ?thesis unfolding Q_def E_def .
qed

text \<open>An edit that was answered.\<close>

definition edited :: "conf \<Rightarrow> request \<Rightarrow> string \<Rightarrow> env \<Rightarrow> AuthContext \<Rightarrow> int \<Rightarrow> vault_row \<Rightarrow> bool" where
  "edited cf rq i s a revision row \<longleftrightarrow> authenticate cf rq s = Inr a
     \<and> (\<exists>body. request_json cf rq = Inr body \<and> jfield body ''revision'' = Some (JNum (IntN revision)))
     \<and> row \<in> set (vault_items s) \<and> v_key row = (au_groupId a, i) \<and> live row \<and> v_revision row = revision"

lemma vault_row_of_Some: "vault_row_of s g i = Some row \<Longrightarrow> row \<in> set (vault_items s) \<and> v_key row = (g, i) \<and> live row"
  unfolding vault_row_of_def by (auto dest: first_row_Some)

lemma vault_row_of_unique:
  "pk v_key (vault_items s) \<Longrightarrow> row \<in> set (vault_items s) \<Longrightarrow> v_key row = (g, i) \<Longrightarrow> live row \<Longrightarrow> vault_row_of s g i = Some row"
  unfolding vault_row_of_def by (rule first_row_unique [where key = v_key]) auto

lemma update_item_wp:
  assumes inv: "vault_inv s" and grp: "group_of s g \<noteq> None" and row: "row \<in> set (vault_items s)" "v_key row = (g, i)" "live row"
    and Q: "\<And>s'. edit_guard g i e (nextVaultSeq g s) \<Longrightarrow> v_revision row = revision \<Longrightarrow>
      vaultItem s' g i = Some (item_of (apply_edit e now (VAULT_SEQ s g + 1) row)) \<Longrightarrow> pk v_key (vault_items s') \<Longrightarrow>
      Q (Some (apply_edit e now (VAULT_SEQ s g + 1) row)) s'"
    and N: "\<And>s'. vault_items s' = vault_items s \<Longrightarrow> Q None s'"
  shows "wp (update_item g i revision e now) Q E s"
proof -
  let ?s = "nextVaultSeq g s"
  let ?c = "\<lambda>r. v_group_id r = g \<and> v_id r = i \<and> v_revision r = revision \<and> live r \<and> edit_guard g i e ?s"
  let ?f = "apply_edit e now (VAULT_SEQ ?s g)"
  let ?s' = "snd (update_item g i revision e now s)"
  have pk: "pk v_key (vault_items s)" using inv by (simp add: vault_inv_def seqs_ok_def)
  have pk': "pk v_key (vault_items ?s')"
    using update_item_step [OF inv grp] by (simp add: vault_step_def vault_inv_def seqs_ok_def)
  have items: "vault_items ?s' = update_rows ?c ?f (vault_items s)" by (simp add: update_item_def Let_def)
  have only: "r = row" if "r \<in> set (vault_items s)" "v_group_id r = g" "v_id r = i" for r
    using pk_unique [OF pk that(1) row(1)] that(2,3) row(2) by simp
  have seq: "VAULT_SEQ ?s g = VAULT_SEQ s g + 1" by (rule VAULT_SEQ_next [OF grp])
  show ?thesis
  proof (cases "?c row")
    case True
    have first: "first_row ?c (vault_items s) = Some row"
      by (rule first_row_unique [where key = v_key and c = ?c, OF pk row(1) True]) (use row(2) in auto)
    have "exists_row (\<lambda>r. v_key r = (g, i) \<and> (v_revision r = revision \<and> live r \<and> edit_guard g i e ?s)) (vault_items s)"
      using True row by (auto simp: exists_row_iff)
    from pk_count [OF pk this] have "count_rows ?c (vault_items s) = 1" by (simp add: conj_assoc)
    then have res: "fst (update_item g i revision e now s) = Inr (Some (?f row))"
      by (simp add: update_item_def Let_def first)
    have "?f row \<in> set (vault_items ?s')"
      unfolding items set_update_rows by (rule rev_image_eqI [OF row(1)]) (rule if_P [OF True, symmetric])
    then have "vault_row_of ?s' g i = Some (?f row)"
      by (rule vault_row_of_unique [OF pk']) (use row in \<open>simp_all add: apply_edit_def live_def\<close>)
    with Q [of ?s'] True pk' show ?thesis by (simp add: wp_act res vaultItem_def seq)
  next
    case False
    have none: "\<not> exists_row ?c (vault_items s)"
    proof
      assume "exists_row ?c (vault_items s)"
      then obtain r where r: "r \<in> set (vault_items s)" "?c r" unfolding exists_row_iff by blast
      with only [of r] False show False by blast
    qed
    then have "count_rows ?c (vault_items s) = 0" unfolding exists_row_iff count_rows_0 by blast
    then have "fst (update_item g i revision e now s) = Inr None" by (simp add: update_item_def Let_def)
    moreover have "vault_items ?s' = vault_items s" unfolding items by (rule update_rows_none [OF none])
    ultimately show ?thesis using N [of ?s'] by (simp add: wp_act)
  qed
qed

lemma same_vault_item: "same_vault s s' \<Longrightarrow> vaultItem s' g i = vaultItem s g i"
  by (simp add: same_vault_def vaultItem_def vault_row_of_def)

lemma updateVaultItem_wp:
  assumes inv: "vault_inv s"
  shows "wp (updateVaultItem cf rq i now)
    (\<lambda>it s'. \<exists>a revision row. edited cf rq i s a revision row \<and> vaultItem s' (au_groupId a) i = Some it
       \<and> ((s' = s \<and> it = item_of row) \<or> (vi_revision it = revision + 1 \<and> vi_seq it = VAULT_SEQ s (au_groupId a) + 1
            \<and> pk v_key (vault_items s'))))
    (\<lambda>e s'. vault_items s' = vault_items s) s"
proof -
  define Q where "Q it s' \<longleftrightarrow> (\<exists>a revision row. edited cf rq i s a revision row \<and> vaultItem s' (au_groupId a) i = Some it
       \<and> ((s' = s \<and> it = item_of row) \<or> (vi_revision it = revision + 1 \<and> vi_seq it = VAULT_SEQ s (au_groupId a) + 1
            \<and> pk v_key (vault_items s'))))" for it s'
  define E where "E s' \<longleftrightarrow> vault_items s' = vault_items s" for s' :: env
  have e: "E s" by (simp add: E_def)
  have idle: "Q (item_of row) s" if "edited cf rq i s a revision row" for a revision row
  proof -
    have "vault_row_of s (au_groupId a) i = Some row"
      by (rule vault_row_of_unique) (use that inv in \<open>simp_all add: edited_def vault_inv_def seqs_ok_def\<close>)
    then have "vaultItem s (au_groupId a) i = Some (item_of row)" by (simp add: vaultItem_def)
    with that show ?thesis unfolding Q_def by blast
  qed
  have upd: "wp (update_item (au_groupId a) i revision ed now) (\<lambda>w t. case w of None \<Rightarrow> E t
        | Some x \<Rightarrow> wp (if c then catchS (deleteBlob VAULT_BLOBS (au_groupId a) k) else retS ())
            (\<lambda>_ t. Q (item_of x) (t\<lparr>notices := notices t @ ns\<rparr>)) (\<lambda>_. E) t) (\<lambda>_. E) s"
    if ed: "edited cf rq i s a revision row" for a revision row ed c k ns
  proof (rule update_item_wp [OF inv])
    show "group_of s (au_groupId a) \<noteq> None" using ed authenticate_space by (auto simp: edited_def)
    show "row \<in> set (vault_items s)" "v_key row = (au_groupId a, i)" "live row" using ed by (simp_all add: edited_def)
    show "case None of None \<Rightarrow> E s' | Some x \<Rightarrow> B x" if "vault_items s' = vault_items s" for s' B
      using that by (simp add: E_def)
    fix s' let ?x = "apply_edit ed now (VAULT_SEQ s (au_groupId a) + 1) row"
    assume x: "vaultItem s' (au_groupId a) i = Some (item_of ?x)" and rv: "v_revision row = revision"
      and pk: "pk v_key (vault_items s')"
    have q: "Q (item_of ?x) t" if "same_vault s' t" for t
      unfolding Q_def using ed x rv pk same_vault_item [OF that] same_vault_facts(4) [OF that]
      by (intro exI [of _ a] exI [of _ revision] exI [of _ row]) (simp add: apply_edit_def item_of_def)
    let ?d = "if c then catchS (deleteBlob VAULT_BLOBS (au_groupId a) k) else retS ()"
    have "same_vault s' (snd (?d s'))" "fst (?d s') = Inr ()"
      using same_vault_deleteBlob by (simp_all add: retS_def) (simp add: catchS_def)
    then have "wp ?d (\<lambda>_ t. Q (item_of ?x) (t\<lparr>notices := notices t @ ns\<rparr>)) (\<lambda>_. E) s'"
      using q by (simp add: wp_act same_vault_def)
    then show "case Some ?x of None \<Rightarrow> E s' | Some x \<Rightarrow> wp ?d (\<lambda>_ t. Q (item_of x) (t\<lparr>notices := notices t @ ns\<rparr>)) (\<lambda>_. E) s'"
      by simp
  qed
  have mk: "edited cf rq i s a revision row"
    if "authenticate cf rq s = Inr a" "request_json cf rq = Inr body" "jfield body ''revision'' = Some (JNum (IntN revision))"
      "vault_row_of s (au_groupId a) i = Some row" "v_revision row = revision" for a body revision row
    using that vault_row_of_Some [OF that(4)] by (auto simp: edited_def)
  have wrote: "wp (write_edit a i revision (item_of row) now ed) Q (\<lambda>_. E) s"
    if ed: "edited cf rq i s a revision row" for a revision row ed
  proof (cases "no_edit ed")
    case True
    with idle [OF ed] show ?thesis by (simp add: write_edit_def wp_retS)
  next
    case False
    show ?thesis unfolding write_edit_def if_not_P [OF False] wp_bindS
      by (rule wp_mono [OF upd [OF ed, of _ "ve_blob ed \<noteq> None \<and> truthy (vi_blobKey (item_of row))"]])
         (auto split: option.splits simp: wp_liftE wp_bindS wp_retS announce_wp)
  qed
  have "wp (updateVaultItem cf rq i now) Q (\<lambda>_. E) s"
    unfolding updateVaultItem_def wp_bindS wp_vaultAuth wp_liftE wp_readS
    by (auto split: sum.splits option.splits if_splits simp: e requireId_Inr requireInt_Inr vaultItem_def
        intro!: wrote mk) (simp_all add: item_of_def)
  then show ?thesis unfolding Q_def E_def .
qed

text \<open>A creation that was answered.\<close>

lemma createVaultItem_wp:
  assumes inv: "vault_inv s"
  shows "wp (createVaultItem cf rq now)
    (\<lambda>it s'. \<exists>a body r. authenticate cf rq s = Inr a \<and> enforceRateLimit (RL_WRITE cf) (au_deviceId a) = Inr ()
       \<and> request_json cf rq = Inr body \<and> parse_create_item a body = Inr r
       \<and> vaultItem s' (au_groupId a) (cv_id r) = Some it \<and> vi_meta it = cv_meta r \<and> vi_metaIv it = cv_metaIv r
       \<and> vi_kind it = cv_kind r \<and> devices s' = devices s
       \<and> (groups s' = groups s \<or> groups s' = groups (nextVaultSeq (au_groupId a) s)))
    (\<lambda>e s'. vault_items s' = vault_items s) s"
proof -
  define R where "R a r it s' \<longleftrightarrow> vaultItem s' (au_groupId a) (cv_id r) = Some it \<and> vi_meta it = cv_meta r \<and> vi_metaIv it = cv_metaIv r
       \<and> vi_kind it = cv_kind r \<and> devices s' = devices s
       \<and> (groups s' = groups s \<or> groups s' = groups (nextVaultSeq (au_groupId a) s))" for a :: AuthContext and r :: CreateVaultItemRequest and it and s' :: env
  define Q where "Q it s' \<longleftrightarrow> (\<exists>a body r. authenticate cf rq s = Inr a \<and> enforceRateLimit (RL_WRITE cf) (au_deviceId a) = Inr ()
       \<and> request_json cf rq = Inr body \<and> parse_create_item a body = Inr r \<and> R a r it s')" for it s'
  define E where "E s' \<longleftrightarrow> vault_items s' = vault_items s" for s' :: env
  have e: "E s" by (simp add: E_def)
  have ins: "wp (insert_item (au_groupId a) r sz now) (\<lambda>x t. case x of None \<Rightarrow> E t
      | Some row \<Rightarrow> Q (item_of row) (t\<lparr>notices := notices t @ ns\<rparr>)) (\<lambda>_. E) s"
    if a: "authenticate cf rq s = Inr a" "enforceRateLimit (RL_WRITE cf) (au_deviceId a) = Inr ()"
      "request_json cf rq = Inr body" "parse_create_item a body = Inr r" for a body r sz ns
  proof -
    let ?g = "au_groupId a" and ?s' = "snd (insert_item (au_groupId a) r sz now s)"
    let ?row = "new_item ?g r sz now (VAULT_SEQ (nextVaultSeq ?g s) ?g)"
    have pk': "pk v_key (vault_items ?s')"
      using insert_item_step [OF inv authenticate_space [OF a(1)]] by (simp add: vault_step_def vault_inv_def seqs_ok_def)
    show ?thesis
    proof (cases "may_insert ?g r (nextVaultSeq ?g s)")
      case True
      have s': "?s' = (nextVaultSeq ?g s)\<lparr>vault_items := vault_items s @ [?row]\<rparr>"
        using True by (simp add: insert_item_def Let_def)
      have "vault_row_of ?s' ?g (cv_id r) = Some ?row"
        by (rule vault_row_of_unique [OF pk']) (simp_all add: s' new_item_def live_def)
      then have "R a r (item_of ?row) (?s'\<lparr>notices := ns'\<rparr>)" for ns'
        by (simp add: R_def vaultItem_def vault_row_of_def) (simp add: s' item_of_def new_item_def nextVaultSeq_def)
      with a True show ?thesis by (auto simp: wp_act insert_item_def Let_def Q_def)
    next
      case False
      then show ?thesis by (simp add: wp_act insert_item_def Let_def E_def)
    qed
  qed
  have old: "Q it s" if "authenticate cf rq s = Inr a" "enforceRateLimit (RL_WRITE cf) (au_deviceId a) = Inr ()"
      "request_json cf rq = Inr body" "parse_create_item a body = Inr r" "vaultItem s (au_groupId a) (cv_id r) = Some it"
      "vi_meta it = cv_meta r" "vi_metaIv it = cv_metaIv r" "vi_kind it = cv_kind r" for a body r it
    unfolding Q_def R_def using that by blast
  have "wp (createVaultItem cf rq now) Q (\<lambda>_. E) s"
    unfolding createVaultItem_def wp_bindS wp_vaultAuth wp_liftE wp_readS wp_case_option wp_retS announce_wp
    by (auto split: sum.splits option.splits simp: e intro!: wp_mono [OF ins] old)
  then show ?thesis unfolding Q_def R_def E_def .
qed

lemma authenticate_bumped:
  assumes "authenticate cf rq s = Inr a" and "devices s' = devices s"
    and "groups s' = groups s \<or> groups s' = groups (nextVaultSeq g s)"
  shows "\<exists>n. authenticate cf rq s' = Inr (a\<lparr>au_vaultSeq := n\<rparr>)"
proof -
  have grp: "\<exists>f. (\<forall>r. \<exists>n. f r = r\<lparr>g_vault_seq := n\<rparr>) \<and> (\<forall>x. group_of s' x = map_option f (group_of s x))"
  proof (cases "groups s' = groups s")
    case True
    then show ?thesis
      by (intro exI [of _ "\<lambda>r. r\<lparr>g_vault_seq := g_vault_seq r\<rparr>"] conjI allI)
        (rule exI, rule refl, simp add: group_of_def option.map_ident)
  next
    case False
    with assms(3) have "group_of s' x = group_of (nextVaultSeq g s) x" for x by (simp add: group_of_def)
    then have "group_of s' x = map_option (\<lambda>r. if g_id r = g then r\<lparr>g_vault_seq := g_vault_seq r + 1\<rparr> else r) (group_of s x)" for x
      by (cases "group_of s x") (auto simp: nextVaultSeq_def group_of_update_group dest: group_of_Some)
    moreover have "\<exists>n. (if g_id r = g then r\<lparr>g_vault_seq := g_vault_seq r + 1\<rparr> else r) = r\<lparr>g_vault_seq := n\<rparr>" for r
    proof (cases "g_id r = g")
      case False
      then show ?thesis by (intro exI [of _ "g_vault_seq r"]) simp
    next
      case True
      then show ?thesis by (intro exI [of _ "g_vault_seq r + 1"]) simp
    qed
    ultimately show ?thesis
      by (intro exI [of _ "\<lambda>r. if g_id r = g then r\<lparr>g_vault_seq := g_vault_seq r + 1\<rparr> else r"] conjI allI)
  qed
  then obtain f where f: "\<And>r. \<exists>n. f r = r\<lparr>g_vault_seq := n\<rparr>" "\<And>x. group_of s' x = map_option f (group_of s x)" by blast
  from assms(1) obtain h token d gr where d: "bearer_token h = Some token" "h = (case rq_authorization rq of None \<Rightarrow> [] | Some h \<Rightarrow> h)"
    "first_row (\<lambda>d. d_auth_token_hash d = Some (sha256Hex cf token) \<and> group_of s (d_group_id d) \<noteq> None) (devices s) = Some d"
    "group_of s (d_group_id d) = Some gr" "d_revoked_at d = None" "a = auth_context d gr"
    by (auto simp: authenticate_def split: option.splits if_splits)
  obtain n where "f gr = gr\<lparr>g_vault_seq := n\<rparr>" using f(1) by blast
  then have "authenticate cf rq s' = Inr (auth_context d (gr\<lparr>g_vault_seq := n\<rparr>))"
    using d assms(2) f(2) by (simp add: authenticate_def)
  then show ?thesis using d(6) by (intro exI [of _ n]) (simp add: auth_context_def)
qed

lemma parse_create_item_seq [simp]: "parse_create_item (a\<lparr>au_vaultSeq := n\<rparr>) body = parse_create_item a body"
  by (simp add: parse_create_item_def requireCurrentEpoch_def)

lemma deleteVaultItem_step:
  assumes "vault_inv s"
  shows "vault_step s (snd (deleteVaultItem cf rq i now s))"
proof (cases "fst (deleteVaultItem cf rq i now s)")
  case (Inl e)
  with deleteVaultItem_wp [OF assms, of cf rq i now] show ?thesis
    using vault_step_refl [OF assms] by (simp add: wp_act)
next
  case (Inr ids)
  with deleteVaultItem_wp [OF assms, of cf rq i now] obtain a s1 ns where a: "authenticate cf rq s = Inr a"
    and p: "purges (au_groupId a) (v_id ` set (purge_walk (au_groupId a) i s)) now s s1"
    and s': "snd (deleteVaultItem cf rq i now s) = s1\<lparr>notices := ns\<rparr>" by (auto simp: wp_act)
  from purges_step [OF assms authenticate_space [OF a] p] show ?thesis unfolding s' by (rule vault_step_notices)
qed

section \<open>Properties\<close>

text \<open>C17. What every write of the vault keeps. Creating, editing, re-sealing and purging, whoever asks and
  however the request ends, leave the vault a forest of live folders with no stray item and no
  cycle, its change numbers unique and bounded by the counter, every blob with one owner, and
  everything that changed under a number newer than any the space had given.\<close>

theorem vault_writes_keep:
  assumes "vault_inv s"
  shows "vault_step s (snd (createVaultItem cf rq now s)) \<and> vault_step s (snd (updateVaultItem cf rq i now s))
    \<and> vault_step s (snd (resealVaultItems cf rq now s)) \<and> vault_step s (snd (deleteVaultItem cf rq i now s))"
proof -
  have "vault_step s (snd (deleteVaultItem cf rq i now s))" using assms by (rule deleteVaultItem_step)
  moreover have "vault_step s (snd (createVaultItem cf rq now s))"
    using createVaultItem_step [OF assms, of cf rq now] by (simp add: wp_act split: sum.splits)
  moreover have "vault_step s (snd (updateVaultItem cf rq i now s))"
    using updateVaultItem_step [OF assms, of cf rq i now] by (simp add: wp_act split: sum.splits)
  moreover have "vault_step s (snd (resealVaultItems cf rq now s))"
    using resealVaultItems_step [OF assms, of cf rq now] by (simp add: wp_act split: sum.splits)
  ultimately show ?thesis by blast
qed

text \<open>C18. One edit per revision. After an edit that changed the vault, the item is what the edit
  returned, one revision on; any other edit made against the revision it was made against, by
  any device of the space, is refused and changes nothing.\<close>

theorem one_edit_per_revision:
  assumes "vault_inv s" and "updateVaultItem cf rq i now s = (Inr it, s1)" and "vault_items s1 \<noteq> vault_items s"
    and "authenticate cf rq s = Inr a" and "authenticate cf2 rq2 s1 = Inr b" and "au_groupId b = au_groupId a"
    and "request_json cf rq = Inr body" and "request_json cf2 rq2 = Inr body2"
    and "jfield body ''revision'' = jfield body2 ''revision''"
  shows "vaultItem s1 (au_groupId a) i = Some it
    \<and> (\<exists>e s2. updateVaultItem cf2 rq2 i now2 s1 = (Inl e, s2) \<and> vault_items s2 = vault_items s1)"
proof -
  from wpD [OF updateVaultItem_wp [OF assms(1)] assms(2)] assms(3,4,7) obtain revision row where
    e: "edited cf rq i s a revision row" "vaultItem s1 (au_groupId a) i = Some it"
    and new: "vi_revision it = revision + 1" and pk: "pk v_key (vault_items s1)" by (auto simp: edited_def)
  have inv1: "vault_inv s1" using wpD [OF updateVaultItem_step [OF assms(1)] assms(2)] by (simp add: vault_step_def)
  have "fst (updateVaultItem cf2 rq2 i now2 s1) \<noteq> Inr it2" for it2
  proof
    assume "fst (updateVaultItem cf2 rq2 i now2 s1) = Inr it2"
    from wpD [OF updateVaultItem_wp [OF inv1] run_fst [OF this]] obtain a2 revision2 row2 where
      e2: "edited cf2 rq2 i s1 a2 revision2 row2" by blast
    with assms(5-9) e(1) have "revision2 = revision" "a2 = b" by (auto simp: edited_def)
    with e2 assms(6) have "row2 \<in> set (vault_items s1)" "v_key row2 = (au_groupId a, i)" "live row2" "v_revision row2 = revision"
      by (simp_all add: edited_def)
    with vault_row_of_unique [OF pk, of row2] e(2) have "it = item_of row2" by (simp add: vaultItem_def)
    with new \<open>v_revision row2 = revision\<close> show False by (simp add: item_of_def)
  qed
  then obtain e where err: "fst (updateVaultItem cf2 rq2 i now2 s1) = Inl e"
    by (cases "fst (updateVaultItem cf2 rq2 i now2 s1)") auto
  from wpD_err [OF updateVaultItem_wp [OF inv1] run_fst [OF err]] run_fst [OF err] e(2) show ?thesis by blast
qed

text \<open>A creation can be retried. When the answer to a creation is lost, sending the same request
  again answers the same item and changes nothing.\<close>

theorem create_retry_safe:
  assumes "vault_inv s" and "createVaultItem cf rq now s = (Inr it, s1)"
  shows "createVaultItem cf rq now2 s1 = (Inr it, s1)"
proof -
  from wpD [OF createVaultItem_wp [OF assms(1)] assms(2)] obtain a body r where
    a: "authenticate cf rq s = Inr a" "enforceRateLimit (RL_WRITE cf) (au_deviceId a) = Inr ()"
      "request_json cf rq = Inr body" "parse_create_item a body = Inr r"
    and it: "vaultItem s1 (au_groupId a) (cv_id r) = Some it" "vi_meta it = cv_meta r" "vi_metaIv it = cv_metaIv r"
      "vi_kind it = cv_kind r" and st: "devices s1 = devices s" "groups s1 = groups s \<or> groups s1 = groups (nextVaultSeq (au_groupId a) s)"
    by blast
  from authenticate_bumped [OF a(1) st] obtain n where "authenticate cf rq s1 = Inr (a\<lparr>au_vaultSeq := n\<rparr>)" ..
  then show ?thesis
    using a(2-4) it by (simp add: createVaultItem_def vaultAuth_def bindS_def authenticateS_def liftE_def retS_def readS_def)
qed

text \<open>C19. What a purge takes. A successful purge returns, each once, the live items of the subtree of the item
  it was asked for; they become tombstones with new numbers, hold no blob any more, and every
  other row is what it was.\<close>

theorem deleteVaultItem_exact:
  assumes "vault_inv s" and "deleteVaultItem cf rq i now s = (Inr ids, s')"
  shows "\<exists>a. authenticate cf rq s = Inr a \<and> distinct ids \<and> i \<in> set ids
    \<and> (\<forall>j. j \<in> set ids \<longleftrightarrow> below (au_groupId a) (vault_items s) i j
         \<and> (\<exists>r \<in> set (vault_items s). v_key r = (au_groupId a, j) \<and> live r))
    \<and> (\<forall>r \<in> set (vault_items s). if v_group_id r = au_groupId a \<and> v_id r \<in> set ids \<and> live r
         then \<exists>r' \<in> set (vault_items s'). v_key r' = v_key r \<and> v_removed_at r' = Some now \<and> v_blob_key r' = None
           \<and> VAULT_SEQ s (au_groupId a) < v_seq r'
         else r \<in> set (vault_items s'))"
proof -
  from wpD [OF deleteVaultItem_wp [OF assms(1)] assms(2)] obtain a s1 ns where a: "authenticate cf rq s = Inr a"
    "vaultItem s (au_groupId a) i \<noteq> None" and ids: "ids = map v_id (purge_walk (au_groupId a) i s)"
    and p: "purges (au_groupId a) (set ids) now s s1" and s': "s' = s1\<lparr>notices := ns\<rparr>" by blast
  let ?g = "au_groupId a"
  have pk: "pk v_key (vault_items s)" using assms(1) by (simp add: vault_inv_def seqs_ok_def)
  have "distinct (map v_id (filter c t))" if "pk v_key t" "\<And>r. c r \<Longrightarrow> v_group_id r = ?g" for c t
    using that by (induction t) (auto simp: pk_def image_iff)
  from this [OF pk, of "\<lambda>r. v_group_id r = ?g \<and> v_id r \<in> set (SUBTREE ?g i (vault_items s)) \<and> live r"]
  have dist: "distinct ids" by (simp add: ids purge_walk_def)
  from a(2) obtain row where row: "row \<in> set (vault_items s)" "v_key row = (?g, i)" "live row"
    by (auto simp: vaultItem_def dest: vault_row_of_Some)
  have mem: "j \<in> set ids \<longleftrightarrow> below ?g (vault_items s) i j \<and> (\<exists>r \<in> set (vault_items s). v_key r = (?g, j) \<and> live r)" for j
    using row unfolding ids set_map by (force simp: purge_walk_iff)
  have i: "i \<in> set ids" unfolding mem using row by (auto intro: below_self)
  obtain q where items: "vault_items s' = map (buried ?g (set ids) now q) (vault_items s)"
    and q: "\<And>j. j \<in> set ids \<Longrightarrow> VAULT_SEQ s ?g < q j"
    using p unfolding purges_def by (force simp: s')
  have "if v_group_id r = ?g \<and> v_id r \<in> set ids \<and> live r
         then \<exists>r' \<in> set (vault_items s'). v_key r' = v_key r \<and> v_removed_at r' = Some now \<and> v_blob_key r' = None
           \<and> VAULT_SEQ s ?g < v_seq r'
         else r \<in> set (vault_items s')" if r: "r \<in> set (vault_items s)" for r
  proof (cases "v_group_id r = ?g \<and> v_id r \<in> set ids \<and> live r")
    case True
    then have "buried ?g (set ids) now q r = tombstone_row now (q (v_id r)) r" by (simp add: buried_def)
    moreover have "buried ?g (set ids) now q r \<in> set (vault_items s')" unfolding items using r by simp
    ultimately show ?thesis using True q [of "v_id r"]
      by (auto intro!: bexI [of _ "tombstone_row now (q (v_id r)) r"] simp: tombstone_row_def)
  next
    case False
    then have "buried ?g (set ids) now q r = r" unfolding buried_def by (rule if_not_P)
    with r have "r \<in> set (vault_items s')" unfolding items set_map by (intro rev_image_eqI [OF r]) simp
    with False show ?thesis by (simp only: if_False)
  qed
  with a(1) dist mem i show ?thesis by (intro exI [of _ a]) blast
qed

section \<open>At a concrete input\<close>

definition edit_body :: json where
  "edit_body = JObj [(''revision'', JNum (IntN 1)), (''keyEpoch'', JNum (IntN 1)), (''meta'', JStr ''new''),
     (''metaIv'', JStr ''iv2'')]"

definition create_body :: json where
  "create_body = JObj [(''id'', JStr ''p''), (''kind'', JStr ''folder''), (''parentId'', JStr ''f''),
     (''keyEpoch'', JNum (IntN 1)), (''meta'', JStr ''m''), (''metaIv'', JStr ''iv'')]"

abbreviation edit_run :: "int \<Rightarrow> env \<Rightarrow> (failure + VaultItemRecord) \<times> env" where
  "edit_run \<equiv> updateVaultItem (sample_conf edit_body) (sample_request ''a'') ''o''"

abbreviation create_run :: "int \<Rightarrow> env \<Rightarrow> (failure + VaultItemRecord) \<times> env" where
  "create_run \<equiv> createVaultItem (sample_conf create_body) (sample_request ''a'')"

abbreviation purge_run :: "(failure + string list) \<times> env" where
  "purge_run \<equiv> deleteVaultItem (sample_conf JNull) (sample_request ''a'') ''f'' 9 vault_env"

lemma vault_env_inv: "vault_inv vault_env"
proof -
  have "claims_ok vault_env" by code_simp
  with vault_env_ok show ?thesis by (simp add: vault_inv_def)
qed

theorem vault_writes_keep_witness:
  "vault_step vault_env (snd (deleteVaultItem (sample_conf JNull) (sample_request ''a'') ''f'' 9 vault_env))
   \<and> map live (vault_items (snd (deleteVaultItem (sample_conf JNull) (sample_request ''a'') ''f'' 9 vault_env)))
     = [False, False, True]"
proof -
  have "map live (vault_items (snd purge_run)) = [False, False, True]" by code_simp
  with vault_writes_keep [OF vault_env_inv] show ?thesis by blast
qed

theorem one_edit_per_revision_witness:
  "map_option vi_meta (vaultItem (snd (edit_run 9 vault_env)) ''g'' ''o'') = Some ''new''
   \<and> vault_items (snd (edit_run 10 (snd (edit_run 9 vault_env)))) = vault_items (snd (edit_run 9 vault_env))"
proof -
  obtain it where it: "fst (edit_run 9 vault_env) = Inr it" "vi_meta it = ''new''"
  proof -
    have "(case fst (edit_run 9 vault_env) of Inr it \<Rightarrow> vi_meta it = ''new'' | _ \<Rightarrow> False)" by code_simp
    with that show ?thesis by (auto split: sum.splits)
  qed
  have changed: "map v_meta (vault_items (snd (edit_run 9 vault_env))) \<noteq> map v_meta (vault_items vault_env)" by code_simp
  then have ne: "vault_items (snd (edit_run 9 vault_env)) \<noteq> vault_items vault_env" by metis
  define s1 where "s1 = snd (edit_run 9 vault_env)"
  have body: "request_json (sample_conf edit_body) (sample_request ''a'') = Inr edit_body" by code_simp
  have "map_sum id au_groupId (authenticate (sample_conf edit_body) (sample_request ''a'') vault_env) = Inr ''g''" by code_simp
  then obtain a where a: "authenticate (sample_conf edit_body) (sample_request ''a'') vault_env = Inr a" "au_groupId a = ''g''"
    by (cases "authenticate (sample_conf edit_body) (sample_request ''a'') vault_env") auto
  have "map_sum id au_groupId (authenticate (sample_conf edit_body) (sample_request ''a'') s1) = Inr ''g''"
    unfolding s1_def by code_simp
  then obtain b where b: "authenticate (sample_conf edit_body) (sample_request ''a'') s1 = Inr b" "au_groupId b = ''g''"
    by (cases "authenticate (sample_conf edit_body) (sample_request ''a'') s1") auto
  from one_edit_per_revision [OF vault_env_inv, of "sample_conf edit_body" "sample_request ''a''" "''o''" 9 it s1 a
      "sample_conf edit_body" "sample_request ''a''" b edit_body edit_body 10]
  have "vaultItem s1 ''g'' ''o'' = Some it \<and> vault_items (snd (edit_run 10 s1)) = vault_items s1"
    using run_fst [OF it(1)] ne a b body unfolding s1_def [symmetric] by fastforce
  then show ?thesis using it(2) unfolding s1_def by simp
qed

theorem create_retry_safe_witness:
  "length (vault_items (snd (create_run 9 vault_env))) = 4 \<and> create_run 11 (snd (create_run 9 vault_env)) = create_run 9 vault_env"
proof -
  have "(case fst (create_run 9 vault_env) of Inr _ \<Rightarrow> True | _ \<Rightarrow> False)" by code_simp
  then obtain it where it: "fst (create_run 9 vault_env) = Inr it" by (cases "fst (create_run 9 vault_env)") auto
  have "length (vault_items (snd (create_run 9 vault_env))) = 4" by code_simp
  moreover note create_retry_safe [OF vault_env_inv run_fst [OF it], of 11]
  ultimately show ?thesis using run_fst [OF it] by simp
qed

theorem deleteVaultItem_exact_witness:
  "fst (deleteVaultItem (sample_conf JNull) (sample_request ''a'') ''f'' 9 vault_env) = Inr [''f'', ''n'']
   \<and> below ''g'' (vault_items vault_env) ''f'' ''n''"
proof -
  have r: "fst purge_run = Inr [''f'', ''n'']" by code_simp
  have g: "map_sum id au_groupId (authenticate (sample_conf JNull) (sample_request ''a'') vault_env) = Inr ''g''" by code_simp
  from deleteVaultItem_exact [OF vault_env_inv run_fst [OF r]] obtain a where
    a: "authenticate (sample_conf JNull) (sample_request ''a'') vault_env = Inr a"
    and mem: "\<forall>j. j \<in> set [''f'', ''n''] \<longleftrightarrow> below (au_groupId a) (vault_items vault_env) ''f'' j
         \<and> (\<exists>r \<in> set (vault_items vault_env). v_key r = (au_groupId a, j) \<and> live r)" by (elim exE conjE)
  have "below (au_groupId a) (vault_items vault_env) ''f'' ''n''" using mem [THEN spec, of "''n''"] by simp
  moreover have "au_groupId a = ''g''" using g a by simp
  ultimately show ?thesis using r by simp
qed

end
