(* ===== verification/VaultSync.thy ===== *)
theory VaultSync
  imports VaultRoutes
begin

text \<open>
  How a device follows the vault (packages/client/src/vault.ts, "Syncing"): it asks for what
  changed after its cursor, page by page, folds the pages into one answer and applies that to its
  own copy. A JavaScript \<open>Map\<close> is an association list in insertion order, a \<open>Set\<close> a list. The
  pages come from the model of the server, in whatever state the server is when each is asked for:
  the lemmas show that the copy becomes exactly the server's live items.
\<close>

section \<open>Pulling and applying\<close>

type_synonym records = "(string \<times> VaultItemRecord) list"

definition set_add :: "'a \<Rightarrow> 'a list \<Rightarrow> 'a list" where
  "set_add x xs = (if x \<in> set xs then xs else xs @ [x])"

text \<open>What one page does to the items and the removed ids collected so far.\<close>

definition fold_page :: "VaultChangesResponse \<Rightarrow> records \<times> string list \<Rightarrow> records \<times> string list" where
  "fold_page page acc =
     (let (items, removed) = (if vc_reset page then ([], []) else acc);
          (items, removed) = fold (\<lambda>i (items, removed). (AList.delete i items, set_add i removed)) (vc_removed page) (items, removed)
      in fold (\<lambda>item (items, removed). (AList.update (vi_id item) item items, removeAll (vi_id item) removed))
           (vc_items page) (items, removed))"

text \<open>One argument of the list for each request made; \<open>None\<close> when they run out before the last page.
  A request that fails ends the pull with its error.\<close>

fun pull_loop :: "(int \<Rightarrow> bool \<Rightarrow> 'e + VaultChangesResponse) list \<Rightarrow> int \<Rightarrow> bool \<Rightarrow> records \<times> string list
    \<Rightarrow> ('e + VaultChangesResponse) option" where
  "pull_loop [] cursor rebuilding acc = None"
| "pull_loop (ask # asks) cursor rebuilding acc =
     (case ask cursor (rebuilding \<and> 0 < cursor) of
       Inl e \<Rightarrow> Some (Inl e)
     | Inr page \<Rightarrow>
         let rebuilding' = (rebuilding \<or> vc_reset page); (items, removed) = fold_page page acc in
         if \<not> vc_more page
         then Some (Inr \<lparr>vc_items = map snd items, vc_removed = removed, vc_cursor = vc_cursor page,
           vc_more = False, vc_reset = rebuilding', vc_usage = vc_usage page\<rparr>)
         else pull_loop asks (vc_cursor page) rebuilding' (items, removed))"

definition pullVaultChanges :: "(int \<Rightarrow> bool \<Rightarrow> 'e + VaultChangesResponse) list \<Rightarrow> int \<Rightarrow> ('e + VaultChangesResponse) option" where
  "pullVaultChanges asks since = pull_loop asks since (since = 0) ([], [])"

definition put_newer :: "VaultItemRecord \<Rightarrow> records \<Rightarrow> records" where
  "put_newer item next = (case map_of next (vi_id item) of None \<Rightarrow> AList.update (vi_id item) item next
     | Some known \<Rightarrow> if vi_seq known \<le> vi_seq item then AList.update (vi_id item) item next else next)"

definition applyVaultChanges :: "records \<Rightarrow> VaultChangesResponse \<Rightarrow> records" where
  "applyVaultChanges records changes =
     fold put_newer (vc_items changes)
       (fold AList.delete (vc_removed changes) (if vc_reset changes then [] else records))"

text \<open>A request answered by the server in a given state.\<close>

definition serve :: "string \<Rightarrow> env \<Rightarrow> int \<Rightarrow> bool \<Rightarrow> failure + VaultChangesResponse" where
  "serve g s since full = Inr (changes_since g since full s)"

lemma vaultChanges_serves:
  assumes "authenticate cf rq s = Inr a" and "0 \<le> c" and "c \<le> MAX_SAFE_INTEGER"
  shows "vaultChanges cf rq (Some (IntN c)) full s = (serve (au_groupId a) s c full, s)"
  using assms
  by (simp add: vaultChanges_def vaultAuth_def authenticateS_def bindS_def liftE_def retS_def readS_def
      parse_cursor_def serve_def)

section \<open>Folding\<close>

lemma set_set_add [simp]: "set (set_add x xs) = insert x (set xs)"
  by (auto simp: set_add_def)

lemma fold_delete_records: "map_of (fold AList.delete ids m) i = (if i \<in> set ids then None else map_of m i)"
  by (induction ids arbitrary: m) (auto simp: AList.delete_conv')

lemma fold_update:
  "map_of (fold (\<lambda>it. AList.update (vi_id it) it) its m) i
    = (case find (\<lambda>it. vi_id it = i) (rev its) of None \<Rightarrow> map_of m i | Some it \<Rightarrow> Some it)"
proof (induction its rule: rev_induct)
  case (snoc it its)
  then show ?case by (simp add: AList.update_conv')
qed simp

lemma find_distinct: "distinct (map f xs) \<Longrightarrow> x \<in> set xs \<Longrightarrow> find (\<lambda>y. f y = f x) xs = Some x"
  by (induction xs) auto

lemma find_none: "i \<notin> f ` set xs \<Longrightarrow> find (\<lambda>y. f y = i) xs = None"
  by (auto simp: find_None_iff)

text \<open>The two folds of a page, apart.\<close>

lemma fold_removed:
  "fold (\<lambda>i (a, b). (AList.delete i a, set_add i b)) ids (a, b) = (fold AList.delete ids a, fold set_add ids b)"
  by (induction ids arbitrary: a b) auto

lemma fold_items:
  "fold (\<lambda>it (a, b). (AList.update (vi_id it) it a, removeAll (vi_id it) b)) its (a, b)
    = (fold (\<lambda>it. AList.update (vi_id it) it) its a, fold (\<lambda>it. removeAll (vi_id it)) its b)"
  by (induction its arbitrary: a b) auto

lemma set_fold_add: "set (fold set_add ids b) = set b \<union> set ids"
  by (induction ids arbitrary: b) auto

lemma set_fold_removeAll: "set (fold (\<lambda>it. removeAll (vi_id it)) its b) = set b - vi_id ` set its"
  by (induction its arbitrary: b) auto

lemma distinct_fold_delete_records: "distinct (map fst a) \<Longrightarrow> distinct (map fst (fold AList.delete ids a))"
  by (induction ids arbitrary: a) (auto simp: AList.distinct_delete)

lemma distinct_fold_update:
  "distinct (map fst a) \<Longrightarrow> distinct (map fst (fold (\<lambda>it. AList.update (vi_id it) it) its a))"
  by (induction its arbitrary: a) (auto simp: AList.distinct_update)

lemma fold_page_facts:
  assumes "fold_page page acc = (items, removed)" and "distinct (map vi_id (vc_items page))" and "distinct (map fst (fst acc))"
  defines "before \<equiv> (if vc_reset page then ([], []) else acc)"
  shows "distinct (map fst items)"
    and "it \<in> set (vc_items page) \<Longrightarrow> map_of items (vi_id it) = Some it"
    and "i \<notin> vi_id ` set (vc_items page) \<Longrightarrow> map_of items i = (if i \<in> set (vc_removed page) then None else map_of (fst before) i)"
    and "set removed = (set (snd before) \<union> set (vc_removed page)) - vi_id ` set (vc_items page)"
proof -
  obtain a b where ab: "before = (a, b)" by (cases before)
  from assms(1) ab have ir: "items = fold (\<lambda>it. AList.update (vi_id it) it) (vc_items page) (fold AList.delete (vc_removed page) a)"
    "removed = fold (\<lambda>it. removeAll (vi_id it)) (vc_items page) (fold set_add (vc_removed page) b)"
    by (auto simp: fold_page_def before_def fold_removed fold_items Let_def split: if_splits)
  have "distinct (map fst a)" using assms(3) ab by (auto simp: before_def split: if_splits)
  then show "distinct (map fst items)" unfolding ir by (intro distinct_fold_update distinct_fold_delete_records)
  have rev: "distinct (map vi_id (rev (vc_items page)))" using assms(2) by (simp add: rev_map [symmetric])
  show "map_of items (vi_id it) = Some it" if "it \<in> set (vc_items page)"
    using find_distinct [OF rev, of it] that by (simp add: ir fold_update)
  show "map_of items i = (if i \<in> set (vc_removed page) then None else map_of (fst before) i)"
    if "i \<notin> vi_id ` set (vc_items page)"
    using find_none [of i vi_id "rev (vc_items page)"] that by (simp add: ir fold_update fold_delete_records ab)
  show "set removed = (set (snd before) \<union> set (vc_removed page)) - vi_id ` set (vc_items page)"
    by (simp add: ir set_fold_removeAll set_fold_add ab)
qed

lemma put_newer_other: "vi_id it \<noteq> i \<Longrightarrow> map_of (put_newer it m) i = map_of m i"
  by (simp add: put_newer_def AList.update_conv' split: option.split)

lemma put_newer_same: "map_of (put_newer it m) (vi_id it)
    = (case map_of m (vi_id it) of Some k \<Rightarrow> if vi_seq it < vi_seq k then Some k else Some it | None \<Rightarrow> Some it)"
  by (auto simp: put_newer_def AList.update_conv' split: option.split)

text \<open>What applying a list of records with distinct ids to a copy gives.\<close>

lemma fold_newer:
  assumes "distinct (map vi_id its)"
  shows "map_of (fold put_newer its m) i = (case find (\<lambda>it. vi_id it = i) its of None \<Rightarrow> map_of m i
    | Some it \<Rightarrow> (case map_of m i of Some k \<Rightarrow> if vi_seq it < vi_seq k then Some k else Some it | None \<Rightarrow> Some it))"
  using assms
proof (induction its arbitrary: m)
  case (Cons it its)
  then have "find (\<lambda>x. vi_id x = vi_id it) its = None" by (intro find_none) auto
  with Cons show ?case by (auto simp: put_newer_other put_newer_same split: option.split)
qed simp


section \<open>One page of the server\<close>

lemma sorted_distinct_take:
  assumes "sorted (map f xs)" and "distinct (map f xs)" and "0 < n" and "n \<le> length xs"
  shows "x \<in> set (take n xs) \<longleftrightarrow> x \<in> set xs \<and> f x \<le> f (last (take n xs))"
proof -
  let ?a = "take n xs" and ?b = "drop n xs"
  have ne: "?a \<noteq> []" using assms(3,4) by auto
  have "sorted (map f (?a @ ?b))" "distinct (map f (?a @ ?b))" using assms(1,2) by simp_all
  then have s: "sorted (map f ?a)" "\<forall>x \<in> set ?a. \<forall>y \<in> set ?b. f x < f y"
    unfolding map_append sorted_append distinct_append by (auto simp: order_less_le)
  have le: "f x \<le> f (last ?a)" if "x \<in> set ?a" for x
  proof -
    have "map f ?a = map f (butlast ?a) @ [f (last ?a)]" using ne by (metis append_butlast_last_id list.simps(8,9) map_append)
    with s(1) have "\<forall>y \<in> set (butlast ?a). f y \<le> f (last ?a)" by (simp add: sorted_append)
    moreover have "x \<in> set (butlast ?a) \<or> x = last ?a" using that ne
      by (metis append_butlast_last_id rotate1.simps(2) set_ConsD set_rotate1)
    ultimately show ?thesis by auto
  qed
  have "x \<in> set xs \<longleftrightarrow> x \<in> set ?a \<or> x \<in> set ?b" by (metis Un_iff append_take_drop_id set_append)
  moreover have "f (last ?a) < f x" if "x \<in> set ?b" using s(2) that last_in_set [OF ne] by blast
  ultimately show ?thesis using le [of x] by auto
qed

definition is_page :: "string \<Rightarrow> env \<Rightarrow> int \<Rightarrow> VaultChangesResponse \<Rightarrow> vault_row list \<Rightarrow> bool" where
  "is_page g s since p page \<longleftrightarrow> vc_items p = map item_of (filter live page)
     \<and> vc_removed p = map v_id (filter (\<lambda>r. \<not> live r) page) \<and> distinct (map v_id page)
     \<and> (\<forall>r. r \<in> set page \<longleftrightarrow> r \<in> set (vault_items s) \<and> v_group_id r = g \<and> since < v_seq r \<and> v_seq r \<le> vc_cursor p)
     \<and> since \<le> vc_cursor p \<and> (since \<le> VAULT_SEQ s g \<longrightarrow> vc_cursor p \<le> VAULT_SEQ s g)
     \<and> (\<not> vc_more p \<longrightarrow> vc_cursor p = max (VAULT_SEQ s g) since)
     \<and> (vc_more p \<longrightarrow> length page = VAULT_PAGE_SIZE)"

lemma changes_page:
  assumes ok: "seqs_ok s" and c: "0 \<le> c"
  obtains page where "is_page g s (if vc_reset (changes_since g c full s) then 0 else c) (changes_since g c full s) page"
    and "vc_reset (changes_since g c full s) \<longleftrightarrow> \<not> full \<and> 0 < c \<and> c < vault_floor_of s g"
proof -
  define since where "since = (if \<not> full \<and> 0 < c \<and> c < vault_floor_of s g then 0 else c)"
  define rs where "rs = sort_key v_seq (filter (\<lambda>r. v_group_id r = g \<and> since < v_seq r) (vault_items s))"
  define more where "more \<longleftrightarrow> VAULT_PAGE_SIZE < length rs"
  define page where "page = (if more then take VAULT_PAGE_SIZE rs else rs)"
  have n: "0 < VAULT_PAGE_SIZE" by (simp add: VAULT_PAGE_SIZE_def)
  have pks: "pk v_key (vault_items s)" "pk (\<lambda>r. (v_group_id r, v_seq r)) (vault_items s)"
    and bound: "v_seq r \<le> VAULT_SEQ s (v_group_id r)" if "r \<in> set (vault_items s)" for r
    using ok that by (simp_all add: seqs_ok_def)
  have pks: "pk v_key (vault_items s)" "pk (\<lambda>r. (v_group_id r, v_seq r)) (vault_items s)"
    using ok by (simp_all add: seqs_ok_def)
  have dist: "distinct (map f (filter (\<lambda>r. v_group_id r = g \<and> since < v_seq r) t))"
    if "pk (\<lambda>r. (v_group_id r, f r)) t" for f :: "vault_row \<Rightarrow> 'b" and t
    using that by (induction t) (auto simp: pk_def image_iff)
  have dm: "distinct (map f (sort_key v_seq ys)) = distinct (map f ys)" for f :: "vault_row \<Rightarrow> 'b" and ys
    by (simp add: distinct_map)
  have d: "distinct (map v_seq rs)" "distinct (map v_id rs)"
    using dist [OF pks(2)] dist [of v_id] pks(1) by (simp_all add: rs_def dm)
  have srt: "sorted (map v_seq rs)" by (simp add: rs_def)
  have rs_set: "r \<in> set rs \<longleftrightarrow> r \<in> set (vault_items s) \<and> v_group_id r = g \<and> since < v_seq r" for r
    by (auto simp: rs_def)
  let ?p = "changes_since g c full s"
  have ch: "changed_rows g since s = take (VAULT_PAGE_SIZE + 1) rs" by (simp add: changed_rows_def rs_def)
  have pg: "more \<longleftrightarrow> VAULT_PAGE_SIZE < length (changed_rows g since s)"
    "page = (if more then take VAULT_PAGE_SIZE (changed_rows g since s) else changed_rows g since s)"
    by (auto simp: more_def page_def ch min_def)
  have resp: "vc_reset ?p \<longleftrightarrow> \<not> full \<and> 0 < c \<and> c < vault_floor_of s g" "vc_more ?p \<longleftrightarrow> more"
    "vc_items ?p = map item_of (filter live page)" "vc_removed ?p = map v_id (filter (\<lambda>r. \<not> live r) page)"
    "vc_cursor ?p = (if more then (if page = [] then since else v_seq (last page)) else max (VAULT_SEQ s g) since)"
    unfolding changes_since_def Let_def since_def [symmetric] by (simp_all add: pg)
  have mem: "r \<in> set page \<longleftrightarrow> r \<in> set rs \<and> v_seq r \<le> vc_cursor ?p" for r
  proof (cases more)
    case True
    then have ne: "page \<noteq> []" using n by (auto simp: page_def more_def)
    show ?thesis using sorted_distinct_take [OF srt d(1) n, of r] True ne
      by (simp add: resp page_def more_def)
  next
    case False
    then show ?thesis using bound by (auto simp: resp page_def rs_set le_max_iff_disj)
  qed
  have cur: "since \<le> vc_cursor ?p \<and> (since \<le> VAULT_SEQ s g \<longrightarrow> vc_cursor ?p \<le> VAULT_SEQ s g)"
  proof (cases more)
    case True
    then have ne: "page \<noteq> []" using n by (auto simp: page_def more_def)
    then have "last page \<in> set rs" using mem last_in_set by blast
    then show ?thesis using bound [of "last page"] True ne by (auto simp: resp rs_set)
  qed (simp add: resp)
  have "distinct (map v_id page)" using d(2) by (simp add: page_def take_map [symmetric])
  moreover have "more \<Longrightarrow> length page = VAULT_PAGE_SIZE" by (simp add: page_def more_def)
  ultimately have "is_page g s since ?p page"
    unfolding is_page_def using mem cur by (simp add: resp rs_set)
  with that [of page] resp(1) show ?thesis by (simp add: since_def)
qed


section \<open>The copy while a pull is under way\<close>

text \<open>
  A copy with its cursor: whatever changed up to the cursor is in it as the server has it, no
  record it holds is newer than the server's, and each is of an item the server still knows, unless
  tombstones after the cursor were forgotten.
\<close>

definition copy_ok :: "string \<Rightarrow> env \<Rightarrow> int \<Rightarrow> records \<Rightarrow> bool" where
  "copy_ok g s c m \<longleftrightarrow> 0 \<le> c \<and> c \<le> VAULT_SEQ s g
     \<and> (\<forall>r \<in> set (vault_items s). v_group_id r = g \<longrightarrow> v_seq r \<le> c
          \<longrightarrow> map_of m (v_id r) = (if live r then Some (item_of r) else None))
     \<and> (\<forall>i k. map_of m i = Some k \<longrightarrow> vi_seq k \<le> VAULT_SEQ s g
          \<and> (\<forall>r \<in> set (vault_items s). v_key r = (g, i) \<longrightarrow> vi_seq k \<le> v_seq r)
          \<and> (c < vault_floor_of s g \<or> (\<exists>r \<in> set (vault_items s). v_key r = (g, i))))"

text \<open>
  Half way through a pull that began in \<open>s0\<close> with the copy \<open>m\<close> at cursor \<open>c0\<close>: the pages up to
  cursor \<open>c\<close> are folded into \<open>items\<close> and \<open>removed\<close>, and the server is in \<open>s\<close>. What changed since is
  in the fold, what the fold holds the server still knows, what did not change is not in it, and
  what the copy holds is known, removed by the fold, or lost to a raised floor.
\<close>

definition folded :: "string \<Rightarrow> int \<Rightarrow> env \<Rightarrow> int \<Rightarrow> bool \<Rightarrow> records \<Rightarrow> string list \<Rightarrow> bool" where
  "folded g c0 s c b items removed \<longleftrightarrow> (\<forall>r \<in> set (vault_items s).
     v_group_id r = g \<longrightarrow> v_seq r \<le> c \<longrightarrow> b \<or> c0 < v_seq r \<longrightarrow>
     map_of items (v_id r) = (if live r then Some (item_of r) else None) \<and> (b \<or> live r \<or> v_id r \<in> set removed))"

definition kept :: "string \<Rightarrow> env \<Rightarrow> env \<Rightarrow> int \<Rightarrow> bool \<Rightarrow> records \<Rightarrow> bool" where
  "kept g s0 s c b items \<longleftrightarrow> (\<forall>i it. map_of items i = Some it \<longrightarrow> vi_id it = i
     \<and> (\<not> b \<and> c < vault_floor_of s g
       \<or> (\<exists>r \<in> set (vault_items s). v_key r = (g, i) \<and> (live r \<or> VAULT_SEQ s0 g < v_seq r))))"

definition untouched :: "string \<Rightarrow> int \<Rightarrow> env \<Rightarrow> records \<Rightarrow> string list \<Rightarrow> bool" where
  "untouched g c0 s items removed \<longleftrightarrow> (\<forall>r \<in> set (vault_items s). v_group_id r = g \<longrightarrow> v_seq r \<le> c0
     \<longrightarrow> v_id r \<notin> set removed \<and> map_of items (v_id r) = None)"

definition accounted :: "string \<Rightarrow> records \<Rightarrow> env \<Rightarrow> int \<Rightarrow> string list \<Rightarrow> bool" where
  "accounted g m s c removed \<longleftrightarrow> (\<forall>i. map_of m i \<noteq> None \<longrightarrow> i \<in> set removed \<or> c < vault_floor_of s g
     \<or> (\<exists>r \<in> set (vault_items s). v_key r = (g, i)))"

definition pulled :: "string \<Rightarrow> env \<Rightarrow> int \<Rightarrow> records \<Rightarrow> env \<Rightarrow> int \<Rightarrow> bool \<Rightarrow> records \<Rightarrow> string list \<Rightarrow> bool" where
  "pulled g s0 c0 m s c b items removed \<longleftrightarrow> advances s0 s \<and> c \<le> VAULT_SEQ s g \<and> 0 \<le> c
     \<and> (b \<or> 0 < c0 \<and> c0 \<le> c) \<and> distinct (map fst items) \<and> folded g c0 s c b items removed
     \<and> kept g s0 s c b items \<and> (b \<or> untouched g c0 s items removed \<and> accounted g m s c removed)"

lemma seqs_okD:
  assumes "seqs_ok s"
  shows "r \<in> set (vault_items s) \<Longrightarrow> 0 < v_seq r" "r \<in> set (vault_items s) \<Longrightarrow> v_seq r \<le> VAULT_SEQ s (v_group_id r)"
    "pk v_key (vault_items s)"
  using assms by (simp_all add: seqs_ok_def)

lemma seqs_ok_counter:
  assumes "seqs_ok s"
  shows "0 \<le> VAULT_SEQ s g" "vault_floor_of s g \<le> VAULT_SEQ s g"
proof -
  have "0 \<le> VAULT_SEQ s g \<and> vault_floor_of s g \<le> VAULT_SEQ s g"
  proof (cases "group_of s g")
    case (Some x)
    with assms group_of_Some [OF Some] have "0 \<le> g_vault_floor x" "g_vault_floor x \<le> g_vault_seq x" by (auto simp: seqs_ok_def)
    with Some show ?thesis by (simp add: VAULT_SEQ_def vault_floor_of_def)
  qed (simp add: VAULT_SEQ_def vault_floor_of_def)
  then show "0 \<le> VAULT_SEQ s g" "vault_floor_of s g \<le> VAULT_SEQ s g" by simp_all
qed

lemma nothing_folded:
  assumes "seqs_ok s"
  shows "folded g c s c (c = 0) [] []" "folded g c0 s 0 True [] []" "kept g s0 s c b []" "untouched g c s [] []"
  using seqs_okD(1) [OF assms] by (fastforce simp: folded_def kept_def untouched_def)+

lemma pulled_start:
  assumes "copy_ok g s c m" and "seqs_ok s"
  shows "pulled g s c m s c (c = 0) [] []"
proof -
  have "accounted g m s c []" using assms(1) unfolding copy_ok_def accounted_def by fastforce
  then show ?thesis using assms(1) nothing_folded [OF assms(2)] by (auto simp: pulled_def copy_ok_def)
qed

lemma pulled_restart:
  assumes "pulled g s0 c0 m s c b items removed" and "seqs_ok s"
  shows "pulled g s0 c0 m s 0 True [] []"
  using assms(1) nothing_folded [OF assms(2)] by (simp add: pulled_def)

lemma advancesD:
  assumes "advances s t"
  shows "VAULT_SEQ s g \<le> VAULT_SEQ t g" "vault_floor_of s g \<le> vault_floor_of t g"
    and "r \<in> set (vault_items t) \<Longrightarrow> r \<in> set (vault_items s) \<or> VAULT_SEQ s (v_group_id r) < v_seq r"
  using assms unfolding advances_def by auto

text \<open>An item the server knew is still known, or the floor has passed it.\<close>

lemma advances_row:
  assumes "advances s t" and ok: "seqs_ok s" and "r \<in> set (vault_items s)" and "v_key r = (g, i)"
  obtains x where "x \<in> set (vault_items t)" "v_key x = (g, i)" "x = r \<or> VAULT_SEQ s g < v_seq x"
    | "if live r then VAULT_SEQ s g < vault_floor_of t g else v_seq r \<le> vault_floor_of t g"
proof (cases "v_key r \<in> v_key ` set (vault_items t)")
  case True
  then obtain x where x: "x \<in> set (vault_items t)" "v_key x = (g, i)" using assms(4) by auto
  have "x = r" if "x \<in> set (vault_items s)"
    using pk_unique [OF seqs_okD(3) [OF ok] that assms(3)] x(2) assms(4) by simp
  with x advancesD(3) [OF assms(1) x(1)] that(1) [of x] show thesis by auto
next
  case False
  moreover from False have "r \<notin> set (vault_items t)" by auto
  ultimately show thesis using assms unfolding advances_def by (intro that(2)) (auto split: if_splits)
qed

lemma copy_record_live:
  assumes "copy_ok g s c m" and "r \<in> set (vault_items s)" and "v_key r = (g, i)" and "map_of m i \<noteq> None" and "v_seq r \<le> c"
  shows "live r"
  using assms by (auto simp: copy_ok_def split: if_splits)

lemma pulled_advance:
  assumes p: "pulled g s0 c0 m s c b items removed" and adv: "advances s t" and ok: "seqs_ok s0" "seqs_ok s"
    and floor: "vault_floor_of t g \<le> VAULT_SEQ s0 g" and copy: "copy_ok g s0 c0 m"
  shows "pulled g s0 c0 m t c b items removed"
proof -
  have s0: "advances s0 s" and c: "c \<le> VAULT_SEQ s g" "b \<or> 0 < c0 \<and> c0 \<le> c" and f: "folded g c0 s c b items removed"
    and k: "kept g s0 s c b items" and u: "b \<or> untouched g c0 s items removed \<and> accounted g m s c removed"
    using p by (auto simp: pulled_def)
  have q0: "VAULT_SEQ s0 g \<le> VAULT_SEQ s g" by (rule advancesD(1) [OF s0])
  note mono = advancesD(1,2) [OF adv, of g]
  have old: "r \<in> set (vault_items s)" if "r \<in> set (vault_items t)" "v_group_id r = g" "v_seq r \<le> c" for r
    using advancesD(3) [OF adv that(1)] that c(1) by auto
  have "folded g c0 t c b items removed" using f old unfolding folded_def by blast
  moreover have "kept g s0 t c b items"
    unfolding kept_def
  proof (intro allI impI)
    fix i it
    assume it: "map_of items i = Some it"
    with k have i: "vi_id it = i" by (simp add: kept_def)
    from it k consider "\<not> b" "c < vault_floor_of s g"
      | r where "r \<in> set (vault_items s)" "v_key r = (g, i)" "live r \<or> VAULT_SEQ s0 g < v_seq r"
      unfolding kept_def by blast
    then have "\<not> b \<and> c < vault_floor_of t g \<or> (\<exists>r \<in> set (vault_items t). v_key r = (g, i) \<and> (live r \<or> VAULT_SEQ s0 g < v_seq r))"
    proof cases
      case 1
      with mono(2) show ?thesis by simp
    next
      case r: 2
      from advances_row [OF adv ok(2) r(1,2)] show ?thesis
      proof cases
        case (1 x)
        with r(3) q0 show ?thesis by (metis le_less_trans)
      next
        case 2
        have "\<not> live r" "v_seq r \<le> vault_floor_of t g" using 2 q0 floor by (auto split: if_splits)
        with r floor show ?thesis by auto
      qed
    qed
    with i show "vi_id it = i \<and> (\<not> b \<and> c < vault_floor_of t g
       \<or> (\<exists>r \<in> set (vault_items t). v_key r = (g, i) \<and> (live r \<or> VAULT_SEQ s0 g < v_seq r)))" by blast
  qed
  moreover have "untouched g c0 t items removed \<and> accounted g m t c removed" if b: "\<not> b"
  proof
    show "untouched g c0 t items removed" using u b c(2) old unfolding untouched_def by (meson order_trans)
    show "accounted g m t c removed"
      unfolding accounted_def
    proof (intro allI impI)
      fix i
      assume i: "map_of m i \<noteq> None"
      with u b consider "i \<in> set removed" | "c < vault_floor_of s g" | r where "r \<in> set (vault_items s)" "v_key r = (g, i)"
        unfolding accounted_def by blast
      then show "i \<in> set removed \<or> c < vault_floor_of t g \<or> (\<exists>r \<in> set (vault_items t). v_key r = (g, i))"
      proof cases
        case r: 3
        from advances_row [OF adv ok(2) r] show ?thesis
        proof cases
          case (1 x)
          then show ?thesis by blast
        next
          case 2
          show ?thesis
          proof (cases "live r")
            case True
            with 2 c(1) show ?thesis by simp
          next
            case False
            show ?thesis
            proof (cases "v_seq r \<le> c")
              case True
              have "c0 < v_seq r"
              proof (rule ccontr)
                assume "\<not> c0 < v_seq r"
                moreover have "c0 \<le> VAULT_SEQ s0 g" using copy by (simp add: copy_ok_def)
                ultimately have "r \<in> set (vault_items s0)" using advancesD(3) [OF s0 r(1)] r(2) by auto
                from copy_record_live [OF copy this r(2) i] False \<open>\<not> c0 < v_seq r\<close> show False by simp
              qed
              with f r True False b show ?thesis by (auto simp: folded_def)
            next
              case False
              with 2 \<open>\<not> live r\<close> show ?thesis by simp
            qed
          qed
        qed
      qed (use mono(2) in auto)
    qed
  qed
  ultimately show ?thesis
    using p c mono(1) advances_trans [OF s0 adv seqs_okD(3) [OF ok(1)]] by (auto simp: pulled_def)
qed

text \<open>One more page folded in.\<close>

lemma pulled_page:
  assumes p: "pulled g s0 c0 m s c b items removed" and ok: "seqs_ok s" and pg: "is_page g s c P page"
    and r: "\<not> vc_reset P" and floor: "b \<or> vault_floor_of s g \<le> c" and q: "VAULT_SEQ s0 g \<le> VAULT_SEQ s g"
    and f: "fold_page P (items, removed) = (items', removed')"
  shows "pulled g s0 c0 m s (vc_cursor P) b items' removed'"
proof -
  have mem: "x \<in> set page \<longleftrightarrow> x \<in> set (vault_items s) \<and> v_group_id x = g \<and> c < v_seq x \<and> v_seq x \<le> vc_cursor P" for x
    using pg by (simp add: is_page_def)
  have P: "vc_items P = map item_of (filter live page)" "vc_removed P = map v_id (filter (\<lambda>r. \<not> live r) page)"
    "distinct (map v_id page)" "c \<le> vc_cursor P" "vc_cursor P \<le> VAULT_SEQ s g"
    using pg p by (auto simp: is_page_def pulled_def)
  have d: "distinct (map vi_id (vc_items P))" "distinct (map fst (fst (items, removed)))"
    using P(3) p by (simp_all add: P(1) comp_def item_of_def distinct_map_filter pulled_def)
  note facts = fold_page_facts [OF f d, unfolded if_not_P [OF r]]
  have ids: "vi_id ` set (vc_items P) = v_id ` {x \<in> set page. live x}"
    by (auto simp: P(1) item_of_def image_iff)
  have uniq: "x = y" if "x \<in> set (vault_items s)" "y \<in> set page" "v_group_id x = g" "v_id x = v_id y" for x y
    using pk_unique [OF seqs_okD(3) [OF ok] that(1), of y] that mem by simp
  have live_in: "map_of items' (v_id x) = Some (item_of x)" if "x \<in> set page" "live x" for x
    using facts(2) [of "item_of x"] that by (simp add: P(1)) (simp add: item_of_def)
  have dead_in: "map_of items' (v_id x) = None" "v_id x \<in> set removed'" if x: "x \<in> set page" "\<not> live x" for x
  proof -
    have no: "v_id x \<notin> vi_id ` set (vc_items P)" unfolding ids using uniq mem x by blast
    moreover have "v_id x \<in> set (vc_removed P)" using x by (auto simp: P(2))
    ultimately show "map_of items' (v_id x) = None" "v_id x \<in> set removed'" using facts(3) facts(4) by auto
  qed
  have other: "map_of items' i = map_of items i" "i \<in> set removed' \<longleftrightarrow> i \<in> set removed" if "i \<notin> v_id ` set page" for i
  proof -
    have "i \<notin> vi_id ` set (vc_items P)" "i \<notin> set (vc_removed P)" using that unfolding ids by (auto simp: P(2))
    then show "map_of items' i = map_of items i" "i \<in> set removed' \<longleftrightarrow> i \<in> set removed" using facts(3) facts(4) by auto
  qed
  have outside: "v_id x \<notin> v_id ` set page" if "x \<in> set (vault_items s)" "v_group_id x = g" "x \<notin> set page" for x
    using uniq [OF that(1)] that by auto
  have "folded g c0 s (vc_cursor P) b items' removed'"
    unfolding folded_def
  proof (intro ballI impI)
    fix x
    assume x: "x \<in> set (vault_items s)" "v_group_id x = g" "v_seq x \<le> vc_cursor P" "b \<or> c0 < v_seq x"
    show "map_of items' (v_id x) = (if live x then Some (item_of x) else None) \<and> (b \<or> live x \<or> v_id x \<in> set removed')"
    proof (cases "x \<in> set page")
      case True
      with live_in dead_in show ?thesis by simp
    next
      case False
      then have "v_seq x \<le> c" using x mem by auto
      moreover have "folded g c0 s c b items removed" using p by (simp add: pulled_def)
      ultimately show ?thesis using x unfolding folded_def other [OF outside [OF x(1,2) False]] by blast
    qed
  qed
  moreover have "kept g s0 s (vc_cursor P) b items'"
    unfolding kept_def
  proof (intro allI impI)
    fix i it
    assume it: "map_of items' i = Some it"
    show "vi_id it = i \<and> (\<not> b \<and> vc_cursor P < vault_floor_of s g
       \<or> (\<exists>r \<in> set (vault_items s). v_key r = (g, i) \<and> (live r \<or> VAULT_SEQ s0 g < v_seq r)))"
    proof (cases "i \<in> v_id ` set page")
      case True
      then obtain x where x: "x \<in> set page" "i = v_id x" by blast
      with it dead_in(1) have "live x" by force
      with live_in it x mem show ?thesis by (auto simp: item_of_def)
    next
      case False
      with it other(1) p floor P(4) show ?thesis by (auto simp: pulled_def kept_def)
    qed
  qed
  moreover have "untouched g c0 s items' removed' \<and> accounted g m s (vc_cursor P) removed'" if b: "\<not> b"
  proof
    show "untouched g c0 s items' removed'"
      unfolding untouched_def
    proof (intro ballI impI)
      fix x
      assume x: "x \<in> set (vault_items s)" "v_group_id x = g" "v_seq x \<le> c0"
      then have "x \<notin> set page" using p b mem by (auto simp: pulled_def)
      from other [OF outside [OF x(1,2) this]] p b x show "v_id x \<notin> set removed' \<and> map_of items' (v_id x) = None"
        by (simp add: pulled_def untouched_def)
    qed
    show "accounted g m s (vc_cursor P) removed'"
      unfolding accounted_def
    proof (intro allI impI)
      fix i
      assume "map_of m i \<noteq> None"
      with p b floor have "i \<in> set removed \<or> (\<exists>r \<in> set (vault_items s). v_key r = (g, i))"
        by (auto simp: pulled_def accounted_def)
      moreover have "\<exists>r \<in> set (vault_items s). v_key r = (g, i)" if "i \<in> v_id ` set page" using that mem by auto
      ultimately show "i \<in> set removed' \<or> vc_cursor P < vault_floor_of s g \<or> (\<exists>r \<in> set (vault_items s). v_key r = (g, i))"
        using other(2) by blast
    qed
  qed
  ultimately show ?thesis using p facts(1) P(4,5) by (auto simp: pulled_def)
qed


lemma pull_step:
  assumes p: "pulled g s0 c0 m s c b items removed" and ok: "seqs_ok s"
    and P: "P = changes_since g c (b \<and> 0 < c) s" and f: "fold_page P (items, removed) = (items', removed')"
  shows "pulled g s0 c0 m s (vc_cursor P) (b \<or> vc_reset P) items' removed' \<and> (\<not> vc_more P \<longrightarrow> vc_cursor P = VAULT_SEQ s g)"
proof -
  have s0: "VAULT_SEQ s0 g \<le> VAULT_SEQ s g" "c \<le> VAULT_SEQ s g" "0 \<le> c" "b \<or> 0 < c"
    using p advancesD(1) by (auto simp: pulled_def)
  obtain page where pg: "is_page g s (if vc_reset P then 0 else c) P page"
    and r: "vc_reset P \<longleftrightarrow> \<not> (b \<and> 0 < c) \<and> 0 < c \<and> c < vault_floor_of s g"
    using changes_page [OF ok s0(3)] unfolding P by metis
  have "pulled g s0 c0 m s (vc_cursor P) (b \<or> vc_reset P) items' removed'"
  proof (cases "vc_reset P")
    case True
    let ?P = "P\<lparr>vc_reset := False\<rparr>"
    have "is_page g s 0 ?P page" using pg True by (simp add: is_page_def)
    moreover have "fold_page ?P ([], []) = (items', removed')" using f True by (simp add: fold_page_def)
    ultimately have "pulled g s0 c0 m s (vc_cursor ?P) True items' removed'"
      using pulled_page [OF pulled_restart [OF p ok] ok, of ?P page] s0(1) by simp
    with True show ?thesis by simp
  next
    case False
    with pg have "is_page g s c P page" by simp
    from pulled_page [OF p ok this False _ s0(1) f] False r s0 show ?thesis by auto
  qed
  moreover have "vc_cursor P = VAULT_SEQ s g" if "\<not> vc_more P"
    using pg that s0(2,3) by (auto simp: is_page_def split: if_splits)
  ultimately show ?thesis by blast
qed

lemma pull_loop_serve:
  assumes "P = changes_since g c (b \<and> 0 < c) s" and "fold_page P acc = (items, removed)"
  shows "pull_loop (map (serve g) (s # ss)) c b acc = (if vc_more P
    then pull_loop (map (serve g) ss) (vc_cursor P) (b \<or> vc_reset P) (items, removed)
    else Some (Inr \<lparr>vc_items = map snd items, vc_removed = removed, vc_cursor = vc_cursor P,
           vc_more = False, vc_reset = b \<or> vc_reset P, vc_usage = vc_usage P\<rparr>))"
  using assms(2) unfolding assms(1) by (simp add: serve_def Let_def del: AList.update.simps)

text \<open>The loop, over the states the server is in as the pages are asked for.\<close>

lemma pull_loop_copy:
  assumes "pull_loop (map (serve g) (s # ss)) c b (items, removed) = Some res" and "pulled g s0 c0 m s c b items removed"
    and "sorted_wrt advances (s # ss)" and "\<forall>t \<in> set (s # ss). seqs_ok t \<and> vault_floor_of t g \<le> VAULT_SEQ s0 g"
    and "seqs_ok s0" and "copy_ok g s0 c0 m"
  shows "\<exists>ch t items' removed'. res = Inr ch \<and> t \<in> set (s # ss) \<and> vc_cursor ch = VAULT_SEQ t g
    \<and> vc_items ch = map snd items' \<and> vc_removed ch = removed'
    \<and> pulled g s0 c0 m t (vc_cursor ch) (vc_reset ch) items' removed'"
  using assms(1-4)
proof (induction ss arbitrary: s c b items removed)
  case (Cons t ts s c b items removed)
  define P where "P = changes_since g c (b \<and> 0 < c) s"
  obtain items' removed' where f: "fold_page P (items, removed) = (items', removed')" by fastforce
  have ok: "seqs_ok s" "seqs_ok t" "vault_floor_of t g \<le> VAULT_SEQ s0 g" using Cons.prems(4) by auto
  note step = pull_step [OF Cons.prems(2) ok(1) P_def f] and run = Cons.prems(1) [unfolded pull_loop_serve [OF P_def f]]
  show ?case
  proof (cases "vc_more P")
    case True
    have "pulled g s0 c0 m t (vc_cursor P) (b \<or> vc_reset P) items' removed'"
      using step Cons.prems(3) by (intro pulled_advance [OF _ _ assms(5) ok(1,3) assms(6), of "vc_cursor P"]) auto
    moreover have "pull_loop (map (serve g) (t # ts)) (vc_cursor P) (b \<or> vc_reset P) (items', removed') = Some res"
      using run True by (simp only: if_True)
    moreover have "sorted_wrt advances (t # ts)" using Cons.prems(3) by simp
    ultimately obtain ch u items'' removed'' where "res = Inr ch" "u \<in> set (t # ts)" "vc_cursor ch = VAULT_SEQ u g"
      "vc_items ch = map snd items''" "vc_removed ch = removed''" "pulled g s0 c0 m u (vc_cursor ch) (vc_reset ch) items'' removed''"
      using Cons.IH Cons.prems(4) by (metis list.set_intros(2))
    then show ?thesis by (intro exI [of _ ch] exI [of _ u]) auto
  next
    case False
    with run have "res = Inr \<lparr>vc_items = map snd items', vc_removed = removed', vc_cursor = vc_cursor P,
           vc_more = False, vc_reset = b \<or> vc_reset P, vc_usage = vc_usage P\<rparr>" by simp
    with False step show ?thesis
      by (intro exI [of _ "the (case res of Inr x \<Rightarrow> Some x | _ \<Rightarrow> None)"] exI [of _ s] exI [of _ items'] exI [of _ removed']) auto
  qed
next
  case (Nil s c b items removed)
  define P where "P = changes_since g c (b \<and> 0 < c) s"
  obtain items' removed' where f: "fold_page P (items, removed) = (items', removed')" by fastforce
  have ok: "seqs_ok s" using Nil.prems(4) by auto
  from Nil.prems(1) [unfolded pull_loop_serve [OF P_def f]] have "\<not> vc_more P"
    "res = Inr \<lparr>vc_items = map snd items', vc_removed = removed', vc_cursor = vc_cursor P,
           vc_more = False, vc_reset = b \<or> vc_reset P, vc_usage = vc_usage P\<rparr>" by (simp_all split: if_splits)
  with pull_step [OF Nil.prems(2) ok P_def f] show ?case by auto
qed

section \<open>Applying the answer\<close>

lemma find_map_of:
  "distinct (map fst kvs) \<Longrightarrow> \<forall>(i, it) \<in> set kvs. vi_id it = i \<Longrightarrow> find (\<lambda>it. vi_id it = i) (map snd kvs) = map_of kvs i"
  by (induction kvs) auto

lemma vaultItem_iff:
  assumes "seqs_ok s"
  shows "vaultItem s g i = Some it \<longleftrightarrow> (\<exists>r \<in> set (vault_items s). v_key r = (g, i) \<and> live r \<and> it = item_of r)"
proof
  assume "vaultItem s g i = Some it"
  then obtain r where "vault_row_of s g i = Some r" "it = item_of r" by (auto simp: vaultItem_def)
  with vault_row_of_Some show "\<exists>r \<in> set (vault_items s). v_key r = (g, i) \<and> live r \<and> it = item_of r" by blast
next
  assume "\<exists>r \<in> set (vault_items s). v_key r = (g, i) \<and> live r \<and> it = item_of r"
  then obtain r where "r \<in> set (vault_items s)" "v_key r = (g, i)" "live r" "it = item_of r" by blast
  then have "vault_row_of s g i = Some r" by (intro vault_row_of_unique [OF seqs_okD(3) [OF assms]])
  with \<open>it = item_of r\<close> show "vaultItem s g i = Some it" by (simp add: vaultItem_def)
qed

lemma vaultItem_none:
  assumes "seqs_ok s"
  shows "vaultItem s g i = None \<longleftrightarrow> (\<forall>r \<in> set (vault_items s). v_key r = (g, i) \<longrightarrow> \<not> live r)"
  using vaultItem_iff [OF assms, of g i] by (metis not_None_eq)

lemma pulled_applied:
  assumes p: "pulled g s0 c0 m s (vc_cursor ch) (vc_reset ch) items removed" and ok: "seqs_ok s" "seqs_ok s0"
    and ch: "vc_cursor ch = VAULT_SEQ s g" "vc_items ch = map snd items" "vc_removed ch = removed"
    and copy: "copy_ok g s0 c0 m"
  shows "map_of (applyVaultChanges m ch) i = vaultItem s g i"
proof -
  let ?b = "vc_reset ch" and ?c = "VAULT_SEQ s g"
  have f: "folded g c0 s ?c ?b items removed" and k: "kept g s0 s ?c ?b items"
    and u: "?b \<or> untouched g c0 s items removed \<and> accounted g m s ?c removed" and d: "distinct (map fst items)"
    and adv0: "advances s0 s"
    using p by (auto simp: pulled_def ch(1))
  note floor = seqs_ok_counter(2) [OF ok(1), of g]
  have ids: "\<forall>(i, it) \<in> set items. vi_id it = i" using k d by (auto simp: kept_def)
  then have "map vi_id (map snd items) = map fst items" by (auto simp: case_prod_beta)
  then have dist: "distinct (map vi_id (map snd items))" using d by (simp only:)
  define base where "base = (if ?b \<or> i \<in> set removed then None else map_of m i)"
  have base: "map_of (fold AList.delete removed (if ?b then [] else m)) i = base" by (simp add: fold_delete_records base_def)
  have res: "map_of (applyVaultChanges m ch) i = (case map_of items i of None \<Rightarrow> base
    | Some it \<Rightarrow> (case base of Some k \<Rightarrow> if vi_seq it < vi_seq k then Some k else Some it | None \<Rightarrow> Some it))"
    by (simp only: applyVaultChanges_def ch(2,3) fold_newer [OF dist] find_map_of [OF d ids] base)
  show ?thesis
  proof (cases "\<exists>r \<in> set (vault_items s). v_key r = (g, i)")
    case True
    then obtain r where r: "r \<in> set (vault_items s)" "v_key r = (g, i)" by blast
    have le: "v_seq r \<le> ?c" using seqs_okD(2) [OF ok(1) r(1)] r(2) by simp
    have item: "vaultItem s g i = (if live r then Some (item_of r) else None)"
    proof (cases "live r")
      case True
      with r have "vaultItem s g i = Some (item_of r)" unfolding vaultItem_iff [OF ok(1)] by blast
      with True show ?thesis by simp
    next
      case False
      with r pk_unique [OF seqs_okD(3) [OF ok(1)] r(1)] have "vaultItem s g i = None" unfolding vaultItem_none [OF ok(1)] by metis
      with False show ?thesis by simp
    qed
    show ?thesis
    proof (cases "?b \<or> c0 < v_seq r")
      case True
      from f r le True have items: "map_of items i = (if live r then Some (item_of r) else None)" "?b \<or> live r \<or> i \<in> set removed"
        by (auto simp: folded_def)
      have "base = None \<or> (\<exists>k. base = Some k \<and> vi_seq k \<le> v_seq r)"
      proof (cases base)
        case (Some k)
        then have b: "\<not> ?b" "map_of m i = Some k" by (auto simp: base_def split: if_splits)
        have "vi_seq k \<le> v_seq r"
        proof (cases "r \<in> set (vault_items s0)")
          case True
          with copy b(2) r(2) show ?thesis by (auto simp: copy_ok_def)
        next
          case False
          with adv0 r have "VAULT_SEQ s0 g < v_seq r" using advancesD(3) by fastforce
          moreover have "vi_seq k \<le> VAULT_SEQ s0 g" using copy b(2) by (auto simp: copy_ok_def)
          ultimately show ?thesis by simp
        qed
        with Some show ?thesis by blast
      qed simp
      then show ?thesis using items item unfolding res by (auto simp: item_of_def base_def)
    next
      case False
      then have "?b = False" "v_seq r \<le> c0" by auto
      have "r \<in> set (vault_items s0)"
        using advancesD(3) [OF adv0 r(1)] copy r(2) False by (auto simp: copy_ok_def)
      with copy r False have "map_of m i = (if live r then Some (item_of r) else None)" by (auto simp: copy_ok_def)
      moreover have "i \<notin> set removed" "map_of items i = None" using u r False by (auto simp: untouched_def)
      ultimately show ?thesis using False item unfolding res base_def by simp
    qed
  next
    case False
    then have none: "vaultItem s g i = None" by (simp add: vaultItem_none [OF ok(1)]) blast
    moreover have "map_of items i = None" using k False floor unfolding kept_def by (meson not_Some_eq not_le)
    moreover have "base = None" using u False floor unfolding accounted_def base_def by auto
    ultimately show ?thesis by (simp add: res)
  qed
qed


text \<open>A copy that is exactly what the server has, with the server's number as its cursor.\<close>

lemma copy_ok_exact:
  assumes ok: "seqs_ok s" and m: "map_of m = vaultItem s g"
  shows "copy_ok g s (VAULT_SEQ s g) m"
  unfolding copy_ok_def
proof (intro conjI ballI impI allI)
  show "0 \<le> VAULT_SEQ s g" by (rule seqs_ok_counter(1) [OF ok])
  show "VAULT_SEQ s g \<le> VAULT_SEQ s g" ..
next
  fix r assume r: "r \<in> set (vault_items s)" "v_group_id r = g"
  show "map_of m (v_id r) = (if live r then Some (item_of r) else None)"
  proof (cases "live r")
    case True
    with r have "vaultItem s g (v_id r) = Some (item_of r)" unfolding vaultItem_iff [OF ok] by blast
    with True m show ?thesis by simp
  next
    case False
    with r pk_unique [OF seqs_okD(3) [OF ok] r(1)] have "vaultItem s g (v_id r) = None" unfolding vaultItem_none [OF ok] by force
    with False m show ?thesis by simp
  qed
next
  fix i k assume "map_of m i = Some k"
  then obtain r where r: "r \<in> set (vault_items s)" "v_key r = (g, i)" "k = item_of r"
    unfolding m vaultItem_iff [OF ok] by blast
  have seq: "vi_seq k = v_seq r" by (simp add: r(3) item_of_def)
  show "vi_seq k \<le> VAULT_SEQ s g" using seqs_okD(2) [OF ok r(1)] r(2) seq by simp
  show "VAULT_SEQ s g < vault_floor_of s g \<or> (\<exists>r \<in> set (vault_items s). v_key r = (g, i))" using r by blast
  fix x assume "x \<in> set (vault_items s)" "v_key x = (g, i)"
  with pk_unique [OF seqs_okD(3) [OF ok] r(1), of x] r(2) seq show "vi_seq k \<le> v_seq x" by simp
qed

text \<open>What the server does afterwards does not spoil a copy: it is only behind.\<close>

lemma copy_ok_advances:
  assumes copy: "copy_ok g s c m" and adv: "advances s t" and ok: "seqs_ok s"
  shows "copy_ok g t c m"
proof -
  note mono = advancesD(1,2) [OF adv, of g]
  have c: "0 \<le> c" "c \<le> VAULT_SEQ s g" using copy by (simp_all add: copy_ok_def)
  have held: "vi_seq k \<le> VAULT_SEQ s g \<and> (\<forall>r \<in> set (vault_items s). v_key r = (g, i) \<longrightarrow> vi_seq k \<le> v_seq r)
      \<and> (c < vault_floor_of s g \<or> (\<exists>r \<in> set (vault_items s). v_key r = (g, i)))" if "map_of m i = Some k" for i k
    using copy that unfolding copy_ok_def by blast
  show ?thesis
    unfolding copy_ok_def
  proof (intro conjI ballI impI allI)
    show "0 \<le> c" "c \<le> VAULT_SEQ t g" using c mono(1) by simp_all
  next
    fix r assume r: "r \<in> set (vault_items t)" "v_group_id r = g" "v_seq r \<le> c"
    with advancesD(3) [OF adv r(1)] c have "r \<in> set (vault_items s)" by auto
    with copy r show "map_of m (v_id r) = (if live r then Some (item_of r) else None)" by (auto simp: copy_ok_def)
  next
    fix i k assume k: "map_of m i = Some k"
    note held = held [OF k]
    show "vi_seq k \<le> VAULT_SEQ t g" using held mono(1) by simp
    show "vi_seq k \<le> v_seq x" if "x \<in> set (vault_items t)" "v_key x = (g, i)" for x
      using advancesD(3) [OF adv that(1)] that held by fastforce
    show "c < vault_floor_of t g \<or> (\<exists>r \<in> set (vault_items t). v_key r = (g, i))"
    proof (cases "c < vault_floor_of s g")
      case False
      with held obtain r where r: "r \<in> set (vault_items s)" "v_key r = (g, i)" by blast
      from advances_row [OF adv ok r] show ?thesis
      proof cases
        case 2
        have "live r \<or> c < v_seq r" using copy_record_live [OF copy r, of] k by force
        with 2 c(2) show ?thesis by (auto split: if_splits)
      qed blast
    qed (use mono(2) in simp)
  qed
qed

section \<open>The pull ends\<close>

definition newer :: "string \<Rightarrow> int \<Rightarrow> env \<Rightarrow> vault_row set" where
  "newer g c s = {r \<in> set (vault_items s). v_group_id r = g \<and> c < v_seq r}"

lemma page_shrinks:
  assumes "is_page g s c P page" and "vc_more P"
  shows "card (newer g (vc_cursor P) s) + VAULT_PAGE_SIZE = card (newer g c s)" and "c < vc_cursor P"
proof -
  have mem: "r \<in> set page \<longleftrightarrow> r \<in> newer g c s \<and> v_seq r \<le> vc_cursor P" for r
    using assms(1) by (auto simp: is_page_def newer_def)
  have fin: "finite (newer g c s)" by (simp add: newer_def)
  have len: "card (set page) = VAULT_PAGE_SIZE" "page \<noteq> []"
    using assms by (auto simp: is_page_def distinct_map distinct_card VAULT_PAGE_SIZE_def)
  show "c < vc_cursor P" using mem [of "hd page"] len(2) by (auto simp: newer_def)
  then have "newer g (vc_cursor P) s = newer g c s - set page"
    unfolding set_eq_iff Diff_iff mem by (auto simp: newer_def)
  moreover have sub: "set page \<subseteq> newer g c s" using mem by blast
  ultimately have "card (newer g (vc_cursor P) s) = card (newer g c s) - card (set page)" by (simp add: card_Diff_subset)
  then show "card (newer g (vc_cursor P) s) + VAULT_PAGE_SIZE = card (newer g c s)"
    using card_mono [OF fin sub] len(1) by simp
qed

lemma pull_loop_ends:
  assumes "seqs_ok s" and "0 \<le> c" and "b \<or> 0 < c"
    and "card (newer g (if \<not> b \<and> c < vault_floor_of s g then 0 else c) s) < VAULT_PAGE_SIZE * n"
  shows "\<exists>ch. pull_loop (replicate n (serve g s)) c b acc = Some (Inr ch)"
  using assms(2-4)
proof (induction n arbitrary: c b acc)
  case (Suc n)
  define P where "P = changes_since g c (b \<and> 0 < c) s"
  obtain items removed where f: "fold_page P acc = (items, removed)" by fastforce
  obtain page where pg: "is_page g s (if vc_reset P then 0 else c) P page"
    and r: "vc_reset P \<longleftrightarrow> \<not> (b \<and> 0 < c) \<and> 0 < c \<and> c < vault_floor_of s g"
    using changes_page [OF assms(1) Suc.prems(1)] unfolding P_def by metis
  have r': "vc_reset P \<longleftrightarrow> \<not> b \<and> c < vault_floor_of s g" using r Suc.prems(2) by auto
  have rep: "replicate (Suc n) (serve g s) = map (serve g) (s # replicate n s)" by simp
  note run = pull_loop_serve [OF P_def f, of "replicate n s", folded rep, unfolded map_replicate]
  show ?case
  proof (cases "vc_more P")
    case True
    let ?b = "b \<or> vc_reset P"
    note shrink = page_shrinks [OF pg True]
    have c: "0 < vc_cursor P" "c \<le> vc_cursor P \<or> ?b" using shrink(2) Suc.prems(1) by (auto split: if_splits)
    have "\<not> (\<not> ?b \<and> vc_cursor P < vault_floor_of s g)" using c(2) r' by auto
    moreover have "card (newer g (vc_cursor P) s) < VAULT_PAGE_SIZE * n"
      using shrink(1) Suc.prems(3) unfolding r' [symmetric] by simp
    ultimately have "card (newer g (if \<not> ?b \<and> vc_cursor P < vault_floor_of s g then 0 else vc_cursor P) s) < VAULT_PAGE_SIZE * n"
      by (simp only: if_False)
    then have "\<exists>ch. pull_loop (replicate n (serve g s)) (vc_cursor P) ?b (items, removed) = Some (Inr ch)"
      using c(1) by (intro Suc.IH) simp_all
    with True show ?thesis unfolding run by (simp only: if_True)
  qed (simp only: run if_False, blast)
qed simp


section \<open>Properties\<close>

lemma pull_applied:
  assumes "copy_ok g s c m" and "sorted_wrt advances (s # ss)"
    and "\<forall>t \<in> set (s # ss). seqs_ok t \<and> vault_floor_of t g \<le> VAULT_SEQ s g"
    and "pullVaultChanges (map (serve g) (s # ss)) c = Some res"
  obtains ch t where "res = Inr ch" "t \<in> set (s # ss)" "vc_cursor ch = VAULT_SEQ t g"
    "map_of (applyVaultChanges m ch) = vaultItem t g" "seqs_ok t"
proof -
  have ok: "seqs_ok s" using assms(3) by simp
  from pull_loop_copy [OF assms(4) [unfolded pullVaultChanges_def] pulled_start [OF assms(1) ok] assms(2,3) ok assms(1)]
  obtain ch t items removed where ch: "res = Inr ch" "t \<in> set (s # ss)" "vc_cursor ch = VAULT_SEQ t g"
    "vc_items ch = map snd items" "vc_removed ch = removed" "pulled g s c m t (vc_cursor ch) (vc_reset ch) items removed"
    by blast
  have t: "seqs_ok t" using assms(3) ch(2) by blast
  have "map_of (applyVaultChanges m ch) = vaultItem t g"
    by (rule ext) (rule pulled_applied [OF ch(6) t ok ch(3-5) assms(1)])
  with ch(1-3) t that show thesis by blast
qed

text \<open>C20. Syncing refines the server. A device that pulls and applies, while other devices go on
  changing the vault between the pages, ends up with exactly the live items the space had when
  the last page was read, and with the number they had reached as its cursor; whatever the server
  does after, its copy stays a sound starting point for the next pull. Assumed: the
  pull does not last until tombstones made during it are forgotten (\<open>VAULT_TOMBSTONE_TTL_MS\<close>).\<close>

theorem pull_then_apply_exact:
  assumes "copy_ok g s c m" and "sorted_wrt advances (s # ss)"
    and "\<forall>t \<in> set (s # ss). seqs_ok t \<and> vault_floor_of t g \<le> VAULT_SEQ s g"
    and "pullVaultChanges (map (serve g) (s # ss)) c = Some res"
  shows "\<exists>ch t. res = Inr ch \<and> t \<in> set (s # ss) \<and> vc_cursor ch = VAULT_SEQ t g
    \<and> map_of (applyVaultChanges m ch) = vaultItem t g
    \<and> (\<forall>u. advances t u \<longrightarrow> copy_ok g u (vc_cursor ch) (applyVaultChanges m ch))"
proof -
  from pull_applied [OF assms] obtain ch t where ch: "res = Inr ch" "t \<in> set (s # ss)" "vc_cursor ch = VAULT_SEQ t g"
    "map_of (applyVaultChanges m ch) = vaultItem t g" "seqs_ok t" .
  have "copy_ok g u (vc_cursor ch) (applyVaultChanges m ch)" if "advances t u" for u
    unfolding ch(3) by (rule copy_ok_advances [OF copy_ok_exact [OF ch(5,4)] that ch(5)])
  with ch(1-4) show ?thesis by blast
qed

text \<open>C21. A sync ends. When nothing changes meanwhile, as many requests as the space has full pages
  of rows, and one more, bring the whole answer, a reset included, and applying it leaves exactly
  the live items.\<close>

theorem pull_ends:
  assumes "seqs_ok s" and "copy_ok g s c m"
  shows "\<exists>ch. pullVaultChanges (replicate (Suc (length (vault_items s) div VAULT_PAGE_SIZE)) (serve g s)) c = Some (Inr ch)
    \<and> map_of (applyVaultChanges m ch) = vaultItem s g"
proof -
  let ?k = "length (vault_items s) div VAULT_PAGE_SIZE"
  have "card (newer g k s) \<le> length (vault_items s)" for k
    by (rule order_trans [OF card_mono card_length]) (auto simp: newer_def)
  moreover have "length (vault_items s) < VAULT_PAGE_SIZE * Suc ?k"
    using dividend_less_times_div [of VAULT_PAGE_SIZE "length (vault_items s)"] by (simp add: VAULT_PAGE_SIZE_def)
  ultimately have few: "card (newer g k s) < VAULT_PAGE_SIZE * Suc ?k" for k by (meson le_less_trans)
  have c: "0 \<le> c" using assms(2) by (simp add: copy_ok_def)
  from c have "c = 0 \<or> 0 < c" by linarith
  from pull_loop_ends [OF assms(1) c this few, of "([], [])", folded pullVaultChanges_def] obtain ch where
    ch: "pullVaultChanges (replicate (Suc ?k) (serve g s)) c = Some (Inr ch)" ..
  then have "pullVaultChanges (map (serve g) (s # replicate ?k s)) c = Some (Inr ch)" by simp
  moreover have "sorted_wrt advances (s # replicate n s)" for n by (induction n) auto
  ultimately obtain t where "t \<in> set (s # replicate ?k s)"
    "map_of (applyVaultChanges m ch) = vaultItem t g"
    using pull_applied [OF assms(2), of "replicate ?k s"] assms(1) seqs_ok_counter(2) [OF assms(1)]
    by (metis (no_types, lifting) Inr_inject in_set_replicate set_ConsD)
  moreover from this(1) have "t = s" by (auto split: if_splits)
  ultimately show ?thesis using ch by blast
qed

section \<open>At a concrete input\<close>

text \<open>A device that saw nothing yet pulls the sample vault.\<close>

definition first_pull :: "(failure + VaultChangesResponse) option" where
  "first_pull = pullVaultChanges [serve ''g'' vault_env] 0"

lemma empty_copy_ok: "seqs_ok s \<Longrightarrow> vault_floor_of s g = 0 \<Longrightarrow> copy_ok g s 0 []"
  using seqs_ok_counter(1) [of s g] by (auto simp: copy_ok_def dest: seqs_okD(1))

theorem pull_then_apply_exact_witness:
  "map_option (map_sum id (\<lambda>ch. (vc_cursor ch, map fst (applyVaultChanges [] ch)))) first_pull = Some (Inr (3, [''f'', ''n'', ''o'']))
   \<and> (\<exists>ch. first_pull = Some (Inr ch) \<and> map_of (applyVaultChanges [] ch) = vaultItem vault_env ''g'')"
proof -
  have e: "map_option (map_sum id (\<lambda>ch. (vc_cursor ch, map fst (applyVaultChanges [] ch)))) first_pull
      = Some (Inr (3, [''f'', ''n'', ''o'']))" by code_simp
  then obtain res where res: "first_pull = Some res" by (cases first_pull) auto
  have fl: "vault_floor_of vault_env ''g'' = 0" "VAULT_SEQ vault_env ''g'' = 3" by code_simp+
  from pull_then_apply_exact [OF empty_copy_ok [OF vault_env_ok(1) fl(1)], of "[]" res] res fl vault_env_ok(1)
  have "\<exists>ch. res = Inr ch \<and> map_of (applyVaultChanges [] ch) = vaultItem vault_env ''g''"
    by (auto simp: first_pull_def)
  with e res show ?thesis by blast
qed

theorem pull_ends_witness:
  "\<exists>ch. pullVaultChanges (replicate (Suc (length (vault_items vault_env) div VAULT_PAGE_SIZE)) (serve ''g'' vault_env)) 0 = Some (Inr ch)
    \<and> map_of (applyVaultChanges [] ch) = vaultItem vault_env ''g''"
proof -
  have "vault_floor_of vault_env ''g'' = 0" by code_simp
  from pull_ends [OF vault_env_ok(1) empty_copy_ok [OF vault_env_ok(1) this]] show ?thesis .
qed

end
