(* ===== verification/VaultTree.thy ===== *)
theory VaultTree
  imports VaultSync
begin

text \<open>
  What a device computes from its copy of the vault (packages/client/src/vault.ts): which items
  show, the path to a folder, the subtree a folder may not be moved into, and what a note is
  called in a list. The lemmas compare them with the server's own notions on the rows: the
  subtree is the one the server guards a move with, and an item shows when nothing above it is in
  the trash.
\<close>

section \<open>The text of a note\<close>

definition EXCERPT_LENGTH :: nat where "EXCERPT_LENGTH = 160"

text \<open>\<open>replace(/\s+/g, " ")\<close>: every run of white space becomes one space.\<close>

function squeeze :: "string \<Rightarrow> string" where
  "squeeze [] = []"
| "squeeze (c # cs) = (if is_space c then CHR '' '' # squeeze (dropWhile is_space cs) else c # squeeze cs)"
  by pat_completeness auto
termination by (relation "measure length") (auto simp: le_imp_less_Suc length_dropWhile_le)

definition noteExcerpt :: "string \<Rightarrow> string" where
  "noteExcerpt t = take EXCERPT_LENGTH (trim (squeeze t))"

definition noteTitle :: "string \<Rightarrow> string \<Rightarrow> string" where
  "noteTitle title t =
     (let named = trim title; firstLine = trim (takeWhile (\<lambda>c. c \<noteq> CHR 0x0A) (trim t)) in
      if named \<noteq> [] then named
      else if take 80 firstLine = [] then ''Untitled note'' else take 80 firstLine)"

section \<open>The tree\<close>

fun visible_from :: "nat \<Rightarrow> records \<Rightarrow> VaultItemRecord option \<Rightarrow> bool" where
  "visible_from 0 m current = False"
| "visible_from (Suc n) m None = False"
| "visible_from (Suc n) m (Some r) =
     (if vi_trashedAt r \<noteq> None then False
      else case vi_parentId r of None \<Rightarrow> True | Some p \<Rightarrow> visible_from n m (map_of m p))"

definition isVaultItemVisible :: "records \<Rightarrow> VaultItemRecord \<Rightarrow> bool" where
  "isVaultItemVisible m r = visible_from 256 m (Some r)"

fun path_up :: "nat \<Rightarrow> records \<Rightarrow> VaultItemRecord option \<Rightarrow> VaultItemRecord list \<Rightarrow> VaultItemRecord list" where
  "path_up 0 m current path = path"
| "path_up (Suc n) m None path = path"
| "path_up (Suc n) m (Some r) path =
     path_up n m (if truthy (vi_parentId r) then map_of m (the (vi_parentId r)) else None) (r # path)"

definition vaultPath :: "records \<Rightarrow> string option \<Rightarrow> VaultItemRecord list" where
  "vaultPath m folderId = path_up 256 m (if truthy folderId then map_of m (the folderId) else None) []"

definition grow_one :: "VaultItemRecord \<Rightarrow> string list \<times> bool \<Rightarrow> string list \<times> bool" where
  "grow_one r acc =
     (if truthy (vi_parentId r) \<and> the (vi_parentId r) \<in> set (fst acc) \<and> vi_id r \<notin> set (fst acc)
      then (fst acc @ [vi_id r], True) else acc)"

text \<open>A pass that grows takes in one more record, so there are no more passes than records, and one.\<close>

fun grow_loop :: "nat \<Rightarrow> VaultItemRecord list \<Rightarrow> string list \<Rightarrow> string list" where
  "grow_loop 0 rs subtree = subtree"
| "grow_loop (Suc n) rs subtree =
     (let (subtree', grew) = fold grow_one rs (subtree, False) in
      if grew then grow_loop n rs subtree' else subtree')"

definition vaultSubtree :: "records \<Rightarrow> string \<Rightarrow> string list" where
  "vaultSubtree m folderId = grow_loop (Suc (length m)) (map snd m) [folderId]"

section \<open>The subtree\<close>

text \<open>Reachable through the records of the copy.\<close>

inductive under :: "VaultItemRecord list \<Rightarrow> string \<Rightarrow> string \<Rightarrow> bool" for rs f where
  under_self: "under rs f f"
| under_child: "under rs f p \<Longrightarrow> r \<in> set rs \<Longrightarrow> vi_parentId r = Some p \<Longrightarrow> p \<noteq> [] \<Longrightarrow> under rs f (vi_id r)"

lemma grow_fold_under:
  assumes "fold grow_one rs' (a, g0) = (b, g1)" and "set rs' \<subseteq> set rs" and "\<forall>j \<in> set a. under rs f j"
  shows "\<forall>j \<in> set b. under rs f j"
  using assms
proof (induction rs' arbitrary: a g0)
  case (Cons r rs')
  obtain a' g' where step: "grow_one r (a, g0) = (a', g')" by fastforce
  have "under rs f (vi_id r)" if "truthy (vi_parentId r)" "the (vi_parentId r) \<in> set a"
    using under_child [of rs f "the (vi_parentId r)" r] that Cons.prems(2,3) by (auto simp: truthy_def)
  with step Cons.prems(3) have "\<forall>j \<in> set a'. under rs f j" by (auto simp: grow_one_def split: if_splits)
  with Cons.IH [of a' g'] Cons.prems(1,2) step show ?case by simp
qed simp

lemma grow_fold:
  assumes "fold grow_one rs' (a, g0) = (b, g1)"
  shows "set a \<subseteq> set b \<and> (g0 \<longrightarrow> g1) \<and> (\<not> g1 \<longrightarrow> b = a) \<and> (distinct a \<longrightarrow> distinct b)
    \<and> length a \<le> length b \<and> (g1 \<and> \<not> g0 \<longrightarrow> length a < length b)
    \<and> set b \<subseteq> set a \<union> vi_id ` set rs'
    \<and> (\<not> g1 \<longrightarrow> (\<forall>r \<in> set rs'. truthy (vi_parentId r) \<longrightarrow> the (vi_parentId r) \<in> set a \<longrightarrow> vi_id r \<in> set a))"
  using assms
proof (induction rs' arbitrary: a g0)
  case (Cons r rs')
  let ?c = "truthy (vi_parentId r) \<and> the (vi_parentId r) \<in> set a \<and> vi_id r \<notin> set a"
  show ?case
  proof (cases ?c)
    case True
    then have "grow_one r (a, g0) = (a @ [vi_id r], True)" by (simp add: grow_one_def)
    with Cons.prems(1) have "fold grow_one rs' (a @ [vi_id r], True) = (b, g1)" by simp
    note ih = Cons.IH [OF this]
    with ih True show ?thesis by auto
  next
    case False
    then have "grow_one r (a, g0) = (a, g0)" unfolding grow_one_def fst_conv by (rule if_not_P)
    with Cons.prems(1) have "fold grow_one rs' (a, g0) = (b, g1)" by simp
    with Cons.IH [OF this] False show ?thesis by auto
  qed
qed simp

lemma grow_loop_correct:
  assumes "distinct a" and "set a \<subseteq> insert f (vi_id ` set rs)" and "f \<in> set a" and "\<forall>j \<in> set a. under rs f j"
    and "length rs + 1 < n + length a"
  shows "j \<in> set (grow_loop n rs a) \<longleftrightarrow> under rs f j"
  using assms
proof (induction n arbitrary: a)
  case 0
  have "length a = card (set a)" using 0 by (simp add: distinct_card)
  also have "\<dots> \<le> card (insert f (vi_id ` set rs))" by (rule card_mono) (use 0 in auto)
  also have "\<dots> \<le> Suc (card (vi_id ` set rs))" by (simp add: card_insert_if)
  also have "\<dots> \<le> Suc (length rs)" by (simp add: le_trans [OF card_image_le card_length])
  finally show ?case using 0 by simp
next
  case (Suc n)
  obtain b g1 where f: "fold grow_one rs (a, False) = (b, g1)" by fastforce
  note facts = grow_fold [OF f] grow_fold_under [OF f subset_refl Suc.prems(4)]
  show ?case
  proof (cases g1)
    case True
    with f have "grow_loop (Suc n) rs a = grow_loop n rs b" by simp
    moreover have "length a < length b" using facts True by simp
    moreover have "j \<in> set (grow_loop n rs b) \<longleftrightarrow> under rs f j"
      by (rule Suc.IH) (use Suc.prems facts \<open>length a < length b\<close> in auto)
    ultimately show ?thesis by simp
  next
    case False
    with f facts have "grow_loop (Suc n) rs a = a" by simp
    moreover have "under rs f j \<Longrightarrow> j \<in> set a"
    proof (induction rule: under.induct)
      case (under_child p r)
      with facts False show ?case by (auto simp: truthy_def)
    qed (rule Suc.prems(3))
    ultimately show ?thesis using Suc.prems(4) by auto
  qed
qed

lemma vaultSubtree_iff: "j \<in> set (vaultSubtree m f) \<longleftrightarrow> under (map snd m) f j"
  unfolding vaultSubtree_def by (rule grow_loop_correct) (auto intro: under_self)


section \<open>An exact copy\<close>

definition exact_copy :: "string \<Rightarrow> env \<Rightarrow> records \<Rightarrow> bool" where
  "exact_copy g s m \<longleftrightarrow> map_of m = vaultItem s g \<and> distinct (map fst m)
     \<and> (\<forall>r \<in> set (vault_items s). v_parent_id r \<noteq> Some [])"

lemma exact_copy_record:
  assumes "exact_copy g s m" and "vault_inv s"
  shows "it \<in> set (map snd m) \<longleftrightarrow> (\<exists>r \<in> set (vault_items s). v_group_id r = g \<and> live r \<and> it = item_of r)"
proof -
  have ok: "seqs_ok s" using assms(2) by (simp add: vault_inv_def)
  have "distinct (map fst m)" using assms(1) by (simp add: exact_copy_def)
  then have "it \<in> set (map snd m) \<longleftrightarrow> (\<exists>i. map_of m i = Some it)" by (auto simp: image_iff intro: bexI [rotated])
  then show ?thesis using assms(1) vaultItem_iff [OF ok] by (auto simp: exact_copy_def)
qed

lemma live_parent:
  assumes "vault_inv s" and "r \<in> set (vault_items s)" and "live r" and "v_parent_id r = Some p"
  obtains f where "f \<in> set (vault_items s)" "v_key f = (v_group_id r, p)" "live f"
    "rooted (vault_items s) (v_group_id r) p"
proof -
  have pk: "pk v_key (vault_items s)" using assms(1) by (simp add: vault_inv_def seqs_ok_def)
  from assms(1-3) have "rooted (vault_items s) (v_group_id r) (v_id r)" by (simp add: vault_inv_def forest_def)
  then show thesis
  proof (cases rule: rooted.cases)
    case (rooted_top x)
    then have "x = r" by (intro pk_unique [OF pk _ assms(2)]) simp_all
    with rooted_top(5) assms(4) show thesis by simp
  next
    case (rooted_in q f x)
    then have "x = r" by (intro pk_unique [OF pk _ assms(2)]) simp_all
    with rooted_in(10) assms(4) have "p = q" by simp
    from that [OF rooted_in(3)] rooted_in(2,4,6) show thesis unfolding \<open>p = q\<close> by blast
  qed
qed

lemma under_below:
  assumes "exact_copy g s m" and "vault_inv s"
  shows "under (map snd m) f j \<Longrightarrow> below g (vault_items s) f j"
proof (induction rule: under.induct)
  case (under_child p it)
  then obtain r where "r \<in> set (vault_items s)" "v_group_id r = g" "it = item_of r"
    using exact_copy_record [OF assms] by blast
  with under_child below_child [of g "vault_items s" f p r] show ?case by (simp add: item_of_def)
qed (rule below_self)

lemma below_under:
  assumes "exact_copy g s m" and "vault_inv s"
  shows "below g (vault_items s) f j \<Longrightarrow> vaultItem s g j \<noteq> None \<Longrightarrow> under (map snd m) f j"
proof (induction rule: below.induct)
  case (below_child p r)
  have ok: "seqs_ok s" using assms(2) by (simp add: vault_inv_def)
  from below_child.prems obtain x where x: "x \<in> set (vault_items s)" "v_key x = (g, v_id r)" "live x"
    using vaultItem_iff [OF ok] by blast
  with pk_unique [OF seqs_okD(3) [OF ok] x(1) below_child.hyps(2)] below_child.hyps(3) have r: "live r" by simp
  from live_parent [OF assms(2) below_child.hyps(2) r below_child.hyps(4)] below_child.hyps(3)
  obtain y where "y \<in> set (vault_items s)" "v_key y = (g, p)" "live y" by metis
  then have "vaultItem s g p \<noteq> None" unfolding vaultItem_none [OF ok] by blast
  then have p: "under (map snd m) f p" by (rule below_child.IH)
  have "item_of r \<in> set (map snd m)"
    unfolding exact_copy_record [OF assms] using r below_child.hyps by blast
  moreover have "p \<noteq> []" using assms(1) below_child.hyps by (auto simp: exact_copy_def)
  ultimately have "under (map snd m) f (vi_id (item_of r))"
    using p below_child.hyps(4) by (intro under_child [of _ f p]) (simp_all add: item_of_def)
  then show ?case by (simp add: item_of_def)
qed (rule under_self)

text \<open>The path of an item, and what the two walks up the tree make of it.\<close>

definition path_of :: "string \<Rightarrow> env \<Rightarrow> string \<Rightarrow> VaultItemRecord list \<Rightarrow> bool" where
  "path_of g s i p \<longleftrightarrow> p \<noteq> [] \<and> vaultItem s g i = Some (last p) \<and> vi_parentId (hd p) = None
     \<and> successively (\<lambda>a b. vi_parentId b = Some (vi_id a)) p
     \<and> vi_id ` set p = {j. below g (vault_items s) j i \<and> vaultItem s g j \<noteq> None}"

lemma below_step:
  assumes pk: "pk v_key t" and r: "r \<in> set t" "v_group_id r = g"
  shows "below g t j (v_id r) \<longleftrightarrow> j = v_id r \<or> (\<exists>p. v_parent_id r = Some p \<and> below g t j p)"
proof
  assume "below g t j (v_id r)"
  then show "j = v_id r \<or> (\<exists>p. v_parent_id r = Some p \<and> below g t j p)"
  proof (cases rule: below.cases)
    case (below_child p x)
    with pk_unique [OF pk r(1), of x] r(2) show ?thesis by auto
  qed simp
next
  assume "j = v_id r \<or> (\<exists>p. v_parent_id r = Some p \<and> below g t j p)"
  with below_child [of g t j _ r] r show "below g t j (v_id r)" by (auto intro: below_self)
qed

lemma path_snoc:
  assumes inv: "vault_inv s" and r: "r \<in> set (vault_items s)" "v_group_id r = g" "live r" "v_parent_id r = Some q"
    and p: "path_of g s q p"
  shows "path_of g s (v_id r) (p @ [item_of r])"
proof -
  have ok: "seqs_ok s" using inv by (simp add: vault_inv_def)
  have item: "vaultItem s g (v_id r) = Some (item_of r)" unfolding vaultItem_iff [OF ok] using r by blast
  have "vi_id (last p) = q"
    using p vaultItem_iff [OF ok, of g q "last p"] by (auto simp: path_of_def item_of_def)
  moreover have "{j. below g (vault_items s) j (v_id r) \<and> vaultItem s g j \<noteq> None}
      = insert (v_id r) {j. below g (vault_items s) j q \<and> vaultItem s g j \<noteq> None}"
    using below_step [OF seqs_okD(3) [OF ok] r(1,2)] item r(4) by auto
  ultimately show ?thesis
    using p item r(4) by (auto simp: path_of_def successively_append_iff item_of_def)
qed

lemma path_up_record:
  assumes "map_of m (vi_id it) = Some it" and "vi_parentId it \<noteq> Some []"
  shows "path_up (Suc n) m (Some it) acc = path_up n m (case vi_parentId it of None \<Rightarrow> None | Some q \<Rightarrow> map_of m q) (it # acc)"
  using assms by (simp add: truthy_def split: option.split)

lemma path_exists:
  assumes copy: "exact_copy g s m" and inv: "vault_inv s" and "rooted (vault_items s) g i"
  shows "\<exists>p. path_of g s i p \<and> (\<forall>n acc. path_up n m (Some (last p)) acc = drop (length p - n) p @ acc)
     \<and> (\<forall>n. visible_from n m (Some (last p)) \<longleftrightarrow> length p \<le> n \<and> list_all (\<lambda>x. vi_trashedAt x = None) p)"
  using assms(3)
proof (induction rule: rooted.induct)
  case (rooted_top r)
  have ok: "seqs_ok s" using inv by (simp add: vault_inv_def)
  have item: "vaultItem s g (v_id r) = Some (item_of r)" unfolding vaultItem_iff [OF ok] using rooted_top by blast
  have "below g (vault_items s) j (v_id r) \<longleftrightarrow> j = v_id r" for j
    using below_step [OF seqs_okD(3) [OF ok] rooted_top(1,2)] rooted_top(4) by simp
  then have "path_of g s (v_id r) [item_of r]"
    using item rooted_top(4) by (auto simp: path_of_def item_of_def)
  moreover have "path_up n m (Some (item_of r)) acc = drop (length [item_of r] - n) [item_of r] @ acc" for n acc
    using rooted_top(4) by (cases n; cases "n - 1") (simp_all add: item_of_def truthy_def)
  moreover have "visible_from n m (Some (item_of r)) \<longleftrightarrow> 1 \<le> n \<and> vi_trashedAt (item_of r) = None" for n
    using rooted_top(4) by (cases n) (simp_all add: item_of_def)
  ultimately show ?case by (intro exI [of _ "[item_of r]"]) simp
next
  case (rooted_in q f r)
  then obtain p where p: "path_of g s q p" and up: "\<And>n acc. path_up n m (Some (last p)) acc = drop (length p - n) p @ acc"
    and vis: "\<And>n. visible_from n m (Some (last p)) \<longleftrightarrow> length p \<le> n \<and> list_all (\<lambda>x. vi_trashedAt x = None) p" by blast
  have par: "map_of m q = Some (last p)" "vi_parentId (item_of r) = Some q" "q \<noteq> []"
    using copy p rooted_in.hyps by (auto simp: exact_copy_def path_of_def item_of_def)
  have "path_up n m (Some (item_of r)) acc = drop (length (p @ [item_of r]) - n) (p @ [item_of r]) @ acc" for n acc
    using par up by (cases n) (simp_all add: truthy_def)
  moreover have "visible_from n m (Some (item_of r)) \<longleftrightarrow> length (p @ [item_of r]) \<le> n
      \<and> list_all (\<lambda>x. vi_trashedAt x = None) (p @ [item_of r])" for n
    using par vis by (cases n) auto
  ultimately show ?case
    using path_snoc [OF inv rooted_in.hyps(6-9) p] by (intro exI [of _ "p @ [item_of r]"]) simp
qed

section \<open>Properties\<close>

text \<open>C22. The device and the server agree on what is inside a folder. On an exact copy, the ids
  \<open>vaultSubtree\<close> collects are exactly the live items of the subtree with which the server guards
  a move, though the server also walks through purged folders and the device cannot.\<close>

theorem vaultSubtree_is_SUBTREE:
  assumes "vault_inv s" and "exact_copy g s m" and "vaultItem s g f \<noteq> None"
  shows "set (vaultSubtree m f) = {j \<in> set (SUBTREE g f (vault_items s)). vaultItem s g j \<noteq> None}"
proof -
  have ok: "seqs_ok s" using assms(1) by (simp add: vault_inv_def)
  have "vaultItem s g j \<noteq> None" if "under (map snd m) f j" for j
    using that
  proof (cases rule: under.cases)
    case (under_child p it)
    then obtain r where "r \<in> set (vault_items s)" "v_group_id r = g" "live r" "it = item_of r"
      using exact_copy_record [OF assms(2,1)] by blast
    with under_child show ?thesis unfolding vaultItem_none [OF ok] by (auto simp: item_of_def)
  qed (use assms(3) in simp)
  then show ?thesis
    using under_below [OF assms(2,1)] below_under [OF assms(2,1)] by (auto simp: vaultSubtree_iff subtree_iff)
qed

text \<open>Paths and what shows. On an exact copy, the path of an item that is less than 256 deep
  runs from the root to the item, each entry the parent of the next, through exactly the live
  items it is inside of; and the item shows in the vault when none of those is in the trash.\<close>

theorem path_and_visibility:
  assumes "vault_inv s" and "exact_copy g s m" and "map_of m i = Some it" and "i \<noteq> []"
    and "length (vaultPath m (Some i)) < 256"
  shows "path_of g s i (vaultPath m (Some i))
    \<and> isVaultItemVisible m it = list_all (\<lambda>x. vi_trashedAt x = None) (vaultPath m (Some i))"
proof -
  have ok: "seqs_ok s" using assms(1) by (simp add: vault_inv_def)
  from assms(2,3) obtain r where "r \<in> set (vault_items s)" "v_key r = (g, i)" "live r"
    using vaultItem_iff [OF ok] by (auto simp: exact_copy_def)
  with assms(1) have "rooted (vault_items s) g i" by (auto simp: vault_inv_def forest_def)
  from path_exists [OF assms(2,1) this] obtain p where p: "path_of g s i p"
    and up: "\<And>n acc. path_up n m (Some (last p)) acc = drop (length p - n) p @ acc"
    and vis: "\<And>n. visible_from n m (Some (last p)) \<longleftrightarrow> length p \<le> n \<and> list_all (\<lambda>x. vi_trashedAt x = None) p" by blast
  have it: "it = last p" using assms(2,3) p by (auto simp: exact_copy_def path_of_def)
  have path: "vaultPath m (Some i) = drop (length p - 256) p"
    using up [of 256 "[]"] assms(3,4) it by (simp add: vaultPath_def truthy_def)
  then have "length p \<le> 256" using assms(5) by simp
  with path vis [of 256] p it show ?thesis by (simp add: isVaultItemVisible_def)
qed

section \<open>At a concrete input\<close>

definition sample_copy :: records where
  "sample_copy = map (\<lambda>r. (v_id r, item_of r)) (vault_items vault_env)"

abbreviation note_in_trash :: VaultItemRecord where
  "note_in_trash \<equiv> item_of (sample_item ''g'' ''n'' (Some ''f'') Note 2)"

lemma sample_copy_exact: "exact_copy ''g'' vault_env sample_copy"
proof -
  have "map_of sample_copy i = vaultItem vault_env ''g'' i" for i
    by (simp add: sample_copy_def vaultItem_def vault_row_of_def first_row_def vault_env_def sample_item_def live_def)
  moreover have "distinct (map fst sample_copy)" by code_simp
  ultimately show ?thesis
    by (auto simp: exact_copy_def vault_env_def sample_item_def)
qed

theorem vaultSubtree_is_SUBTREE_witness:
  "vaultSubtree sample_copy ''f'' = [''f'', ''n'']
   \<and> set (vaultSubtree sample_copy ''f'') = {j \<in> set (SUBTREE ''g'' ''f'' (vault_items vault_env)). vaultItem vault_env ''g'' j \<noteq> None}"
proof -
  have "map_option vi_id (vaultItem vault_env ''g'' ''f'') = Some ''f''" by code_simp
  then have "vaultItem vault_env ''g'' ''f'' \<noteq> None" by auto
  note vaultSubtree_is_SUBTREE [OF vault_env_inv sample_copy_exact this]
  moreover have "vaultSubtree sample_copy ''f'' = [''f'', ''n'']" by code_simp
  ultimately show ?thesis by blast
qed

theorem path_and_visibility_witness:
  "path_of ''g'' vault_env ''n'' (vaultPath sample_copy (Some ''n'')) \<and> map vi_id (vaultPath sample_copy (Some ''n'')) = [''f'', ''n'']
   \<and> \<not> isVaultItemVisible sample_copy (item_of (sample_item ''g'' ''n'' (Some ''f'') Note 2))"
proof -
  have p: "map vi_id (vaultPath sample_copy (Some ''n'')) = [''f'', ''n'']" by code_simp
  then have "length (vaultPath sample_copy (Some ''n'')) = 2" using length_map [of vi_id "vaultPath sample_copy (Some ''n'')"] by simp
  moreover have "map_of sample_copy ''n'' = Some note_in_trash"
    by (simp add: sample_copy_def vault_env_def) (simp add: sample_item_def)
  moreover have "\<not> list_all (\<lambda>x. vi_trashedAt x = None) (vaultPath sample_copy (Some ''n''))" by code_simp
  ultimately show ?thesis
    using path_and_visibility [OF vault_env_inv sample_copy_exact, of "''n''" note_in_trash] p by simp
qed

end
