(* ===== verification/Base64url.thy ===== *)
theory Base64url
  imports Auth "HOL-Library.Word"
begin

text \<open>
  Base64url (packages/shared/src/base64url.ts), the encoding of every key, IV and ciphertext on the
  wire, over the standard library's \<open>btoa\<close> and \<open>atob\<close>. Bytes are 8-bit words. The lemmas: decoding
  gives back what was encoded, the encoding has no padding and only URL-safe characters, its
  length is determined by that of the bytes.
\<close>

type_synonym byte = "8 word"

section \<open>The standard library\<close>

definition B64_ALPHABET :: string where
  "B64_ALPHABET = ''ABCDEFGHIJKLMNOPQRSTUVWXYZabcdefghijklmnopqrstuvwxyz0123456789+/''"

definition b64_digit :: "nat \<Rightarrow> char" where
  "b64_digit n = B64_ALPHABET ! (n mod 64)"

fun btoa_from :: "nat list \<Rightarrow> string" where
  "btoa_from [] = []"
| "btoa_from [a] = [b64_digit (a div 4), b64_digit (a mod 4 * 16), CHR ''='', CHR ''='']"
| "btoa_from [a, b] = [b64_digit (a div 4), b64_digit (a mod 4 * 16 + b div 16), b64_digit (b mod 16 * 4), CHR ''='']"
| "btoa_from (a # b # c # r) = b64_digit (a div 4) # b64_digit (a mod 4 * 16 + b div 16)
     # b64_digit (b mod 16 * 4 + c div 64) # b64_digit (c mod 64) # btoa_from r"

definition btoa :: "byte list \<Rightarrow> string" where
  "btoa bs = btoa_from (map unat bs)"

definition b64_value :: "char \<Rightarrow> nat option" where
  "b64_value c = (case filter (\<lambda>i. B64_ALPHABET ! i = c) [0..<64] of [] \<Rightarrow> None | i # _ \<Rightarrow> Some i)"

fun sextets :: "nat list \<Rightarrow> nat list" where
  "sextets (w # x # y # z # r) = (w * 4 + x div 16) # (x mod 16 * 16 + y div 4) # (y mod 4 * 64 + z) # sextets r"
| "sextets [w, x, y] = [w * 4 + x div 16, x mod 16 * 16 + y div 4]"
| "sextets [w, x] = [w * 4 + x div 16]"
| "sextets _ = []"

definition strip_pads :: "string \<Rightarrow> string" where
  "strip_pads s = (if length s mod 4 \<noteq> 0 then s
     else case rev s of CHR ''='' # CHR ''='' # r \<Rightarrow> rev r | CHR ''='' # r \<Rightarrow> rev r | _ \<Rightarrow> s)"

text \<open>\<open>None\<close> is the \<open>InvalidCharacterError\<close>.\<close>

definition atob :: "string \<Rightarrow> byte list option" where
  "atob data =
     (let s = strip_pads (filter (\<lambda>c. c \<notin> {CHR 0x09, CHR 0x0A, CHR 0x0C, CHR 0x0D, CHR '' ''}) data) in
      if length s mod 4 = 1 \<or> (\<exists>c \<in> set s. b64_value c = None) then None
      else Some (map word_of_nat (sextets (map (\<lambda>c. the (b64_value c)) s))))"

section \<open>The encoding\<close>

definition to_url :: "char \<Rightarrow> char" where
  "to_url c = (if c = CHR ''+'' then CHR ''-'' else if c = CHR 0x2F then CHR ''_'' else c)"

definition of_url :: "char \<Rightarrow> char" where
  "of_url c = (if c = CHR ''-'' then CHR ''+'' else if c = CHR ''_'' then CHR 0x2F else c)"

definition bufToBase64Url :: "byte list \<Rightarrow> string" where
  "bufToBase64Url bytes = rev (dropWhile (\<lambda>c. c = CHR ''='') (rev (map to_url (btoa bytes))))"

definition base64UrlToBuf :: "string \<Rightarrow> byte list option" where
  "base64UrlToBuf v =
     (let pad = (if length v mod 4 = 0 then [] else replicate (4 - length v mod 4) (CHR ''=''))
      in atob (map of_url v @ pad))"

definition is_url_char :: "char \<Rightarrow> bool" where
  "is_url_char c \<longleftrightarrow> c \<in> set (map to_url B64_ALPHABET)"

section \<open>Round trip\<close>

lemma digits:
  "n < 64 \<Longrightarrow> b64_value (b64_digit n) = Some n"
  "n < 64 \<Longrightarrow> of_url (to_url (b64_digit n)) = b64_digit n"
  "n < 64 \<Longrightarrow> b64_digit n \<notin> {CHR 0x09, CHR 0x0A, CHR 0x0C, CHR 0x0D, CHR '' '', CHR ''=''}"
  "n < 64 \<Longrightarrow> to_url (b64_digit n) \<noteq> CHR ''='' \<and> is_url_char (to_url (b64_digit n))"
proof -
  have "list_all (\<lambda>n. b64_value (b64_digit n) = Some n \<and> of_url (to_url (b64_digit n)) = b64_digit n
      \<and> b64_digit n \<notin> {CHR 0x09, CHR 0x0A, CHR 0x0C, CHR 0x0D, CHR '' '', CHR ''=''}
      \<and> to_url (b64_digit n) \<noteq> CHR ''='' \<and> is_url_char (to_url (b64_digit n))) [0..<64]" by code_simp
  then have all: "b64_value (b64_digit n) = Some n \<and> of_url (to_url (b64_digit n)) = b64_digit n
      \<and> b64_digit n \<notin> {CHR 0x09, CHR 0x0A, CHR 0x0C, CHR 0x0D, CHR '' '', CHR ''=''}
      \<and> to_url (b64_digit n) \<noteq> CHR ''='' \<and> is_url_char (to_url (b64_digit n))" if "n < 64" for n
    using that unfolding list_all_iff by (metis atLeastLessThan_iff atLeast_upt lessThan_iff)
  show "n < 64 \<Longrightarrow> b64_value (b64_digit n) = Some n" using all by blast
  show "n < 64 \<Longrightarrow> of_url (to_url (b64_digit n)) = b64_digit n" using all by blast
  show "n < 64 \<Longrightarrow> b64_digit n \<notin> {CHR 0x09, CHR 0x0A, CHR 0x0C, CHR 0x0D, CHR '' '', CHR ''=''}" using all by blast
  show "n < 64 \<Longrightarrow> to_url (b64_digit n) \<noteq> CHR ''='' \<and> is_url_char (to_url (b64_digit n))" using all by blast
qed

text \<open>The digits of some bytes, as numbers, without padding.\<close>

fun digits_of :: "nat list \<Rightarrow> nat list" where
  "digits_of [] = []"
| "digits_of [a] = [a div 4, a mod 4 * 16]"
| "digits_of [a, b] = [a div 4, a mod 4 * 16 + b div 16, b mod 16 * 4]"
| "digits_of (a # b # c # r) = (a div 4) # (a mod 4 * 16 + b div 16) # (b mod 16 * 4 + c div 64) # (c mod 64) # digits_of r"

lemma digits_of_lt:
  "list_all (\<lambda>n. n < 256) bs \<Longrightarrow> list_all (\<lambda>n. n < 64) (digits_of bs)"
  by (induction bs rule: digits_of.induct) (auto simp: less_mult_imp_div_less)

lemma sextets_digits:
  "list_all (\<lambda>n. n < 256) bs \<Longrightarrow> sextets (digits_of bs) = bs"
  by (induction bs rule: digits_of.induct) (auto simp: div_mult_mod_eq)

lemma btoa_digits: "\<exists>k \<le> 2. btoa_from bs = map b64_digit (digits_of bs) @ replicate k (CHR ''='')"
  by (induction bs rule: digits_of.induct) (auto simp: numeral_2_eq_2 intro: exI [of _ 0])

lemma length_digits_of: "length (digits_of bs) = (length bs * 4 + 2) div 3"
  by (induction bs rule: digits_of.induct) auto


lemma length_mod4: "length (digits_of bs) mod 4 \<noteq> 1"
  by (induction bs rule: digits_of.induct) auto

lemma bytes_lt: "list_all (\<lambda>n. n < 256) (map unat (bs :: byte list))"
proof -
  have "unat b < 256" for b :: byte using unsigned_less [of b, where ?'a = nat] by simp
  then show ?thesis by (simp add: list_all_iff)
qed

lemma dropWhile_none: "\<forall>c \<in> set s. \<not> P c \<Longrightarrow> dropWhile P s = s"
  by (cases s) auto

lemma encoded: "bufToBase64Url bs = map (\<lambda>n. to_url (b64_digit n)) (digits_of (map unat bs))"
proof -
  let ?ds = "digits_of (map unat bs)"
  obtain k where k: "btoa bs = map b64_digit ?ds @ replicate k (CHR ''='')"
    using btoa_digits unfolding btoa_def by blast
  have ne: "\<forall>c \<in> set (rev (map to_url (map b64_digit ?ds))). \<not> c = CHR ''=''"
    using digits(4) digits_of_lt [OF bytes_lt, of bs] by (auto simp: list_all_iff)
  have pads: "dropWhile (\<lambda>c. c = CHR ''='') (replicate k (CHR ''='') @ s) = dropWhile (\<lambda>c. c = CHR ''='') s" for s
    by (induction k) auto
  have "to_url (CHR ''='') = CHR ''=''" by (simp add: to_url_def)
  then have "rev (map to_url (btoa bs)) = replicate k (CHR ''='') @ rev (map to_url (map b64_digit ?ds))"
    unfolding k by (simp add: rev_map)
  then have "bufToBase64Url bs = rev (rev (map to_url (map b64_digit ?ds)))"
    unfolding bufToBase64Url_def by (simp only: pads dropWhile_none [OF ne])
  then show ?thesis by (simp add: comp_def)
qed

lemma strip_padded:
  assumes "\<forall>c \<in> set s. c \<noteq> CHR ''=''" and "length s mod 4 \<noteq> 1"
  shows "strip_pads (s @ (if length s mod 4 = 0 then [] else replicate (4 - length s mod 4) (CHR ''=''))) = s"
proof -
  have "length s mod 4 = 0 \<or> length s mod 4 = 2 \<or> length s mod 4 = 3" using assms(2) by presburger
  then show ?thesis
  proof (elim disjE)
    assume "length s mod 4 = 0"
    moreover have "hd (rev s) \<noteq> CHR ''=''" if "s \<noteq> []" using assms(1) that by (simp add: hd_rev)
    ultimately show ?thesis by (cases "rev s") (auto simp: strip_pads_def split: list.split char.split bool.split)
  next
    assume m: "length s mod 4 = 2"
    then have "(length s + 2) mod 4 = 0" by presburger
    with m show ?thesis by (simp add: strip_pads_def numeral_2_eq_2)
  next
    assume m: "length s mod 4 = 3"
    then have "(length s + 1) mod 4 = 0" by presburger
    moreover have "hd (rev s) \<noteq> CHR ''=''" using assms(1) m by (cases s rule: rev_cases) auto
    ultimately show ?thesis using m
      by (cases "rev s") (auto simp: strip_pads_def split: list.split char.split bool.split)
  qed
qed

lemma decode_encode [simp]: "base64UrlToBuf (bufToBase64Url bs) = Some bs"
proof -
  let ?ds = "digits_of (map unat bs)"
  have lt: "\<And>n. n \<in> set ?ds \<Longrightarrow> n < 64" using digits_of_lt [OF bytes_lt, of bs] by (simp add: list_all_iff)
  let ?s = "map b64_digit ?ds"
  have s: "map of_url (bufToBase64Url bs) = ?s" using lt digits(2) by (simp add: encoded)
  have len: "length (bufToBase64Url bs) = length ?s" by (simp add: encoded)
  have "filter (\<lambda>c. c \<notin> {CHR 0x09, CHR 0x0A, CHR 0x0C, CHR 0x0D, CHR '' ''}) ?s = ?s"
    using lt digits(3) by (intro filter_True) auto
  moreover have "filter (\<lambda>c. c \<notin> {CHR 0x09, CHR 0x0A, CHR 0x0C, CHR 0x0D, CHR '' ''}) (replicate k (CHR ''='')) = replicate k (CHR ''='')" for k
    by (intro filter_True) simp
  moreover have "strip_pads (?s @ (if length ?s mod 4 = 0 then [] else replicate (4 - length ?s mod 4) (CHR ''=''))) = ?s"
    using lt digits(3) length_mod4 by (intro strip_padded) auto
  moreover have "length ?s mod 4 \<noteq> 1" using length_mod4 by simp
  moreover have "\<forall>c \<in> set ?s. b64_value c \<noteq> None" "map (\<lambda>c. the (b64_value c)) ?s = ?ds"
    using lt digits(1) by (auto intro: map_idI)
  ultimately have "base64UrlToBuf (bufToBase64Url bs) = Some (map word_of_nat (sextets ?ds))"
    unfolding base64UrlToBuf_def s len by (simp add: atob_def Let_def)
  then show ?thesis
    by (simp add: sextets_digits [OF bytes_lt] map_idI)
qed

lemma encoded_chars: "list_all is_url_char (bufToBase64Url bs)"
  using digits(4) digits_of_lt [OF bytes_lt, of bs] by (simp add: encoded list_all_iff)

lemma encoded_length: "length (bufToBase64Url bs) = (length bs * 4 + 2) div 3"
  by (simp add: encoded length_digits_of)

lemma encode_inj [simp]: "bufToBase64Url bs = bufToBase64Url bs' \<longleftrightarrow> bs = bs'"
  by (metis decode_encode option.inject)

section \<open>Properties\<close>

text \<open>C23. Bytes survive the wire. Decoding what was encoded gives back the bytes; the encoding is made of
  URL-safe characters only, without padding, so it can stand in a path or a code, and its length
  tells the number of bytes.\<close>

theorem base64url_roundtrip:
  "base64UrlToBuf (bufToBase64Url bs) = Some bs \<and> list_all is_url_char (bufToBase64Url bs)
   \<and> length (bufToBase64Url bs) = (length bs * 4 + 2) div 3"
  by (simp add: encoded_chars encoded_length)

end
