(* ===== verification/Crypto.thy ===== *)
theory Crypto
  imports Base64url "HOL-Library.Monad_Syntax" "HOL-Library.Countable"
begin

text \<open>
  End-to-end sealing (packages/client/src/crypto.ts, message.ts, keyring.ts). Web Crypto and the
  text and JSON codecs of the platform are a record of functions; \<open>webcrypto_ok\<close> is what the code
  relies on: AES-GCM opens what it sealed and nothing under another key, IV or additional data, a
  public key and its private half derive the same key from either side, exports can be imported
  back, and a signature verifies for its own message only. This is the symbolic reading of the primitives: a forgery
  or a collision that would take guessing does not happen. No context and the empty context are told apart, as no
  caller uses the empty one. What is random is an argument. An
  exception is \<open>None\<close>. The lemmas: each sealing opens again in its own context and in no other.
\<close>

section \<open>The platform\<close>

record ('k, 'pub, 'priv) webcrypto =
  gcm_encrypt :: "'k \<Rightarrow> byte list \<Rightarrow> byte list option \<Rightarrow> byte list \<Rightarrow> byte list"
  gcm_decrypt :: "'k \<Rightarrow> byte list \<Rightarrow> byte list option \<Rightarrow> byte list \<Rightarrow> byte list option"
  raw_export :: "'k \<Rightarrow> byte list"
  raw_import :: "byte list \<Rightarrow> 'k option"
  spki_export :: "'pub \<Rightarrow> byte list"
  spki_import :: "byte list \<Rightarrow> 'pub option"
  public_of :: "'priv \<Rightarrow> 'pub"
  ecdh :: "'priv \<Rightarrow> 'pub \<Rightarrow> 'k"
  hkdf :: "byte list \<Rightarrow> byte list \<Rightarrow> byte list \<Rightarrow> 'k"
  ecdsa_sign :: "'priv \<Rightarrow> byte list \<Rightarrow> byte list"
  ecdsa_verify :: "'pub \<Rightarrow> byte list \<Rightarrow> byte list \<Rightarrow> bool"
  text_encode :: "string \<Rightarrow> byte list"
  text_decode :: "byte list \<Rightarrow> string"
  json_stringify :: "json \<Rightarrow> string"
  json_parse_text :: "string \<Rightarrow> json option"

text \<open>What JSON can carry: numbers that are finite, and no key twice.\<close>

fun json_plain :: "json \<Rightarrow> bool" where
  "json_plain (JNum n) \<longleftrightarrow> n \<noteq> NotFinite"
| "json_plain (JArr vs) \<longleftrightarrow> (\<forall>v \<in> set vs. json_plain v)"
| "json_plain (JObj fs) \<longleftrightarrow> distinct (map fst fs) \<and> (\<forall>f \<in> set fs. json_plain (snd f))"
| "json_plain _ \<longleftrightarrow> True"

definition webcrypto_ok :: "('k, 'pub, 'priv) webcrypto \<Rightarrow> bool" where
  "webcrypto_ok W \<longleftrightarrow>
     (\<forall>k iv a p k' iv' a'. gcm_decrypt W k' iv' a' (gcm_encrypt W k iv a p)
        = (if (k', iv', a') = (k, iv, a) then Some p else None))
     \<and> (\<forall>k. raw_import W (raw_export W k) = Some k) \<and> (\<forall>p. spki_import W (spki_export W p) = Some p)
     \<and> (\<forall>a b. ecdh W a (public_of W b) = ecdh W b (public_of W a))
     \<and> (\<forall>k m m'. ecdsa_verify W (public_of W k) (ecdsa_sign W k m) m' \<longleftrightarrow> m' = m)
     \<and> (\<forall>s. text_decode W (text_encode W s) = s) \<and> (\<forall>j. json_plain j \<longrightarrow> json_parse_text W (json_stringify W j) = Some j)"

lemma webcrypto_okD:
  assumes "webcrypto_ok W"
  shows "gcm_decrypt W k' iv' a' (gcm_encrypt W k iv a p) = (if (k', iv', a') = (k, iv, a) then Some p else None)"
    "raw_import W (raw_export W k) = Some k" "spki_import W (spki_export W q) = Some q"
    "ecdh W x (public_of W y) = ecdh W y (public_of W x)"
    "ecdsa_verify W (public_of W x) (ecdsa_sign W x m) m' \<longleftrightarrow> m' = m"
    "text_decode W (text_encode W s) = s" "json_plain j \<Longrightarrow> json_parse_text W (json_stringify W j) = Some j"
    "text_encode W s = text_encode W s' \<longleftrightarrow> s = s'"
proof -
  note ok = assms [unfolded webcrypto_ok_def]
  from ok have dec: "\<And>s. text_decode W (text_encode W s) = s" by blast
  then show "text_encode W s = text_encode W s' \<longleftrightarrow> s = s'" by metis
  show "text_decode W (text_encode W s) = s" by (rule dec)
qed (use assms in \<open>simp_all add: webcrypto_ok_def\<close>)

section \<open>Keys and signatures\<close>

definition randomId :: "byte list \<Rightarrow> string" where
  "randomId random16 = bufToBase64Url random16"

definition randomToken :: "byte list \<Rightarrow> string" where
  "randomToken random32 = bufToBase64Url random32"

definition aad :: "('k, 'pub, 'priv) webcrypto \<Rightarrow> string option \<Rightarrow> byte list option" where
  "aad W context = map_option (text_encode W) context"

definition exportGroupKey :: "('k, 'pub, 'priv) webcrypto \<Rightarrow> 'k \<Rightarrow> string" where
  "exportGroupKey W key = bufToBase64Url (raw_export W key)"

definition importGroupKey :: "('k, 'pub, 'priv) webcrypto \<Rightarrow> string \<Rightarrow> 'k option" where
  "importGroupKey W raw = do { b \<leftarrow> base64UrlToBuf raw; raw_import W b }"

definition exportPublicKey :: "('k, 'pub, 'priv) webcrypto \<Rightarrow> 'pub \<Rightarrow> string" where
  "exportPublicKey W key = bufToBase64Url (spki_export W key)"

definition importPublicKey :: "('k, 'pub, 'priv) webcrypto \<Rightarrow> string \<Rightarrow> 'pub option" where
  "importPublicKey W spki = do { b \<leftarrow> base64UrlToBuf spki; spki_import W b }"

definition signStatement :: "('k, 'pub, 'priv) webcrypto \<Rightarrow> 'priv \<Rightarrow> string \<Rightarrow> string" where
  "signStatement W priv statement = bufToBase64Url (ecdsa_sign W priv (text_encode W statement))"

definition verifyStatement :: "('k, 'pub, 'priv) webcrypto \<Rightarrow> 'pub \<Rightarrow> string \<Rightarrow> string \<Rightarrow> bool" where
  "verifyStatement W pub statement signature = (case base64UrlToBuf signature of
     None \<Rightarrow> False | Some s \<Rightarrow> ecdsa_verify W pub s (text_encode W statement))"

section \<open>Text, JSON and files under a group key\<close>

record EncryptedText =
  et_ciphertext :: string
  et_iv :: string

definition encryptText :: "('k, 'pub, 'priv) webcrypto \<Rightarrow> 'k \<Rightarrow> string \<Rightarrow> string option \<Rightarrow> byte list \<Rightarrow> EncryptedText" where
  "encryptText W key t context iv =
     \<lparr>et_ciphertext = bufToBase64Url (gcm_encrypt W key iv (aad W context) (text_encode W t)), et_iv = bufToBase64Url iv\<rparr>"

definition decryptText :: "('k, 'pub, 'priv) webcrypto \<Rightarrow> 'k \<Rightarrow> string \<Rightarrow> string \<Rightarrow> string option \<Rightarrow> string option" where
  "decryptText W key ciphertext iv context = do {
     i \<leftarrow> base64UrlToBuf iv; c \<leftarrow> base64UrlToBuf ciphertext;
     p \<leftarrow> gcm_decrypt W key i (aad W context) c; Some (text_decode W p) }"

definition encryptJson :: "('k, 'pub, 'priv) webcrypto \<Rightarrow> 'k \<Rightarrow> json \<Rightarrow> string option \<Rightarrow> byte list \<Rightarrow> EncryptedText" where
  "encryptJson W key v context iv = encryptText W key (json_stringify W v) context iv"

definition decryptJson :: "('k, 'pub, 'priv) webcrypto \<Rightarrow> 'k \<Rightarrow> string \<Rightarrow> string \<Rightarrow> string option \<Rightarrow> json option" where
  "decryptJson W key ciphertext iv context = do { t \<leftarrow> decryptText W key ciphertext iv context; json_parse_text W t }"

definition encryptName :: "('k, 'pub, 'priv) webcrypto \<Rightarrow> 'k \<Rightarrow> string \<Rightarrow> string \<Rightarrow> byte list \<Rightarrow> EncryptedText" where
  "encryptName W key name deviceId iv = encryptText W key name (Some (''name:'' @ deviceId)) iv"

definition decryptName :: "('k, 'pub, 'priv) webcrypto \<Rightarrow> 'k \<Rightarrow> string \<Rightarrow> string \<Rightarrow> string \<Rightarrow> string option" where
  "decryptName W key ciphertext iv deviceId = decryptText W key ciphertext iv (Some (''name:'' @ deviceId))"

text \<open>A retried upload brings the IV of the attempt before.\<close>

definition encryptFile :: "('k, 'pub, 'priv) webcrypto \<Rightarrow> 'k \<Rightarrow> byte list \<Rightarrow> string option \<Rightarrow> string option \<Rightarrow> byte list
    \<Rightarrow> (byte list \<times> string) option" where
  "encryptFile W key data context ivB64 random12 = do {
     iv \<leftarrow> (case ivB64 of Some (c # cs) \<Rightarrow> base64UrlToBuf (c # cs) | _ \<Rightarrow> Some random12);
     Some (gcm_encrypt W key iv (aad W context) data, bufToBase64Url iv) }"

definition decryptFile :: "('k, 'pub, 'priv) webcrypto \<Rightarrow> 'k \<Rightarrow> byte list \<Rightarrow> string \<Rightarrow> string option \<Rightarrow> byte list option" where
  "decryptFile W key data iv context = do { i \<leftarrow> base64UrlToBuf iv; gcm_decrypt W key i (aad W context) data }"

section \<open>Messages\<close>

definition messageContext_text :: "string \<Rightarrow> string" where "messageContext_text i = ''text:'' @ i"

definition messageContext_file :: "string \<Rightarrow> string" where "messageContext_file i = ''file:'' @ i"

definition messageContext_meta :: "string \<Rightarrow> string" where "messageContext_meta i = ''meta:'' @ i"

definition encryptMessageText :: "('k, 'pub, 'priv) webcrypto \<Rightarrow> 'k \<Rightarrow> string \<Rightarrow> string \<Rightarrow> byte list \<Rightarrow> EncryptedText" where
  "encryptMessageText W key i t iv = encryptText W key t (Some (messageContext_text i)) iv"

definition decryptMessageText :: "('k, 'pub, 'priv) webcrypto \<Rightarrow> 'k \<Rightarrow> string \<Rightarrow> string \<Rightarrow> string \<Rightarrow> string option" where
  "decryptMessageText W key i ciphertext iv = decryptText W key ciphertext iv (Some (messageContext_text i))"

definition encryptMessageFile :: "('k, 'pub, 'priv) webcrypto \<Rightarrow> 'k \<Rightarrow> string \<Rightarrow> byte list \<Rightarrow> string option \<Rightarrow> byte list
    \<Rightarrow> (byte list \<times> string) option" where
  "encryptMessageFile W key i data ivB64 random12 = encryptFile W key data (Some (messageContext_file i)) ivB64 random12"

definition decryptMessageFile :: "('k, 'pub, 'priv) webcrypto \<Rightarrow> 'k \<Rightarrow> string \<Rightarrow> byte list \<Rightarrow> string \<Rightarrow> byte list option" where
  "decryptMessageFile W key i data iv = decryptFile W key data iv (Some (messageContext_file i))"

definition encryptMessageMeta :: "('k, 'pub, 'priv) webcrypto \<Rightarrow> 'k \<Rightarrow> string \<Rightarrow> json \<Rightarrow> byte list \<Rightarrow> EncryptedText" where
  "encryptMessageMeta W key i v iv = encryptJson W key v (Some (messageContext_meta i)) iv"

definition decryptMessageMeta :: "('k, 'pub, 'priv) webcrypto \<Rightarrow> 'k \<Rightarrow> string \<Rightarrow> string \<Rightarrow> string \<Rightarrow> json option" where
  "decryptMessageMeta W key i ciphertext iv = decryptJson W key ciphertext iv (Some (messageContext_meta i))"

section \<open>Handing over a key\<close>

record WrappedSecret =
  ws_wrappedPackage :: string
  ws_ephemeralPublicKey :: string

definition wrapSecret :: "('k, 'pub, 'priv) webcrypto \<Rightarrow> 'pub \<Rightarrow> json \<Rightarrow> string option \<Rightarrow> 'priv \<Rightarrow> byte list \<Rightarrow> WrappedSecret" where
  "wrapSecret W recipient payload context ephemeral iv =
     (let ct = gcm_encrypt W (ecdh W ephemeral recipient) iv (aad W context) (text_encode W (json_stringify W payload));
          wrapped = json_stringify W (JObj [(''iv'', JStr (bufToBase64Url iv)), (''ct'', JStr (bufToBase64Url ct))])
      in \<lparr>ws_wrappedPackage = bufToBase64Url (text_encode W wrapped),
          ws_ephemeralPublicKey = exportPublicKey W (public_of W ephemeral)\<rparr>)"

definition string_field :: "json \<Rightarrow> string \<Rightarrow> string option" where
  "string_field j f = (case jfield j f of Some (JStr s) \<Rightarrow> Some s | _ \<Rightarrow> None)"

definition unwrapSecret :: "('k, 'pub, 'priv) webcrypto \<Rightarrow> 'priv \<Rightarrow> string \<Rightarrow> string \<Rightarrow> string option \<Rightarrow> json option" where
  "unwrapSecret W mine ephemeralPublicKey wrappedPackage context = do {
     ephemeral \<leftarrow> importPublicKey W ephemeralPublicKey;
     b \<leftarrow> base64UrlToBuf wrappedPackage;
     w \<leftarrow> json_parse_text W (text_decode W b);
     ivText \<leftarrow> string_field w ''iv''; ctText \<leftarrow> string_field w ''ct'';
     iv \<leftarrow> base64UrlToBuf ivText; ct \<leftarrow> base64UrlToBuf ctText;
     p \<leftarrow> gcm_decrypt W (ecdh W mine ephemeral) iv (aad W context) ct;
     json_parse_text W (text_decode W p) }"

definition rekeyContext :: "string \<Rightarrow> int \<Rightarrow> string \<Rightarrow> string" where
  "rekeyContext groupId epoch deviceId = ''rekey:'' @ groupId @ '':'' @ int_str epoch @ '':'' @ deviceId"

definition wrapRotatedKey :: "('k, 'pub, 'priv) webcrypto \<Rightarrow> 'pub \<Rightarrow> 'k \<Rightarrow> string \<Rightarrow> int \<Rightarrow> string \<Rightarrow> 'priv \<Rightarrow> byte list
    \<Rightarrow> WrappedSecret" where
  "wrapRotatedKey W recipient key groupId epoch deviceId ephemeral iv =
     wrapSecret W recipient (JObj [(''groupKey'', JStr (exportGroupKey W key)), (''epoch'', JNum (IntN epoch))])
       (Some (rekeyContext groupId epoch deviceId)) ephemeral iv"

definition unwrapRotatedKey :: "('k, 'pub, 'priv) webcrypto \<Rightarrow> 'priv \<Rightarrow> PendingKeyDelivery \<Rightarrow> string \<Rightarrow> string \<Rightarrow> 'k option" where
  "unwrapRotatedKey W mine delivery groupId deviceId = do {
     payload \<leftarrow> unwrapSecret W mine (pd_ephemeralPublicKey delivery) (pd_wrappedKey delivery)
       (Some (rekeyContext groupId (pd_epoch delivery) deviceId));
     raw \<leftarrow> string_field payload ''groupKey'';
     importGroupKey W raw }"

text \<open>\<open>pairingId && `pairing:$\<close>\<open>{pairingId}`\<close>: an empty id stays the empty context.\<close>

definition pairing_context :: "string option \<Rightarrow> string option" where
  "pairing_context pairingId = (case pairingId of None \<Rightarrow> None | Some [] \<Rightarrow> Some [] | Some p \<Rightarrow> Some (''pairing:'' @ p))"

definition wrapPairingPackage :: "('k, 'pub, 'priv) webcrypto \<Rightarrow> 'pub \<Rightarrow> json \<Rightarrow> string option \<Rightarrow> 'priv \<Rightarrow> byte list \<Rightarrow> WrappedSecret" where
  "wrapPairingPackage W recipient payload pairingId = wrapSecret W recipient payload (pairing_context pairingId)"

definition unwrapPairingPackage :: "('k, 'pub, 'priv) webcrypto \<Rightarrow> 'priv \<Rightarrow> string \<Rightarrow> string \<Rightarrow> string option \<Rightarrow> json option" where
  "unwrapPairingPackage W mine ephemeralPublicKey wrappedPackage pairingId =
     unwrapSecret W mine ephemeralPublicKey wrappedPackage (pairing_context pairingId)"

section \<open>The keyring\<close>

record 'k Keyring =
  kr_current :: int
  kr_keys :: "(int \<times> 'k) list"

definition createKeyring :: "'k \<Rightarrow> int \<Rightarrow> 'k Keyring" where
  "createKeyring key epoch = \<lparr>kr_current = epoch, kr_keys = [(epoch, key)]\<rparr>"

definition keyForEpoch :: "'k Keyring \<Rightarrow> int \<Rightarrow> 'k option" where
  "keyForEpoch ring epoch = map_of (kr_keys ring) epoch"

definition currentKey :: "'k Keyring \<Rightarrow> 'k option" where
  "currentKey ring = keyForEpoch ring (kr_current ring)"

definition withEpoch :: "'k Keyring \<Rightarrow> int \<Rightarrow> 'k \<Rightarrow> 'k Keyring" where
  "withEpoch ring epoch key = \<lparr>kr_current = max (kr_current ring) epoch, kr_keys = AList.update epoch key (kr_keys ring)\<rparr>"


section \<open>Each sealing opens in its own context\<close>

lemma aad_inj: "webcrypto_ok W \<Longrightarrow> aad W c = aad W c' \<longleftrightarrow> c = c'"
  by (cases c; cases c') (simp_all add: aad_def webcrypto_okD)

lemma decrypt_encrypt_text:
  assumes "webcrypto_ok W"
  shows "decryptText W k' (et_ciphertext (encryptText W k t c iv)) (et_iv (encryptText W k t c iv)) c'
    = (if k' = k \<and> c' = c then Some t else None)"
  using assms by (simp add: encryptText_def decryptText_def webcrypto_okD aad_inj)

lemma decrypt_encrypt_json:
  assumes "webcrypto_ok W" and "json_plain v"
  shows "decryptJson W k' (et_ciphertext (encryptJson W k v c iv)) (et_iv (encryptJson W k v c iv)) c'
    = (if k' = k \<and> c' = c then Some v else None)"
  using assms by (simp add: encryptJson_def decryptJson_def decrypt_encrypt_text webcrypto_okD)

lemma decrypt_encrypt_file:
  assumes "webcrypto_ok W" and "encryptFile W k data c ivB64 r = Some (ct, iv)"
  shows "decryptFile W k' ct iv c' = (if k' = k \<and> c' = c then Some data else None)"
  using assms by (auto simp: encryptFile_def decryptFile_def webcrypto_okD aad_inj bind_eq_Some_conv)

text \<open>The three contexts of a message never coincide, whatever the ids.\<close>

lemma messageContext_simps [simp]:
  "messageContext_text i = messageContext_text j \<longleftrightarrow> i = j"
  "messageContext_file i = messageContext_file j \<longleftrightarrow> i = j"
  "messageContext_meta i = messageContext_meta j \<longleftrightarrow> i = j"
  "messageContext_text i \<noteq> messageContext_file j" "messageContext_file j \<noteq> messageContext_text i"
  "messageContext_text i \<noteq> messageContext_meta j" "messageContext_meta j \<noteq> messageContext_text i"
  "messageContext_file i \<noteq> messageContext_meta j" "messageContext_meta j \<noteq> messageContext_file i"
  by (simp_all add: messageContext_text_def messageContext_file_def messageContext_meta_def)

text \<open>An upload tried again with the IV of the attempt before is the same, byte for byte.\<close>

lemma encryptFile_again:
  assumes "encryptFile W k data c ivB64 r = Some (ct, iv)" and "iv \<noteq> []"
  shows "encryptFile W k data c (Some iv) r' = Some (ct, iv)"
proof -
  from assms(1) obtain b where b: "ct = gcm_encrypt W k b (aad W c) data" "iv = bufToBase64Url b"
    by (auto simp: encryptFile_def bind_eq_Some_conv)
  from assms(2) have "(case Some iv of Some (c # cs) \<Rightarrow> base64UrlToBuf (c # cs) | _ \<Rightarrow> Some r') = base64UrlToBuf iv"
    by (simp split: list.split)
  then show ?thesis unfolding encryptFile_def by (simp add: b)
qed

lemma rekeyContext_inj:
  assumes "colon_free g" and "colon_free g'" and "rekeyContext g e d = rekeyContext g' e' d'"
  shows "g = g' \<and> e = e' \<and> d = d'"
proof -
  from assms(3) have "g @ CHR '':'' # int_str e @ CHR '':'' # d = g' @ CHR '':'' # int_str e' @ CHR '':'' # d'"
    by (simp add: rekeyContext_def)
  from colon_field [OF assms(1,2) this] have g: "g = g'"
    and r: "int_str e @ CHR '':'' # d = int_str e' @ CHR '':'' # d'" by blast+
  from colon_field [OF colon_free_int colon_free_int r] g show ?thesis by simp
qed

lemma unwrap_wrap:
  assumes "webcrypto_ok W" and "json_plain v"
  shows "unwrapSecret W mine (ws_ephemeralPublicKey (wrapSecret W (public_of W mine) v c eph iv))
      (ws_wrappedPackage (wrapSecret W (public_of W mine) v c eph iv)) c' = (if c' = c then Some v else None)"
proof -
  have "ecdh W mine (public_of W eph) = ecdh W eph (public_of W mine)" using assms(1) by (rule webcrypto_okD)
  then show ?thesis using assms
    by (simp add: wrapSecret_def unwrapSecret_def Let_def importPublicKey_def exportPublicKey_def webcrypto_okD
        string_field_def jfield_def aad_inj)
qed

lemma import_export_key [simp]: "webcrypto_ok W \<Longrightarrow> importGroupKey W (exportGroupKey W k) = Some k"
  by (simp add: importGroupKey_def exportGroupKey_def webcrypto_okD)

section \<open>Properties\<close>

text \<open>What was sealed as text read as a file, and what was sealed as a file read as text.\<close>

lemma text_as_file:
  assumes "webcrypto_ok W"
  shows "Option.bind (base64UrlToBuf (et_ciphertext (encryptText W k t c r))) (\<lambda>b. decryptFile W k' b (et_iv (encryptText W k t c r)) c')
    = (if k' = k \<and> c' = c then Some (text_encode W t) else None)"
  using assms by (simp add: encryptText_def decryptFile_def webcrypto_okD aad_inj)

lemma file_as_text:
  assumes "webcrypto_ok W" and "encryptFile W k data c ivB64 r = Some (ct, iv)"
  shows "decryptText W k' (bufToBase64Url ct) iv c' = (if k' = k \<and> c' = c then Some (text_decode W data) else None)"
  using assms by (auto simp: encryptFile_def decryptText_def bind_eq_Some_conv webcrypto_okD aad_inj)

text \<open>C24. A ciphertext opens where it was sealed. The text, the metadata and the file of a message each open under
  their own key, for their own message and in their own role, and under no other key, for no other message and in
  neither of the two other roles; and a second attempt to seal the file with the first one's IV gives the same bytes.\<close>

theorem message_sealed_in_context:
  assumes "webcrypto_ok W" and "json_plain v" and "encryptMessageFile W k i data ivB64 r = Some (ct, iv)" and "iv \<noteq> []"
    and "tx = encryptMessageText W k i t r" and "mt = encryptMessageMeta W k i v r"
  shows "decryptMessageText W k' j (et_ciphertext tx) (et_iv tx) = (if k' = k \<and> j = i then Some t else None)
    \<and> decryptMessageMeta W k' j (et_ciphertext tx) (et_iv tx) = None
    \<and> Option.bind (base64UrlToBuf (et_ciphertext tx)) (\<lambda>b. decryptMessageFile W k' j b (et_iv tx)) = None
    \<and> decryptMessageMeta W k' j (et_ciphertext mt) (et_iv mt) = (if k' = k \<and> j = i then Some v else None)
    \<and> decryptMessageText W k' j (et_ciphertext mt) (et_iv mt) = None
    \<and> Option.bind (base64UrlToBuf (et_ciphertext mt)) (\<lambda>b. decryptMessageFile W k' j b (et_iv mt)) = None
    \<and> decryptMessageFile W k' j ct iv = (if k' = k \<and> j = i then Some data else None)
    \<and> decryptMessageText W k' j (bufToBase64Url ct) iv = None
    \<and> decryptMessageMeta W k' j (bufToBase64Url ct) iv = None
    \<and> encryptMessageFile W k i data (Some iv) r' = Some (ct, iv)"
proof -
  note sealed = assms(3) [unfolded encryptMessageFile_def]
  show ?thesis
    unfolding assms(5,6) decryptMessageText_def encryptMessageText_def decryptMessageMeta_def encryptMessageMeta_def encryptJson_def
      decryptJson_def decryptMessageFile_def encryptMessageFile_def
    by (simp add: decrypt_encrypt_text [OF assms(1)] decrypt_encrypt_file [OF assms(1) sealed] encryptFile_again [OF sealed assms(4)]
        text_as_file [OF assms(1)] file_as_text [OF assms(1) sealed] webcrypto_okD(7) [OF assms(1,2)])
qed

text \<open>C25. A rotated key is readable by one device, for one epoch of one space. The blob made for a device
  gives that device the key, and fails at any other epoch, in any other space and under any other
  device's name.\<close>

theorem rotated_key_opens_where_meant:
  assumes "webcrypto_ok W" and "colon_free g" and "colon_free g'"
    and "b = wrapRotatedKey W (public_of W mine) key g e d eph iv"
  shows "unwrapRotatedKey W mine \<lparr>pd_epoch = e', pd_wrappedKey = ws_wrappedPackage b,
       pd_ephemeralPublicKey = ws_ephemeralPublicKey b\<rparr> g' d'
    = (if (g', e', d') = (g, e, d) then Some key else None)"
proof -
  have "rekeyContext g' e' d' = rekeyContext g e d \<longleftrightarrow> (g', e', d') = (g, e, d)"
    using rekeyContext_inj [OF assms(3,2)] by auto
  then show ?thesis
    using assms(1) unfolding assms(4)
    by (simp add: wrapRotatedKey_def unwrapRotatedKey_def unwrap_wrap string_field_def jfield_def)
qed


section \<open>At a concrete input\<close>

text \<open>A transparent platform with the laws of the real one: a sealing is the number of what was sealed.\<close>

instance number :: countable by countable_datatype

instance json :: countable by countable_datatype

definition bytes_of :: "'a :: countable \<Rightarrow> byte list" where
  "bytes_of x = replicate (Suc (to_nat x)) 0"

definition of_bytes :: "byte list \<Rightarrow> 'a :: countable" where
  "of_bytes b = from_nat (length b - 1)"

definition clear_crypto :: "(nat, nat, nat) webcrypto" where
  "clear_crypto = \<lparr>
     gcm_encrypt = (\<lambda>k iv a p. bytes_of (k, map unat iv, map_option (map unat) a, map unat p)),
     gcm_decrypt = (\<lambda>k iv a c. case of_bytes c of (k', iv', a', p) \<Rightarrow>
       if (k, map unat iv, map_option (map unat) a) = (k', iv', a') then Some (map word_of_nat (p :: nat list)) else None),
     raw_export = bytes_of, raw_import = (\<lambda>b. Some (of_bytes b)),
     spki_export = bytes_of, spki_import = (\<lambda>b. Some (of_bytes b)),
     public_of = (\<lambda>k. k), ecdh = (\<lambda>a b. a * b), hkdf = (\<lambda>m s i. to_nat (map unat m, map unat s, map unat i)),
     ecdsa_sign = (\<lambda>k m. bytes_of (k, map unat m)),
     ecdsa_verify = (\<lambda>p s m. s = bytes_of (p, map unat m)),
     text_encode = map (\<lambda>c. word_of_nat (of_char c)), text_decode = map (\<lambda>b. char_of (unat b)),
     json_stringify = (\<lambda>j. replicate (to_nat j) (CHR ''x'')), json_parse_text = (\<lambda>s. Some (from_nat (length s)))\<rparr>"

lemma of_bytes_of [simp]: "of_bytes (bytes_of x) = x"
  by (simp add: bytes_of_def of_bytes_def)

lemma bytes_of_inj [simp]: "bytes_of x = bytes_of y \<longleftrightarrow> x = y"
  by (metis of_bytes_of)

lemma map_word_unat [simp]: "map word_of_nat (map unat (b :: byte list)) = b"
  by (simp add: map_idI)

lemma map_unat_inj [simp]: "map unat (a :: byte list) = map unat b \<longleftrightarrow> a = b"
  by (metis map_word_unat)

lemma decode_char: "char_of (unat (word_of_nat (of_char c) :: byte)) = c"
proof -
  have "(of_char c :: nat) < 256" by simp
  then have "unat (word_of_nat (of_char c) :: byte) = of_char c" by (simp add: unsigned_of_nat take_bit_nat_eq_self)
  then show ?thesis by simp
qed

lemma clear_crypto_ok: "webcrypto_ok clear_crypto"
proof -
  have opt: "map_option (map unat) a = map_option (map unat) b \<longleftrightarrow> a = b" for a b :: "byte list option"
    by (cases a; cases b) simp_all
  show ?thesis
    unfolding webcrypto_ok_def
  proof (intro conjI allI)
    fix k iv a p k' iv' a'
    show "gcm_decrypt clear_crypto k' iv' a' (gcm_encrypt clear_crypto k iv a p) = (if (k', iv', a') = (k, iv, a) then Some p else None)"
      by (simp add: clear_crypto_def opt del: map_map)
  qed (auto simp: clear_crypto_def comp_def decode_char mult.commute)
qed

theorem message_sealed_in_context_witness:
  "\<exists>ct iv. encryptMessageFile clear_crypto 7 ''m'' [1, 2] None [3] = Some (ct, iv)
    \<and> decryptMessageFile clear_crypto 7 ''m'' ct iv = Some [1, 2] \<and> decryptMessageFile clear_crypto 7 ''n'' ct iv = None
    \<and> decryptMessageText clear_crypto 7 ''m'' (bufToBase64Url ct) iv = None"
proof -
  let ?iv = "bufToBase64Url [3]"
  obtain ct where e: "encryptMessageFile clear_crypto 7 ''m'' [1, 2] None [3] = Some (ct, ?iv)"
    by (simp add: encryptMessageFile_def encryptFile_def)
  have "?iv \<noteq> []" "json_plain JNull" by code_simp+
  from message_sealed_in_context [OF clear_crypto_ok this(2) e this(1) refl refl, of 7 "''m''"]
    message_sealed_in_context [OF clear_crypto_ok this(2) e this(1) refl refl, of 7 "''n''"] e
  show ?thesis by auto
qed

theorem rotated_key_opens_where_meant_witness:
  "unwrapRotatedKey clear_crypto 5 \<lparr>pd_epoch = 2,
      pd_wrappedKey = ws_wrappedPackage (wrapRotatedKey clear_crypto (public_of clear_crypto 5) 9 ''g'' 2 ''d'' 4 [1]),
      pd_ephemeralPublicKey = ws_ephemeralPublicKey (wrapRotatedKey clear_crypto (public_of clear_crypto 5) 9 ''g'' 2 ''d'' 4 [1])\<rparr> ''g'' ''d''
    = Some 9
   \<and> unwrapRotatedKey clear_crypto 5 \<lparr>pd_epoch = 3,
      pd_wrappedKey = ws_wrappedPackage (wrapRotatedKey clear_crypto (public_of clear_crypto 5) 9 ''g'' 2 ''d'' 4 [1]),
      pd_ephemeralPublicKey = ws_ephemeralPublicKey (wrapRotatedKey clear_crypto (public_of clear_crypto 5) 9 ''g'' 2 ''d'' 4 [1])\<rparr> ''g'' ''d''
    = None"
proof -
  have g: "colon_free ''g''" by code_simp
  note opens = rotated_key_opens_where_meant [OF clear_crypto_ok g g refl]
  show ?thesis unfolding opens by simp
qed

end
