(* ===== verification/Joining.thy ===== *)
theory Joining
  imports Crypto
begin

text \<open>
  How a new device presents itself (packages/client/src/pairing.ts): the identity it mints, the
  invitation codes for devices that cannot show a QR code and the seal by which the joining device
  proves it holds the code. The lemmas: a code that was made reads back as itself; a seal opens,
  to the name it was made with, for the very keys it was made over and for no others.
\<close>

section \<open>Invitations\<close>

record Invite =
  in_pairingId :: string
  in_secret :: string

definition createInvite :: "byte list \<Rightarrow> byte list \<Rightarrow> Invite" where
  "createInvite random16 random32 = \<lparr>in_pairingId = randomId random16, in_secret = bufToBase64Url random32\<rparr>"

definition formatInviteCode :: "Invite \<Rightarrow> string" where
  "formatInviteCode i = in_pairingId i @ ''.'' @ in_secret i"

text \<open>\<open>/^([A-Za-z0-9_-]{16,64})\.([A-Za-z0-9_-]{43})$/\<close> on the trimmed code.\<close>

definition parseInviteCode :: "string \<Rightarrow> Invite option" where
  "parseInviteCode code = (case split_on (CHR ''.'') (trim code) of
     [p, s] \<Rightarrow> if list_all is_url_char p \<and> 16 \<le> length p \<and> length p \<le> 64 \<and> list_all is_url_char s \<and> length s = 43
       then Some \<lparr>in_pairingId = p, in_secret = s\<rparr> else None
   | _ \<Rightarrow> None)"

definition inviteKey :: "('k, 'pub, 'priv) webcrypto \<Rightarrow> Invite \<Rightarrow> 'k option" where
  "inviteKey W i = do { m \<leftarrow> base64UrlToBuf (in_secret i);
     Some (hkdf W m (text_encode W (in_pairingId i)) (text_encode W ''sendself-pairing-invite:1'')) }"

definition sealInvite :: "('k, 'pub, 'priv) webcrypto \<Rightarrow> Invite \<Rightarrow> string \<Rightarrow> InviteSealFields \<Rightarrow> byte list \<Rightarrow> string option" where
  "sealInvite W i deviceName sf iv = do {
     key \<leftarrow> inviteKey W i;
     Some (bufToBase64Url iv @ ''.'' @ bufToBase64Url (gcm_encrypt W key iv (Some (text_encode W (inviteSealStatement sf)))
       (text_encode W (json_stringify W (JObj [(''deviceName'', JStr deviceName)]))))) }"

text \<open>\<open>None\<close> is an \<open>InviteMismatchError\<close>.\<close>

definition openInvite :: "('k, 'pub, 'priv) webcrypto \<Rightarrow> Invite \<Rightarrow> string \<Rightarrow> InviteSealFields \<Rightarrow> string option" where
  "openInvite W i sealed sf = (case split_on (CHR ''.'') sealed of
     iv # ct # _ \<Rightarrow> if iv = [] \<or> ct = [] then None
       else do { ivBytes \<leftarrow> base64UrlToBuf iv; key \<leftarrow> inviteKey W i; c \<leftarrow> base64UrlToBuf ct;
         p \<leftarrow> gcm_decrypt W key ivBytes (Some (text_encode W (inviteSealStatement sf))) c;
         payload \<leftarrow> json_parse_text W (text_decode W p);
         name \<leftarrow> string_field payload ''deviceName'';
         if trim name = [] then None else Some (take 80 (trim name)) }
   | _ \<Rightarrow> None)"

section \<open>The joining device\<close>

record PairingQrPayload =
  qr_pairingId :: string
  qr_deviceId :: string
  qr_deviceName :: string
  qr_publicKey :: string
  qr_signingPublicKey :: string
  qr_sendOnly :: bool

record PairingRequestBody =
  rb_id :: string
  rb_publicKey :: string
  rb_signingPublicKey :: string
  rb_sendOnly :: bool
  rb_invite :: "string option"

record 'priv JoiningDevice =
  jd_key :: 'priv
  jd_signingKey :: 'priv
  jd_payload :: PairingQrPayload
  jd_request :: PairingRequestBody

text \<open>The two private keys, the ids and the IV of the seal are what was drawn at random.\<close>

definition createJoiningDevice :: "('k, 'pub, 'priv) webcrypto \<Rightarrow> string \<Rightarrow> bool \<Rightarrow> Invite option \<Rightarrow> 'priv \<Rightarrow> 'priv
    \<Rightarrow> byte list \<Rightarrow> byte list \<Rightarrow> byte list \<Rightarrow> 'priv JoiningDevice option" where
  "createJoiningDevice W deviceName sendOnly invite key signingKey idBytes pairingBytes iv =
     (let deviceId = randomId idBytes;
          pairingId = (case invite of Some i \<Rightarrow> in_pairingId i | None \<Rightarrow> randomId pairingBytes);
          publicKey = exportPublicKey W (public_of W key);
          signingPublicKey = exportPublicKey W (public_of W signingKey)
      in do {
        seal \<leftarrow> (case invite of None \<Rightarrow> Some None
          | Some i \<Rightarrow> map_option Some (sealInvite W i deviceName \<lparr>is_pairingId = pairingId, is_deviceId = deviceId,
              is_publicKey = publicKey, is_signingPublicKey = signingPublicKey, is_sendOnly = sendOnly\<rparr> iv));
        Some \<lparr>jd_key = key, jd_signingKey = signingKey,
          jd_payload = \<lparr>qr_pairingId = pairingId, qr_deviceId = deviceId, qr_deviceName = deviceName,
            qr_publicKey = publicKey, qr_signingPublicKey = signingPublicKey, qr_sendOnly = sendOnly\<rparr>,
          jd_request = \<lparr>rb_id = deviceId, rb_publicKey = publicKey, rb_signingPublicKey = signingPublicKey,
            rb_sendOnly = sendOnly, rb_invite = seal\<rparr>\<rparr> })"

section \<open>The fingerprint of a device's keys\<close>

definition hex_digits :: string where "hex_digits = ''0123456789abcdef''"

definition hex_byte :: "byte \<Rightarrow> string" where
  "hex_byte b = [hex_digits ! (unat b div 16), hex_digits ! (unat b mod 16)]"

definition upper :: "char \<Rightarrow> char" where
  "upper c = (if c \<in> set ''abcdef'' then char_of ((of_char c :: nat) - 32) else c)"

definition deviceFingerprint :: "(byte list \<Rightarrow> byte list) \<Rightarrow> (string \<Rightarrow> byte list) \<Rightarrow> string \<Rightarrow> string \<Rightarrow> string" where
  "deviceFingerprint sha256 encode publicKey signingPublicKey =
     (let hex = map upper (concat (map hex_byte (take 4 (sha256 (encode (publicKey @ '':'' @ signingPublicKey))))))
      in take 4 hex @ ''-'' @ drop 4 hex)"

section \<open>Codes and seals\<close>

lemma url_chars: "is_url_char c \<Longrightarrow> c \<notin> {CHR ''.'', CHR '':''} \<and> \<not> is_space c"
proof -
  have "list_all (\<lambda>c. c \<notin> {CHR ''.'', CHR '':''} \<and> \<not> is_space c) (map to_url B64_ALPHABET)" by code_simp
  then show "is_url_char c \<Longrightarrow> ?thesis" by (auto simp: list_all_iff is_url_char_def)
qed

lemma encoded_free: "CHR ''.'' \<notin> set (bufToBase64Url b)" "colon_free (bufToBase64Url b)"
  using encoded_chars [of b] url_chars by (auto simp: list_all_iff colon_free_def)

lemma trim_none:
  assumes "\<forall>c \<in> set s. \<not> is_space c"
  shows "trim s = s"
proof -
  have "dropWhile is_space s = s" "dropWhile is_space (rev s) = rev s"
    using assms by (simp_all add: dropWhile_none)
  then show ?thesis by (simp add: trim_def)
qed

lemma trim_spaces:
  assumes "\<forall>c \<in> set s. \<not> is_space c" and "\<forall>c \<in> set a. is_space c" and "\<forall>c \<in> set b. is_space c" and "s \<noteq> []"
  shows "trim (a @ s @ b) = s"
proof -
  have drop: "dropWhile is_space (x @ y) = y" if "\<forall>c \<in> set x. is_space c" "\<forall>c \<in> set y. \<not> is_space c" for x y
    using that by (simp add: dropWhile_append2 dropWhile_none)
  have "dropWhile is_space (a @ s @ b) = s @ b"
    using assms by (cases s) (simp_all add: dropWhile_append2)
  moreover have "dropWhile is_space (rev b @ rev s) = rev s" using drop [of "rev b" "rev s"] assms by simp
  ultimately show ?thesis by (simp add: trim_def)
qed

lemma inviteSealStatement_inj:
  assumes "inviteSealStatement f = inviteSealStatement f'"
    and "list_all colon_free [is_pairingId f, is_deviceId f, is_publicKey f, is_signingPublicKey f]"
    and "list_all colon_free [is_pairingId f', is_deviceId f', is_publicKey f', is_signingPublicKey f']"
  shows "f = f'"
proof -
  let ?l = "\<lambda>f. [is_pairingId f, is_deviceId f, is_publicKey f, is_signingPublicKey f,
    if is_sendOnly f then ''send-only'' else ''full'']"
  have "join '':'' (?l f) = join '':'' (?l f')" using assms(1) by (simp add: inviteSealStatement_def)
  then have "?l f = ?l f'"
    by (rule join_inj [rotated 3]) (use assms(2,3) in \<open>auto simp: colon_free_def\<close>)
  then show ?thesis by (cases f; cases f') (auto split: if_splits)
qed

section \<open>Properties\<close>

text \<open>An invitation code reads back. Whatever random bytes made it, the code of a new invitation
  parses to that invitation, also with the white space a person pastes around it.\<close>

theorem invite_code_roundtrip:
  assumes "length random16 = 16" and "length random32 = 32"
    and "list_all is_space before" and "list_all is_space after"
  shows "parseInviteCode (before @ formatInviteCode (createInvite random16 random32) @ after)
    = Some (createInvite random16 random32)"
proof -
  let ?p = "bufToBase64Url random16" and ?s = "bufToBase64Url random32"
  have "length ?p = 22" "length ?s = 43" using assms(1,2) by (simp_all add: encoded_length)
  moreover have "\<forall>c \<in> set (?p @ ''.'' @ ?s). \<not> is_space c"
    using encoded_chars url_chars by (auto simp: list_all_iff is_space_def)
  then have "trim (before @ (?p @ ''.'' @ ?s) @ after) = ?p @ ''.'' @ ?s"
    using assms(3,4) by (intro trim_spaces) (simp_all add: list_all_iff)
  moreover have "split_on (CHR ''.'') (?p @ ''.'' @ ?s) = [?p, ?s]"
    by (simp add: split_on_append split_on_none encoded_free)
  ultimately show ?thesis
    by (simp add: parseInviteCode_def formatInviteCode_def createInvite_def randomId_def encoded_chars)
qed

text \<open>HKDF in the symbolic reading: what it is given comes back out of no other input.\<close>

definition hkdf_separates :: "('k, 'pub, 'priv) webcrypto \<Rightarrow> bool" where
  "hkdf_separates W \<longleftrightarrow> (\<forall>m s n m' s' n'. hkdf W m s n = hkdf W m' s' n' \<longrightarrow> (m, s, n) = (m', s', n'))"

lemma text_encode_inj: "webcrypto_ok W \<Longrightarrow> text_encode W x = text_encode W y \<longleftrightarrow> x = y"
  by (metis webcrypto_okD(6))

text \<open>The key of an invitation is that of its secret and its pairing id, and of no other.\<close>

lemma inviteKey_inj:
  assumes "webcrypto_ok W" and "hkdf_separates W" and "inviteKey W i = Some key"
  shows "inviteKey W i' = Some key \<longleftrightarrow> base64UrlToBuf (in_secret i') = base64UrlToBuf (in_secret i) \<and> in_pairingId i' = in_pairingId i"
proof -
  have "hkdf W m s n = hkdf W m' s' n \<longleftrightarrow> m = m' \<and> s = s'" for m s n m' s'
    using assms(2) unfolding hkdf_separates_def by blast
  then show ?thesis
    using assms(3) text_encode_inj [OF assms(1)] by (auto simp: inviteKey_def bind_eq_Some_conv)
qed

text \<open>C26. A seal vouches for exactly the keys it was made over. The device that made the invitation opens
  the seal to the joiner's name when the server relays the ids, the keys and the send-only flag the
  joiner sealed; with any one of them changed it refuses, and so does an invitation with another secret or another
  pairing id, in so far as HKDF derives different keys from them.\<close>

theorem invite_seal_binds:
  assumes "webcrypto_ok W" and "hkdf_separates W" and "sealInvite W i name sf iv = Some sealed" and "iv \<noteq> []" and "trim name \<noteq> []"
    and "\<And>k a p. gcm_encrypt W k iv a p \<noteq> []"
    and "list_all colon_free [is_pairingId sf, is_deviceId sf, is_publicKey sf, is_signingPublicKey sf]"
    and "list_all colon_free [is_pairingId sf', is_deviceId sf', is_publicKey sf', is_signingPublicKey sf']"
  shows "openInvite W i' sealed sf'
    = (if sf' = sf \<and> base64UrlToBuf (in_secret i') = base64UrlToBuf (in_secret i) \<and> in_pairingId i' = in_pairingId i
       then Some (take 80 (trim name)) else None)"
proof -
  from assms(3) obtain key where key: "inviteKey W i = Some key"
    and s: "sealed = bufToBase64Url iv @ ''.'' @ bufToBase64Url (gcm_encrypt W key iv (Some (text_encode W (inviteSealStatement sf)))
       (text_encode W (json_stringify W (JObj [(''deviceName'', JStr name)]))))"
    by (auto simp: sealInvite_def bind_eq_Some_conv)
  have ne: "bufToBase64Url b \<noteq> []" if "b \<noteq> []" for b
    using encoded_length [of b] that by (cases b) auto
  have "inviteSealStatement sf' = inviteSealStatement sf \<longleftrightarrow> sf' = sf"
    using inviteSealStatement_inj [OF _ assms(8,7)] by blast
  then show ?thesis
    using assms(1,4-6) key inviteKey_inj [OF assms(1,2) key, of i'] unfolding s openInvite_def
    by (cases "inviteKey W i'")
      (auto simp: split_on_append split_on_none encoded_free ne webcrypto_okD string_field_def jfield_def)
qed

section \<open>Witnesses\<close>

lemma clear_ciphertext: "gcm_encrypt clear_crypto k iv a p \<noteq> []"
  by (simp add: clear_crypto_def bytes_of_def)

theorem invite_code_roundtrip_witness:
  "parseInviteCode (''  '' @ formatInviteCode (createInvite (replicate 16 255) (replicate 32 7)) @ '' '')
     = Some (createInvite (replicate 16 255) (replicate 32 7))"
  by (rule invite_code_roundtrip) (simp_all add: is_space_def)

lemma clear_hkdf: "hkdf_separates clear_crypto"
  by (auto simp: hkdf_separates_def clear_crypto_def)

theorem invite_seal_binds_witness:
  "\<exists>sealed. sealInvite clear_crypto (createInvite [1] [2]) ''phone'' \<lparr>is_pairingId = ''p'', is_deviceId = ''d'',
        is_publicKey = ''k'', is_signingPublicKey = ''s'', is_sendOnly = False\<rparr> [3] = Some sealed
    \<and> openInvite clear_crypto (createInvite [1] [2]) sealed \<lparr>is_pairingId = ''p'', is_deviceId = ''d'',
        is_publicKey = ''k'', is_signingPublicKey = ''s'', is_sendOnly = False\<rparr> = Some ''phone''
    \<and> openInvite clear_crypto (createInvite [1] [2]) sealed \<lparr>is_pairingId = ''p'', is_deviceId = ''d'',
        is_publicKey = ''k'', is_signingPublicKey = ''s'', is_sendOnly = True\<rparr> = None
    \<and> openInvite clear_crypto (createInvite [1] [4]) sealed \<lparr>is_pairingId = ''p'', is_deviceId = ''d'',
        is_publicKey = ''k'', is_signingPublicKey = ''s'', is_sendOnly = False\<rparr> = None"
proof -
  let ?i = "createInvite [1] [2]"
  let ?f = "\<lambda>b. \<lparr>is_pairingId = ''p'', is_deviceId = ''d'', is_publicKey = ''k'', is_signingPublicKey = ''s'', is_sendOnly = b\<rparr>"
  obtain sealed where s: "sealInvite clear_crypto ?i ''phone'' (?f False) [3] = Some sealed"
    by (simp add: sealInvite_def inviteKey_def createInvite_def)
  have name: "trim ''phone'' = ''phone''" by code_simp
  have free: "list_all colon_free [''p'', ''d'', ''k'', ''s'']" by code_simp
  have opens: "openInvite clear_crypto i' sealed (?f b) = (if ?f b = ?f False \<and> base64UrlToBuf (in_secret i') = base64UrlToBuf (in_secret ?i)
      \<and> in_pairingId i' = in_pairingId ?i then Some (take 80 (trim ''phone'')) else None)" for i' b
    by (rule invite_seal_binds [OF clear_crypto_ok clear_hkdf s _ _ clear_ciphertext]) (use free name in simp_all)
  have "base64UrlToBuf (in_secret (createInvite [1] [4])) \<noteq> base64UrlToBuf (in_secret ?i)" by (simp add: createInvite_def)
  then show ?thesis using s opens [of ?i False] opens [of ?i True] opens [of "createInvite [1] [4]" False] name by auto
qed

end
