(* ===== verification/Push.thy ===== *)
theory Push
  imports Devices Base64url "HOL-Library.Monad_Syntax"
begin

text \<open>
  Web Push (apps/worker/src/push.ts and routes/push.ts): which endpoints a device may register, the
  registration itself, and the pushes that tell devices with no open socket that something waits.
  WebCrypto, the URL parser and the network are the functions of a \<open>push_platform\<close>; the salt and
  the key pair drawn for each push are arguments; the cache of imported VAPID keys is not modelled,
  an import gives the same keys again. The lemmas: only push services are ever registered and only
  they are posted to, each device of the list at most once; a registration is dropped exactly when
  its push service reports it gone; the body of a push opens, by the
  browser's side as the tests of the repository write it out, to the payload for the browser it was made for.
\<close>

section \<open>The platform\<close>

record url_parts =
  ur_protocol :: string
  ur_port :: string
  ur_username :: string
  ur_password :: string
  ur_hostname :: string
  ur_origin :: string

text \<open>The POST of \<open>sendPush\<close>, with the headers that vary.\<close>

record push_post =
  po_endpoint :: string
  po_authorization :: string
  po_ttl :: int
  po_topic :: string
  po_body :: "byte list"

record 'priv push_platform =
  pf_url :: "string \<Rightarrow> url_parts option"
  pf_jwk :: "string \<Rightarrow> string \<Rightarrow> string \<Rightarrow> 'priv option"
  pf_sign :: "'priv \<Rightarrow> byte list \<Rightarrow> byte list"
  pf_public :: "'priv \<Rightarrow> byte list"
  pf_ecdh :: "'priv \<Rightarrow> byte list \<Rightarrow> byte list option"
  pf_hkdf :: "byte list \<Rightarrow> byte list \<Rightarrow> byte list \<Rightarrow> nat \<Rightarrow> byte list"
  pf_gcm_encrypt :: "byte list \<Rightarrow> byte list \<Rightarrow> byte list \<Rightarrow> byte list"
  pf_gcm_decrypt :: "byte list \<Rightarrow> byte list \<Rightarrow> byte list \<Rightarrow> byte list option"
  pf_sha256 :: "byte list \<Rightarrow> byte list"
  pf_utf8 :: "string \<Rightarrow> byte list"
  pf_json :: "json \<Rightarrow> string"
  pf_post :: "push_post \<Rightarrow> nat option"

section \<open>Validation\<close>

definition PUSH_SERVICE_HOSTS :: "string list" where
  "PUSH_SERVICE_HOSTS = [''fcm.googleapis.com'']"

definition PUSH_SERVICE_SUFFIXES :: "string list" where
  "PUSH_SERVICE_SUFFIXES = [''.push.services.mozilla.com'', ''.push.apple.com'', ''.notify.windows.com'']"

definition ends_with :: "string \<Rightarrow> string \<Rightarrow> bool" where
  "ends_with s suffix \<longleftrightarrow> length suffix \<le> length s \<and> drop (length s - length suffix) s = suffix"

definition isPushServiceEndpoint :: "'priv push_platform \<Rightarrow> string \<Rightarrow> bool" where
  "isPushServiceEndpoint F endpoint = (case pf_url F endpoint of None \<Rightarrow> False
     | Some url \<Rightarrow> \<not> (ur_protocol url \<noteq> ''https:'' \<or> ur_port url \<noteq> [] \<or> ur_username url \<noteq> [] \<or> ur_password url \<noteq> [])
         \<and> (ur_hostname url \<in> set PUSH_SERVICE_HOSTS \<or> list_ex (ends_with (ur_hostname url)) PUSH_SERVICE_SUFFIXES))"

definition isBase64UrlOfLength :: "string \<Rightarrow> nat \<Rightarrow> byte option \<Rightarrow> bool" where
  "isBase64UrlOfLength value len firstByte \<longleftrightarrow> value \<noteq> [] \<and> list_all is_url_char value
     \<and> (case base64UrlToBuf value of None \<Rightarrow> False
        | Some bytes \<Rightarrow> length bytes = len \<and> (firstByte = None \<or> (bytes \<noteq> [] \<and> firstByte = Some (hd bytes))))"

section \<open>Registering\<close>

definition MAX_ENDPOINT_LENGTH :: int where "MAX_ENDPOINT_LENGTH = 2048"

record PushStatusResponse =
  pr_publicKey :: "string option"
  pr_endpoint :: "string option"

definition vapid_configured :: "conf \<Rightarrow> bool" where
  "vapid_configured cf \<longleftrightarrow> truthy (VAPID_PUBLIC_KEY cf) \<and> truthy (VAPID_PRIVATE_KEY cf)"

definition pushStatus :: "conf \<Rightarrow> request \<Rightarrow> PushStatusResponse handler" where
  "pushStatus cf rq =
     bindS (authenticateS cf rq) (\<lambda>a.
     bindS (readS (\<lambda>s. first_row (\<lambda>p. ps_device_id p = au_deviceId a \<and> ps_group_id p = au_groupId a)
       (push_subscriptions s))) (\<lambda>row.
     retS \<lparr>pr_publicKey = (if vapid_configured cf then VAPID_PUBLIC_KEY cf else None),
           pr_endpoint = map_option ps_endpoint row\<rparr>))"

record PushSubscribeRequest =
  pq_endpoint :: string
  pq_p256dh :: string
  pq_auth :: string

definition parse_subscription :: "'priv push_platform \<Rightarrow> json \<Rightarrow> PushSubscribeRequest checked" where
  "parse_subscription F body =
     bindE (requireString (jfield body ''endpoint'') MAX_ENDPOINT_LENGTH) (\<lambda>endpoint.
     bindE (throwIf (\<not> isPushServiceEndpoint F endpoint) (ApiError BadRequest)) (\<lambda>_.
     bindE (requireString (jfield body ''p256dh'') 128) (\<lambda>p256dh.
     bindE (throwIf (\<not> isBase64UrlOfLength p256dh 65 (Some 4)) (ApiError BadRequest)) (\<lambda>_.
     bindE (requireString (jfield body ''auth'') 64) (\<lambda>secret.
     bindE (throwIf (\<not> isBase64UrlOfLength secret 16 None) (ApiError BadRequest)) (\<lambda>_.
     Inr \<lparr>pq_endpoint = endpoint, pq_p256dh = p256dh, pq_auth = secret\<rparr>))))))"

definition subscription_row :: "AuthContext \<Rightarrow> PushSubscribeRequest \<Rightarrow> int \<Rightarrow> push_row" where
  "subscription_row a r now = \<lparr>ps_device_id = au_deviceId a, ps_group_id = au_groupId a, ps_endpoint = pq_endpoint r,
     ps_p256dh = pq_p256dh r, ps_auth = pq_auth r, ps_created_at = now\<rparr>"

text \<open>\<open>INSERT ... ON CONFLICT (device_id) DO UPDATE\<close> of every other column.\<close>

definition upsert_subscription :: "push_row \<Rightarrow> push_row table \<Rightarrow> push_row table" where
  "upsert_subscription r t =
     (if exists_row (\<lambda>p. ps_device_id p = ps_device_id r) t
      then update_rows (\<lambda>p. ps_device_id p = ps_device_id r) (\<lambda>_. r) t else t @ [r])"

definition pushSubscribe :: "'priv push_platform \<Rightarrow> conf \<Rightarrow> request \<Rightarrow> int \<Rightarrow> unit handler" where
  "pushSubscribe F cf rq now =
     bindS (authenticateS cf rq) (\<lambda>a.
     bindS (liftE (enforceRateLimit (RL_WRITE cf) (au_deviceId a))) (\<lambda>_.
     bindS (throwS (\<not> vapid_configured cf) (ApiError NotFound)) (\<lambda>_.
     bindS (liftE (request_json cf rq)) (\<lambda>body.
     bindS (liftE (parse_subscription F body)) (\<lambda>r.
     writeS (\<lambda>s. s\<lparr>push_subscriptions := upsert_subscription (subscription_row a r now) (push_subscriptions s)\<rparr>))))))"

definition pushUnsubscribe :: "conf \<Rightarrow> request \<Rightarrow> unit handler" where
  "pushUnsubscribe cf rq =
     bindS (authenticateS cf rq) (\<lambda>a.
     writeS (\<lambda>s. s\<lparr>push_subscriptions := delete_rows
       (\<lambda>p. ps_device_id p = au_deviceId a \<and> ps_group_id p = au_groupId a) (push_subscriptions s)\<rparr>))"

section \<open>The identity of the server\<close>

definition VAPID_TOKEN_TTL_SECONDS :: int where "VAPID_TOKEN_TTL_SECONDS = 12 * 60 * 60"

definition PUSH_TTL_SECONDS :: int where "PUSH_TTL_SECONDS = MESSAGE_TTL_MS div 1000"

record 'priv VapidKeys =
  vk_publicKey :: string
  vk_privateKey :: 'priv
  vk_subject :: string

definition importVapidKeys :: "'priv push_platform \<Rightarrow> string \<Rightarrow> string \<Rightarrow> string \<Rightarrow> 'priv VapidKeys option" where
  "importVapidKeys F publicKey privateKey subject = do {
     point \<leftarrow> base64UrlToBuf publicKey;
     key \<leftarrow> pf_jwk F (bufToBase64Url (take 32 (drop 1 point))) (bufToBase64Url (take 32 (drop 33 point))) privateKey;
     Some \<lparr>vk_publicKey = publicKey, vk_privateKey = key, vk_subject = subject\<rparr> }"

text \<open>\<open>None\<close>: push is not set up. \<open>Some None\<close>: the keys do not import.\<close>

definition vapidKeys :: "'priv push_platform \<Rightarrow> conf \<Rightarrow> string option \<Rightarrow> 'priv VapidKeys option option" where
  "vapidKeys F cf subject =
     (if \<not> truthy (VAPID_PUBLIC_KEY cf) \<or> \<not> truthy (VAPID_PRIVATE_KEY cf) then None
      else Some (importVapidKeys F (the (VAPID_PUBLIC_KEY cf)) (the (VAPID_PRIVATE_KEY cf))
        (if truthy subject then the subject else ''https://sendself.4oli.com'')))"

definition vapidAuthorization :: "'priv push_platform \<Rightarrow> string \<Rightarrow> 'priv VapidKeys \<Rightarrow> int \<Rightarrow> string option" where
  "vapidAuthorization F endpoint keys now = do {
     url \<leftarrow> pf_url F endpoint;
     let encode = (\<lambda>v. bufToBase64Url (pf_utf8 F (pf_json F v)));
         unsigned = encode (JObj [(''typ'', JStr ''JWT''), (''alg'', JStr ''ES256'')]) @ ''.'' @
           encode (JObj [(''aud'', JStr (ur_origin url)),
             (''exp'', JNum (IntN (now div 1000 + VAPID_TOKEN_TTL_SECONDS))), (''sub'', JStr (vk_subject keys))]);
         signature = pf_sign F (vk_privateKey keys) (pf_utf8 F unsigned)
     in Some (''vapid t='' @ unsigned @ ''.'' @ bufToBase64Url signature @ '', k='' @ vk_publicKey keys) }"

section \<open>The body of a push\<close>

definition RECORD_SIZE :: "byte list" where "RECORD_SIZE = [0, 0, 0x10, 0]"

definition push_info :: "'priv push_platform \<Rightarrow> string \<Rightarrow> byte list" where
  "push_info F label = pf_utf8 F (label @ [CHR 0x00])"

text \<open>The content key and the nonce of RFC 8291, from the shared secret of both ends.\<close>

definition push_keys :: "'priv push_platform \<Rightarrow> byte list \<Rightarrow> byte list \<Rightarrow> byte list \<Rightarrow> byte list \<Rightarrow> byte list \<Rightarrow> byte list \<times> byte list" where
  "push_keys F auth shared receiverPublic senderPublic salt =
     (let ikm = pf_hkdf F auth shared (push_info F ''WebPush: info'' @ receiverPublic @ senderPublic) 32
      in (pf_hkdf F salt ikm (push_info F ''Content-Encoding: aes128gcm'') 16,
          pf_hkdf F salt ikm (push_info F ''Content-Encoding: nonce'') 12))"

text \<open>The sixteen bytes of salt and the sender's key pair were drawn for this push.\<close>

definition encryptPushPayload :: "'priv push_platform \<Rightarrow> byte list \<Rightarrow> string \<Rightarrow> string \<Rightarrow> byte list \<Rightarrow> 'priv \<Rightarrow> byte list option" where
  "encryptPushPayload F plaintext p256dh authSecret salt localKey = do {
     receiverPublic \<leftarrow> base64UrlToBuf p256dh;
     auth \<leftarrow> base64UrlToBuf authSecret;
     let senderPublic = pf_public F localKey in do {
     shared \<leftarrow> pf_ecdh F localKey receiverPublic;
     let (cek, nonce) = push_keys F auth shared receiverPublic senderPublic salt;
         ciphertext = pf_gcm_encrypt F cek nonce (plaintext @ [2])
     in Some (salt @ RECORD_SIZE @ [word_of_nat (length senderPublic)] @ senderPublic @ ciphertext) }}"

section \<open>Sending\<close>

datatype PushOutcome = Sent | Gone | Failed

definition topicFor :: "'priv push_platform \<Rightarrow> string \<Rightarrow> string" where
  "topicFor F groupId = take 32 (bufToBase64Url (pf_sha256 F (pf_utf8 F (''sendself-push:'' @ groupId))))"

definition push_payload :: "string \<Rightarrow> json" where
  "push_payload groupId = JObj [(''type'', JStr ''message''), (''groupId'', JStr groupId)]"

definition sendPush :: "'priv push_platform \<Rightarrow> push_row \<Rightarrow> string \<Rightarrow> 'priv VapidKeys \<Rightarrow> int \<Rightarrow> byte list \<times> 'priv \<Rightarrow> PushOutcome" where
  "sendPush F subscription groupId keys now drawn =
     (case do {
         body \<leftarrow> encryptPushPayload F (pf_utf8 F (pf_json F (push_payload groupId))) (ps_p256dh subscription)
           (ps_auth subscription) (fst drawn) (snd drawn);
         authorization \<leftarrow> vapidAuthorization F (ps_endpoint subscription) keys now;
         pf_post F \<lparr>po_endpoint = ps_endpoint subscription, po_authorization = authorization,
           po_ttl = PUSH_TTL_SECONDS, po_topic = topicFor F groupId, po_body = body\<rparr> } of
       None \<Rightarrow> Failed
     | Some status \<Rightarrow> if status = 404 \<or> status = 410 then Gone
         else if 200 \<le> status \<and> status < 300 then Sent else Failed)"

definition MAX_DEVICES_PER_QUERY :: nat where "MAX_DEVICES_PER_QUERY = 90"

definition subscriptions_of :: "string \<Rightarrow> string list \<Rightarrow> env \<Rightarrow> push_row list" where
  "subscriptions_of groupId deviceIds s = concat (map (\<lambda>chunk.
     filter (\<lambda>p. ps_group_id p = groupId \<and> ps_device_id p \<in> set chunk) (push_subscriptions s))
       (batches MAX_DEVICES_PER_QUERY deviceIds))"

definition forget_gone :: "push_row list \<Rightarrow> env \<Rightarrow> env" where
  "forget_gone gone s = fold (\<lambda>g s. s\<lparr>push_subscriptions := delete_rows
     (\<lambda>p. ps_device_id p = ps_device_id g \<and> ps_endpoint p = ps_endpoint g) (push_subscriptions s)\<rparr>) gone s"

text \<open>What it answers is what was posted, with the outcome of each; the code drops it at the end.\<close>

definition pushToDevices :: "'priv push_platform \<Rightarrow> conf \<Rightarrow> string option \<Rightarrow> (push_row \<Rightarrow> byte list \<times> 'priv) \<Rightarrow> string \<Rightarrow> string list
    \<Rightarrow> int \<Rightarrow> (push_row \<times> PushOutcome) list handler" where
  "pushToDevices F cf subject drawn groupId deviceIds now =
     (case vapidKeys F cf subject of None \<Rightarrow> retS []
      | Some keysPromise \<Rightarrow> if deviceIds = [] then retS [] else
          bindS (liftE (case keysPromise of None \<Rightarrow> Inl Thrown | Some keys \<Rightarrow> Inr keys)) (\<lambda>keys.
          bindS (readS (subscriptions_of groupId deviceIds)) (\<lambda>subscriptions.
          if subscriptions = [] then retS [] else
          let outcomes = map (\<lambda>p. (p, sendPush F p groupId keys now (drawn p))) subscriptions;
              gone = map fst (filter (\<lambda>x. snd x = Gone) outcomes)
          in bindS (writeS (forget_gone gone)) (\<lambda>_. retS outcomes))))"

section \<open>Only push services are registered\<close>

definition subscription_ok :: "'priv push_platform \<Rightarrow> push_row \<Rightarrow> bool" where
  "subscription_ok F p \<longleftrightarrow> isPushServiceEndpoint F (ps_endpoint p)
     \<and> isBase64UrlOfLength (ps_p256dh p) 65 (Some 4) \<and> isBase64UrlOfLength (ps_auth p) 16 None"

definition push_ok :: "'priv push_platform \<Rightarrow> env \<Rightarrow> bool" where
  "push_ok F s \<longleftrightarrow> pk ps_device_id (push_subscriptions s) \<and> list_all (subscription_ok F) (push_subscriptions s)"

lemma parse_subscription_ok:
  "parse_subscription F body = Inr r \<Longrightarrow> subscription_ok F (subscription_row a r now)"
  by (auto simp: parse_subscription_def guard_simps subscription_ok_def subscription_row_def)

lemma pk_upsert_subscription: "pk ps_device_id t \<Longrightarrow> pk ps_device_id (upsert_subscription r t)"
proof -
  assume t: "pk ps_device_id t"
  have "map ps_device_id (update_rows (\<lambda>p. ps_device_id p = ps_device_id r) (\<lambda>_. r) t) = map ps_device_id t"
    by (induction t) (auto simp: update_rows_def)
  with t show ?thesis
    by (auto simp: upsert_subscription_def pk_def exists_row_iff)
qed

lemma push_ok_delete [simp]: "push_ok F s \<Longrightarrow> push_ok F (s\<lparr>push_subscriptions := delete_rows c (push_subscriptions s)\<rparr>)"
  by (auto simp: push_ok_def delete_rows_def list_all_iff pk_def distinct_map inj_on_def)

lemma push_ok_upsert:
  "push_ok F s \<Longrightarrow> subscription_ok F r \<Longrightarrow> push_ok F (s\<lparr>push_subscriptions := upsert_subscription r (push_subscriptions s)\<rparr>)"
  by (simp add: push_ok_def pk_upsert_subscription)
     (auto simp: upsert_subscription_def list_all_iff update_rows_def)

lemma keeps_authenticate_then: "(\<And>a. keeps P (f a)) \<Longrightarrow> keeps P (bindS (authenticateS cf rq) f)"
  by (intro keeps_bindS keeps_authenticateS)

lemma push_ok_pushSubscribe: "keeps (push_ok F) (pushSubscribe F cf rq now)"
proof -
  have "wp (pushSubscribe F cf rq now) (\<lambda>_. push_ok F) (\<lambda>_. push_ok F) s" if "push_ok F s" for s
    using that by (auto simp: pushSubscribe_def wp_simps intro: push_ok_upsert parse_subscription_ok split: sum.split)
  then show ?thesis by (simp add: keeps_iff_wp)
qed

lemma push_ok_pushUnsubscribe: "keeps (push_ok F) (pushUnsubscribe cf rq)"
  unfolding pushUnsubscribe_def by (intro keeps_authenticate_then keeps_writeS push_ok_delete)

lemma isBase64UrlOfLength_encoded:
  "b \<noteq> [] \<Longrightarrow> isBase64UrlOfLength (bufToBase64Url b) n f \<longleftrightarrow> length b = n \<and> (f = None \<or> f = Some (hd b))"
  using encoded_length [of b] encoded_chars [of b] by (cases b) (auto simp: isBase64UrlOfLength_def)

section \<open>Whom a push goes to\<close>

lemma set_subscriptions_of:
  "set (subscriptions_of g ids s) = {p \<in> set (push_subscriptions s). ps_group_id p = g \<and> ps_device_id p \<in> set ids}"
proof -
  have "set (subscriptions_of g ids s) = {p \<in> set (push_subscriptions s). ps_group_id p = g
      \<and> ps_device_id p \<in> set (concat (batches MAX_DEVICES_PER_QUERY ids))}"
    by (auto simp: subscriptions_of_def)
  then show ?thesis by (simp add: concat_batches MAX_DEVICES_PER_QUERY_def)
qed

lemma distinct_by_chunks:
  assumes "distinct (concat chunks)" and "distinct (map f t)"
  shows "distinct (concat (map (\<lambda>c. filter (\<lambda>p. q p \<and> f p \<in> set c) t) chunks))"
  using assms by (induction chunks) (auto simp: distinct_map)

lemma distinct_subscriptions_of:
  assumes "pk ps_device_id (push_subscriptions s)" and "distinct ids"
  shows "distinct (subscriptions_of g ids s)"
  unfolding subscriptions_of_def
  by (rule distinct_by_chunks) (use assms in \<open>simp_all add: concat_batches MAX_DEVICES_PER_QUERY_def pk_def\<close>)

lemma forget_gone_rows:
  "forget_gone gone s = s\<lparr>push_subscriptions := filter (\<lambda>p. \<not> (\<exists>g \<in> set gone. ps_device_id p = ps_device_id g
     \<and> ps_endpoint p = ps_endpoint g)) (push_subscriptions s)\<rparr>"
  unfolding forget_gone_def
proof (induction gone arbitrary: s)
  case (Cons g gone)
  show ?case
    unfolding list.simps fold_simps Cons.IH by (simp add: delete_rows_def conj_commute cong: conj_cong)
qed simp

lemma forget_gone_exact:
  assumes "pk ps_device_id (push_subscriptions s)" and "set gone \<subseteq> set (push_subscriptions s)"
  shows "forget_gone gone s = s\<lparr>push_subscriptions := filter (\<lambda>p. p \<notin> set gone) (push_subscriptions s)\<rparr>"
proof -
  have "(\<exists>g \<in> set gone. ps_device_id p = ps_device_id g \<and> ps_endpoint p = ps_endpoint g) \<longleftrightarrow> p \<in> set gone"
    if "p \<in> set (push_subscriptions s)" for p
    using that assms by (auto simp: pk_def distinct_map inj_on_def subset_iff)
  then show ?thesis unfolding forget_gone_rows by (simp cong: filter_cong)
qed

text \<open>What one call of \<open>pushToDevices\<close> posts and leaves.\<close>

lemma pushToDevices_exact:
  assumes "push_ok F s" and "distinct ids" and "vapidKeys F cf subject = Some (Some keys)"
  shows "\<exists>posts. pushToDevices F cf subject drawn g ids now s = (Inr posts,
      s\<lparr>push_subscriptions := filter (\<lambda>p. (p, Gone) \<notin> set posts) (push_subscriptions s)\<rparr>)
    \<and> distinct (map fst posts)
    \<and> set posts = (\<lambda>p. (p, sendPush F p g keys now (drawn p))) `
        {p \<in> set (push_subscriptions s). ps_group_id p = g \<and> ps_device_id p \<in> set ids}"
proof -
  define subs where "subs = subscriptions_of g ids s"
  define posts where "posts = map (\<lambda>p. (p, sendPush F p g keys now (drawn p))) subs"
  have subs: "set subs = {p \<in> set (push_subscriptions s). ps_group_id p = g \<and> ps_device_id p \<in> set ids}"
    unfolding subs_def by (rule set_subscriptions_of)
  have "distinct subs" unfolding subs_def
    using assms(1,2) by (intro distinct_subscriptions_of) (simp_all add: push_ok_def)
  moreover have "map fst posts = subs" by (simp add: posts_def comp_def)
  ultimately have "distinct (map fst posts)" by simp
  define gone where "gone = map fst (filter (\<lambda>x. snd x = Gone) posts)"
  have gone: "set gone = {p. (p, Gone) \<in> set posts}" by (force simp: gone_def)
  moreover have "set gone \<subseteq> set (push_subscriptions s)" using subs gone by (auto simp: posts_def)
  ultimately have "forget_gone gone s = s\<lparr>push_subscriptions := filter (\<lambda>p. (p, Gone) \<notin> set posts) (push_subscriptions s)\<rparr>"
    using assms(1) by (simp add: forget_gone_exact push_ok_def)
  moreover have "pushToDevices F cf subject drawn g ids now s
      = (Inr posts, if subs = [] then s else forget_gone gone s)"
    using assms(3) by (cases "ids = []")
      (simp_all add: pushToDevices_def bindS_def liftE_def readS_def writeS_def retS_def subs_def [symmetric]
        posts_def [symmetric] gone_def [symmetric] Let_def, simp_all add: subs_def posts_def subscriptions_of_def)
  moreover have "subs = [] \<Longrightarrow> posts = []" by (simp add: posts_def)
  ultimately have "pushToDevices F cf subject drawn g ids now s = (Inr posts,
      s\<lparr>push_subscriptions := filter (\<lambda>p. (p, Gone) \<notin> set posts) (push_subscriptions s)\<rparr>)"
    by (cases "subs = []") simp_all
  moreover have "set posts = (\<lambda>p. (p, sendPush F p g keys now (drawn p))) ` set subs" by (simp add: posts_def)
  ultimately show ?thesis using \<open>distinct (map fst posts)\<close> subs by (intro exI [of _ posts]) simp
qed

section \<open>The receiving half of RFC 8291\<close>

text \<open>What the platform documents: both ends of ECDH agree, sealing adds a tag of sixteen bytes and is undone by
  opening, a raw P-256 key has 65 bytes, and the encoder leaves ASCII as it is.\<close>

definition platform_ok :: "'priv push_platform \<Rightarrow> bool" where
  "platform_ok F \<longleftrightarrow> (\<forall>a b. pf_ecdh F a (pf_public F b) = pf_ecdh F b (pf_public F a) \<and> pf_ecdh F a (pf_public F b) \<noteq> None)
     \<and> (\<forall>k n p. pf_gcm_decrypt F k n (pf_gcm_encrypt F k n p) = Some p \<and> length (pf_gcm_encrypt F k n p) = length p + 16)
     \<and> (\<forall>k. length (pf_public F k) = 65)
     \<and> (\<forall>s. list_all (\<lambda>c. of_char c < (128 :: nat)) s \<longrightarrow> pf_utf8 F s = map (\<lambda>c. word_of_nat (of_char c)) s)"

text \<open>The browser's side is not the server's: \<open>decryptAsBrowser\<close> of push.test.ts writes it out on its own, from RFC
  8291, down to the buffer in which the labels and keys are laid out (\<open>set_at\<close> is \<open>Uint8Array.set\<close>, a
  \<open>RangeError\<close> being \<open>None\<close>). A failed expectation is \<open>None\<close>; the result is the bytes it then decodes.\<close>

definition set_at :: "byte list \<Rightarrow> nat \<Rightarrow> byte list \<Rightarrow> byte list option" where
  "set_at info offset xs = (if offset + length xs \<le> length info
     then Some (take offset info @ xs @ drop (offset + length xs) info) else None)"

definition getUint32 :: "byte list \<Rightarrow> nat \<Rightarrow> nat" where
  "getUint32 body i = ((unat (body ! i) * 256 + unat (body ! (i + 1))) * 256 + unat (body ! (i + 2))) * 256 + unat (body ! (i + 3))"

definition lastIndexOf :: "byte \<Rightarrow> byte list \<Rightarrow> int" where
  "lastIndexOf b xs = (case filter (\<lambda>i. xs ! i = b) (rev [0 ..< length xs]) of [] \<Rightarrow> -1 | i # _ \<Rightarrow> int i)"

definition decryptAsBrowser :: "'priv push_platform \<Rightarrow> 'priv \<Rightarrow> string \<Rightarrow> string \<Rightarrow> byte list \<Rightarrow> byte list option" where
  "decryptAsBrowser F privateKey p256dh authSecret body =
     (if length body < 21 then None else
      let salt = take 16 body;
          recordSize = getUint32 body 16;
          idLength = unat (body ! 20);
          senderPublic = take idLength (drop 21 body);
          ciphertext = drop (21 + idLength) body
      in if \<not> length ciphertext < recordSize then None else do {
        shared \<leftarrow> pf_ecdh F privateKey senderPublic;
        receiverPublic \<leftarrow> base64UrlToBuf p256dh;
        info \<leftarrow> set_at (replicate (14 + 65 + 65) 0) 0 (pf_utf8 F (''WebPush: info'' @ [CHR 0x00]));
        info \<leftarrow> set_at info 14 receiverPublic;
        info \<leftarrow> set_at info 79 senderPublic;
        auth \<leftarrow> base64UrlToBuf authSecret;
        let ikm = pf_hkdf F auth shared info 32;
            cek = pf_hkdf F salt ikm (pf_utf8 F (''Content-Encoding: aes128gcm'' @ [CHR 0x00])) 16;
            nonce = pf_hkdf F salt ikm (pf_utf8 F (''Content-Encoding: nonce'' @ [CHR 0x00])) 12
        in do {
        padded \<leftarrow> pf_gcm_decrypt F cek nonce ciphertext;
        if lastIndexOf 2 padded = int (length padded) - 1 then Some (take (length padded - 1) padded) else None }})"

lemma lastIndexOf_end: "lastIndexOf b (xs @ [b]) = int (length xs)"
  by (simp add: lastIndexOf_def)

text \<open>The three writes fill the buffer with exactly what the server concatenates.\<close>

lemma set_at_parts:
  "length xs = m \<Longrightarrow> set_at (pre @ replicate (m + n) 0) (length pre) xs = Some ((pre @ xs) @ replicate n 0)"
  by (simp add: set_at_def)

lemma browser_info:
  assumes "platform_ok F" and "length receiverPublic = 65" and "length senderPublic = 65"
  shows "do { info \<leftarrow> set_at (replicate 144 0) 0 (pf_utf8 F (''WebPush: info'' @ [CHR 0x00]));
       info \<leftarrow> set_at info 14 receiverPublic;
       info \<leftarrow> set_at info 79 senderPublic;
       f info } = f (push_info F ''WebPush: info'' @ receiverPublic @ senderPublic)"
proof -
  have len: "length (push_info F ''WebPush: info'') = 14" using assms(1) by (simp add: platform_ok_def push_info_def)
  have "set_at (replicate 144 0) 0 (push_info F ''WebPush: info'') = Some (push_info F ''WebPush: info'' @ replicate 130 0)"
    using set_at_parts [of "push_info F ''WebPush: info''" 14 "[]" 130] len by simp
  moreover have "set_at (push_info F ''WebPush: info'' @ replicate 130 0) 14 receiverPublic
      = Some ((push_info F ''WebPush: info'' @ receiverPublic) @ replicate 65 0)"
    using set_at_parts [of receiverPublic 65 "push_info F ''WebPush: info''" 65] len assms(2) by simp
  moreover have "set_at ((push_info F ''WebPush: info'' @ receiverPublic) @ replicate 65 0) 79 senderPublic
      = Some (push_info F ''WebPush: info'' @ receiverPublic @ senderPublic)"
    using set_at_parts [of senderPublic 65 "push_info F ''WebPush: info'' @ receiverPublic" 0] len assms(2,3) by simp
  ultimately show ?thesis by (simp add: push_info_def [of F, symmetric] del: replicate.simps append.simps)
qed

text \<open>C27. A push opens where it was meant to. For a browser that registered its public key and its secret,
  the body the server makes of any payload that fits one record is opened by that browser, which derives the
  keys on its own, to exactly that payload, whatever key pair and salt were drawn for it. The theorem rests on
  the platform's documented behaviour (\<open>platform_ok\<close>); the key derivation itself is not interpreted, so both
  sides must feed it the same bytes.\<close>

theorem push_payload_opens:
  assumes "platform_ok F" and "length salt = 16" and "length payload + 17 < 4096"
  shows "\<exists>body. encryptPushPayload F payload (bufToBase64Url (pf_public F browserKey)) (bufToBase64Url auth) salt localKey
      = Some body \<and> decryptAsBrowser F browserKey (bufToBase64Url (pf_public F browserKey)) (bufToBase64Url auth) body = Some payload"
proof -
  let ?sender = "pf_public F localKey" and ?mine = "pf_public F browserKey"
  from assms(1) obtain shared where shared: "pf_ecdh F localKey ?mine = Some shared" "pf_ecdh F browserKey ?sender = Some shared"
    unfolding platform_ok_def by (metis option.exhaust)
  obtain cek nonce where keys: "push_keys F auth shared ?mine ?sender salt = (cek, nonce)" by (cases "push_keys F auth shared ?mine ?sender salt")
  define ct where "ct = pf_gcm_encrypt F cek nonce (payload @ [2])"
  define body where "body = salt @ RECORD_SIZE @ [word_of_nat 65] @ ?sender @ ct"
  have len: "length ?sender = 65" "length ?mine = 65" and ct: "pf_gcm_decrypt F cek nonce ct = Some (payload @ [2])" "length ct < 4096"
    using assms(1,3) by (simp_all add: platform_ok_def ct_def)
  have made: "encryptPushPayload F payload (bufToBase64Url ?mine) (bufToBase64Url auth) salt localKey = Some body"
    using shared keys by (simp add: encryptPushPayload_def body_def ct_def len)
  have parts: "take 16 body = salt" "getUint32 body 16 = 4096" "unat (body ! 20) = 65"
    "take 65 (drop 21 body) = ?sender" "drop 86 body = ct" "\<not> length body < 21" "length body - 86 < 4096"
    using assms(2) len ct(2) by (simp_all add: body_def RECORD_SIZE_def nth_append getUint32_def)
  have "decryptAsBrowser F browserKey (bufToBase64Url ?mine) (bufToBase64Url auth) body = Some payload"
    using shared keys ct parts lastIndexOf_end [of 2 payload]
    by (simp add: decryptAsBrowser_def Let_def browser_info [OF assms(1) len(2,1)] push_keys_def push_info_def del: append.simps replicate.simps)
  with made show ?thesis by blast
qed

section \<open>Witness\<close>

text \<open>A platform in the clear, on which everything computes.\<close>

definition clear_push :: "(push_post \<Rightarrow> nat option) \<Rightarrow> nat push_platform" where
  "clear_push post = \<lparr>
     pf_url = (\<lambda>s. if take 8 s = ''https://'' then Some \<lparr>ur_protocol = ''https:'', ur_port = [], ur_username = [], ur_password = [],
       ur_hostname = takeWhile (\<lambda>c. c \<noteq> CHR ''/'') (drop 8 s), ur_origin = ''https://'' @ takeWhile (\<lambda>c. c \<noteq> CHR ''/'') (drop 8 s)\<rparr> else None),
     pf_jwk = (\<lambda>x y d. Some (length d)), pf_sign = (\<lambda>k m. [word_of_nat k]),
     pf_public = (\<lambda>k. 4 # replicate 64 (word_of_nat k)),
     pf_ecdh = (\<lambda>k p. Some [word_of_nat k * last p]), pf_hkdf = (\<lambda>s k i n. take n (k @ i)),
     pf_gcm_encrypt = (\<lambda>k n p. p @ replicate 16 0), pf_gcm_decrypt = (\<lambda>k n c. Some (take (length c - 16) c)),
     pf_sha256 = (\<lambda>b. b), pf_utf8 = map (\<lambda>c. word_of_nat (of_char c)), pf_json = (\<lambda>j. ''j''), pf_post = post\<rparr>"

lemma clear_push_ok: "platform_ok (clear_push post)"
  by (simp add: platform_ok_def clear_push_def mult.commute)

theorem push_payload_opens_witness:
  "\<exists>body. encryptPushPayload (clear_push (\<lambda>_. None)) [7, 0, 9] (bufToBase64Url (pf_public (clear_push (\<lambda>_. None)) 5)) (bufToBase64Url [1])
      (replicate 16 3) 8 = Some body \<and> decryptAsBrowser (clear_push (\<lambda>_. None)) 5 (bufToBase64Url (pf_public (clear_push (\<lambda>_. None)) 5))
      (bufToBase64Url [1]) body = Some [7, 0, 9]"
  by (rule push_payload_opens [OF clear_push_ok]) simp_all

end
