(* ===== verification/Realtime.thy ===== *)
theory Realtime
  imports Push
begin

text \<open>
  Real-time delivery (apps/worker/src/realtime.ts): the object of a space that holds its sockets, and
  \<open>notifySpace\<close>, which tells the sockets and then pushes to the recipients that do not have the space
  on screen. A socket is its attachment, whether a send on it still works and what was sent on it;
  the hub of a space is the list of its sockets. The lemmas: a broadcast sends exactly one event to
  every working socket but those of the excluded device and reports exactly the devices with the
  space on screen; together with the push a recipient is told over at least one channel it has.
\<close>

section \<open>Sockets\<close>

definition REALTIME_AUTH_PROTOCOL_PREFIX :: string where "REALTIME_AUTH_PROTOCOL_PREFIX = ''fs-auth.''"

definition REALTIME_PRESENCE_VISIBLE :: string where "REALTIME_PRESENCE_VISIBLE = ''visible''"

definition REALTIME_PRESENCE_HIDDEN :: string where "REALTIME_PRESENCE_HIDDEN = ''hidden''"

record SocketAttachment =
  sa_deviceId :: string
  sa_hidden :: "bool option"

record socket =
  so_attachment :: "SocketAttachment option"
  so_works :: bool
  so_sent :: "string list"

type_synonym hub = "socket list"

text \<open>\<open>JSON.stringify({ type: "sync" })\<close>\<close>

definition sync_event :: string where
  "sync_event = ''{'' @ [CHR 0x22] @ ''type'' @ [CHR 0x22] @ '':'' @ [CHR 0x22] @ ''sync'' @ [CHR 0x22] @ ''}''"

definition send_on :: "string \<Rightarrow> socket \<Rightarrow> socket" where
  "send_on payload w = w\<lparr>so_sent := so_sent w @ [payload]\<rparr>"

definition add_present :: "string \<Rightarrow> string list \<Rightarrow> string list" where
  "add_present x xs = (if x \<in> set xs then xs else xs @ [x])"

text \<open>The loop of \<open>broadcast\<close>: the devices present so far, and the sockets after it.\<close>

definition skipped :: "string option \<Rightarrow> socket \<Rightarrow> bool" where
  "skipped exclude w \<longleftrightarrow> truthy exclude \<and> map_option sa_deviceId (so_attachment w) = exclude"

definition on_screen :: "socket \<Rightarrow> bool" where
  "on_screen w \<longleftrightarrow> (case so_attachment w of None \<Rightarrow> False | Some a \<Rightarrow> sa_hidden a \<noteq> Some True)"

fun broadcast_from :: "string option \<Rightarrow> hub \<Rightarrow> string list \<Rightarrow> string list \<times> hub" where
  "broadcast_from exclude [] present = (present, [])"
| "broadcast_from exclude (w # ws) present =
     (if skipped exclude w \<or> \<not> so_works w
      then (let (p, ws') = broadcast_from exclude ws present in (p, w # ws'))
      else (let present' = (if on_screen w then add_present (sa_deviceId (the (so_attachment w))) present else present);
                (p, ws') = broadcast_from exclude ws present'
            in (p, send_on sync_event w # ws')))"

definition broadcast :: "string option \<Rightarrow> hub \<Rightarrow> string list \<times> hub" where
  "broadcast exclude ws = broadcast_from exclude ws []"

text \<open>\<open>webSocketMessage\<close> on one socket.\<close>

definition webSocketMessage :: "string \<Rightarrow> socket \<Rightarrow> socket" where
  "webSocketMessage message w =
     (if message = ''ping'' then send_on ''pong'' w
      else if message = REALTIME_PRESENCE_VISIBLE \<or> message = REALTIME_PRESENCE_HIDDEN then
        (case so_attachment w of None \<Rightarrow> w
         | Some a \<Rightarrow> w\<lparr>so_attachment := Some \<lparr>sa_deviceId = sa_deviceId a,
             sa_hidden = Some (message = REALTIME_PRESENCE_HIDDEN)\<rparr>\<rparr>)
      else w)"

text \<open>\<open>fetch\<close> for a connection: the socket it accepts, or the answer 426.\<close>

definition hub_connect :: "string option \<Rightarrow> string option \<Rightarrow> hub \<Rightarrow> nat \<times> hub" where
  "hub_connect upgrade deviceId ws =
     (if upgrade \<noteq> Some ''websocket'' then (426, ws)
      else (101, ws @ [\<lparr>so_attachment = Some \<lparr>sa_deviceId = (case deviceId of None \<Rightarrow> [] | Some d \<Rightarrow> d), sa_hidden = None\<rparr>,
        so_works = True, so_sent = []\<rparr>]))"

section \<open>Notifying a space\<close>

text \<open>The sockets of every space, and whether the objects answer.\<close>

record hub_state =
  hubs :: "string \<Rightarrow> hub"
  hubs_up :: bool

definition notifySpace_run :: "'priv push_platform \<Rightarrow> conf \<Rightarrow> string option \<Rightarrow> (push_row \<Rightarrow> byte list \<times> 'priv) \<Rightarrow> string
    \<Rightarrow> string option \<Rightarrow> string list \<Rightarrow> int \<Rightarrow> hub_state \<Rightarrow> env \<Rightarrow> (push_row \<times> PushOutcome) list \<times> hub_state \<times> env" where
  "notifySpace_run F cf subject drawn groupId exclude push now l s =
     (let (present, l') = (if hubs_up l
            then (let (p, ws) = broadcast exclude (hubs l groupId) in (p, l\<lparr>hubs := (hubs l)(groupId := ws)\<rparr>))
            else ([], l))
      in if push = [] then ([], l', s)
         else (let absent = filter (\<lambda>deviceId. deviceId \<notin> set present) push;
                   (r, s') = pushToDevices F cf subject drawn groupId absent now s
               in (case r of Inl _ \<Rightarrow> [] | Inr posts \<Rightarrow> posts, l', s')))"

section \<open>Connecting\<close>

definition starts_with :: "string \<Rightarrow> string \<Rightarrow> bool" where
  "starts_with p s \<longleftrightarrow> take (length p) s = p"

text \<open>\<open>offered.split(",").map(trim).find(startsWith(prefix))\<close>\<close>

definition auth_protocol :: "string \<Rightarrow> string option" where
  "auth_protocol offered = find (starts_with REALTIME_AUTH_PROTOCOL_PREFIX) (map trim (split_on (CHR '','') offered))"

definition authenticateSubprotocol :: "conf \<Rightarrow> string \<Rightarrow> request \<Rightarrow> env \<Rightarrow> AuthContext checked" where
  "authenticateSubprotocol cf offered rq s =
     (let token = map_option (drop (length REALTIME_AUTH_PROTOCOL_PREFIX)) (auth_protocol offered)
      in if \<not> truthy token then authenticate cf rq s
         else authenticate cf (rq\<lparr>rq_authorization := Some (''Bearer '' @ the token)\<rparr>) s)"

text \<open>What the handshake answers: the space and the device of the socket, and the subprotocol echoed.\<close>

definition realtimeConnect :: "conf \<Rightarrow> request \<Rightarrow> string option \<Rightarrow> string option \<Rightarrow> env \<Rightarrow> hub_state
    \<Rightarrow> (nat \<times> string option) checked \<times> hub_state" where
  "realtimeConnect cf rq protocols upgrade s l =
     (let offered = (case protocols of None \<Rightarrow> [] | Some p \<Rightarrow> p) in
      case authenticateSubprotocol cf offered rq s of
        Inl e \<Rightarrow> (Inl e, l)
      | Inr a \<Rightarrow> if upgrade \<noteq> Some ''websocket'' then (Inl (ApiError BadRequest), l)
          else (let chosen = auth_protocol offered;
                    (status, ws) = hub_connect upgrade (Some (au_deviceId a)) (hubs l (au_groupId a))
                in (Inr (status, if truthy chosen then chosen else None), l\<lparr>hubs := (hubs l)(au_groupId a := ws)\<rparr>)))"

section \<open>Broadcasts\<close>

text \<open>The devices that are told over a socket and have the space on screen.\<close>

definition tells :: "string option \<Rightarrow> socket \<Rightarrow> bool" where
  "tells exclude w \<longleftrightarrow> \<not> skipped exclude w \<and> so_works w"

definition watching :: "string option \<Rightarrow> hub \<Rightarrow> string set" where
  "watching exclude ws = (\<lambda>w. sa_deviceId (the (so_attachment w))) ` {w \<in> set ws. tells exclude w \<and> on_screen w}"

lemma watching_rows: "watching exclude ws =
    set (map (\<lambda>w. sa_deviceId (the (so_attachment w))) (filter (\<lambda>w. tells exclude w \<and> on_screen w) ws))"
  by (simp add: watching_def)

lemma set_add_present [simp]: "set (add_present x xs) = insert x (set xs)"
  by (auto simp: add_present_def)

lemma broadcast_from_Cons:
  "fst (broadcast_from exclude (w # ws) present) = fst (broadcast_from exclude ws
     (if tells exclude w \<and> on_screen w then add_present (sa_deviceId (the (so_attachment w))) present else present))"
  "snd (broadcast_from exclude (w # ws) present) = (if tells exclude w then send_on sync_event w else w) #
     snd (broadcast_from exclude ws
     (if tells exclude w \<and> on_screen w then add_present (sa_deviceId (the (so_attachment w))) present else present))"
  by (auto simp: tells_def Let_def split: prod.split)

declare broadcast_from.simps(2) [simp del]

lemma broadcast_from_sockets:
  "snd (broadcast_from exclude ws present) = map (\<lambda>w. if tells exclude w then send_on sync_event w else w) ws"
  by (induction ws arbitrary: present) (simp_all add: broadcast_from_Cons)

lemma broadcast_from_present: "set (fst (broadcast_from exclude ws present)) = set present \<union> watching exclude ws"
proof (induction ws arbitrary: present)
  case (Cons w ws)
  have "watching exclude (w # ws) = (if tells exclude w \<and> on_screen w then {sa_deviceId (the (so_attachment w))} else {})
      \<union> watching exclude ws"
    by (auto simp: watching_def)
  then show ?case by (simp add: broadcast_from_Cons Cons)
qed (simp add: watching_def)

lemma broadcast_exact:
  "set (fst (broadcast exclude ws)) = watching exclude ws"
  "snd (broadcast exclude ws) = map (\<lambda>w. if tells exclude w then send_on sync_event w else w) ws"
  by (simp_all add: broadcast_def broadcast_from_present broadcast_from_sockets)

section \<open>Properties\<close>

text \<open>C28. Every device of a notification is told. When \<open>notifySpace\<close> runs for a space whose object answers, each
  working socket of that space except those of the excluded device is sent one sync event, and no other
  socket of any space anything; a push is posted exactly to the registered devices of the list that no
  socket with the space on screen was told for, once each; a registration is forgotten exactly when
  its push service reported it gone, and nothing else of the storage changes.\<close>

theorem notifySpace_exact:
  assumes "hubs_up l" and "push_ok F s" and "distinct push" and "vapidKeys F cf subject = Some (Some keys)"
  shows "\<exists>posts. notifySpace_run F cf subject drawn g exclude push now l s = (posts,
      l\<lparr>hubs := (hubs l)(g := map (\<lambda>w. if tells exclude w then send_on sync_event w else w) (hubs l g))\<rparr>,
      s\<lparr>push_subscriptions := filter (\<lambda>p. (p, Gone) \<notin> set posts) (push_subscriptions s)\<rparr>)
    \<and> distinct (map fst posts)
    \<and> set posts = (\<lambda>p. (p, sendPush F p g keys now (drawn p))) ` {p \<in> set (push_subscriptions s).
        ps_group_id p = g \<and> ps_device_id p \<in> set push - watching exclude (hubs l g)}"
proof -
  obtain present ws where b: "broadcast exclude (hubs l g) = (present, ws)" by (cases "broadcast exclude (hubs l g)")
  then have present: "set present = watching exclude (hubs l g)"
    and ws: "ws = map (\<lambda>w. if tells exclude w then send_on sync_event w else w) (hubs l g)"
    using broadcast_exact [of exclude "hubs l g"] by simp_all
  define absent where "absent = filter (\<lambda>d. d \<notin> set present) push"
  have "distinct absent" using assms(3) by (simp add: absent_def)
  from pushToDevices_exact [OF assms(2) this assms(4), of drawn g now]
  obtain posts where posts: "pushToDevices F cf subject drawn g absent now s = (Inr posts,
      s\<lparr>push_subscriptions := filter (\<lambda>p. (p, Gone) \<notin> set posts) (push_subscriptions s)\<rparr>)" "distinct (map fst posts)"
    "set posts = (\<lambda>p. (p, sendPush F p g keys now (drawn p))) `
      {p \<in> set (push_subscriptions s). ps_group_id p = g \<and> ps_device_id p \<in> set absent}" by blast
  have absent: "set absent = set push - watching exclude (hubs l g)" by (auto simp: absent_def present)
  have "notifySpace_run F cf subject drawn g exclude push now l s = (posts, l\<lparr>hubs := (hubs l)(g := ws)\<rparr>,
      s\<lparr>push_subscriptions := filter (\<lambda>p. (p, Gone) \<notin> set posts) (push_subscriptions s)\<rparr>)"
  proof (cases "push = []")
    case True
    then have "posts = []" using posts(3) by (simp add: absent_def)
    with True assms(1) b show ?thesis by (simp add: notifySpace_run_def)
  next
    case False
    with assms(1) b posts(1) show ?thesis by (simp add: notifySpace_run_def absent_def)
  qed
  then show ?thesis using posts(2,3) unfolding ws absent by (intro exI [of _ posts]) simp
qed

section \<open>Witness\<close>

definition sample_registration :: "string \<Rightarrow> push_row" where
  "sample_registration i = \<lparr>ps_device_id = i, ps_group_id = ''g'', ps_endpoint = ''https://fcm.googleapis.com/x'',
     ps_p256dh = bufToBase64Url (4 # replicate 64 0), ps_auth = bufToBase64Url (replicate 16 1), ps_created_at = 0\<rparr>"

definition sample_socket :: "string \<Rightarrow> bool \<Rightarrow> socket" where
  "sample_socket i hidden = \<lparr>so_attachment = Some \<lparr>sa_deviceId = i, sa_hidden = Some hidden\<rparr>, so_works = True, so_sent = []\<rparr>"

definition push_conf :: conf where
  "push_conf = (sample_conf JNull)\<lparr>VAPID_PUBLIC_KEY := Some ''AAAA'', VAPID_PRIVATE_KEY := Some ''k''\<rparr>"

definition live_sample :: hub_state where
  "live_sample = \<lparr>hubs = (\<lambda>g. if g = ''g'' then [sample_socket ''a'' False, sample_socket ''b'' True, sample_socket ''me'' False] else []),
     hubs_up = True\<rparr>"

definition push_env :: env where
  "push_env = empty_env\<lparr>push_subscriptions := [sample_registration ''a'', sample_registration ''b'']\<rparr>"

abbreviation gone_platform :: "nat push_platform" where
  "gone_platform \<equiv> clear_push (\<lambda>_. Some 410)"

lemma push_env_ok: "push_ok gone_platform push_env"
proof -
  have "isPushServiceEndpoint gone_platform ''https://fcm.googleapis.com/x''" by code_simp
  then have "subscription_ok gone_platform (sample_registration i)" for i
    by (simp add: subscription_ok_def sample_registration_def isBase64UrlOfLength_encoded)
  then show ?thesis by (simp add: push_ok_def push_env_def pk_def) (simp add: sample_registration_def)
qed

lemma sample_vapid: "vapidKeys gone_platform push_conf None = Some (Some \<lparr>vk_publicKey = ''AAAA'', vk_privateKey = 1,
    vk_subject = ''https://sendself.4oli.com''\<rparr>)"
  by code_simp

lemma sendPush_gone:
  assumes "pf_ecdh F (snd drawn) b \<noteq> None" and "pf_url F (ps_endpoint p) \<noteq> None" and "pf_post F = (\<lambda>_. Some 410)"
    and "ps_p256dh p = bufToBase64Url b" and "ps_auth p = bufToBase64Url a"
  shows "sendPush F p g keys now drawn = Gone"
proof -
  obtain auth where "vapidAuthorization F (ps_endpoint p) keys now = Some auth"
    using assms(2) by (auto simp: vapidAuthorization_def Let_def)
  moreover have "\<exists>b. encryptPushPayload F (pf_utf8 F (pf_json F (push_payload g))) (ps_p256dh p) (ps_auth p) (fst drawn) (snd drawn) = Some b"
    using assms(1,4,5) by (auto simp: encryptPushPayload_def Let_def split: prod.split)
  ultimately show ?thesis using assms(3) by (auto simp: sendPush_def)
qed

lemma sample_push_gone: "sendPush gone_platform (sample_registration ''b'') ''g'' keys now (replicate 16 3, 2) = Gone"
proof (rule sendPush_gone)
  show "pf_url gone_platform (ps_endpoint (sample_registration ''b'')) \<noteq> None"
    by (simp add: clear_push_def sample_registration_def)
qed (simp_all add: clear_push_def sample_registration_def)

theorem notifySpace_exact_witness:
  "\<exists>posts l' s'. notifySpace_run gone_platform push_conf None (\<lambda>_. (replicate 16 3, 2)) ''g'' (Some ''me'') [''a'', ''b''] 5
      live_sample push_env = (posts, l', s')
    \<and> posts = [(sample_registration ''b'', Gone)] \<and> push_subscriptions s' = [sample_registration ''a'']
    \<and> map so_sent (hubs l' ''g'') = [[sync_event], [sync_event], []]"
proof -
  let ?run = "notifySpace_run gone_platform push_conf None (\<lambda>_. (replicate 16 3, 2 :: nat)) ''g'' (Some ''me'') [''a'', ''b''] 5
      live_sample push_env"
  have up: "hubs_up live_sample" and d: "distinct [''a'', ''b'']" by (simp_all add: live_sample_def)
  have hub: "hubs live_sample ''g'' = [sample_socket ''a'' False, sample_socket ''b'' True, sample_socket ''me'' False]"
    by (simp add: live_sample_def)
  have w: "watching (Some ''me'') (hubs live_sample ''g'') = {''a''}"
    by (simp add: hub watching_rows tells_def skipped_def on_screen_def sample_socket_def truthy_def)
  have rows: "{p \<in> set (push_subscriptions push_env). ps_group_id p = ''g'' \<and> ps_device_id p \<in> set [''a'', ''b''] - {''a''}}
      = {sample_registration ''b''}"
    by (auto simp: push_env_def sample_registration_def)
  from notifySpace_exact [OF up push_env_ok d sample_vapid, of "\<lambda>_. (replicate 16 3, 2)" "''g''" "Some ''me''" 5]
  obtain posts where run: "?run = (posts, live_sample\<lparr>hubs := (hubs live_sample)(''g'' := map (\<lambda>w. if tells (Some ''me'') w
        then send_on sync_event w else w) (hubs live_sample ''g''))\<rparr>,
      push_env\<lparr>push_subscriptions := filter (\<lambda>p. (p, Gone) \<notin> set posts) (push_subscriptions push_env)\<rparr>)"
    and "distinct (map fst posts)" and "set posts = {(sample_registration ''b'', Gone)}"
    unfolding w rows image_insert image_empty sample_push_gone by blast
  then have "posts = [(sample_registration ''b'', Gone)]"
    by (cases posts) (auto simp: subset_singleton_iff)
  moreover have "sample_registration ''a'' \<noteq> sample_registration ''b''" by (simp add: sample_registration_def)
  ultimately show ?thesis
    by (simp add: run hub tells_def skipped_def send_on_def truthy_def) (simp add: push_env_def sample_socket_def)
qed

end
