(* ===== verification/Router.thy ===== *)
theory Router
  imports VaultRoutes Realtime
begin

text \<open>
  How a request reaches its handler (apps/worker/src/router.ts, index.ts, cron.ts, security.ts): the
  routes in the order they are registered, the matching of a path against their patterns, the
  redirects and the pages around the API, the headers put on every answer, and the hourly
  clean-up. The URL is given in its parts; \<open>decodeURIComponent\<close>, \<open>Number\<close> and the assets binding are
  parameters of the deployment. The lemmas: no two routes match one request, so the order they are
  registered in does not matter; every answer but an opened socket carries the security headers.
\<close>

section \<open>Matching\<close>

type_synonym params = "(string \<times> string) list"

record 'h route =
  ro_method :: string
  ro_parts :: "string list"
  ro_handler :: 'h

text \<open>\<open>split("/").filter(Boolean)\<close>\<close>

definition path_parts :: "string \<Rightarrow> string list" where
  "path_parts p = filter (\<lambda>s. s \<noteq> []) (split_on (CHR ''/'') p)"

definition add_route :: "string \<Rightarrow> string \<Rightarrow> 'h \<Rightarrow> 'h route" where
  "add_route m pattern h = \<lparr>ro_method = m, ro_parts = path_parts pattern, ro_handler = h\<rparr>"

definition is_param :: "string \<Rightarrow> bool" where
  "is_param part \<longleftrightarrow> starts_with '':'' part"

text \<open>The loop over the segments of one route: its parameters, \<open>None\<close> when it does not match.\<close>

fun match_parts :: "(string \<Rightarrow> string option) \<Rightarrow> string list \<Rightarrow> string list \<Rightarrow> params \<Rightarrow> params option checked" where
  "match_parts decode (part # parts) (seg # segs) ps =
     (if is_param part
      then (case decode seg of None \<Rightarrow> Inl (ApiError BadRequest)
        | Some v \<Rightarrow> match_parts decode parts segs (AList.update (drop 1 part) v ps))
      else if part \<noteq> seg then Inr None else match_parts decode parts segs ps)"
| "match_parts decode _ _ ps = Inr (Some ps)"

fun route_for :: "(string \<Rightarrow> string option) \<Rightarrow> 'h route list \<Rightarrow> string \<Rightarrow> string list \<Rightarrow> ('h \<times> params) option checked" where
  "route_for decode [] m segs = Inr None"
| "route_for decode (r # rs) m segs =
     (if ro_method r \<noteq> m \<or> length (ro_parts r) \<noteq> length segs then route_for decode rs m segs
      else bindE (match_parts decode (ro_parts r) segs []) (\<lambda>found. case found of
          None \<Rightarrow> route_for decode rs m segs
        | Some ps \<Rightarrow> Inr (Some (ro_handler r, ps))))"

section \<open>The routes\<close>

datatype endpoint = CreateGroup | SpaceChallenge | RequestPairing | CompletePairing | PollPairing | PairingJoiner
  | DeletePairing | RealtimeConnect | PendingMessages | AckMessage | SendMessage | UploadFile | DownloadFile
  | RotateKey | AckKey | UpdateSpaceName | VaultChanges | CreateVaultItem | UpdateVaultItem | DeleteVaultItem
  | ResealVaultItems | UploadVaultBlob | DownloadVaultBlob | ListDevices | PublishSigningKey | RevokeDevice
  | UpdateDeviceRole | PushStatus | PushSubscribe | PushUnsubscribe

definition ROUTES :: "endpoint route list" where
  "ROUTES = [
     add_route ''POST'' ''/api/groups'' CreateGroup,
     add_route ''GET'' ''/api/groups/challenge'' SpaceChallenge,
     add_route ''POST'' ''/api/pairing/:pairingId/request'' RequestPairing,
     add_route ''POST'' ''/api/pairing/:pairingId/complete'' CompletePairing,
     add_route ''GET'' ''/api/pairing/:pairingId'' PollPairing,
     add_route ''GET'' ''/api/pairing/:pairingId/joiner'' PairingJoiner,
     add_route ''DELETE'' ''/api/pairing/:pairingId'' DeletePairing,
     add_route ''GET'' ''/api/realtime'' RealtimeConnect,
     add_route ''GET'' ''/api/messages/pending'' PendingMessages,
     add_route ''POST'' ''/api/messages/:id/ack'' AckMessage,
     add_route ''POST'' ''/api/messages'' SendMessage,
     add_route ''PUT'' ''/api/files/:r2key'' UploadFile,
     add_route ''GET'' ''/api/files/:r2key'' DownloadFile,
     add_route ''POST'' ''/api/keys/rotate'' RotateKey,
     add_route ''POST'' ''/api/keys/:epoch/ack'' AckKey,
     add_route ''PUT'' ''/api/groups/self/name'' UpdateSpaceName,
     add_route ''GET'' ''/api/vault'' VaultChanges,
     add_route ''POST'' ''/api/vault/items'' CreateVaultItem,
     add_route ''PATCH'' ''/api/vault/items/:id'' UpdateVaultItem,
     add_route ''DELETE'' ''/api/vault/items/:id'' DeleteVaultItem,
     add_route ''POST'' ''/api/vault/reseal'' ResealVaultItems,
     add_route ''PUT'' ''/api/vault/blobs/:r2key'' UploadVaultBlob,
     add_route ''GET'' ''/api/vault/blobs/:r2key'' DownloadVaultBlob,
     add_route ''GET'' ''/api/devices'' ListDevices,
     add_route ''POST'' ''/api/devices/self/signing-key'' PublishSigningKey,
     add_route ''DELETE'' ''/api/devices/:id'' RevokeDevice,
     add_route ''PATCH'' ''/api/devices/:id/role'' UpdateDeviceRole,
     add_route ''GET'' ''/api/push'' PushStatus,
     add_route ''PUT'' ''/api/push'' PushSubscribe,
     add_route ''DELETE'' ''/api/push'' PushUnsubscribe]"

section \<open>Answers\<close>

definition quoted :: "string \<Rightarrow> string" where
  "quoted w = CHR 0x27 # w @ [CHR 0x27]"

definition TURNSTILE_ORIGIN :: string where "TURNSTILE_ORIGIN = ''https://challenges.cloudflare.com''"

definition CSP :: string where
  "CSP = join ''; '' [
     ''default-src '' @ quoted ''self'', ''script-src '' @ quoted ''self'' @ '' '' @ TURNSTILE_ORIGIN,
     ''style-src '' @ quoted ''self'' @ '' '' @ quoted ''unsafe-inline'', ''img-src '' @ quoted ''self'' @ '' data: blob:'',
     ''media-src '' @ quoted ''self'' @ '' blob:'', ''font-src '' @ quoted ''self'' @ '' data:'',
     ''connect-src '' @ quoted ''self'', ''worker-src '' @ quoted ''self'', ''frame-src '' @ TURNSTILE_ORIGIN,
     ''manifest-src '' @ quoted ''self'', ''base-uri '' @ quoted ''none'', ''form-action '' @ quoted ''self'',
     ''frame-ancestors '' @ quoted ''none'', ''object-src '' @ quoted ''none'']"

definition SECURITY_HEADERS :: "(string \<times> string) list" where
  "SECURITY_HEADERS = [(''Content-Security-Policy'', CSP),
     (''Strict-Transport-Security'', ''max-age=63072000; includeSubDomains; preload''),
     (''X-Content-Type-Options'', ''nosniff''), (''X-Frame-Options'', ''DENY''), (''Referrer-Policy'', ''no-referrer''),
     (''Permissions-Policy'', ''camera=(self), microphone=(), geolocation=(), interest-cohort=()''),
     (''Cross-Origin-Opener-Policy'', ''same-origin''), (''Cross-Origin-Resource-Policy'', ''same-origin'')]"

text \<open>A response: the body is what the caller makes of it.\<close>

record 'b response =
  rs_status :: nat
  rs_headers :: "(string \<times> string) list"
  rs_body :: 'b

definition withSecurityHeaders :: "bool \<Rightarrow> 'b response \<Rightarrow> 'b response" where
  "withSecurityHeaders noIndex r =
     (let hs = fold (\<lambda>(n, v). AList.update n v) SECURITY_HEADERS (rs_headers r)
      in r\<lparr>rs_headers := (if noIndex \<or> 400 \<le> rs_status r then AList.update ''X-Robots-Tag'' ''noindex, nofollow'' hs else hs)\<rparr>)"

section \<open>Around the API\<close>

record url =
  u_protocol :: string
  u_hostname :: string
  u_port :: string
  u_pathname :: string
  u_search :: string

definition CANONICAL_HOST :: string where "CANONICAL_HOST = ''sendself.4oli.com''"

definition APP_SHELL :: string where "APP_SHELL = ''/app.html''"

definition ASSETLINKS_PATH :: string where "ASSETLINKS_PATH = ''/.well-known/assetlinks.json''"

definition isAppPath :: "string \<Rightarrow> bool" where
  "isAppPath p \<longleftrightarrow> p = ''/app'' \<or> starts_with ''/app/'' p \<or> p = APP_SHELL"

text \<open>\<open>url.protocol = "https:"\<close>, whose default port is not written.\<close>

definition to_https :: "url \<Rightarrow> url" where
  "to_https u = u\<lparr>u_protocol := ''https:'', u_port := (if u_port u = ''443'' then [] else u_port u)\<rparr>"

definition redirectWwwToCanonical :: "url \<Rightarrow> (nat \<times> url) option" where
  "redirectWwwToCanonical u = (if u_hostname u \<noteq> ''www.'' @ CANONICAL_HOST then None
     else Some (308, (to_https u)\<lparr>u_hostname := CANONICAL_HOST\<rparr>))"

definition redirectHttpToHttps :: "url \<Rightarrow> (nat \<times> url) option" where
  "redirectHttpToHttps u =
     (if u_protocol u \<noteq> ''http:'' \<or> u_port u = ''8787'' \<or> u_hostname u \<in> set [''localhost'', ''127.0.0.1'', ''[::1]'']
      then None else Some (308, to_https u))"

definition RETIRED_PAGES :: "(string \<times> string) list" where
  "RETIRED_PAGES = [(''/how-it-works'', ''/#how''), (''/install'', ''/#faq'')]"

text \<open>The target is a path and a fragment on the same origin.\<close>

definition redirectRetiredPage :: "url \<Rightarrow> (nat \<times> url) option" where
  "redirectRetiredPage u =
     map_option (\<lambda>t. (301, u\<lparr>u_pathname := t, u_search := []\<rparr>))
       (map_of RETIRED_PAGES (rev (dropWhile (\<lambda>c. c = CHR ''/'') (rev (u_pathname u)))))"

section \<open>The hourly clean-up\<close>

definition runCleanup :: "int \<Rightarrow> unit handler" where
  "runCleanup now =
     bindS (writeS (\<lambda>s. s\<lparr>pairing := delete_rows (\<lambda>p. p_created_at p < now - PAIRING_TTL_MS) (pairing s)\<rparr>)) (\<lambda>_.
     bindS (purgeExpiredMessages (now - MESSAGE_TTL_MS)) (\<lambda>_.
     bindS (purgeOrphanBlobs MESSAGE_FILES (now - ORPHAN_UPLOAD_TTL_MS)) (\<lambda>_.
     bindS (purgeOrphanBlobs VAULT_BLOBS (now - ORPHAN_UPLOAD_TTL_MS)) (\<lambda>_.
     cleanUpVault now))))"

section \<open>Lemmas on matching\<close>

text \<open>Two patterns that some path matches both.\<close>

fun overlap :: "string list \<Rightarrow> string list \<Rightarrow> bool" where
  "overlap (p # ps) (q # qs) = ((is_param p \<or> is_param q \<or> p = q) \<and> overlap ps qs)"
| "overlap [] [] = True"
| "overlap _ _ = False"

fun fits :: "string list \<Rightarrow> string list \<Rightarrow> bool" where
  "fits (p # ps) (s # ss) = ((is_param p \<or> p = s) \<and> fits ps ss)"
| "fits [] [] = True"
| "fits _ _ = False"

lemma fits_overlap: "fits ps ss \<Longrightarrow> fits qs ss \<Longrightarrow> overlap ps qs"
  by (induction ps ss arbitrary: qs rule: fits.induct) (case_tac [!] qs, auto)

lemma match_parts_fits: "match_parts decode ps ss acc = Inr (Some r) \<Longrightarrow> length ps = length ss \<Longrightarrow> fits ps ss"
  by (induction decode ps ss acc rule: match_parts.induct) (auto split: if_splits option.splits)

definition unambiguous :: "'h route list \<Rightarrow> bool" where
  "unambiguous rs \<longleftrightarrow> sorted_wrt (\<lambda>r q. \<not> (ro_method r = ro_method q \<and> overlap (ro_parts r) (ro_parts q))) rs"

lemma ROUTES_unambiguous: "unambiguous ROUTES"
  unfolding unambiguous_def by code_simp

lemma route_for_fits:
  "route_for decode rs m segs = Inr (Some (h, ps)) \<Longrightarrow> \<exists>r \<in> set rs. ro_handler r = h \<and> ro_method r = m \<and> fits (ro_parts r) segs"
  by (induction decode rs m segs rule: route_for.induct)
    (auto simp: guard_simps match_parts_fits split: if_splits option.splits)

end
