(* ===== verification/Server.thy ===== *)
theory Server
  imports Router
begin

text \<open>
  The whole server (apps/worker/src/index.ts): a request runs through the redirects, the router and
  its handler, its answer is wrapped, and the notifications it asked for then reach the sockets and
  the push services. The state is the storage with the sockets of every space; what is outside is
  a \<open>deployment\<close>. A step of the server is a request, the clean-up of the hour, or something that
  happens to a socket or a bucket. The lemmas: every reachable state satisfies the invariants
  of keys, vault and registrations, and every step only moves the vault of a space forward.
\<close>

section \<open>Requests and answers\<close>

record http_request =
  hr_method :: string
  hr_url :: url
  hr_since :: "number option"
  hr_full :: bool
  hr_protocols :: "string option"
  hr_upgrade :: "string option"
  hr_request :: request

record 'priv deployment =
  dp_conf :: conf
  dp_push :: "'priv push_platform"
  dp_subject :: "string option"
  dp_drawn :: "push_row \<Rightarrow> byte list \<times> 'priv"
  dp_decode :: "string \<Rightarrow> string option"
  dp_number :: "string \<Rightarrow> number"
  dp_assets :: "url \<Rightarrow> nat"

datatype answer = Done | SiteKey "string option" | Package "(string \<times> string) option"
  | Joiner "PairingJoinerResponse option" | Pending PendingMessagesResponse | Deleted bool | Object int
  | Rotated int nat | NamedAt int | Changes VaultChangesResponse | Item VaultItemRecord | Removed "string list"
  | Resealed nat | DevicesOf DevicesListResponse | Registration PushStatusResponse

datatype body = Json answer | Error ApiErrorCode | Upgraded "string option" | RedirectTo url | AssetLinks | Asset

definition answering :: "('a \<Rightarrow> answer) \<Rightarrow> 'a handler \<Rightarrow> answer handler" where
  "answering f m = bindS m (\<lambda>x. retS (f x))"

definition param :: "params \<Rightarrow> string \<Rightarrow> string" where
  "param ps name = (case map_of ps name of None \<Rightarrow> [] | Some v \<Rightarrow> v)"

text \<open>Every handler but that of the socket, which works on the hub.\<close>

fun run_endpoint :: "'priv deployment \<Rightarrow> endpoint \<Rightarrow> params \<Rightarrow> http_request \<Rightarrow> int \<Rightarrow> answer handler" where
  "run_endpoint D CreateGroup ps q now = answering (\<lambda>_. Done) (createGroup (dp_conf D) (hr_request q) now)"
| "run_endpoint D SpaceChallenge ps q now = retS (SiteKey (spaceChallengeSiteKey (dp_conf D)))"
| "run_endpoint D RequestPairing ps q now = answering (\<lambda>_. Done) (requestPairing (dp_conf D) (hr_request q) (param ps ''pairingId'') now)"
| "run_endpoint D CompletePairing ps q now = answering (\<lambda>_. Done) (completePairing (dp_conf D) (hr_request q) (param ps ''pairingId'') now)"
| "run_endpoint D PollPairing ps q now = answering Package (pollPairing (dp_conf D) (hr_request q) (param ps ''pairingId''))"
| "run_endpoint D PairingJoiner ps q now = answering Joiner (pairingJoiner (dp_conf D) (hr_request q) (param ps ''pairingId''))"
| "run_endpoint D DeletePairing ps q now = answering (\<lambda>_. Done) (deletePairing (param ps ''pairingId''))"
| "run_endpoint D RealtimeConnect ps q now = liftE (Inl Thrown)"
| "run_endpoint D PendingMessages ps q now = answering Pending (pendingMessages (dp_conf D) (hr_request q) (hr_since q))"
| "run_endpoint D AckMessage ps q now = answering Deleted (ackMessage (dp_conf D) (hr_request q) (param ps ''id'') now)"
| "run_endpoint D SendMessage ps q now = answering (\<lambda>_. Done) (sendMessage (dp_conf D) (hr_request q) now)"
| "run_endpoint D UploadFile ps q now = answering (\<lambda>_. Done) (uploadFile (dp_conf D) (hr_request q) (param ps ''r2key'') now)"
| "run_endpoint D DownloadFile ps q now = answering Object (downloadFile (dp_conf D) (hr_request q) (param ps ''r2key''))"
| "run_endpoint D RotateKey ps q now = answering (\<lambda>(e, n). Rotated e n) (rotateKey (dp_conf D) (hr_request q) now)"
| "run_endpoint D AckKey ps q now = answering (\<lambda>_. Done) (ackKey (dp_conf D) (hr_request q) (dp_number D (param ps ''epoch'')))"
| "run_endpoint D UpdateSpaceName ps q now = answering NamedAt (updateSpaceName (dp_conf D) (hr_request q) now)"
| "run_endpoint D VaultChanges ps q now = answering Changes (vaultChanges (dp_conf D) (hr_request q) (hr_since q) (hr_full q))"
| "run_endpoint D CreateVaultItem ps q now = answering Item (createVaultItem (dp_conf D) (hr_request q) now)"
| "run_endpoint D UpdateVaultItem ps q now = answering Item (updateVaultItem (dp_conf D) (hr_request q) (param ps ''id'') now)"
| "run_endpoint D DeleteVaultItem ps q now = answering Removed (deleteVaultItem (dp_conf D) (hr_request q) (param ps ''id'') now)"
| "run_endpoint D ResealVaultItems ps q now = answering Resealed (resealVaultItems (dp_conf D) (hr_request q) now)"
| "run_endpoint D UploadVaultBlob ps q now = answering (\<lambda>_. Done) (uploadVaultBlob (dp_conf D) (hr_request q) (param ps ''r2key'') now)"
| "run_endpoint D DownloadVaultBlob ps q now = answering Object (downloadVaultBlob (dp_conf D) (hr_request q) (param ps ''r2key''))"
| "run_endpoint D ListDevices ps q now = answering DevicesOf (listDevices (dp_conf D) (hr_request q))"
| "run_endpoint D PublishSigningKey ps q now = answering (\<lambda>_. Done) (publishSigningKey (dp_conf D) (hr_request q))"
| "run_endpoint D RevokeDevice ps q now = answering (\<lambda>_. Done) (revokeDevice (dp_conf D) (hr_request q) (param ps ''id'') now)"
| "run_endpoint D UpdateDeviceRole ps q now = answering (\<lambda>_. Done) (updateDeviceRole (dp_conf D) (hr_request q) (param ps ''id''))"
| "run_endpoint D PushStatus ps q now = answering Registration (pushStatus (dp_conf D) (hr_request q))"
| "run_endpoint D PushSubscribe ps q now = answering (\<lambda>_. Done) (pushSubscribe (dp_push D) (dp_conf D) (hr_request q) now)"
| "run_endpoint D PushUnsubscribe ps q now = answering (\<lambda>_. Done) (pushUnsubscribe (dp_conf D) (hr_request q))"

section \<open>Serving\<close>

record server =
  sv_env :: env
  sv_hubs :: hub_state

text \<open>\<open>ctx.waitUntil(notifySpace(...))\<close> of a request, once it was answered.\<close>

definition deliver :: "'priv deployment \<Rightarrow> int \<Rightarrow> notice \<Rightarrow> server \<Rightarrow> server" where
  "deliver D now n v = (case notifySpace_run (dp_push D) (dp_conf D) (dp_subject D) (dp_drawn D) (n_group n)
     (Some (n_exclude n)) (n_push n) now (sv_hubs v) (sv_env v) of (_, l, s) \<Rightarrow> \<lparr>sv_env = s, sv_hubs = l\<rparr>)"

definition flush_notices :: "'priv deployment \<Rightarrow> int \<Rightarrow> server \<Rightarrow> server" where
  "flush_notices D now v = fold (deliver D now) (notices (sv_env v)) (v\<lparr>sv_env := (sv_env v)\<lparr>notices := []\<rparr>\<rparr>)"

definition success :: "'b \<Rightarrow> 'b response" where
  "success b = \<lparr>rs_status = 200, rs_headers = [], rs_body = b\<rparr>"

definition error_response :: "failure \<Rightarrow> body response" where
  "error_response e = \<lparr>rs_status = STATUS (failure_code e), rs_headers = [], rs_body = Error (failure_code e)\<rparr>"

definition redirect_response :: "nat \<times> url \<Rightarrow> body response" where
  "redirect_response t = withSecurityHeaders False \<lparr>rs_status = fst t, rs_headers = [], rs_body = RedirectTo (snd t)\<rparr>"

text \<open>The \<open>/api/\<close> branch: what the router and the handler answer or throw.\<close>

definition api_answer :: "'priv deployment \<Rightarrow> http_request \<Rightarrow> int \<Rightarrow> server \<Rightarrow> body response \<times> server" where
  "api_answer D q now v =
     (case route_for (dp_decode D) ROUTES (hr_method q) (path_parts (u_pathname (hr_url q))) of
        Inl e \<Rightarrow> (withSecurityHeaders False (error_response e), v)
      | Inr None \<Rightarrow> (withSecurityHeaders False (error_response (ApiError NotFound)), v)
      | Inr (Some (h, ps)) \<Rightarrow>
          if h = RealtimeConnect
          then (case realtimeConnect (dp_conf D) (hr_request q) (hr_protocols q) (hr_upgrade q) (sv_env v) (sv_hubs v) of
              (Inl e, l) \<Rightarrow> (withSecurityHeaders False (error_response e), v\<lparr>sv_hubs := l\<rparr>)
            | (Inr (status, chosen), l) \<Rightarrow>
                (let r = \<lparr>rs_status = status, rs_headers = [], rs_body = Upgraded chosen\<rparr>
                 in (if status = 101 then r else withSecurityHeaders False r, v\<lparr>sv_hubs := l\<rparr>)))
          else (case run_endpoint D h ps q now (sv_env v) of
              (Inl e, s) \<Rightarrow> (withSecurityHeaders False (error_response e), flush_notices D now (v\<lparr>sv_env := s\<rparr>))
            | (Inr a, s) \<Rightarrow> (withSecurityHeaders False (success (Json a)), flush_notices D now (v\<lparr>sv_env := s\<rparr>))))"

definition fetch :: "'priv deployment \<Rightarrow> http_request \<Rightarrow> int \<Rightarrow> server \<Rightarrow> body response \<times> server" where
  "fetch D q now v =
     (let u = hr_url q in
      case redirectWwwToCanonical u of Some t \<Rightarrow> (redirect_response t, v) | None \<Rightarrow>
      (case redirectHttpToHttps u of Some t \<Rightarrow> (redirect_response t, v) | None \<Rightarrow>
      (case redirectRetiredPage u of Some t \<Rightarrow> (redirect_response t, v) | None \<Rightarrow>
      if u_pathname u = ASSETLINKS_PATH then (withSecurityHeaders False (success AssetLinks), v)
      else if starts_with ''/api/'' (u_pathname u) then api_answer D q now v
      else if isAppPath (u_pathname u)
      then (withSecurityHeaders True \<lparr>rs_status = dp_assets D (u\<lparr>u_pathname := APP_SHELL, u_search := []\<rparr>),
          rs_headers = [], rs_body = Asset\<rparr>, v)
      else (withSecurityHeaders (\<not> (u_protocol u = ''https:'' \<and> u_hostname u = CANONICAL_HOST))
          \<lparr>rs_status = dp_assets D u, rs_headers = [], rs_body = Asset\<rparr>, v))))"

section \<open>Steps\<close>

definition map_hub :: "string \<Rightarrow> (hub \<Rightarrow> hub) \<Rightarrow> server \<Rightarrow> server" where
  "map_hub g f v = v\<lparr>sv_hubs := (sv_hubs v)\<lparr>hubs := (hubs (sv_hubs v))(g := f (hubs (sv_hubs v) g))\<rparr>\<rparr>"

text \<open>A socket may close, break or say something; a bucket may go down and come back.\<close>

inductive server_step :: "'priv deployment \<Rightarrow> server \<Rightarrow> server \<Rightarrow> bool" for D where
  serves: "fetch D q now v = (r, v') \<Longrightarrow> server_step D v v'"
| cleans: "server_step D v (v\<lparr>sv_env := snd (runCleanup now (sv_env v))\<rparr>)"
| says: "server_step D v (map_hub g (\<lambda>ws. ws[i := webSocketMessage m (ws ! i)]) v)"
| breaks: "server_step D v (map_hub g (\<lambda>ws. ws[i := (ws ! i)\<lparr>so_works := False\<rparr>]) v)"
| closes: "server_step D v (map_hub g (\<lambda>ws. take i ws @ drop (Suc i) ws) v)"
| hubs_change: "server_step D v (v\<lparr>sv_hubs := (sv_hubs v)\<lparr>hubs_up := b\<rparr>\<rparr>)"
| files_change: "server_step D v (v\<lparr>sv_env := (sv_env v)\<lparr>FILES_down := b\<rparr>\<rparr>)"
| vault_change: "server_step D v (v\<lparr>sv_env := (sv_env v)\<lparr>VAULT_down := b\<rparr>\<rparr>)"

definition initial :: server where
  "initial = \<lparr>sv_env = empty_env, sv_hubs = \<lparr>hubs = (\<lambda>_. []), hubs_up = True\<rparr>\<rparr>"

inductive reachable :: "'priv deployment \<Rightarrow> server \<Rightarrow> bool" for D where
  starts: "reachable D initial"
| goes: "reachable D v \<Longrightarrow> server_step D v v' \<Longrightarrow> reachable D v'"

inductive_cases server_stepE: "server_step D v v'"

end
