(* ===== verification/System.thy ===== *)
theory System
  imports Server
begin

text \<open>
  What holds in every state the server reaches. Each handler is framed: a view of the storage that
  it leaves as it was, whatever it answers; the invariants of the components depend on such views,
  so a handler keeps those it has nothing to do with, and the lemmas of its own component give the rest.
  The properties: the invariants hold in every reachable state, and from any state to any later one
  the vault of each space only moves forward, which is what the sync of a device relies on.
\<close>

section \<open>Frames\<close>

definition frames :: "('s \<Rightarrow> 'v) \<Rightarrow> ('s, 'e, 'a) act \<Rightarrow> bool" where
  "frames V m \<longleftrightarrow> (\<forall>s. V (snd (m s)) = V s)"

named_theorems frame_rules

lemma framesD: "frames V m \<Longrightarrow> V (snd (m s)) = V s"
  by (simp add: frames_def)

lemma frames_comp: "frames V m \<Longrightarrow> (\<And>s s'. V s' = V s \<Longrightarrow> W s' = W s) \<Longrightarrow> frames W m"
  unfolding frames_def by blast

lemma frames_bindS [frame_rules]: "frames V m \<Longrightarrow> (\<And>x. frames V (f x)) \<Longrightarrow> frames V (bindS m f)"
proof -
  assume m: "frames V m" and f: "\<And>x. frames V (f x)"
  have "V (snd (bindS m f s)) = V s" for s
    using framesD [OF m, of s] framesD [OF f] by (cases "m s"; cases "fst (m s)") (simp_all add: bindS_def)
  then show ?thesis by (simp add: frames_def)
qed

lemma frames_pure [frame_rules]:
  "frames V (retS x)" "frames V (liftE r)" "frames V (throwS c e)" "frames V (readS f)"
  by (simp_all add: frames_def retS_def liftE_def throwS_def readS_def)

lemma frames_authenticateS [frame_rules]: "frames V (authenticateS cf rq)"
  by (simp add: frames_def authenticateS_def)

lemma frames_writeS [frame_rules]: "(\<And>s. V (f s) = V s) \<Longrightarrow> frames V (writeS f)"
  by (simp add: frames_def writeS_def)

lemma frames_catchS [frame_rules]: "frames V m \<Longrightarrow> frames V (catchS m)"
  by (simp add: frames_def catchS_def)

lemma frames_whenS [frame_rules]: "frames V m \<Longrightarrow> frames V (whenS c m)"
  by (simp add: whenS_def frames_def retS_def)

lemma frames_forS [frame_rules]: "(\<And>x. frames V (f x)) \<Longrightarrow> frames V (forS xs f)"
  by (induction xs) (auto intro!: frame_rules)

lemma frames_if [frame_rules]: "frames V m \<Longrightarrow> frames V m' \<Longrightarrow> frames V (if c then m else m')"
  by simp

lemma frames_option [frame_rules]: "frames V m \<Longrightarrow> (\<And>x. frames V (f x)) \<Longrightarrow> frames V (case v of None \<Rightarrow> m | Some x \<Rightarrow> f x)"
  by (cases v) simp_all

lemma frames_pair [frame_rules]: "(\<And>x y. frames V (f x y)) \<Longrightarrow> frames V (case p of (x, y) \<Rightarrow> f x y)"
  by (cases p) simp

lemma frames_answering [frame_rules]: "frames V m \<Longrightarrow> frames V (answering f m)"
  unfolding answering_def by (intro frame_rules)

section \<open>What each handler leaves alone\<close>

text \<open>A view that object storage and its accounting do not enter.\<close>

definition blob_blind :: "(env \<Rightarrow> 'v) \<Rightarrow> bool" where
  "blob_blind V \<longleftrightarrow> (\<forall>s t. V (s\<lparr>uploads := t\<rparr>) = V s) \<and> (\<forall>s t. V (s\<lparr>vault_blobs := t\<rparr>) = V s)
     \<and> (\<forall>s t. V (s\<lparr>FILES := t\<rparr>) = V s) \<and> (\<forall>s t. V (s\<lparr>VAULT := t\<rparr>) = V s) \<and> (\<forall>s t. V (s\<lparr>notices := t\<rparr>) = V s)"

definition known_store :: "BlobStore \<Rightarrow> bool" where
  "known_store S \<longleftrightarrow> S = MESSAGE_FILES \<or> S = VAULT_BLOBS"

lemma known_stores [simp]: "known_store MESSAGE_FILES" "known_store VAULT_BLOBS"
  by (simp_all add: known_store_def)

lemma blob_blind_put:
  assumes "blob_blind V" and "known_store S"
  shows "V (bs_put S t s) = V s" "V (bs_put_bucket S b s) = V s"
  using assms by (auto simp: blob_blind_def known_store_def MESSAGE_FILES_def VAULT_BLOBS_def)

lemma frames_notifySpace [frame_rules]: "blob_blind V \<Longrightarrow> frames V (notifySpace g e p)"
  unfolding notifySpace_def by (intro frame_rules) (simp add: blob_blind_def)

lemma frames_r2_delete [frame_rules]: "blob_blind V \<Longrightarrow> known_store S \<Longrightarrow> frames V (r2_delete S ks)"
  by (simp add: frames_def r2_delete_def blob_blind_put)

lemma frames_reserve_unclaimed [frame_rules]: "blob_blind V \<Longrightarrow> known_store S \<Longrightarrow> frames V (reserve_unclaimed S bs)"
  by (simp add: frames_def reserve_unclaimed_def Let_def blob_blind_put)

lemma frames_deleteUnclaimed [frame_rules]: "blob_blind V \<Longrightarrow> known_store S \<Longrightarrow> frames V (deleteUnclaimedBlobs S bs)"
  unfolding deleteUnclaimedBlobs_def delete_unclaimed_batch_def
  by (intro frame_rules) (simp_all add: drop_reserved_def blob_blind_put)

lemma frames_deleteForgotten [frame_rules]: "blob_blind V \<Longrightarrow> known_store S \<Longrightarrow> frames V (deleteForgottenBlobs S bs)"
  unfolding deleteForgottenBlobs_def by (intro frame_rules)

lemma frames_deleteBlob [frame_rules]: "blob_blind V \<Longrightarrow> known_store S \<Longrightarrow> frames V (deleteBlob S g k)"
  unfolding deleteBlob_def by (intro frame_rules) (simp_all add: forgetBlob_def blob_blind_put)

lemma frames_purgeOrphan [frame_rules]:
  assumes "blob_blind V" and "known_store S"
  shows "frames V (purgeOrphanBlobs S t)"
proof -
  have "frames V (orphan_loop n S t)" for n
    by (induction n) (use assms in \<open>auto simp: orphan_round_def blob_blind_put intro!: frame_rules\<close>)
  then show ?thesis unfolding frames_def purgeOrphanBlobs_def by blast
qed

lemma frames_reserveBlob [frame_rules]: "blob_blind V \<Longrightarrow> known_store S \<Longrightarrow> frames V (reserveBlob S g k sz q now)"
  by (auto simp: frames_def reserveBlob_def Let_def blob_blind_put split: prod.split)

lemma frames_recordBlob [frame_rules]: "blob_blind V \<Longrightarrow> known_store S \<Longrightarrow> frames V (recordBlob S g k sz now)"
  unfolding recordBlob_def by (intro frame_rules) (simp add: blob_blind_put)

lemma frames_discardUpload [frame_rules]: "blob_blind V \<Longrightarrow> known_store S \<Longrightarrow> frames V (discardUpload S g k)"
  unfolding discardUpload_def by (intro frame_rules)

lemma frames_store_body [frame_rules]:
  assumes "blob_blind V" and "known_store S"
  shows "frames V (store_body S g k len body now)"
proof -
  have put: "V (snd (r2_put S k' len s)) = V s" for k' s
    using assms by (simp add: r2_put_def blob_blind_put)
  have "frames V (bindS (discardUpload S g k) (\<lambda>_. liftE (Inl e)) :: unit handler)" "frames V (recordBlob S g k sz now)"
    "frames V (bindS (deleteBlob S g k) (\<lambda>_. liftE (Inl e)) :: unit handler)" for e sz
    using assms by (intro frame_rules; simp)+
  then show ?thesis
    using put unfolding store_body_def frames_def by (auto split: prod.split sum.split) (metis snd_conv)+
qed

lemma frames_receiveBlob [frame_rules]: "blob_blind V \<Longrightarrow> known_store S \<Longrightarrow> frames V (receiveBlob cf rq S q p now)"
  unfolding receiveBlob_def by (intro frame_rules)

lemma frames_sendBlob [frame_rules]: "frames V (sendBlob cf rq S p)"
  unfolding sendBlob_def by (intro frame_rules) (simp add: frames_def)

lemmas frames_uploads [frame_rules] =
  frames_receiveBlob [of _ MESSAGE_FILES _ _ SPACE_PENDING_BYTES_QUOTA, folded uploadFile_def]
  frames_receiveBlob [of _ VAULT_BLOBS _ _ VAULT_BYTES_QUOTA, folded uploadVaultBlob_def]

lemma frames_readers [frame_rules]:
  "frames V (pollPairing cf rq i)" "frames V (pairingJoiner cf rq i)" "frames V (pendingMessages cf rq n)"
  "frames V (listDevices cf rq)" "frames V (vaultChanges cf rq n full)" "frames V (pushStatus cf rq)"
  unfolding pollPairing_def pairingJoiner_def pendingMessages_def listDevices_def vaultChanges_def pushStatus_def vaultAuth_def
  by (intro frame_rules)+

lemma frames_downloads [frame_rules]: "frames V (downloadFile cf rq k)" "frames V (downloadVaultBlob cf rq k)"
  unfolding downloadFile_def downloadVaultBlob_def by (rule frames_sendBlob)+

definition pairing_blind :: "(env \<Rightarrow> 'v) \<Rightarrow> bool" where
  "pairing_blind V \<longleftrightarrow> (\<forall>s t. V (s\<lparr>pairing := t\<rparr>) = V s)"

lemma frames_slots [frame_rules]:
  assumes "pairing_blind V"
  shows "frames V (requestPairing cf rq i now)" "frames V (deletePairing i)"
proof -
  have "frames V (open_slot i d now)" for i d
    using assms by (simp add: frames_def open_slot_def pairing_blind_def)
  then show "frames V (requestPairing cf rq i now)" unfolding requestPairing_def by (intro frame_rules)
  show "frames V (deletePairing i)" unfolding deletePairing_def
    using assms by (intro frame_rules) (simp add: pairing_blind_def)
qed

definition message_blind :: "(env \<Rightarrow> 'v) \<Rightarrow> bool" where
  "message_blind V \<longleftrightarrow> blob_blind V \<and> (\<forall>s t. V (s\<lparr>messages := t\<rparr>) = V s) \<and> (\<forall>s t. V (s\<lparr>delivery_status := t\<rparr>) = V s)"

lemma message_blind_delete: "message_blind V \<Longrightarrow> V (fold delete_statements ms s) = V s"
proof (induction ms arbitrary: s)
  case (Cons m ms)
  have "V (delete_statements m s) = V s"
    using Cons.prems by (auto simp: delete_statements_def Let_def message_blind_def forgetBlob_def blob_blind_put split: option.split)
  with Cons show ?case by simp
qed simp

lemma frames_deleteMessages [frame_rules]: "message_blind V \<Longrightarrow> frames V (deleteMessages ms)"
  unfolding deleteMessages_def delete_message_batch_def Let_def
  by (intro frame_rules) (simp_all add: message_blind_delete message_blind_def)

lemma frames_purge_loop [frame_rules]: "message_blind V \<Longrightarrow> frames V (purge_loop n p)"
  by (induction n) (auto intro!: frame_rules)

lemma frames_purges [frame_rules]:
  assumes "message_blind V"
  shows "frames V (purgeDeliveredMessages g)" "frames V (purgeExpiredMessages t)"
  using frames_purge_loop [OF assms] unfolding frames_def purgeDeliveredMessages_def purgeExpiredMessages_def by blast+

lemma frames_sendMessage [frame_rules]:
  assumes b: "message_blind V"
  shows "frames V (sendMessage cf rq now)"
proof -
  from b have blob: "blob_blind V" by (simp add: message_blind_def)
  have ins: "frames V (insert_message a r rs now)" for a r rs
  proof -
    have "V (s\<lparr>messages := x, delivery_status := y\<rparr>) = V s" for s x y using b by (simp add: message_blind_def)
    then show ?thesis by (simp add: frames_def insert_message_def)
  qed
  have hd: "frames V (files_head k)" for k by (simp add: frames_def files_head_def)
  show ?thesis
    unfolding sendMessage_def send_accepted_def store_message_def deleteGroupMessage_def
    by (intro frame_rules ins hd) (simp_all add: b blob)
qed

lemma frames_ackMessage [frame_rules]:
  assumes b: "message_blind V"
  shows "frames V (ackMessage cf rq i now)"
proof -
  have "V (mark_downloaded i d now s) = V s" for i d s using b by (simp add: mark_downloaded_def message_blind_def)
  then show ?thesis unfolding ackMessage_def deleteMessageById_def by (intro frame_rules) (simp_all add: b)
qed

text \<open>The columns of a space that only the vault uses.\<close>

definition vault_blind :: "(env \<Rightarrow> 'v) \<Rightarrow> bool" where
  "vault_blind V \<longleftrightarrow> blob_blind V \<and> (\<forall>s t. V (s\<lparr>vault_items := t\<rparr>) = V s)
     \<and> (\<forall>s f. (\<forall>r. g_id (f r) = g_id r \<and> g_key_epoch (f r) = g_key_epoch r) \<longrightarrow> V (s\<lparr>groups := map f (groups s)\<rparr>) = V s)"

lemma vault_blindD:
  assumes "vault_blind V"
  shows "blob_blind V" "V (s\<lparr>vault_items := t\<rparr>) = V s" "V (nextVaultSeq g s) = V s" "V (forget_tombstones X s) = V s"
    "V (snd (tombstone g i now guard s)) = V s"
proof -
  show items: "V (s\<lparr>vault_items := t\<rparr>) = V s" for s t using assms by (simp add: vault_blind_def)
  have grp: "V (s\<lparr>groups := map f (groups s)\<rparr>) = V s"
    if "\<And>r. g_id (f r) = g_id r \<and> g_key_epoch (f r) = g_key_epoch r" for f s
    using assms that by (simp add: vault_blind_def)
  show "V (nextVaultSeq g s) = V s"
    unfolding nextVaultSeq_def update_group_def update_rows_def by (rule grp) simp
  have "forget_tombstones X s = (s\<lparr>groups := groups (forget_tombstones X s)\<rparr>)\<lparr>vault_items := vault_items (forget_tombstones X s)\<rparr>"
    by (simp add: forget_tombstones_def)
  also have "V \<dots> = V s"
    unfolding items by (simp add: forget_tombstones_def) (rule grp, simp add: Let_def)
  finally show "V (forget_tombstones X s) = V s" .
  show "V (snd (tombstone g i now guard s)) = V s" by (simp add: tombstone_def Let_def items)
  show "blob_blind V" using assms by (simp add: vault_blind_def)
qed

lemma vault_blind_purge_batch: "vault_blind V \<Longrightarrow> V (snd (purge_batch g root now rs s)) = V s"
proof (induction rs arbitrary: s)
  case (Cons r rs)
  note b = vault_blindD [OF Cons.prems]
  show ?case
    using Cons.IH [OF Cons.prems] b(3,5)
    by (simp add: Let_def case_prod_beta)
qed simp

lemma frames_purge_batches [frame_rules]:
  assumes b: "vault_blind V"
  shows "frames V (purge_batches g root now acc bs)"
proof (induction bs arbitrary: acc)
  case (Cons x bs)
  have "frames V (\<lambda>s. let (done, s') = purge_batch g root now x s in (Inr done, s') :: (failure + _) \<times> _)"
    using vault_blind_purge_batch [OF b] by (simp add: frames_def Let_def case_prod_beta)
  then show ?case using vault_blindD(1) [OF b] Cons by (auto intro!: frame_rules)
qed (simp add: frame_rules)

lemma frames_purgeVaultItem [frame_rules]:
  assumes "vault_blind V"
  shows "frames V (purgeVaultItem g i now)"
proof -
  have "frames V (purge_rounds n g i now acc)" for n acc
    by (induction n arbitrary: acc) (use assms in \<open>auto intro!: frame_rules\<close>)
  then show ?thesis unfolding frames_def purgeVaultItem_def by blast
qed

lemma frames_purgeExpiredVaultItem [frame_rules]:
  assumes b: "vault_blind V"
  shows "frames V (purgeExpiredVaultItem g i X now)"
proof -
  have "frames V (\<lambda>s. let (n, s') = tombstone g i now guard (nextVaultSeq g s) in (Inr n, s') :: (failure + _) \<times> _)" for guard
    using vault_blindD(3,5) [OF b] by (simp add: frames_def Let_def case_prod_beta)
  then show ?thesis unfolding purgeExpiredVaultItem_def
    using b vault_blindD(1) [OF b] by (intro frame_rules) simp_all
qed

lemma frames_cleanUpVault [frame_rules]:
  assumes b: "vault_blind V"
  shows "frames V (cleanUpVault now)"
proof -
  have "frames V (trash_loop n X now)" for n X
    by (induction n) (use b in \<open>auto intro!: frame_rules\<close>)
  then have loop: "frames V (\<lambda>s. trash_loop (n s) X now s)" for n :: "env \<Rightarrow> nat" and X
    unfolding frames_def by blast
  show ?thesis unfolding cleanUpVault_def by (intro frame_rules loop vault_blindD(4) [OF b])
qed

lemma frames_vault_writes [frame_rules]:
  assumes b: "vault_blind V"
  shows "frames V (createVaultItem cf rq now)" "frames V (updateVaultItem cf rq i now)"
    "frames V (resealVaultItems cf rq now)" "frames V (deleteVaultItem cf rq i now)"
proof -
  note v = vault_blindD [OF b]
  have ann: "frames V (announce a)" for a unfolding announce_def by (intro frame_rules v(1))
  have auth: "frames V (vaultAuth cf rq w)" for w unfolding vaultAuth_def by (intro frame_rules)
  have ins: "frames V (insert_item g r sz now)" for g r sz
    by (simp add: frames_def insert_item_def Let_def v)
  have upd: "frames V (update_item g j rev e now)" for g j rev e
    by (simp add: frames_def update_item_def Let_def v)
  have batch: "V (snd (reseal_batch g e now its s)) = V s" for g e its s
    by (induction its arbitrary: s) (simp_all add: reseal_one_def Let_def case_prod_beta v)
  have reseal: "frames V (\<lambda>s. let (n, s') = reseal_batch g e now its s in (Inr n, s') :: (failure + _) \<times> _)" for g e its
    using batch by (simp add: frames_def Let_def case_prod_beta)
  show "frames V (createVaultItem cf rq now)" unfolding createVaultItem_def
    by (intro frame_rules ann auth ins)
  show "frames V (updateVaultItem cf rq i now)" unfolding updateVaultItem_def write_edit_def
    by (intro frame_rules ann auth upd v(1)) simp_all
  show "frames V (resealVaultItems cf rq now)" unfolding resealVaultItems_def
    by (intro frame_rules ann auth reseal)
  show "frames V (deleteVaultItem cf rq i now)" unfolding deleteVaultItem_def
    by (intro frame_rules ann auth b)
qed

text \<open>Devices, queued keys, and the columns of a space that the vault does not use.\<close>

definition key_blind :: "(env \<Rightarrow> 'v) \<Rightarrow> bool" where
  "key_blind V \<longleftrightarrow> blob_blind V \<and> (\<forall>s t. V (s\<lparr>devices := t\<rparr>) = V s) \<and> (\<forall>s t. V (s\<lparr>key_distribution := t\<rparr>) = V s)
     \<and> (\<forall>s f. (\<forall>r. g_id (f r) = g_id r \<and> g_vault_seq (f r) = g_vault_seq r \<and> g_vault_floor (f r) = g_vault_floor r)
          \<longrightarrow> V (s\<lparr>groups := map f (groups s)\<rparr>) = V s)"

lemma key_blindD:
  assumes "key_blind V"
  shows "blob_blind V" "V (s\<lparr>devices := t\<rparr>) = V s" "V (s\<lparr>key_distribution := u\<rparr>) = V s"
    "V (s\<lparr>devices := t, key_distribution := u\<rparr>) = V s" "V (adopt_key a e s) = V s"
    "(\<And>r. g_id (f r) = g_id r \<and> g_vault_seq (f r) = g_vault_seq r \<and> g_vault_floor (f r) = g_vault_floor r)
       \<Longrightarrow> V (update_group g f s) = V s"
  using assms by (simp_all add: key_blind_def update_group_def update_rows_def adopt_key_def)

lemma frames_key_writes [frame_rules]:
  assumes b: "key_blind V"
  shows "frames V (rotateKey cf rq now)" "frames V (ackKey cf rq n)" "frames V (updateSpaceName cf rq now)"
    "frames V (publishSigningKey cf rq)" "frames V (updateDeviceRole cf rq i)"
proof -
  note k = key_blindD [OF b]
  have wraps: "insert_wraps a e now ws s = Some s' \<Longrightarrow> V s' = V s" for a e ws s s'
    by (induction ws arbitrary: s) (auto simp: insert_wrap_def Let_def k split: if_splits option.splits)
  have batch: "frames V (rotation_batch a e now ws)" for a e ws
    using wraps by (fastforce simp: frames_def rotation_batch_def Let_def k split: option.split)
  show "frames V (rotateKey cf rq now)" unfolding rotateKey_def by (intro frame_rules batch k(1))
  show "frames V (ackKey cf rq n)" unfolding ackKey_def by (intro frame_rules) (rule k(4))
  show "frames V (updateSpaceName cf rq now)" unfolding updateSpaceName_def
    by (intro frame_rules k(1)) (rule k(6), simp)
  show "frames V (publishSigningKey cf rq)" "frames V (updateDeviceRole cf rq i)"
    unfolding publishSigningKey_def updateDeviceRole_def by (intro frame_rules k(2))+
qed

lemma frames_completePairing [frame_rules]:
  assumes b: "key_blind V" and p: "pairing_blind V"
  shows "frames V (completePairing cf rq i now)"
proof -
  note k = key_blindD [OF b]
  have reg: "register_device a r j row s = Some (n, s') \<Longrightarrow> V s' = V s" for a r j row s n s'
    by (auto simp: register_device_def Let_def k split: if_splits)
  have fill: "V (snd (fill_slot a r j d s)) = V s" for a r j d s
    using p by (simp add: fill_slot_def Let_def pairing_blind_def)
  have "V (snd (completion_batch a r j row s)) = V s" for a r j row s
    using reg [of a r j row s] fill [of a r j "d_id row"]
    by (auto simp: completion_batch_def case_prod_beta Let_def split: option.split)
  then have batch: "frames V (completion_batch a r j row)" for a r j row by (simp add: frames_def)
  show ?thesis unfolding completePairing_def by (intro frame_rules batch)
qed

definition push_blind :: "(env \<Rightarrow> 'v) \<Rightarrow> bool" where
  "push_blind V \<longleftrightarrow> (\<forall>s t. V (s\<lparr>push_subscriptions := t\<rparr>) = V s)"

lemma frames_push_writes [frame_rules]:
  assumes "push_blind V"
  shows "frames V (pushSubscribe F cf rq now)" "frames V (pushUnsubscribe cf rq)" "frames V (pushToDevices F cf sub drawn g ids now)"
proof -
  have "V (s\<lparr>push_subscriptions := t\<rparr>) = V s" for s t using assms by (simp add: push_blind_def)
  then show "frames V (pushSubscribe F cf rq now)" "frames V (pushUnsubscribe cf rq)"
    "frames V (pushToDevices F cf sub drawn g ids now)"
    unfolding pushSubscribe_def pushUnsubscribe_def pushToDevices_def Let_def
    by (intro frame_rules; simp add: forget_gone_rows)+
qed

lemma frames_revokeDevice [frame_rules]:
  assumes b: "key_blind V" and m: "message_blind V" and p: "push_blind V"
  shows "frames V (revokeDevice cf rq i now)"
proof -
  note k = key_blindD [OF b]
  have "V (revocation_batch g i now s) = V s" for g i s
  proof -
    have "V (update_group g (\<lambda>r. r\<lparr>g_rotation_pending := True\<rparr>) s') = V s'" for s' by (rule k(6)) simp
    moreover have "V (s\<lparr>devices := a, delivery_status := c, key_distribution := d, push_subscriptions := e\<rparr>) = V s" for a c d e
      using m p by (simp add: message_blind_def push_blind_def k(2,3))
    ultimately show ?thesis by (simp add: revocation_batch_def)
  qed
  then show ?thesis unfolding revokeDevice_def by (intro frame_rules m k(1))
qed

section \<open>The invariants as functions of views\<close>

definition keys_view :: "env \<Rightarrow> (string \<times> int) list \<times> (string \<times> string \<times> int) list \<times> (string \<times> int \<times> string) list" where
  "keys_view s = (map (\<lambda>g. (g_id g, g_key_epoch g)) (groups s),
     map (\<lambda>d. (d_id d, d_group_id d, d_key_epoch d)) (devices s), map kd_key (key_distribution s))"

definition vault_view :: "env \<Rightarrow> (string \<times> int \<times> int) list \<times> vault_row table" where
  "vault_view s = (map (\<lambda>g. (g_id g, g_vault_seq g, g_vault_floor g)) (groups s), vault_items s)"

definition slot_view :: "env \<Rightarrow> string list" where
  "slot_view s = map p_pairing_id (pairing s)"

lemma map_of_rows: "map_of (map (\<lambda>x. (k x, h x)) xs) y = map_option h (find (\<lambda>x. k x = y) xs)"
  by (induction xs) auto

lemma epoch_of_view: "epoch_of s g = map_of (fst (keys_view s)) g"
  by (simp add: epoch_of_def group_of_def first_row_def keys_view_def map_of_rows)

lemma keys_ok_view: "keys_ok s \<longleftrightarrow> (case keys_view s of (G, D, K) \<Rightarrow> distinct (map fst G) \<and> distinct (map fst D) \<and> distinct K
    \<and> (\<forall>(i, g, n) \<in> set D. \<exists>e. map_of G g = Some e \<and> n \<le> e) \<and> (\<forall>(g, n, i) \<in> set K. \<exists>e. map_of G g = Some e \<and> n \<le> e))"
  unfolding keys_ok_iff epoch_of_view by (simp add: keys_view_def pk_def comp_def)

lemma keys_ok_framed: "keys_view s' = keys_view s \<Longrightarrow> keys_ok s' = keys_ok s"
  by (simp only: keys_ok_view)

lemma vault_columns_view:
  "map_option (\<lambda>r. (g_vault_seq r, g_vault_floor r)) (group_of s g) = map_of (fst (vault_view s)) g"
  by (simp add: group_of_def first_row_def vault_view_def map_of_rows)

lemma vault_framed:
  assumes v: "vault_view s' = vault_view s" and inv: "vault_inv s"
  shows "vault_step s s'"
proof -
  have items: "vault_items s' = vault_items s" using v by (simp add: vault_view_def)
  have col: "map_option (\<lambda>r. (g_vault_seq r, g_vault_floor r)) (group_of s' g)
      = map_option (\<lambda>r. (g_vault_seq r, g_vault_floor r)) (group_of s g)" for g
    by (simp only: vault_columns_view v)
  have none: "group_of s' g = None \<longleftrightarrow> group_of s g = None" for g using col [of g]
    by (cases "group_of s' g"; cases "group_of s g") simp_all
  have num: "VAULT_SEQ s' g = VAULT_SEQ s g" "vault_floor_of s' g = vault_floor_of s g" for g
    using col [of g] by (cases "group_of s' g"; cases "group_of s g"; simp add: VAULT_SEQ_def vault_floor_of_def)+
  let ?c = "\<lambda>g. (g_id g, g_vault_seq g, g_vault_floor g)"
  have cols: "map ?c (groups s') = map ?c (groups s)" using v by (simp add: vault_view_def)
  have ids: "map g_id (groups s') = map g_id (groups s)"
    using arg_cong [OF cols, of "map fst"] by (simp add: comp_def)
  have "?c ` set (groups s') = ?c ` set (groups s)" using arg_cong [OF cols, of set] by simp
  moreover have "\<forall>x \<in> ?c ` set (groups s). 0 \<le> snd (snd x) \<and> snd (snd x) \<le> fst (snd x)"
    using inv by (simp add: vault_inv_def seqs_ok_def)
  ultimately have "\<forall>x \<in> ?c ` set (groups s'). 0 \<le> snd (snd x) \<and> snd (snd x) \<le> fst (snd x)" by (simp only:)
  then have floors: "\<forall>g \<in> set (groups s'). 0 \<le> g_vault_floor g \<and> g_vault_floor g \<le> g_vault_seq g" by simp
  have "seqs_ok s'" using inv floors unfolding vault_inv_def seqs_ok_def items num none pk_def ids
    by (elim conjE) (intro conjI, assumption+)
  moreover have "forest s' = forest s" "claims_ok s' = claims_ok s" by (simp_all only: forest_def claims_ok_def items)
  moreover have "advances s s'" using advances_refl [of s] unfolding advances_def items num .
  ultimately show ?thesis using inv by (simp only: vault_step_def vault_inv_def)
qed

lemma views_blind [simp]:
  "blob_blind keys_view" "blob_blind vault_view" "blob_blind push_subscriptions" "blob_blind slot_view"
  "message_blind keys_view" "message_blind vault_view" "message_blind push_subscriptions" "message_blind slot_view"
  "pairing_blind keys_view" "pairing_blind vault_view" "pairing_blind push_subscriptions"
  "push_blind keys_view" "push_blind vault_view" "push_blind slot_view"
  by (simp_all add: blob_blind_def message_blind_def pairing_blind_def push_blind_def keys_view_def vault_view_def slot_view_def)

lemma views_blind_keys [simp]: "key_blind vault_view" "key_blind push_subscriptions" "key_blind slot_view"
  by (auto simp: key_blind_def blob_blind_def vault_view_def slot_view_def)

lemma views_blind_vault [simp]: "vault_blind keys_view" "vault_blind push_subscriptions" "vault_blind slot_view"
  by (auto simp: vault_blind_def blob_blind_def keys_view_def slot_view_def)

section \<open>The clean-up and the creation of spaces keep the vault\<close>

lemma cleanUpVault_step:
  assumes inv: "vault_inv s"
  shows "vault_step s (snd (cleanUpVault now s))"
proof -
  let ?X = "now - VAULT_TRASH_TTL_MS" and ?F = "now - VAULT_TOMBSTONE_TTL_MS"
  define s1 where "s1 = snd (trash_loop (Suc (length (vault_items s))) ?X now s)"
  have ok: "seqs_ok s" "forest s" and cl: "claims_ok s" using inv by (simp_all add: vault_inv_def)
  have "expired_count ?X s \<le> Suc (length (vault_items s))"
    unfolding expired_count_def count_rows_def by (rule le_SucI) (rule length_filter_le)
  from trash_loop_ends [OF ok this, of now]
  have l: "fst (trash_loop (Suc (length (vault_items s))) ?X now s) = Inr ()" and d: "decays ?X now s s1"
    unfolding s1_def by blast+
  have run: "snd (cleanUpVault now s) = forget_tombstones ?F s1"
    unfolding cleanUpVault_def using l unfolding s1_def by (simp only: bindS_Inr writeS_def snd_conv)
  from d have ok1: "seqs_ok s1" "forest s1" "advances s s1" by (simp_all add: decays_def)
  from d obtain h where h: "vault_items s1 = map h (vault_items s)"
    and h1: "\<And>r. r \<in> set (vault_items s) \<Longrightarrow> h r = r \<or> v_removed_at (h r) = Some now" unfolding decays_def by blast
  have items: "set (vault_items (forget_tombstones ?F s1)) \<subseteq> set (vault_items s1)"
    by (auto simp: forget_tombstones_def delete_rows_def)
  have old: "r \<in> set (vault_items s)" if "r \<in> set (vault_items s1)" "live r" for r
  proof -
    from that(1) obtain x where "x \<in> set (vault_items s)" "r = h x" unfolding h by auto
    with h1 [of x] that(2) show ?thesis by (auto simp: live_def)
  qed
  have "claims_ok (forget_tombstones ?F s1)"
    using cl items old unfolding claims_ok_def by (meson subsetD)
  moreover have "forest (forget_tombstones ?F s1)" using forest_forget [OF ok1(2)] .
  ultimately show ?thesis unfolding run vault_step_def vault_inv_def
    using forget_advances [OF ok1(1), of ?F] advances_trans [OF ok1(3)] ok(1) by (simp add: seqs_ok_def)
qed

lemma createGroup_vault:
  assumes inv: "vault_inv s"
  shows "vault_step s (snd (createGroup cf rq now s))"
proof -
  have "vault_step s (s\<lparr>groups := groups s @ [new_group r now], devices := d\<rparr>)" (is "vault_step s ?s")
    if fresh: "\<forall>g \<in> set (groups s). g_id g \<noteq> cg_groupId r" for r d
  proof -
    have find: "find c (xs @ ys) = (case find c xs of None \<Rightarrow> find c ys | Some x \<Rightarrow> Some x)"
      for c and xs ys :: "group_row list" by (induction xs) auto
    have new: "group_of s (cg_groupId r) = None" using fresh by (simp add: group_of_def table_simps)
    have grp: "group_of ?s g = (if g = cg_groupId r then Some (new_group r now) else group_of s g)" for g
      using new by (auto simp: group_of_def first_row_def find new_group_def split: option.split)
    have num: "VAULT_SEQ ?s g = VAULT_SEQ s g" "vault_floor_of ?s g = vault_floor_of s g" for g
      using new by (simp_all add: VAULT_SEQ_def vault_floor_of_def grp) (simp_all add: new_group_def)
    have items: "vault_items ?s = vault_items s" by simp
    have "pk g_id (groups ?s)" using inv fresh by (simp add: vault_inv_def seqs_ok_def pk_snoc new_group_def)
    moreover have "\<forall>g \<in> set (groups ?s). 0 \<le> g_vault_floor g \<and> g_vault_floor g \<le> g_vault_seq g"
      using inv by (simp add: vault_inv_def seqs_ok_def new_group_def)
    moreover have "\<forall>x \<in> set (vault_items s). group_of ?s (v_group_id x) \<noteq> None"
      using inv by (simp add: grp vault_inv_def seqs_ok_def)
    ultimately have "seqs_ok ?s" using inv unfolding vault_inv_def seqs_ok_def items num by blast
    moreover have "forest ?s = forest s" "claims_ok ?s = claims_ok s" by (simp_all only: forest_def claims_ok_def items)
    moreover have "advances s ?s" using advances_refl [of s] unfolding advances_def items num .
    ultimately show ?thesis using inv by (simp only: vault_step_def vault_inv_def)
  qed
  then show ?thesis
    using createGroup_wp [of cf rq now s] vault_step_refl [OF inv] by (auto simp: wp_act split: sum.splits)
qed

section \<open>Every handler is safe\<close>

definition sys_inv :: "'priv push_platform \<Rightarrow> env \<Rightarrow> bool" where
  "sys_inv F s \<longleftrightarrow> keys_ok s \<and> vault_inv s \<and> push_ok F s \<and> pk p_pairing_id (pairing s)"

definition ensures :: "'priv push_platform \<Rightarrow> (env \<Rightarrow> env \<Rightarrow> bool) \<Rightarrow> 'a handler \<Rightarrow> bool" where
  "ensures F R m \<longleftrightarrow> (\<forall>s. sys_inv F s \<longrightarrow> R s (snd (m s)))"

definition safe :: "'priv push_platform \<Rightarrow> 'a handler \<Rightarrow> bool" where
  "safe F m \<longleftrightarrow> ensures F (\<lambda>s s'. sys_inv F s' \<and> advances s s') m"

lemma safeI:
  assumes "ensures F (\<lambda>_. keys_ok) m" "ensures F vault_step m" "ensures F (\<lambda>_. push_ok F) m"
    "ensures F (\<lambda>_ s. pk p_pairing_id (pairing s)) m"
  shows "safe F m"
  using assms unfolding safe_def ensures_def sys_inv_def vault_step_def by blast

lemma ensuresI: "(\<And>s. sys_inv F s \<Longrightarrow> R s (snd (m s))) \<Longrightarrow> ensures F R m"
  by (simp add: ensures_def)

lemma ensures_keeps:
  "keeps keys_ok m \<Longrightarrow> ensures F (\<lambda>_. keys_ok) m" "keeps (push_ok F) m \<Longrightarrow> ensures F (\<lambda>_. push_ok F) m"
  "keeps (\<lambda>s. pk p_pairing_id (pairing s)) m \<Longrightarrow> ensures F (\<lambda>_ s. pk p_pairing_id (pairing s)) m"
  by (simp_all add: ensures_def sys_inv_def keeps_def)

lemma push_framed: "push_subscriptions s' = push_subscriptions s \<Longrightarrow> push_ok F s' = push_ok F s"
  by (simp add: push_ok_def)

lemma slots_framed: "slot_view s' = slot_view s \<Longrightarrow> pk p_pairing_id (pairing s') = pk p_pairing_id (pairing s)"
  by (simp add: slot_view_def pk_def)

lemma frames_keeps: "frames V m \<Longrightarrow> (\<And>s s'. V s' = V s \<Longrightarrow> P s' = P s) \<Longrightarrow> keeps P m"
  unfolding frames_def keeps_def by blast

lemma ensures_framed:
  "frames keys_view m \<Longrightarrow> ensures F (\<lambda>_. keys_ok) m"
  "frames vault_view m \<Longrightarrow> ensures F vault_step m"
  "frames push_subscriptions m \<Longrightarrow> ensures F (\<lambda>_. push_ok F) m"
  "frames slot_view m \<Longrightarrow> ensures F (\<lambda>_ s. pk p_pairing_id (pairing s)) m"
proof -
  show "frames keys_view m \<Longrightarrow> ensures F (\<lambda>_. keys_ok) m"
    by (rule ensures_keeps(1)) (rule frames_keeps [OF _ keys_ok_framed])
  show "frames vault_view m \<Longrightarrow> ensures F vault_step m"
    unfolding ensures_def sys_inv_def by (blast intro: vault_framed framesD)
  show "frames push_subscriptions m \<Longrightarrow> ensures F (\<lambda>_. push_ok F) m"
    by (rule ensures_keeps(2)) (rule frames_keeps [OF _ push_framed])
  show "frames slot_view m \<Longrightarrow> ensures F (\<lambda>_ s. pk p_pairing_id (pairing s)) m"
    by (rule ensures_keeps(3)) (rule frames_keeps [OF _ slots_framed])
qed

lemma safe_framed:
  "frames keys_view m \<Longrightarrow> frames vault_view m \<Longrightarrow> frames push_subscriptions m \<Longrightarrow> frames slot_view m \<Longrightarrow> safe F m"
  by (intro safeI ensures_framed)

lemma safe_readers:
  "safe F (pollPairing cf rq i)" "safe F (pairingJoiner cf rq i)" "safe F (pendingMessages cf rq n)"
  "safe F (listDevices cf rq)" "safe F (vaultChanges cf rq n full)" "safe F (pushStatus cf rq)"
  "safe F (downloadFile cf rq k)" "safe F (downloadVaultBlob cf rq k)" "safe F (retS x)" "safe F (liftE r)"
  by (intro safe_framed frame_rules)+

lemma safe_messages:
  "safe F (sendMessage cf rq now)" "safe F (ackMessage cf rq i now)" "safe F (purgeExpiredMessages t)"
  "safe F (uploadFile cf rq k now)" "safe F (uploadVaultBlob cf rq k now)"
  by (intro safe_framed frame_rules; simp)+

lemma safe_vault_writes:
  "safe F (createVaultItem cf rq now)" "safe F (updateVaultItem cf rq i now)" "safe F (resealVaultItems cf rq now)"
  "safe F (deleteVaultItem cf rq i now)" "safe F (cleanUpVault now)"
proof -
  have step: "ensures F vault_step m" if "\<And>s. vault_inv s \<Longrightarrow> vault_step s (snd (m s))" for m :: "'b handler"
    using that by (simp add: ensures_def sys_inv_def)
  have "vault_step s (snd (createVaultItem cf rq now s))" "vault_step s (snd (updateVaultItem cf rq i now s))"
    "vault_step s (snd (resealVaultItems cf rq now s))" if "vault_inv s" for s
    using createVaultItem_step [OF that, of cf rq now] updateVaultItem_step [OF that, of cf rq i now]
      resealVaultItems_step [OF that, of cf rq now] by (simp_all add: wp_act split: sum.splits)
  then show "safe F (createVaultItem cf rq now)" "safe F (updateVaultItem cf rq i now)" "safe F (resealVaultItems cf rq now)"
    "safe F (deleteVaultItem cf rq i now)" "safe F (cleanUpVault now)"
    using deleteVaultItem_step cleanUpVault_step
    by - (intro safeI step ensures_framed frame_rules; simp)+
qed

lemma safe_keys:
  "safe F (rotateKey cf rq now)" "safe F (ackKey cf rq n)" "safe F (updateSpaceName cf rq now)"
  by (intro safeI ensures_framed(2-) ensures_keeps(1) frame_rules keys_ok_rotateKey keys_ok_ackKey keys_ok_updateSpaceName; simp)+

text \<open>A write to the columns of a device that \<open>keys_ok\<close> does not read.\<close>

lemma frames_device_columns:
  "frames keys_view (publishSigningKey cf rq)" "frames keys_view (updateDeviceRole cf rq i)"
proof -
  have col: "keys_view (s\<lparr>devices := update_rows c f (devices s)\<rparr>) = keys_view s"
    if "\<And>d. d_id (f d) = d_id d \<and> d_group_id (f d) = d_group_id d \<and> d_key_epoch (f d) = d_key_epoch d" for c f s
    using that by (simp add: keys_view_def update_rows_def)
  show "frames keys_view (publishSigningKey cf rq)" "frames keys_view (updateDeviceRole cf rq i)"
    unfolding publishSigningKey_def updateDeviceRole_def by (intro frame_rules col; simp)+
qed

lemma safe_devices: "safe F (publishSigningKey cf rq)" "safe F (updateDeviceRole cf rq i)"
  by (intro safe_framed frames_device_columns frame_rules; simp)+

lemma safe_revokeDevice: "safe F (revokeDevice cf rq i now)"
proof (rule safeI)
  have "push_ok F (revocation_batch g i now s)" if "push_ok F s" for g i s
    using that by (auto simp: push_ok_def delete_rows_def list_all_iff pk_def distinct_map inj_on_def)
  moreover have "keeps (push_ok F) m" if "frames push_subscriptions m" for m :: "'b handler"
    using that by (rule frames_keeps) (rule push_framed)
  ultimately have "keeps (push_ok F) (revokeDevice cf rq i now)"
    unfolding revokeDevice_def
    by (intro keeps_rules keeps_authenticateS; blast intro: frame_rules views_blind)
  then show "ensures F (\<lambda>_. push_ok F) (revokeDevice cf rq i now)" by (rule ensures_keeps)
qed (intro ensures_keeps keeps_revokeDevice ensures_framed frame_rules; simp)+

lemma keeps_if: "keeps P m \<Longrightarrow> keeps P m' \<Longrightarrow> keeps P (if c then m else m')"
  by simp

lemma safe_slots: "safe F (requestPairing cf rq i now)" "safe F (deletePairing i)"
proof -
  have opened: "keeps (\<lambda>s. pk p_pairing_id (pairing s)) (open_slot i d now)" for i d
    by (auto simp: keeps_def open_slot_def pk_snoc exists_row_iff)
  have "keeps (\<lambda>s. pk p_pairing_id (pairing s)) (requestPairing cf rq i now)"
    unfolding requestPairing_def by (intro keeps_rules keeps_if opened)
  moreover have "keeps (\<lambda>s. pk p_pairing_id (pairing s)) (deletePairing i)"
    unfolding deletePairing_def by (intro keeps_rules) (simp add: pk_delete_rows)
  ultimately show "safe F (requestPairing cf rq i now)" "safe F (deletePairing i)"
    by (auto intro!: safeI ensures_framed(1-3) ensures_keeps(3) frame_rules)
qed

lemma safe_completePairing: "safe F (completePairing cf rq i now)"
proof (rule safeI)
  have outcome: "s' = s \<or> (\<exists>a r row. s' = completed a r i row s \<and> d_group_id row = au_groupId a
      \<and> d_key_epoch row = pc_keyEpoch r \<and> slot_open a r i s)"
    if "sys_inv F s" "s' = snd (completePairing cf rq i now s)" for s s'
  proof -
    have "pk d_id (devices s)" "pk p_pairing_id (pairing s)" using that(1) by (simp_all add: sys_inv_def keys_ok_def)
    note w = completePairing_wp [OF this, of cf rq i now, unfolded wp_act, folded that(2)]
    show ?thesis
    proof (cases "fst (completePairing cf rq i now s)")
      case (Inr u)
      with w obtain a r device att where "s' = completed a r i (joined_row a r device att now) s" "slot_open a r i s" by auto
      moreover have "d_group_id (joined_row a r device att now) = au_groupId a"
        "d_key_epoch (joined_row a r device att now) = pc_keyEpoch r" by (simp_all add: joined_row_def)
      ultimately show ?thesis by blast
    qed (use w in simp)
  qed
  have slots: "map p_pairing_id (pairing (completed a r i row s)) = map p_pairing_id (pairing s)" for a r row s
    by (simp add: completed_def update_rows_def)
  show "ensures F (\<lambda>_. keys_ok) (completePairing cf rq i now)"
    using outcome keys_ok_completed by (force simp: ensures_def sys_inv_def)
  show "ensures F (\<lambda>_ s. pk p_pairing_id (pairing s)) (completePairing cf rq i now)"
    using outcome slots by (force simp: ensures_def sys_inv_def pk_def)
qed (intro ensures_framed frame_rules; simp)+

lemma safe_createGroup: "safe F (createGroup cf rq now)"
proof (rule safeI)
  have only: "push_subscriptions (snd (createGroup cf rq now s)) = push_subscriptions s
      \<and> pairing (snd (createGroup cf rq now s)) = pairing s" for s
    using createGroup_wp [of cf rq now s] by (auto simp: wp_act split: sum.splits)
  then show "ensures F (\<lambda>_. push_ok F) (createGroup cf rq now)"
    "ensures F (\<lambda>_ s. pk p_pairing_id (pairing s)) (createGroup cf rq now)"
    by (intro ensures_framed; simp add: frames_def slot_view_def)+
  show "ensures F vault_step (createGroup cf rq now)"
    using createGroup_vault by (simp add: ensures_def sys_inv_def)
qed (intro ensures_keeps keys_ok_createGroup)

lemma safe_push:
  "safe F (pushSubscribe F cf rq now)" "safe F (pushUnsubscribe cf rq)"
  by (intro safeI ensures_framed(1,2,4) ensures_keeps(2) push_ok_pushSubscribe push_ok_pushUnsubscribe frame_rules; simp)+

lemma safe_answering: "safe F m \<Longrightarrow> safe F (answering f m)"
proof -
  have "snd (answering f m s) = snd (m s)" for s
    by (cases "m s"; cases "fst (m s)") (simp_all add: answering_def bindS_def retS_def)
  then show "safe F m \<Longrightarrow> safe F (answering f m)" by (simp add: safe_def ensures_def)
qed

lemma safe_endpoint: "safe (dp_push D) (run_endpoint D h ps q now)"
  by (cases h; simp)
    (intro safe_answering safe_readers safe_messages safe_vault_writes safe_keys safe_devices safe_revokeDevice
      safe_slots safe_completePairing safe_createGroup safe_push)+

section \<open>Every step of the server is safe\<close>

lemma safe_step: "safe F m \<Longrightarrow> sys_inv F s \<Longrightarrow> sys_inv F (snd (m s)) \<and> advances s (snd (m s))"
  by (simp add: safe_def ensures_def)

lemma safe_pushToDevices: "safe F (pushToDevices F cf sub drawn g ids now)"
proof (rule safeI)
  have "push_ok F (forget_gone gone s)" if "push_ok F s" for gone s
    using that by (auto simp: forget_gone_rows push_ok_def list_all_iff pk_def distinct_map inj_on_def)
  then have "keeps (push_ok F) (pushToDevices F cf sub drawn g ids now)"
    unfolding pushToDevices_def Let_def
    by (auto intro!: keeps_rules split: option.split simp del: forget_gone_def)
  then show "ensures F (\<lambda>_. push_ok F) (pushToDevices F cf sub drawn g ids now)" by (rule ensures_keeps)
qed (intro ensures_framed frame_rules; simp)+

definition onward :: "'priv push_platform \<Rightarrow> env \<Rightarrow> env \<Rightarrow> bool" where
  "onward F s s' \<longleftrightarrow> sys_inv F s \<longrightarrow> sys_inv F s' \<and> advances s s'"

lemma onward_refl: "onward F s s"
  by (simp add: onward_def)

lemma onward_trans: "onward F s s1 \<Longrightarrow> onward F s1 s2 \<Longrightarrow> onward F s s2"
  unfolding onward_def by (metis advances_trans sys_inv_def vault_inv_def seqs_ok_def)

lemma onward_safe: "safe F m \<Longrightarrow> onward F s (snd (m s))"
  by (simp add: onward_def safe_step)

lemma onward_views:
  "keys_view s' = keys_view s \<Longrightarrow> vault_view s' = vault_view s \<Longrightarrow> push_subscriptions s' = push_subscriptions s
     \<Longrightarrow> slot_view s' = slot_view s \<Longrightarrow> onward F s s'"
  using vault_framed [of s' s] keys_ok_framed [of s' s] push_framed [of s' s F] slots_framed [of s' s]
  unfolding onward_def sys_inv_def vault_step_def by blast

lemma onward_deliver: "onward (dp_push D) (sv_env v) (sv_env (deliver D now n v))"
  using onward_safe [OF safe_pushToDevices] onward_refl
  by (auto simp: deliver_def notifySpace_run_def Let_def case_prod_beta split: prod.split)

lemma onward_flush: "onward (dp_push D) (sv_env v) (sv_env (flush_notices D now v))"
proof -
  have all: "onward (dp_push D) (sv_env w) (sv_env (fold (deliver D now) ns w))" for ns w
  proof (induction ns arbitrary: w)
    case (Cons n ns)
    show ?case using onward_trans [OF onward_deliver Cons] by simp
  qed (simp add: onward_refl)
  have "onward (dp_push D) (sv_env v) ((sv_env v)\<lparr>notices := []\<rparr>)"
    by (rule onward_views) (simp_all add: keys_view_def vault_view_def slot_view_def)
  from onward_trans [OF this] all [of "v\<lparr>sv_env := (sv_env v)\<lparr>notices := []\<rparr>\<rparr>" "notices (sv_env v)"]
  show ?thesis by (simp add: flush_notices_def)
qed

lemma onward_api: "onward (dp_push D) (sv_env v) (sv_env (snd (api_answer D q now v)))"
proof -
  have run: "onward (dp_push D) (sv_env v) (sv_env (flush_notices D now (v\<lparr>sv_env := s\<rparr>)))"
    if "run_endpoint D h ps q now (sv_env v) = (r, s)" for h ps r s
    using onward_trans [OF onward_safe [OF safe_endpoint, of D "sv_env v" h ps q now]] that
      onward_flush [of D "v\<lparr>sv_env := s\<rparr>" now] by simp
  have hub: "sv_env (v\<lparr>sv_hubs := l\<rparr>) = sv_env v" for l by simp
  show ?thesis
    unfolding api_answer_def
    by (auto simp: onward_refl run Let_def split: sum.splits option.splits prod.splits)
qed

lemma onward_fetch: "onward (dp_push D) (sv_env v) (sv_env (snd (fetch D q now v)))"
  using onward_api [of D v q now] by (auto simp: fetch_def Let_def onward_refl split: option.splits)

lemma safe_runCleanup: "safe F (runCleanup now)"
proof -
  have seq: "safe F (bindS m (\<lambda>_. m'))" if "safe F m" "safe F m'" for m :: "unit handler" and m' :: "unit handler"
  proof -
    have "onward F s (snd (bindS m (\<lambda>_. m') s))" for s
      using onward_safe [OF that(1), of s] onward_trans [OF onward_safe [OF that(1), of s] onward_safe [OF that(2)]]
      by (cases "m s"; cases "fst (m s)") (simp_all add: bindS_def)
    then show ?thesis by (simp add: safe_def ensures_def onward_def)
  qed
  have slots: "safe F (writeS (\<lambda>s. s\<lparr>pairing := delete_rows c (pairing s)\<rparr>))" for c
  proof (rule safeI)
    show "ensures F (\<lambda>_ s. pk p_pairing_id (pairing s)) (writeS (\<lambda>s. s\<lparr>pairing := delete_rows c (pairing s)\<rparr>))"
      by (intro ensures_keeps keeps_rules) (simp add: pk_delete_rows)
  qed (intro ensures_framed frame_rules; simp add: keys_view_def vault_view_def)+
  have orphans: "safe F (purgeOrphanBlobs S t)" if "known_store S" for S t
    using that by (intro safe_framed frame_rules; simp)
  show ?thesis unfolding runCleanup_def
    by (intro seq slots safe_messages safe_vault_writes orphans) simp_all
qed

lemma onward_step: "server_step D v v' \<Longrightarrow> onward (dp_push D) (sv_env v) (sv_env v')"
proof (induction rule: server_step.induct)
  case (serves q now v r v')
  with onward_fetch [of D v q now] show ?case by simp
next
  case (cleans v now)
  show ?case using onward_safe [OF safe_runCleanup] by simp
next
  case (files_change v b)
  show ?case by (simp, rule onward_views) (simp_all add: keys_view_def vault_view_def slot_view_def)
next
  case (vault_change v b)
  show ?case by (simp, rule onward_views) (simp_all add: keys_view_def vault_view_def slot_view_def)
qed (simp_all add: onward_refl map_hub_def)

lemma sys_inv_initial: "sys_inv F (sv_env initial)"
  by (simp add: initial_def empty_env_def sys_inv_def keys_ok_def vault_inv_def seqs_ok_def forest_def claims_ok_def
      push_ok_def pk_def)

lemma reachable_inv: "reachable D v \<Longrightarrow> sys_inv (dp_push D) (sv_env v)"
proof (induction rule: reachable.induct)
  case (goes v v')
  then show ?case using onward_step [OF goes(2)] by (simp add: onward_def)
qed (rule sys_inv_initial)

lemma steps_onward: "(server_step D)\<^sup>*\<^sup>* v v' \<Longrightarrow> onward (dp_push D) (sv_env v) (sv_env v')"
  by (induction rule: rtranclp_induct) (auto intro: onward_refl onward_trans onward_step)

section \<open>Properties\<close>

text \<open>C29. The invariants of the whole server. In every state that requests, clean-ups, sockets and failing
  buckets lead to from the empty storage, in any order, no device and no queued key is ahead of
  the key of its space, the vault of every space is a forest with orderly numbers and one owner for
  each blob, only push services are registered and every slot has one row; and from any such
  state to any later one the vault only moves forward.\<close>

theorem server_invariants:
  assumes "reachable D v" and "(server_step D)\<^sup>*\<^sup>* v v'"
  shows "keys_ok (sv_env v') \<and> vault_inv (sv_env v') \<and> push_ok (dp_push D) (sv_env v')
    \<and> pk p_pairing_id (pairing (sv_env v')) \<and> advances (sv_env v) (sv_env v')"
  using steps_onward [OF assms(2)] reachable_inv [OF assms(1)] by (simp add: onward_def sys_inv_def)

section \<open>At a concrete input\<close>

definition sample_deployment :: "json \<Rightarrow> nat deployment" where
  "sample_deployment j = \<lparr>dp_conf = sample_conf j, dp_push = gone_platform, dp_subject = None,
     dp_drawn = (\<lambda>_. (replicate 16 3, 2)), dp_decode = Some, dp_number = (\<lambda>_. IntN 1), dp_assets = (\<lambda>_. 200)\<rparr>"

definition founding :: http_request where
  "founding = \<lparr>hr_method = ''POST'',
     hr_url = \<lparr>u_protocol = ''https:'', u_hostname = CANONICAL_HOST, u_port = [], u_pathname = ''/api/groups'', u_search = []\<rparr>,
     hr_since = None, hr_full = False, hr_protocols = None, hr_upgrade = None, hr_request = sample_request ''x''\<rparr>"

theorem server_invariants_witness:
  "let v = snd (fetch (sample_deployment found_body) founding 5 initial) in
     map g_id (groups (sv_env v)) = [''space-01''] \<and> keys_ok (sv_env v) \<and> vault_inv (sv_env v)"
proof -
  let ?v = "snd (fetch (sample_deployment found_body) founding 5 initial)"
  have "server_step (sample_deployment found_body) initial ?v"
    by (rule serves [OF surjective_pairing])
  then have "(server_step (sample_deployment found_body))\<^sup>*\<^sup>* initial ?v" by blast
  note server_invariants [OF starts this]
  moreover have "map g_id (groups (sv_env ?v)) = [''space-01'']" by code_simp
  ultimately show ?thesis by (simp add: Let_def)
qed

end
