(* ===== verification/Identity.thy ===== *)
theory Identity
  imports Crypto
begin

text \<open>
  What a device believes about the keys of the others (apps/web/src/crypto/identity.ts). An object
  keyed by device ids is an association list; ids are not names of \<open>Object.prototype\<close>. The cache of
  imported signing keys is not modelled, an import gives the same key again. An exception is \<open>None\<close>.
  The lemmas: a key that is held is never replaced by what the server lists, and every
  difference is reported; when the list names each device once, an attested entry has the keys its
  introducer signed, through a chain of any length; a list that names a device twice breaks that.
\<close>

section \<open>The store\<close>

datatype IdentityTrust = Scanned | Inherited | Attested | Tofu

record DeviceIdentity =
  dy_publicKey :: string
  dy_signingPublicKey :: "string option"
  dy_trust :: IdentityTrust

type_synonym DeviceIdentities = "(string \<times> DeviceIdentity) list"

record RosterDevice =
  rd_id :: string
  rd_publicKey :: string
  rd_signingPublicKey :: "string option"
  rd_attestation :: "DeviceAttestation option"

record DeviceKeyBundle =
  bu_deviceId :: string
  bu_publicKey :: string
  bu_signingPublicKey :: "string option"

text \<open>The two keys of the meta store, and the ids the interface follows.\<close>

record identity_store =
  is_stored :: "DeviceIdentities option"
  is_pins :: "(string \<times> string) list option"
  is_known :: "string list"

definition trackKnownDevices :: "DeviceIdentities \<Rightarrow> identity_store \<Rightarrow> identity_store" where
  "trackKnownDevices ids s = (let next = sort (map fst ids) in if is_known s = next then s else s\<lparr>is_known := next\<rparr>)"

definition loadIdentities :: "identity_store \<Rightarrow> DeviceIdentities \<times> identity_store" where
  "loadIdentities s = (case is_stored s of Some held \<Rightarrow> (held, trackKnownDevices held s)
     | None \<Rightarrow> (case is_pins s of None \<Rightarrow> ([], s)
       | Some legacy \<Rightarrow>
           (let upgraded = map (\<lambda>(i, k). (i, \<lparr>dy_publicKey = k, dy_signingPublicKey = None, dy_trust = Tofu\<rparr>)) legacy
            in (upgraded, trackKnownDevices upgraded (s\<lparr>is_stored := Some upgraded\<rparr>)))))"

definition saveIdentities :: "DeviceIdentities \<Rightarrow> identity_store \<Rightarrow> identity_store" where
  "saveIdentities ids s = trackKnownDevices ids (s\<lparr>is_stored := Some ids\<rparr>)"

definition pinScannedDevice :: "DeviceKeyBundle \<Rightarrow> identity_store \<Rightarrow> identity_store" where
  "pinScannedDevice b s = (let (ids, s') = loadIdentities s in
     saveIdentities (AList.update (bu_deviceId b) \<lparr>dy_publicKey = bu_publicKey b,
       dy_signingPublicKey = bu_signingPublicKey b, dy_trust = Scanned\<rparr> ids) s')"

definition inherit_one :: "DeviceKeyBundle \<Rightarrow> DeviceIdentities \<Rightarrow> DeviceIdentities" where
  "inherit_one b ids = (if map_option dy_trust (map_of ids (bu_deviceId b)) = Some Scanned then ids
     else AList.update (bu_deviceId b) \<lparr>dy_publicKey = bu_publicKey b,
       dy_signingPublicKey = bu_signingPublicKey b, dy_trust = Inherited\<rparr> ids)"

definition seedInheritedIdentities :: "DeviceKeyBundle list \<Rightarrow> identity_store \<Rightarrow> identity_store" where
  "seedInheritedIdentities bundles s = (let (ids, s') = loadIdentities s in
     saveIdentities (fold inherit_one bundles ids) s')"

definition identityBundles :: "identity_store \<Rightarrow> DeviceKeyBundle list" where
  "identityBundles s = map (\<lambda>(i, e). \<lparr>bu_deviceId = i, bu_publicKey = dy_publicKey e,
     bu_signingPublicKey = dy_signingPublicKey e\<rparr>) (fst (loadIdentities s))"

section \<open>Attestations\<close>

definition createAttestation :: "('k, 'pub, 'priv) webcrypto \<Rightarrow> 'priv \<Rightarrow> DeviceAttestation \<Rightarrow> DeviceAttestation" where
  "createAttestation W priv fs = fs\<lparr>at_signature := signStatement W priv (attestationStatement fs)\<rparr>"

definition attestationHolds :: "('k, 'pub, 'priv) webcrypto \<Rightarrow> DeviceAttestation \<Rightarrow> RosterDevice \<Rightarrow> string \<Rightarrow> bool option" where
  "attestationHolds W a d signerSigningKey =
     (if at_deviceId a \<noteq> rd_id d \<or> at_publicKey a \<noteq> rd_publicKey d \<or> Some (at_signingPublicKey a) \<noteq> rd_signingPublicKey d
      then Some False
      else do { key \<leftarrow> importPublicKey W signerSigningKey;
        Some (verifyStatement W key (attestationStatement a) (at_signature a)) })"

section \<open>Reconciling with the list of the server\<close>

text \<open>The first loop: what changed, and what is new or has a key of which nothing is known.\<close>

fun triage :: "DeviceIdentities \<Rightarrow> RosterDevice list \<Rightarrow> string list \<times> RosterDevice list" where
  "triage known [] = ([], [])"
| "triage known (d # ds) = (let (changed, unresolved) = triage known ds in
     case map_of known (rd_id d) of None \<Rightarrow> (changed, d # unresolved)
     | Some existing \<Rightarrow>
         if dy_publicKey existing \<noteq> rd_publicKey d then (rd_id d # changed, unresolved)
         else if truthy (dy_signingPublicKey existing)
         then (if truthy (rd_signingPublicKey d) \<and> dy_signingPublicKey existing \<noteq> rd_signingPublicKey d
               then (rd_id d # changed, unresolved) else (changed, unresolved))
         else if truthy (rd_signingPublicKey d) then (changed, d # unresolved) else (changed, unresolved))"

text \<open>The attestation of an entry and the signer it can be checked against.\<close>

definition voucher :: "string \<Rightarrow> DeviceIdentities \<Rightarrow> RosterDevice \<Rightarrow> (DeviceAttestation \<times> DeviceIdentity) option" where
  "voucher g next d = (case rd_attestation d of None \<Rightarrow> None | Some a \<Rightarrow>
     (case map_of next (at_signerDeviceId a) of None \<Rightarrow> None | Some signer \<Rightarrow>
        if at_groupId a \<noteq> g \<or> \<not> truthy (dy_signingPublicKey signer) \<or> \<not> truthy (rd_signingPublicKey d)
        then None else Some (a, signer)))"

definition vouched_identity :: "RosterDevice \<Rightarrow> DeviceIdentity \<Rightarrow> DeviceIdentity" where
  "vouched_identity d signer = \<lparr>dy_publicKey = rd_publicKey d, dy_signingPublicKey = rd_signingPublicKey d,
     dy_trust = (if dy_trust signer = Tofu then Tofu else Attested)\<rparr>"

text \<open>One pass over what is pending: the entries, what is still pending, and whether there was progress.\<close>

fun adopt_round :: "('k, 'pub, 'priv) webcrypto \<Rightarrow> string \<Rightarrow> DeviceIdentities \<Rightarrow> RosterDevice list
    \<Rightarrow> (DeviceIdentities \<times> RosterDevice list \<times> bool) option" where
  "adopt_round W g next [] = Some (next, [], False)"
| "adopt_round W g next (d # ds) =
     (case voucher g next d of
        None \<Rightarrow> map_option (\<lambda>(n, st, p). (n, d # st, p)) (adopt_round W g next ds)
      | Some (a, signer) \<Rightarrow>
          (case attestationHolds W a d (the (dy_signingPublicKey signer)) of
             None \<Rightarrow> None
           | Some False \<Rightarrow> map_option (\<lambda>(n, st, p). (n, d # st, p)) (adopt_round W g next ds)
           | Some True \<Rightarrow> map_option (\<lambda>(n, st, _). (n, st, True))
               (adopt_round W g (AList.update (rd_id d) (vouched_identity d signer) next) ds)))"

lemma adopt_round_shrinks:
  "adopt_round W g next ds = Some (n, st, p) \<Longrightarrow> length st \<le> length ds \<and> (p \<longrightarrow> length st < length ds)"
proof (induction ds arbitrary: "next" n st p)
  case (Cons d ds)
  from Cons.prems show ?case
    by (auto split: option.splits bool.splits prod.splits dest!: Cons.IH)
qed simp

function adopt_loop :: "('k, 'pub, 'priv) webcrypto \<Rightarrow> string \<Rightarrow> DeviceIdentities \<Rightarrow> RosterDevice list
    \<Rightarrow> (DeviceIdentities \<times> RosterDevice list) option" where
  "adopt_loop W g next pending =
     (if pending = [] then Some (next, [])
      else (case adopt_round W g next pending of None \<Rightarrow> None
        | Some (n, st, progress) \<Rightarrow> if progress then adopt_loop W g n st else Some (n, st)))"
  by pat_completeness auto

termination adopt_loop
  by (relation "measure (\<lambda>(W, g, next, pending). length pending)") (auto dest: adopt_round_shrinks)

declare adopt_loop.simps [simp del]

definition first_sight :: "RosterDevice \<Rightarrow> DeviceIdentities \<Rightarrow> DeviceIdentities" where
  "first_sight d next = AList.update (rd_id d) \<lparr>dy_publicKey = rd_publicKey d,
     dy_signingPublicKey = (if truthy (rd_signingPublicKey d) then rd_signingPublicKey d else None),
     dy_trust = (case map_of next (rd_id d) of None \<Rightarrow> Tofu | Some e \<Rightarrow> dy_trust e)\<rparr> next"

definition reconcile_with :: "('k, 'pub, 'priv) webcrypto \<Rightarrow> RosterDevice list \<Rightarrow> string \<Rightarrow> DeviceIdentities
    \<Rightarrow> (string list \<times> DeviceIdentities) option" where
  "reconcile_with W ds g known =
     (let (changed, unresolved) = triage known ds in
      case adopt_loop W g known unresolved of None \<Rightarrow> None
      | Some (next, pending) \<Rightarrow>
          (let seen = fold first_sight pending next
           in Some (changed, filter (\<lambda>(i, e). i \<in> set (map rd_id ds)) seen)))"

definition reconcileDevices :: "('k, 'pub, 'priv) webcrypto \<Rightarrow> RosterDevice list \<Rightarrow> string \<Rightarrow> identity_store
    \<Rightarrow> string list option \<times> identity_store" where
  "reconcileDevices W ds g s = (let (known, s') = loadIdentities s in
     case reconcile_with W ds g known of None \<Rightarrow> (None, s')
     | Some (changed, next) \<Rightarrow> (Some changed, saveIdentities next s'))"

datatype SignatureVerdict = Verified | Unverified | Invalid

definition verifyDeviceSignature :: "('k, 'pub, 'priv) webcrypto \<Rightarrow> DeviceIdentities \<Rightarrow> string \<Rightarrow> string \<Rightarrow> string option
    \<Rightarrow> SignatureVerdict option" where
  "verifyDeviceSignature W ids deviceId statement signature =
     (case Option.bind (map_of ids deviceId) dy_signingPublicKey of
        None \<Rightarrow> Some Unverified
      | Some spki \<Rightarrow> if spki = [] then Some Unverified
          else if \<not> truthy signature then Some Invalid
          else do { key \<leftarrow> importPublicKey W spki;
            Some (if verifyStatement W key statement (the signature) then Verified else Invalid) })"

section \<open>What the loops keep\<close>

text \<open>An update that an attestation carried.\<close>

definition vouches :: "('k, 'pub, 'priv) webcrypto \<Rightarrow> string \<Rightarrow> DeviceIdentities \<Rightarrow> RosterDevice \<Rightarrow> DeviceIdentity \<Rightarrow> bool" where
  "vouches W g next d signer \<longleftrightarrow> (\<exists>a. voucher g next d = Some (a, signer)
     \<and> attestationHolds W a d (the (dy_signingPublicKey signer)) = Some True)"

lemma adopt_round_keeps:
  assumes "adopt_round W g next ds = Some (n, st, p)" and "P next"
    and "\<And>next d signer. d \<in> set ds \<Longrightarrow> P next \<Longrightarrow> vouches W g next d signer
      \<Longrightarrow> P (AList.update (rd_id d) (vouched_identity d signer) next)"
  shows "P n \<and> set st \<subseteq> set ds"
  using assms
proof (induction ds arbitrary: "next" n st p)
  case (Cons d ds)
  have keep: "P m" "x \<in> set st' \<Longrightarrow> x \<in> set ds" if "adopt_round W g m0 ds = Some (m, st', q)" "P m0" for m0 m st' q x
    using Cons.IH [OF that] Cons.prems(3) by auto
  show ?case
    using Cons.prems(1,2) Cons.prems(3) [of d "next"]
    by (fastforce simp: vouches_def split: option.splits bool.splits dest: keep)
qed simp

lemma adopt_loop_cases:
  assumes "adopt_loop W g next ds = Some (n, st)"
  obtains "ds = []" "n = next" "st = []"
    | m st' where "adopt_round W g next ds = Some (m, st', True)" "adopt_loop W g m st' = Some (n, st)" "length st' < length ds"
    | "adopt_round W g next ds = Some (n, st, False)"
proof (cases "ds = []")
  case True
  with assms that(1) show ?thesis by (simp add: adopt_loop.simps)
next
  case False
  show ?thesis
  proof (cases "adopt_round W g next ds")
    case None
    with assms False show ?thesis by (simp add: adopt_loop.simps)
  next
    case (Some r)
    obtain m st' q where r: "r = (m, st', q)" by (cases r)
    show ?thesis
    proof (cases q)
      case True
      with assms False Some r adopt_round_shrinks [of W g "next" ds m st' q] that(2) show ?thesis
        by (simp add: adopt_loop.simps [of W g "next"])
    next
      case False
      with assms \<open>ds \<noteq> []\<close> Some r that(3) show ?thesis by (simp add: adopt_loop.simps [of W g "next"])
    qed
  qed
qed

lemma adopt_loop_keeps:
  assumes "adopt_loop W g next ds = Some (n, st)" and "P next"
    and "\<And>next d signer. d \<in> set ds \<Longrightarrow> P next \<Longrightarrow> vouches W g next d signer
      \<Longrightarrow> P (AList.update (rd_id d) (vouched_identity d signer) next)"
  shows "P n \<and> set st \<subseteq> set ds"
  using assms
proof (induction ds arbitrary: "next" rule: length_induct)
  case (1 ds)
  from 1(2) show ?case
  proof (cases rule: adopt_loop_cases)
    case (2 m st')
    from adopt_round_keeps [OF 2(1) 1(3,4)] have m: "P m" "set st' \<subseteq> set ds" by auto
    with 1(1) 2(2,3) 1(4) have "P n \<and> set st \<subseteq> set st'" by blast
    with m show ?thesis by blast
  next
    case 3
    from adopt_round_keeps [OF 3 1(3,4)] show ?thesis .
  qed (use 1(3) in auto)
qed

text \<open>Nothing that still pends could have been adopted.\<close>

lemma adopt_round_idle:
  "adopt_round W g next ds = Some (n, st, False) \<Longrightarrow> n = next \<and> st = ds \<and> (\<forall>d \<in> set ds. \<not> vouches W g next d signer)"
proof (induction ds arbitrary: n st)
  case (Cons d ds)
  have "attestationHolds W a d (the (dy_signingPublicKey v)) \<noteq> Some True" if "voucher g next d = Some (a, v)" for a v
    using Cons.prems that by (auto split: option.splits)
  then have no: "\<not> vouches W g next d signer" by (auto simp: vouches_def)
  from Cons.prems obtain st' where "adopt_round W g next ds = Some (n, st', False)" "st = d # st'"
    by (auto split: option.splits bool.splits)
  from Cons.IH [OF this(1)] this(2) no show ?case by simp
qed simp

lemma adopt_loop_done: "adopt_loop W g next ds = Some (n, st) \<Longrightarrow> d \<in> set st \<Longrightarrow> \<not> vouches W g n d signer"
proof (induction ds arbitrary: "next" rule: length_induct)
  case (1 ds)
  from 1(2) show ?case
  proof (cases rule: adopt_loop_cases)
    case (2 m st')
    with 1(1,3) show ?thesis by blast
  next
    case 3
    with adopt_round_idle [OF 3, of signer] 1(3) show ?thesis by blast
  qed (use 1(3) in auto)
qed

text \<open>The two lists of the first loop, as filters.\<close>

definition differs :: "DeviceIdentities \<Rightarrow> RosterDevice \<Rightarrow> bool" where
  "differs known d \<longleftrightarrow> (\<exists>e. map_of known (rd_id d) = Some e \<and> (rd_publicKey d \<noteq> dy_publicKey e
     \<or> truthy (dy_signingPublicKey e) \<and> truthy (rd_signingPublicKey d) \<and> rd_signingPublicKey d \<noteq> dy_signingPublicKey e))"

definition unsettled :: "DeviceIdentities \<Rightarrow> RosterDevice \<Rightarrow> bool" where
  "unsettled known d \<longleftrightarrow> (\<forall>e. map_of known (rd_id d) = Some e \<longrightarrow> dy_publicKey e = rd_publicKey d
     \<and> \<not> truthy (dy_signingPublicKey e) \<and> truthy (rd_signingPublicKey d))"

lemma triage_filters: "triage known ds = (map rd_id (filter (differs known) ds), filter (unsettled known) ds)"
proof (induction ds)
  case (Cons d ds)
  then show ?case
    by (cases "map_of known (rd_id d)") (simp_all add: differs_def unsettled_def eq_commute [of "rd_publicKey d"]
        eq_commute [of "rd_signingPublicKey d"])
qed simp

lemma triage_unresolved:
  "d \<in> set (snd (triage known ds)) \<longleftrightarrow> d \<in> set ds \<and> (case map_of known (rd_id d) of None \<Rightarrow> True
     | Some e \<Rightarrow> dy_publicKey e = rd_publicKey d \<and> \<not> truthy (dy_signingPublicKey e) \<and> truthy (rd_signingPublicKey d))"
  by (simp add: triage_filters unsettled_def split: option.split)

lemma triage_changed:
  "set (fst (triage known ds)) = {i. \<exists>e. map_of known i = Some e \<and> (\<exists>d \<in> set ds. rd_id d = i \<and> (rd_publicKey d \<noteq> dy_publicKey e
     \<or> truthy (dy_signingPublicKey e) \<and> truthy (rd_signingPublicKey d) \<and> rd_signingPublicKey d \<noteq> dy_signingPublicKey e))}"
  unfolding triage_filters fst_conv set_map set_filter differs_def by blast

text \<open>The pending entries are exactly those of the list that were not adopted.\<close>

lemma adopt_round_covers:
  "adopt_round W g next ds = Some (n, st, p) \<Longrightarrow> d \<in> set ds \<Longrightarrow> d \<in> set st \<or> map_of n (rd_id d) \<noteq> None"
proof -
  have grows: "\<forall>i. map_of m i \<noteq> None \<longrightarrow> map_of n' i \<noteq> None" if "adopt_round W g m es = Some (n', st', q)" for m es n' st' q
    using adopt_round_keeps [OF that, of "\<lambda>m'. \<forall>i. map_of m i \<noteq> None \<longrightarrow> map_of m' i \<noteq> None"] by (simp add: update_conv')
  show "adopt_round W g next ds = Some (n, st, p) \<Longrightarrow> d \<in> set ds \<Longrightarrow> d \<in> set st \<or> map_of n (rd_id d) \<noteq> None"
  proof (induction ds arbitrary: "next" n st p)
    case (Cons e ds)
    have here: "map_of n' (rd_id e) \<noteq> None" if "adopt_round W g (AList.update (rd_id e) v next) ds = Some (n', st', q)" for v n' st' q
      using grows [OF that] by (simp add: update_conv')
    from Cons.prems show ?case
      by (fastforce split: option.splits bool.splits dest: here Cons.IH)
  qed simp
qed

lemma first_sight_simps:
  "map_of (first_sight d next) i = (if i = rd_id d then Some \<lparr>dy_publicKey = rd_publicKey d,
     dy_signingPublicKey = (if truthy (rd_signingPublicKey d) then rd_signingPublicKey d else None),
     dy_trust = (case map_of next (rd_id d) of None \<Rightarrow> Tofu | Some e \<Rightarrow> dy_trust e)\<rparr> else map_of next i)"
  by (simp add: first_sight_def update_conv')

lemma fold_keeps: "P x \<Longrightarrow> (\<And>d x. d \<in> set ds \<Longrightarrow> P x \<Longrightarrow> P (f d x)) \<Longrightarrow> P (fold f ds x)"
  by (induction ds arbitrary: x) auto

lemma map_of_listed: "map_of (filter (\<lambda>(i, e). i \<in> A) xs) i = (if i \<in> A then map_of xs i else None)"
  by (induction xs) auto

text \<open>What a whole reconciliation keeps: whatever its two kinds of updates keep.\<close>

lemma reconcile_keeps:
  assumes "reconcile_with W ds g known = Some (changed, ids)" and "P known"
    and "\<And>next d signer. d \<in> set (snd (triage known ds)) \<Longrightarrow> P next \<Longrightarrow> vouches W g next d signer
      \<Longrightarrow> P (AList.update (rd_id d) (vouched_identity d signer) next)"
    and "\<And>next d. d \<in> set (snd (triage known ds)) \<Longrightarrow> P next \<Longrightarrow> P (first_sight d next)"
  obtains seen where "P seen" "changed = fst (triage known ds)" "\<And>i. map_of ids i = (if i \<in> rd_id ` set ds then map_of seen i else None)"
proof -
  obtain nx pending where loop: "adopt_loop W g known (snd (triage known ds)) = Some (nx, pending)"
    and out: "changed = fst (triage known ds)"
      "ids = filter (\<lambda>(i, e). i \<in> set (map rd_id ds)) (fold first_sight pending nx)"
    using assms(1) by (auto simp: reconcile_with_def Let_def split: prod.splits option.splits)
  from adopt_loop_keeps [OF loop assms(2,3)] have P: "P nx" and sub: "set pending \<subseteq> set (snd (triage known ds))" by auto
  have "P (fold first_sight pending nx)"
    by (rule fold_keeps [of P, OF P]) (use assms(4) sub in blast)
  then show thesis by (rule that) (simp_all add: out map_of_listed)
qed

lemma adopt_loop_covers:
  "adopt_loop W g next ds = Some (n, st) \<Longrightarrow> d \<in> set ds \<Longrightarrow> d \<in> set st \<or> map_of n (rd_id d) \<noteq> None"
proof (induction ds arbitrary: "next" rule: length_induct)
  case (1 ds)
  from 1(2) show ?case
  proof (cases rule: adopt_loop_cases)
    case (2 m st')
    have "map_of n i \<noteq> None" if "map_of m i \<noteq> None" for i
      using adopt_loop_keeps [OF 2(2), of "\<lambda>m'. map_of m' i \<noteq> None"] that by (simp add: update_conv')
    with adopt_round_covers [OF 2(1) 1(3)] 1(1) 2(2,3) show ?thesis by blast
  next
    case 3
    from adopt_round_covers [OF 3 1(3)] show ?thesis .
  qed (use 1(3) in auto)
qed

lemma fold_first_sight:
  "map_of (fold first_sight ds next) i = None \<longleftrightarrow> map_of next i = None \<and> i \<notin> rd_id ` set ds"
  by (induction ds arbitrary: "next") (auto simp: first_sight_simps)

lemma reconcile_lists:
  assumes "reconcile_with W ds g known = Some (changed, ids)"
  shows "dom (map_of ids) = rd_id ` set ds"
proof -
  obtain nx pending where loop: "adopt_loop W g known (snd (triage known ds)) = Some (nx, pending)"
    and out: "ids = filter (\<lambda>(i, e). i \<in> set (map rd_id ds)) (fold first_sight pending nx)"
    using assms by (auto simp: reconcile_with_def Let_def split: prod.splits option.splits)
  have "map_of (fold first_sight pending nx) (rd_id d) \<noteq> None" if "d \<in> set ds" for d
  proof (cases "map_of known (rd_id d)")
    case None
    then have "d \<in> set (snd (triage known ds))" using that by (simp add: triage_unresolved)
    from adopt_loop_covers [OF loop this] show ?thesis by (auto simp: fold_first_sight)
  next
    case (Some e)
    have "map_of nx (rd_id d) \<noteq> None"
      using adopt_loop_keeps [OF loop, of "\<lambda>m. map_of m (rd_id d) \<noteq> None"] Some by (simp add: update_conv')
    then show ?thesis by (simp add: fold_first_sight)
  qed
  then show ?thesis by (auto simp: out map_of_listed split: if_splits)
qed

lemma reconcileDevices_ok:
  "reconcileDevices W ds g s = (Some changed, s') \<longleftrightarrow> (\<exists>ids. reconcile_with W ds g (fst (loadIdentities s)) = Some (changed, ids)
     \<and> s' = saveIdentities ids (snd (loadIdentities s)))"
  by (auto simp: reconcileDevices_def split: prod.splits option.splits)

lemma saved [simp]: "is_stored (saveIdentities ids s) = Some ids"
  by (simp add: saveIdentities_def trackKnownDevices_def Let_def)

section \<open>Properties\<close>

text \<open>C35. What the server lists never replaces a key that is held. A reconciliation that ends keeps the encryption
  key of every listed device it knew, and, where it knew a signing key, the whole entry; it keeps
  entries for exactly the devices listed, and reports exactly the known devices for which some
  listed key differs from the one it holds.\<close>

theorem reconcile_never_replaces:
  assumes "reconcileDevices W ds g s = (Some changed, s')" and "known = fst (loadIdentities s)"
  shows "\<exists>ids. is_stored s' = Some ids \<and> dom (map_of ids) = rd_id ` set ds
    \<and> (\<forall>i e. map_of known i = Some e \<and> i \<in> rd_id ` set ds \<longrightarrow> (\<exists>e'. map_of ids i = Some e'
        \<and> dy_publicKey e' = dy_publicKey e \<and> (truthy (dy_signingPublicKey e) \<longrightarrow> e' = e)))
    \<and> set changed = {i. \<exists>e. map_of known i = Some e \<and> (\<exists>d \<in> set ds. rd_id d = i \<and> (rd_publicKey d \<noteq> dy_publicKey e
        \<or> truthy (dy_signingPublicKey e) \<and> truthy (rd_signingPublicKey d) \<and> rd_signingPublicKey d \<noteq> dy_signingPublicKey e))}"
proof -
  from assms obtain ids where run: "reconcile_with W ds g known = Some (changed, ids)"
    and s': "s' = saveIdentities ids (snd (loadIdentities s))" by (auto simp: reconcileDevices_ok)
  define held where "held = (\<lambda>m. \<forall>i e. map_of known i = Some e \<longrightarrow> (\<exists>e'. map_of m i = Some e'
     \<and> dy_publicKey e' = dy_publicKey e \<and> (truthy (dy_signingPublicKey e) \<longrightarrow> e' = e)))"
  obtain seen where seen: "held seen" "changed = fst (triage known ds)"
    "\<And>i. map_of ids i = (if i \<in> rd_id ` set ds then map_of seen i else None)"
  proof (rule reconcile_keeps [OF run, of held])
    show "held known" by (auto simp: held_def)
    show "held (AList.update (rd_id d) (vouched_identity d signer) nx)"
      if "d \<in> set (snd (triage known ds))" "held nx" for nx d signer
      using that by (auto simp: held_def triage_unresolved update_conv' vouched_identity_def)
    show "held (first_sight d nx)" if "d \<in> set (snd (triage known ds))" "held nx" for nx d
      using that by (auto simp: held_def triage_unresolved first_sight_simps)
  qed (rule that)
  have "\<exists>e'. map_of ids i = Some e' \<and> dy_publicKey e' = dy_publicKey e \<and> (truthy (dy_signingPublicKey e) \<longrightarrow> e' = e)"
    if "map_of known i = Some e" "i \<in> rd_id ` set ds" for i e
    using seen(1,3) that by (simp add: held_def)
  then show ?thesis using reconcile_lists [OF run]
    by (simp add: s' seen(2) triage_changed)
qed

text \<open>The keys a device really has, and what a signature by one of its keys says.\<close>

definition genuine :: "(string \<Rightarrow> string \<times> string) \<Rightarrow> string \<Rightarrow> DeviceIdentity \<Rightarrow> bool" where
  "genuine truth i e \<longleftrightarrow> dy_publicKey e = fst (truth i) \<and> dy_signingPublicKey e = Some (snd (truth i)) \<and> snd (truth i) \<noteq> []"

definition trusted_genuine :: "(string \<Rightarrow> string \<times> string) \<Rightarrow> DeviceIdentities \<Rightarrow> bool" where
  "trusted_genuine truth ids \<longleftrightarrow> (\<forall>i e. map_of ids i = Some e \<and> dy_trust e \<noteq> Tofu \<longrightarrow> genuine truth i e)"

definition honest_signers :: "('k, 'pub, 'priv) webcrypto \<Rightarrow> string \<Rightarrow> (string \<Rightarrow> string \<times> string) \<Rightarrow> bool" where
  "honest_signers W g truth \<longleftrightarrow> (\<forall>a key. importPublicKey W (snd (truth (at_signerDeviceId a))) = Some key
     \<and> verifyStatement W key (attestationStatement a) (at_signature a) \<and> at_groupId a = g
     \<longrightarrow> (at_publicKey a, at_signingPublicKey a) = truth (at_deviceId a) \<and> at_signingPublicKey a \<noteq> [])"

lemma vouched_genuine:
  assumes "honest_signers W g truth" and "trusted_genuine truth nx" and "vouches W g nx d signer" and "dy_trust signer \<noteq> Tofu"
  shows "genuine truth (rd_id d) (vouched_identity d signer)"
proof -
  from assms(3) obtain a where a: "map_of nx (at_signerDeviceId a) = Some signer" "at_groupId a = g"
      "attestationHolds W a d (the (dy_signingPublicKey signer)) = Some True"
    by (auto simp: vouches_def voucher_def split: option.splits if_splits)
  with assms(2,4) have "genuine truth (at_signerDeviceId a) signer" by (auto simp: trusted_genuine_def)
  with a(3) obtain key where "importPublicKey W (snd (truth (at_signerDeviceId a))) = Some key"
      "verifyStatement W key (attestationStatement a) (at_signature a)"
    and d: "at_deviceId a = rd_id d" "at_publicKey a = rd_publicKey d" "Some (at_signingPublicKey a) = rd_signingPublicKey d"
    by (auto simp: attestationHolds_def genuine_def bind_eq_Some_conv split: if_splits)
  with assms(1) a(2) have "(at_publicKey a, at_signingPublicKey a) = truth (at_deviceId a) \<and> at_signingPublicKey a \<noteq> []"
    unfolding honest_signers_def by blast
  then have "fst (truth (rd_id d)) = rd_publicKey d" "snd (truth (rd_id d)) = at_signingPublicKey a" "at_signingPublicKey a \<noteq> []"
    using d(1,2) by (auto dest: sym)
  with d(3) show ?thesis by (simp add: genuine_def vouched_identity_def)
qed

section \<open>Chains of attestations\<close>

lemma same_id: "distinct (map rd_id ds) \<Longrightarrow> d \<in> set ds \<Longrightarrow> d' \<in> set ds \<Longrightarrow> rd_id d = rd_id d' \<Longrightarrow> d = d'"
  by (auto simp: distinct_map dest: inj_onD)

lemma vouches_signer:
  "vouches W g nx d signer \<Longrightarrow> \<exists>a. rd_attestation d = Some a \<and> map_of nx (at_signerDeviceId a) = Some signer
     \<and> truthy (dy_signingPublicKey signer) \<and> truthy (rd_signingPublicKey d)"
  by (auto simp: vouches_def voucher_def split: option.splits if_splits)

lemma vouches_cong:
  assumes "vouches W g nx d signer" and "\<And>a. rd_attestation d = Some a \<Longrightarrow> map_of nx' (at_signerDeviceId a) = map_of nx (at_signerDeviceId a)"
  shows "vouches W g nx' d signer"
  using assms by (auto simp: vouches_def voucher_def split: option.splits)

text \<open>Every entry is the one that was known or the one its introducer, as it now stands, vouches for.\<close>

definition resolved :: "('k, 'pub, 'priv) webcrypto \<Rightarrow> string \<Rightarrow> DeviceIdentities \<Rightarrow> RosterDevice set \<Rightarrow> DeviceIdentities \<Rightarrow> bool" where
  "resolved W g known D nx \<longleftrightarrow> (\<forall>d \<in> D. map_of nx (rd_id d) = map_of known (rd_id d)
     \<or> (\<exists>signer. vouches W g nx d signer \<and> map_of nx (rd_id d) = Some (vouched_identity d signer)))"

lemma resolved_update:
  assumes "inj_on rd_id D" and "\<And>d e. d \<in> D \<Longrightarrow> map_of known (rd_id d) = Some e \<Longrightarrow> \<not> truthy (dy_signingPublicKey e)"
    and "resolved W g known D nx" and "d \<in> D" and "vouches W g nx d signer"
  shows "resolved W g known D (AList.update (rd_id d) (vouched_identity d signer) nx)"
proof -
  let ?new = "AList.update (rd_id d) (vouched_identity d signer) nx"
  from vouches_signer [OF assms(5)] obtain a where a: "rd_attestation d = Some a" "map_of nx (at_signerDeviceId a) = Some signer"
    by blast
  have keep: "map_of ?new (at_signerDeviceId b) = map_of nx (at_signerDeviceId b)"
    if "vouches W g nx d' signer'" "rd_attestation d' = Some b" for d' signer' b
  proof (cases "at_signerDeviceId b = rd_id d")
    case True
    from vouches_signer [OF that(1)] that(2) True have e: "map_of nx (rd_id d) = Some signer'" "truthy (dy_signingPublicKey signer')"
      by auto
    with assms(2) [OF assms(4)] have "map_of nx (rd_id d) \<noteq> map_of known (rd_id d)" by auto
    with assms(3,4) obtain v where v: "vouches W g nx d v" "map_of nx (rd_id d) = Some (vouched_identity d v)"
      unfolding resolved_def by blast
    from vouches_signer [OF v(1)] a have "v = signer" by auto
    with v(2) True show ?thesis by (simp add: update_conv')
  qed (simp add: update_conv')
  show ?thesis unfolding resolved_def
  proof
    fix d' assume d': "d' \<in> D"
    show "map_of ?new (rd_id d') = map_of known (rd_id d')
      \<or> (\<exists>signer. vouches W g ?new d' signer \<and> map_of ?new (rd_id d') = Some (vouched_identity d' signer))"
    proof (cases "d' = d")
      case True
      have "vouches W g ?new d signer" using vouches_cong [OF assms(5)] keep [OF assms(5)] by blast
      with True show ?thesis by (auto simp: update_conv')
    next
      case False
      with assms(1,4) d' have "rd_id d' \<noteq> rd_id d" by (auto dest: inj_onD)
      moreover have "vouches W g ?new d' v" if "vouches W g nx d' v" for v
        using vouches_cong [OF that] keep [OF that] by blast
      ultimately show ?thesis using assms(3) d' unfolding resolved_def by (auto simp: update_conv')
    qed
  qed
qed

text \<open>What is adopted at first sight earns no trust, if no trusted device lacked its signing key.\<close>

lemma fold_first_sight_tofu:
  assumes "\<And>d e. d \<in> set ds \<Longrightarrow> map_of nx (rd_id d) = Some e \<Longrightarrow> dy_trust e = Tofu"
  shows "map_of (fold first_sight ds nx) i = map_of nx i
    \<or> (i \<in> rd_id ` set ds \<and> (\<exists>e. map_of (fold first_sight ds nx) i = Some e \<and> dy_trust e = Tofu))"
proof -
  have "\<forall>i. map_of m i = map_of nx i \<or> (i \<in> rd_id ` set ds \<and> (\<exists>e. map_of m i = Some e \<and> dy_trust e = Tofu))"
    if "m = fold first_sight ds nx" for m
    unfolding that
  proof (rule fold_keeps, simp, rule allI)
    fix d m i
    assume d: "d \<in> set ds" and m: "\<forall>i. map_of m i = map_of nx i \<or> (i \<in> rd_id ` set ds \<and> (\<exists>e. map_of m i = Some e \<and> dy_trust e = Tofu))"
    show "map_of (first_sight d m) i = map_of nx i
        \<or> (i \<in> rd_id ` set ds \<and> (\<exists>e. map_of (first_sight d m) i = Some e \<and> dy_trust e = Tofu))"
    proof (cases "i = rd_id d")
      case True
      have "dy_trust e = Tofu" if "map_of m (rd_id d) = Some e" for e
        using m [rule_format, of "rd_id d"] assms [OF d] that by auto
      with True d show ?thesis by (auto simp: first_sight_simps split: option.split)
    qed (use m in \<open>simp add: first_sight_simps\<close>)
  qed
  then show ?thesis by blast
qed

text \<open>The entries after a reconciliation with a list that names each device once: those of the loop, but
  for first sights, which are not trusted.\<close>

lemma reconcile_entries:
  assumes "honest_signers W g truth" and "distinct (map rd_id ds)" and "trusted_genuine truth known"
    and "reconcile_with W ds g known = Some (changed, ids)"
  obtains nx pending where "adopt_loop W g known (snd (triage known ds)) = Some (nx, pending)"
    and "trusted_genuine truth nx" and "resolved W g known (set (snd (triage known ds))) nx" and "set pending \<subseteq> set (snd (triage known ds))"
    and "\<And>i. i \<in> rd_id ` set ds \<Longrightarrow> map_of ids i = map_of nx i \<or> i \<in> rd_id ` set pending \<and> (\<exists>e. map_of ids i = Some e \<and> dy_trust e = Tofu)"
    and "\<And>i. i \<notin> rd_id ` set ds \<Longrightarrow> map_of ids i = None"
proof -
  define D where "D = set (snd (triage known ds))"
  obtain nx pending where loop: "adopt_loop W g known (snd (triage known ds)) = Some (nx, pending)"
    and out: "ids = filter (\<lambda>(i, e). i \<in> set (map rd_id ds)) (fold first_sight pending nx)"
    using assms(4) by (auto simp: reconcile_with_def Let_def split: prod.splits option.splits)
  have D: "d \<in> set ds" "map_of known (rd_id d) = Some e \<Longrightarrow> \<not> truthy (dy_signingPublicKey e)"
    if "d \<in> D" for d e using that by (auto simp: D_def triage_unresolved)
  have inj: "inj_on rd_id D" using same_id [OF assms(2)] D(1) by (auto intro: inj_onI)
  have tofu: "dy_trust e = Tofu" if "d \<in> D" "map_of known (rd_id d) = Some e" for d e
  proof (rule ccontr)
    assume "dy_trust e \<noteq> Tofu"
    with assms(3) that(2) have "genuine truth (rd_id d) e" by (simp add: trusted_genuine_def)
    with D(2) [OF that] show False by (simp add: genuine_def truthy_def)
  qed
  have "resolved W g known D nx \<and> set pending \<subseteq> set (snd (triage known ds))"
  proof (rule adopt_loop_keeps [OF loop])
    show "resolved W g known D (AList.update (rd_id d) (vouched_identity d signer) m)"
      if "d \<in> set (snd (triage known ds))" "resolved W g known D m" "vouches W g m d signer" for m d signer
      using resolved_update [OF inj D(2) that(2) _ that(3)] that(1) by (simp add: D_def)
  qed (simp add: resolved_def)
  then have nx: "resolved W g known D nx" and sub: "set pending \<subseteq> D" by (auto simp: D_def)
  have gen: "trusted_genuine truth nx"
  proof (rule adopt_loop_keeps [OF loop, THEN conjunct1])
    show "trusted_genuine truth (AList.update (rd_id d) (vouched_identity d signer) m)"
      if "trusted_genuine truth m" "vouches W g m d signer" for m d signer
      using vouched_genuine [OF assms(1) that] that(1)
      by (auto simp: trusted_genuine_def update_conv' vouched_identity_def split: if_splits)
  qed (rule assms(3))
  have still: "map_of nx (rd_id d) = map_of known (rd_id d)" if "d \<in> set pending" for d
    using nx sub that adopt_loop_done [OF loop that] by (auto simp: resolved_def)
  have "map_of (fold first_sight pending nx) i = map_of nx i \<or> (i \<in> rd_id ` set pending
      \<and> (\<exists>e. map_of (fold first_sight pending nx) i = Some e \<and> dy_trust e = Tofu))" for i
    by (rule fold_first_sight_tofu) (use still tofu sub in auto)
  then show thesis
    by (intro that [OF loop gen]) (use nx sub in \<open>simp_all add: D_def out map_of_listed\<close>)
qed

text \<open>C36. An attested entry is genuine, through a chain of any length. If devices sign only keys that are really
  those of the device they name, and what is held beyond first sight is genuine, then so is everything
  held beyond first sight after reconciling with any list that names each device once; and a new device
  whose attestation checks out against an entry then held beyond first sight is attested, in whatever
  order the list introduces them.\<close>

theorem attested_exactly:
  assumes "honest_signers W g truth" and "distinct (map rd_id ds)" and "trusted_genuine truth (fst (loadIdentities s))"
    and "reconcileDevices W ds g s = (Some changed, s')"
  shows "\<exists>ids. is_stored s' = Some ids \<and> trusted_genuine truth ids
    \<and> (\<forall>d \<in> set ds. \<forall>signer. map_of (fst (loadIdentities s)) (rd_id d) = None \<and> vouches W g ids d signer
        \<and> dy_trust signer \<noteq> Tofu \<longrightarrow> map_of ids (rd_id d) = Some (vouched_identity d signer))"
proof -
  define known where "known = fst (loadIdentities s)"
  from assms(4) obtain ids where run: "reconcile_with W ds g known = Some (changed, ids)"
    and s': "s' = saveIdentities ids (snd (loadIdentities s))" by (auto simp: reconcileDevices_ok known_def)
  obtain nx pending where loop: "adopt_loop W g known (snd (triage known ds)) = Some (nx, pending)"
    and nx: "trusted_genuine truth nx" "resolved W g known (set (snd (triage known ds))) nx"
    and sub: "set pending \<subseteq> set (snd (triage known ds))"
    and ids: "\<And>i. i \<in> rd_id ` set ds \<Longrightarrow> map_of ids i = map_of nx i
        \<or> i \<in> rd_id ` set pending \<and> (\<exists>e. map_of ids i = Some e \<and> dy_trust e = Tofu)"
      "\<And>i. i \<notin> rd_id ` set ds \<Longrightarrow> map_of ids i = None"
    by (rule reconcile_entries [OF assms(1,2) _ run]) (use assms(3) known_def in auto)
  have held: "map_of nx i = Some e" if "map_of ids i = Some e" "dy_trust e \<noteq> Tofu" for i e
    using ids [of i] that by (cases "i \<in> rd_id ` set ds") auto
  have "map_of ids (rd_id d) = Some (vouched_identity d signer)"
    if d: "d \<in> set ds" "map_of known (rd_id d) = None" and v: "vouches W g ids d signer" "dy_trust signer \<noteq> Tofu" for d signer
  proof -
    have "map_of nx (at_signerDeviceId a) = map_of ids (at_signerDeviceId a)" if "rd_attestation d = Some a" for a
      using vouches_signer [OF v(1)] that held [OF _ v(2)] by auto
    then have v': "vouches W g nx d signer" using vouches_cong [OF v(1)] by blast
    then have notpending: "d \<notin> set pending" using adopt_loop_done [OF loop] by blast
    have new: "d \<in> set (snd (triage known ds))" using d by (simp add: triage_unresolved)
    with adopt_loop_covers [OF loop new] notpending nx(2) d(2)
    obtain w where w: "vouches W g nx d w" "map_of nx (rd_id d) = Some (vouched_identity d w)"
      by (auto simp: resolved_def)
    have "d' = d" if "d' \<in> set pending" "rd_id d = rd_id d'" for d'
      using same_id [OF assms(2) d(1) _ that(2)] sub that(1) by (auto simp: triage_unresolved)
    then have "rd_id d \<notin> rd_id ` set pending" using notpending by blast
    with ids(1) [of "rd_id d"] w(2) d(1) vouches_signer [OF w(1)] vouches_signer [OF v'] show ?thesis by auto
  qed
  with nx(1) held show ?thesis
    unfolding s' known_def [symmetric] by (auto simp: trusted_genuine_def)
qed

text \<open>C37. A list that names a device twice passes off any keys as attested. Of two new entries with one id, one of
  them attested by a trusted device and one that nobody vouches for, the keys of the second are kept,
  under the trust of the first, and nothing is reported.\<close>

theorem repeated_entry_forges_trust:
  assumes "vouches W g (fst (loadIdentities s)) d signer" and "dy_trust signer \<noteq> Tofu"
    and "map_of (fst (loadIdentities s)) (rd_id d) = None"
    and "rd_id d' = rd_id d" and "rd_attestation d' = None" and "truthy (rd_signingPublicKey d')"
  shows "\<exists>s' ids. reconcileDevices W [d, d'] g s = (Some [], s') \<and> is_stored s' = Some ids
    \<and> map_of ids (rd_id d) = Some \<lparr>dy_publicKey = rd_publicKey d', dy_signingPublicKey = rd_signingPublicKey d', dy_trust = Attested\<rparr>"
proof -
  define known where "known = fst (loadIdentities s)"
  let ?nx = "AList.update (rd_id d) (vouched_identity d signer) known"
  from assms(1) obtain a where a: "voucher g known d = Some (a, signer)"
    "attestationHolds W a d (the (dy_signingPublicKey signer)) = Some True" by (auto simp: vouches_def known_def)
  have "voucher g nx d' = None" for nx using assms(5) by (simp add: voucher_def)
  then have "adopt_loop W g known [d, d'] = Some (?nx, [d'])"
    using a by (simp add: adopt_loop.simps)
  moreover have "triage known [d, d'] = ([], [d, d'])" using assms(3,4) by (simp add: known_def)
  ultimately obtain ids where ids: "reconcile_with W [d, d'] g known = Some ([], ids)"
    "ids = filter (\<lambda>(i, e). i \<in> {rd_id d}) (first_sight d' ?nx)"
    using assms(4) by (auto simp: reconcile_with_def)
  have "map_of ids (rd_id d) = map_of (first_sight d' ?nx) (rd_id d)" unfolding ids(2) map_of_listed by simp
  also have "\<dots> = Some \<lparr>dy_publicKey = rd_publicKey d', dy_signingPublicKey = rd_signingPublicKey d', dy_trust = Attested\<rparr>"
    using assms(2,4,6) by (simp add: first_sight_simps update_conv' vouched_identity_def)
  finally show ?thesis using ids(1) by (auto simp: reconcileDevices_ok known_def)
qed

text \<open>A device that was scanned before it had a signing key takes one from the list, unattested, and stays as
  trusted as it was.\<close>

lemma unattested_key_keeps_trust:
  assumes "map_of (fst (loadIdentities s)) (rd_id d) = Some e" and "\<not> truthy (dy_signingPublicKey e)"
    and "rd_publicKey d = dy_publicKey e" and "rd_attestation d = None" and "truthy (rd_signingPublicKey d)"
  shows "\<exists>s' ids. reconcileDevices W [d] g s = (Some [], s') \<and> is_stored s' = Some ids
    \<and> map_of ids (rd_id d) = Some (e\<lparr>dy_signingPublicKey := rd_signingPublicKey d\<rparr>)"
proof -
  define known where "known = fst (loadIdentities s)"
  have "adopt_loop W g known [d] = Some (known, [d])" using assms(4) by (simp add: adopt_loop.simps voucher_def)
  moreover have "triage known [d] = ([], [d])" using assms(1,2,3,5) by (simp add: known_def)
  ultimately obtain ids where ids: "reconcile_with W [d] g known = Some ([], ids)"
    "ids = filter (\<lambda>(i, e). i \<in> {rd_id d}) (first_sight d known)"
    by (auto simp: reconcile_with_def)
  have "map_of ids (rd_id d) = map_of (first_sight d known) (rd_id d)" unfolding ids(2) map_of_listed by simp
  also have "\<dots> = Some (e\<lparr>dy_signingPublicKey := rd_signingPublicKey d\<rparr>)"
    using assms(1,3,5) by (cases e) (simp add: first_sight_simps known_def)
  finally show ?thesis using ids(1) by (auto simp: reconcileDevices_ok known_def)
qed

section \<open>Verdicts\<close>

lemma verify_signed:
  "webcrypto_ok W \<Longrightarrow> verifyStatement W (public_of W k) m (signStatement W k m') \<longleftrightarrow> m = m'"
  by (simp add: verifyStatement_def signStatement_def webcrypto_okD)

lemma import_exported: "webcrypto_ok W \<Longrightarrow> importPublicKey W (exportPublicKey W p) = Some p"
  by (simp add: importPublicKey_def exportPublicKey_def webcrypto_okD)

text \<open>A signing key that is held admits only what its private half signed.\<close>

lemma verdict_of_signed:
  assumes "webcrypto_ok W" and "map_of ids i = Some e" and "dy_signingPublicKey e = Some (exportPublicKey W (public_of W k))"
    and "exportPublicKey W (public_of W k) \<noteq> []" and "signStatement W k m' \<noteq> []"
  shows "verifyDeviceSignature W ids i m (Some (signStatement W k m')) = Some (if m = m' then Verified else Invalid)"
  using assms by (simp add: verifyDeviceSignature_def truthy_def import_exported verify_signed)

section \<open>At a concrete input\<close>

lemma count_join: "count_list (join [c] (x # xs)) c = length xs + sum_list (map (\<lambda>x. count_list x c) (x # xs))"
  by (induction xs arbitrary: x) simp_all

text \<open>The statement of an attestation without colons in its fields is that of no other.\<close>

lemma attestationStatement_binds:
  assumes "attestationStatement f = attestationStatement f'"
    and "list_all colon_free [at_groupId f, at_deviceId f, at_publicKey f, at_signingPublicKey f, at_signerDeviceId f]"
  shows "f\<lparr>at_signature := s\<rparr> = f'\<lparr>at_signature := s\<rparr>"
proof -
  have int: "count_list (int_str i) (CHR '':'') = 0" for i by (simp add: int_str_colon count_list_0_iff)
  have free: "colon_free x \<longleftrightarrow> count_list x (CHR '':'') = 0" for x by (simp add: colon_free_def count_list_0_iff)
  have "count_list (attestationStatement f) (CHR '':'') = count_list (attestationStatement f') (CHR '':'')" using assms(1) by simp
  then have "list_all colon_free [at_groupId f', at_deviceId f', at_publicKey f', at_signingPublicKey f', at_signerDeviceId f']"
    using assms(2) by (simp add: attestationStatement_def count_join int free del: join.simps)
  from attestationStatement_inj [OF assms(1,2) this] show ?thesis .
qed

text \<open>A space of an owner, scanned, and a laptop it attested; a platform on which that attestation is the only
  signature that verifies.\<close>

definition laptop_attestation :: DeviceAttestation where
  "laptop_attestation = \<lparr>at_groupId = ''g'', at_deviceId = ''laptop'', at_publicKey = ''kl'', at_signingPublicKey = ''BBBB'',
     at_signerDeviceId = ''owner'', at_issuedAt = 1, at_signature = ''AAAA''\<rparr>"

definition sealed_crypto :: "(nat, nat, nat) webcrypto" where
  "sealed_crypto = clear_crypto\<lparr>ecdsa_verify := (\<lambda>p s m. m = text_encode clear_crypto (attestationStatement laptop_attestation))\<rparr>"

definition sample_keys :: "string \<Rightarrow> string \<times> string" where
  "sample_keys i = (if i = ''laptop'' then (''kl'', ''BBBB'') else (''ko'', ''CCCC''))"

definition owner_store :: identity_store where
  "owner_store = \<lparr>is_stored = Some [(''owner'', \<lparr>dy_publicKey = ''ko'', dy_signingPublicKey = Some ''CCCC'', dy_trust = Scanned\<rparr>)],
     is_pins = None, is_known = [''owner'']\<rparr>"

definition sample_roster :: "RosterDevice list" where
  "sample_roster = [\<lparr>rd_id = ''laptop'', rd_publicKey = ''kl'', rd_signingPublicKey = Some ''BBBB'', rd_attestation = Some laptop_attestation\<rparr>,
     \<lparr>rd_id = ''owner'', rd_publicKey = ''ko'', rd_signingPublicKey = Some ''CCCC'', rd_attestation = None\<rparr>]"

lemma sample_honest: "honest_signers sealed_crypto ''g'' sample_keys"
proof -
  have "at_publicKey a = ''kl'' \<and> at_signingPublicKey a = ''BBBB'' \<and> at_deviceId a = ''laptop''"
    if "verifyStatement sealed_crypto key (attestationStatement a) sig" for a key sig
  proof -
    from that have "text_encode clear_crypto (attestationStatement a) = text_encode clear_crypto (attestationStatement laptop_attestation)"
      by (simp add: verifyStatement_def sealed_crypto_def clear_crypto_def split: option.splits)
    then have st: "attestationStatement laptop_attestation = attestationStatement a"
      by (simp add: webcrypto_okD [OF clear_crypto_ok])
    have "laptop_attestation\<lparr>at_signature := []\<rparr> = a\<lparr>at_signature := []\<rparr>"
      by (rule attestationStatement_binds [OF st]) (simp add: laptop_attestation_def colon_free_def)
    then show ?thesis by (cases a) (simp add: laptop_attestation_def)
  qed
  then show ?thesis by (auto simp: honest_signers_def sample_keys_def)
qed

lemma sample_trusted: "trusted_genuine sample_keys (fst (loadIdentities owner_store))"
  by (auto simp: trusted_genuine_def loadIdentities_def owner_store_def genuine_def sample_keys_def split: if_splits)

lemma sample_holds: "attestationHolds sealed_crypto laptop_attestation (sample_roster ! 0) ''CCCC'' = Some True"
proof -
  have "base64UrlToBuf ''CCCC'' \<noteq> None" and "base64UrlToBuf ''AAAA'' \<noteq> None" by code_simp+
  then show ?thesis
    by (auto simp: attestationHolds_def sample_roster_def laptop_attestation_def verifyStatement_def importPublicKey_def
        sealed_crypto_def clear_crypto_def)
qed

lemma sample_run: "fst (reconcileDevices sealed_crypto sample_roster ''g'' owner_store) = Some []"
proof -
  let ?known = "the (is_stored owner_store)"
  have v: "voucher ''g'' ?known (sample_roster ! 0) = Some (laptop_attestation, snd (?known ! 0))"
    by (simp add: voucher_def owner_store_def sample_roster_def laptop_attestation_def truthy_def)
  have key: "the (dy_signingPublicKey (snd (?known ! 0))) = ''CCCC''" by (simp add: owner_store_def)
  have round: "adopt_round sealed_crypto ''g'' ?known [sample_roster ! 0]
      = Some (AList.update ''laptop'' (vouched_identity (sample_roster ! 0) (snd (?known ! 0))) ?known, [], True)"
    using v sample_holds key by (simp add: sample_roster_def)
  have "triage ?known sample_roster = ([], [sample_roster ! 0])"
    by (simp add: sample_roster_def owner_store_def truthy_def)
  moreover have "adopt_loop sealed_crypto ''g'' ?known [sample_roster ! 0]
      = Some (AList.update ''laptop'' (vouched_identity (sample_roster ! 0) (snd (?known ! 0))) ?known, [])"
    by (subst adopt_loop.simps) (simp add: round adopt_loop.simps [of _ _ _ "[]"] del: adopt_round.simps)
  moreover have "loadIdentities owner_store = (?known, owner_store)"
    by (simp add: loadIdentities_def owner_store_def trackKnownDevices_def)
  ultimately show ?thesis by (simp add: reconcileDevices_def reconcile_with_def)
qed

theorem reconcile_never_replaces_witness:
  "\<exists>ids. is_stored (snd (reconcileDevices sealed_crypto sample_roster ''g'' owner_store)) = Some ids
     \<and> map_of ids ''owner'' = Some \<lparr>dy_publicKey = ''ko'', dy_signingPublicKey = Some ''CCCC'', dy_trust = Scanned\<rparr>"
proof -
  let ?owner = "\<lparr>dy_publicKey = ''ko'', dy_signingPublicKey = Some ''CCCC'', dy_trust = Scanned\<rparr>"
  have "map_of (fst (loadIdentities owner_store)) ''owner'' = Some ?owner" and "''owner'' \<in> rd_id ` set sample_roster"
    by (simp_all add: loadIdentities_def owner_store_def sample_roster_def)
  moreover have "truthy (dy_signingPublicKey ?owner)" by (simp add: truthy_def)
  ultimately show ?thesis
    using reconcile_never_replaces [OF run_fst [OF sample_run] refl] by blast
qed

theorem attested_exactly_witness:
  "\<exists>ids. is_stored (snd (reconcileDevices sealed_crypto sample_roster ''g'' owner_store)) = Some ids
     \<and> trusted_genuine sample_keys ids"
proof -
  have "distinct (map rd_id sample_roster)" by (simp add: sample_roster_def)
  from attested_exactly [OF sample_honest this sample_trusted run_fst [OF sample_run]] show ?thesis by blast
qed

theorem repeated_entry_forges_trust_witness:
  "\<exists>s' ids. reconcileDevices sealed_crypto [sample_roster ! 0, \<lparr>rd_id = ''laptop'', rd_publicKey = ''forged'',
       rd_signingPublicKey = Some ''DDDD'', rd_attestation = None\<rparr>] ''g'' owner_store = (Some [], s') \<and> is_stored s' = Some ids
    \<and> map_of ids ''laptop'' = Some \<lparr>dy_publicKey = ''forged'', dy_signingPublicKey = Some ''DDDD'', dy_trust = Attested\<rparr>"
proof -
  let ?forged = "\<lparr>rd_id = ''laptop'', rd_publicKey = ''forged'', rd_signingPublicKey = Some ''DDDD'', rd_attestation = None\<rparr>"
  let ?owner = "\<lparr>dy_publicKey = ''ko'', dy_signingPublicKey = Some ''CCCC'', dy_trust = Scanned\<rparr>"
  have "voucher ''g'' (fst (loadIdentities owner_store)) (sample_roster ! 0) = Some (laptop_attestation, ?owner)"
    by (simp add: voucher_def loadIdentities_def owner_store_def sample_roster_def laptop_attestation_def truthy_def)
  then have "vouches sealed_crypto ''g'' (fst (loadIdentities owner_store)) (sample_roster ! 0) ?owner"
    using sample_holds by (simp add: vouches_def)
  from repeated_entry_forges_trust [OF this, of ?forged]
  show ?thesis by (simp add: loadIdentities_def owner_store_def sample_roster_def truthy_def)
qed

end
