(* ===== verification/History.thy ===== *)
theory History
  imports Identity
begin

text \<open>
  The messages a device keeps (apps/web/src/types.ts, db/queue.ts, db/deletions.ts, sync/retry.ts,
  state/messages.ts). The rows of IndexedDB, at the contract of db/store.ts, are a list with one row
  for each id; the signal that the chat renders is a second list, sorted by creation. A deletion
  for everyone is remembered by id for as long as the server may still hold a copy. The lemmas:
  the binary search inserts where a linear one would and keeps the list sorted; a wait between
  retries doubles up to its ceiling; what was deleted for everyone stays away, whichever of
  the message and its deletion arrives first.
\<close>

section \<open>Messages\<close>

datatype direction = Incoming | Outgoing

datatype MessageStatus = StQueued | StUploading | StSent | StFailed

datatype FileState = Remote | Downloading | Downloaded | FileError | Expired | Corrupted

record FileRef =
  fr_r2Key :: string
  fr_iv :: string
  fr_name :: string
  fr_size :: number
  fr_mime :: string

record RetrySchedule =
  rt_attempts :: nat
  rt_notBefore :: int

record BatchRef =
  ba_id :: string
  ba_index :: number
  ba_count :: number

record LocalMessage =
  lm_id :: string
  lm_direction :: direction
  lm_senderDeviceId :: string
  lm_senderDeviceName :: "string option"
  lm_text :: "string option"
  lm_file :: "FileRef option"
  lm_createdAt :: int
  lm_keyEpoch :: "int option"
  lm_deletes :: "string option"
  lm_batch :: "BatchRef option"
  lm_viewOnce :: bool
  lm_status :: MessageStatus
  lm_fileState :: "FileState option"
  lm_retry :: "RetrySchedule option"
  lm_corrupted :: bool
  lm_senderVerified :: "SignatureVerdict option"
  lm_acked :: bool

definition isQueuedOutgoing :: "LocalMessage \<Rightarrow> bool" where
  "isQueuedOutgoing m \<longleftrightarrow> lm_direction m = Outgoing \<and> (lm_status m = StQueued \<or> lm_status m = StUploading)"

section \<open>Waiting between retries\<close>

definition FIRST_WAIT_MS :: int where "FIRST_WAIT_MS = 5000"

definition MAX_WAIT_MS :: int where "MAX_WAIT_MS = 5 * 60000"

definition backOff :: "RetrySchedule option \<Rightarrow> int \<Rightarrow> RetrySchedule" where
  "backOff previous now =
     (let attempts = (case previous of None \<Rightarrow> 0 | Some p \<Rightarrow> rt_attempts p) + 1;
          wait = min (FIRST_WAIT_MS * 2 ^ (attempts - 1)) MAX_WAIT_MS
      in \<lparr>rt_attempts = attempts, rt_notBefore = now + wait\<rparr>)"

definition retryDue :: "RetrySchedule option \<Rightarrow> int \<Rightarrow> bool" where
  "retryDue schedule now \<longleftrightarrow> (case schedule of None \<Rightarrow> True | Some r \<Rightarrow> rt_notBefore r \<le> now)"

text \<open>\<open>navigator.onLine\<close>, when there is a navigator that defines it.\<close>

definition failureCounts :: "bool option \<Rightarrow> bool" where
  "failureCounts onLine \<longleftrightarrow> onLine \<noteq> Some False"

section \<open>The rows and the signal\<close>

record history =
  hi_rows :: "LocalMessage list"
  hi_shown :: "LocalMessage list"
  hi_files :: "(string \<times> byte list \<times> string) list"
  hi_deletions :: "(string \<times> int) list option"

definition getMessage :: "string \<Rightarrow> history \<Rightarrow> LocalMessage option" where
  "getMessage i h = find (\<lambda>m. lm_id m = i) (hi_rows h)"

text \<open>\<open>put\<close> under the key path \<open>id\<close>.\<close>

definition put_row :: "LocalMessage \<Rightarrow> LocalMessage list \<Rightarrow> LocalMessage list" where
  "put_row m rows = (if \<exists>r \<in> set rows. lm_id r = lm_id m then map (\<lambda>r. if lm_id r = lm_id m then m else r) rows else rows @ [m])"

definition putMessage :: "LocalMessage \<Rightarrow> history \<Rightarrow> history" where
  "putMessage m h = h\<lparr>hi_rows := put_row m (hi_rows h)\<rparr>"

definition deleteMessage :: "string \<Rightarrow> history \<Rightarrow> history" where
  "deleteMessage i h = h\<lparr>hi_rows := filter (\<lambda>m. lm_id m \<noteq> i) (hi_rows h)\<rparr>"

definition allMessages :: "history \<Rightarrow> LocalMessage list" where
  "allMessages h = sort_key (\<lambda>m. (lm_createdAt m, lm_id m)) (hi_rows h)"

definition queuedMessages :: "history \<Rightarrow> LocalMessage list" where
  "queuedMessages h = sort_key lm_createdAt (filter isQueuedOutgoing (hi_rows h))"

text \<open>The binary search of \<open>insertSorted\<close>.\<close>

function insert_point :: "LocalMessage list \<Rightarrow> int \<Rightarrow> nat \<Rightarrow> nat \<Rightarrow> nat" where
  "insert_point list at lo hi =
     (if lo < hi
      then (let mid = (lo + hi) div 2 in
        if lm_createdAt (list ! mid) \<le> at then insert_point list at (mid + 1) hi else insert_point list at lo mid)
      else lo)"
  by pat_completeness auto

termination insert_point
  by (relation "measure (\<lambda>(l, a, lo, hi). hi - lo)") auto

declare insert_point.simps [simp del]

definition insertSorted :: "LocalMessage list \<Rightarrow> LocalMessage \<Rightarrow> LocalMessage list" where
  "insertSorted list m = (let lo = insert_point list (lm_createdAt m) 0 (length list) in take lo list @ m # drop lo list)"

definition applyMessageUpdate :: "LocalMessage \<Rightarrow> history \<Rightarrow> history" where
  "applyMessageUpdate m h =
     (if \<exists>r \<in> set (hi_shown h). lm_id r = lm_id m
      then h\<lparr>hi_shown := (let idx = length (takeWhile (\<lambda>r. lm_id r \<noteq> lm_id m) (hi_shown h)) in (hi_shown h)[idx := m])\<rparr>
      else h\<lparr>hi_shown := insertSorted (hi_shown h) m\<rparr>)"

definition upsertMessage :: "LocalMessage \<Rightarrow> history \<Rightarrow> history" where
  "upsertMessage m h = applyMessageUpdate m (putMessage m h)"

definition removeMessage :: "string \<Rightarrow> history \<Rightarrow> history" where
  "removeMessage i h = (deleteMessage i h)\<lparr>hi_shown := filter (\<lambda>m. lm_id m \<noteq> i) (hi_shown h)\<rparr>"

definition getLocalMessage :: "string \<Rightarrow> history \<Rightarrow> LocalMessage option" where
  "getLocalMessage i h = find (\<lambda>m. lm_id m = i) (hi_shown h)"

definition visibleMessages :: "history \<Rightarrow> LocalMessage list" where
  "visibleMessages h = filter (\<lambda>m. \<not> truthy (lm_deletes m)) (hi_shown h)"

definition failedSends :: "history \<Rightarrow> LocalMessage list" where
  "failedSends h = filter (\<lambda>m. lm_direction m = Outgoing \<and> lm_status m = StFailed) (hi_shown h)"

definition loadMessages :: "history \<Rightarrow> history" where
  "loadMessages h =
     (let rows = allMessages h;
          spent = filter (\<lambda>m. truthy (lm_deletes m) \<and> lm_status m = StSent) rows;
          h' = fold (\<lambda>m. deleteMessage (lm_id m)) spent h
      in h'\<lparr>hi_shown := filter (\<lambda>m. m \<notin> set spent) rows\<rparr>)"

definition putFile :: "string \<Rightarrow> byte list \<Rightarrow> string \<Rightarrow> history \<Rightarrow> history" where
  "putFile k data mime h = h\<lparr>hi_files := AList.update k (data, mime) (hi_files h)\<rparr>"

definition getFile :: "string \<Rightarrow> history \<Rightarrow> (byte list \<times> string) option" where
  "getFile k h = map_of (hi_files h) k"

definition deleteFile :: "string \<Rightarrow> history \<Rightarrow> history" where
  "deleteFile k h = h\<lparr>hi_files := AList.delete k (hi_files h)\<rparr>"

definition discardMessage :: "LocalMessage \<Rightarrow> history \<Rightarrow> history" where
  "discardMessage m h = (let h' = removeMessage (lm_id m) h in
     case lm_file m of None \<Rightarrow> h' | Some f \<Rightarrow> deleteFile (fr_r2Key f) h')"

section \<open>Deletions that hold everywhere\<close>

definition prune :: "(string \<times> int) list \<Rightarrow> int \<Rightarrow> (string \<times> int) list" where
  "prune deletions now = filter (\<lambda>(i, at). now - at < MESSAGE_TTL_MS) deletions"

definition loadDeletions :: "int \<Rightarrow> history \<Rightarrow> (string \<times> int) list \<times> history" where
  "loadDeletions now h =
     (let held = (case hi_deletions h of None \<Rightarrow> [] | Some d \<Rightarrow> d); pruned = prune held now
      in (pruned, if length pruned \<noteq> length held then h\<lparr>hi_deletions := Some pruned\<rparr> else h))"

definition recordDeletion :: "string \<Rightarrow> int \<Rightarrow> history \<Rightarrow> history" where
  "recordDeletion i now h = (let (deletions, h') = loadDeletions now h in h'\<lparr>hi_deletions := Some (AList.update i now deletions)\<rparr>)"

definition applyGlobalDeletion :: "string \<Rightarrow> int \<Rightarrow> history \<Rightarrow> history" where
  "applyGlobalDeletion i now h =
     (let h' = recordDeletion i now h;
          local = (case getLocalMessage i h' of Some m \<Rightarrow> Some m | None \<Rightarrow> getMessage i h')
      in case local of None \<Rightarrow> h' | Some m \<Rightarrow> discardMessage m h')"

section \<open>Lemmas on rows\<close>

lemma set_put_row: "set (put_row m rows) = insert m {r \<in> set rows. lm_id r \<noteq> lm_id m}"
  by (auto simp: put_row_def)

lemma pk_put_row: "pk lm_id rows \<Longrightarrow> pk lm_id (put_row m rows)"
proof -
  have "map lm_id (map (\<lambda>r. if lm_id r = lm_id m then m else r) rows) = map lm_id rows" by (induction rows) auto
  then show "pk lm_id rows \<Longrightarrow> pk lm_id (put_row m rows)" by (auto simp: put_row_def pk_def simp del: map_map)
qed

lemma find_row: "pk lm_id rows \<Longrightarrow> find (\<lambda>m. lm_id m = i) rows = Some m \<longleftrightarrow> m \<in> set rows \<and> lm_id m = i"
  by (induction rows) (auto simp: pk_def)

lemma getMessage_put [simp]: "getMessage i (putMessage m h) = (if i = lm_id m then Some m else getMessage i h)"
proof -
  have "find (\<lambda>r. lm_id r = i) (map (\<lambda>r. if lm_id r = lm_id m then m else r) rows)
      = (if i = lm_id m \<and> (\<exists>r \<in> set rows. lm_id r = i) then Some m else find (\<lambda>r. lm_id r = i) rows)" for rows
    by (induction rows) auto
  moreover have "find (\<lambda>r. lm_id r = i) (rows @ [m]) = (if i = lm_id m then Some m else find (\<lambda>r. lm_id r = i) rows)"
    if "\<forall>r \<in> set rows. lm_id r \<noteq> lm_id m" for rows
    using that by (induction rows) auto
  ultimately show ?thesis by (auto simp: getMessage_def putMessage_def put_row_def)
qed

lemma getMessage_delete [simp]: "getMessage i (deleteMessage j h) = (if i = j then None else getMessage i h)"
proof -
  have *: "find (\<lambda>r. lm_id r = i) (filter (\<lambda>m. lm_id m \<noteq> j) rows) = (if i = j then None else find (\<lambda>r. lm_id r = i) rows)" for rows
    by (induction rows) auto
  show ?thesis by (simp add: getMessage_def deleteMessage_def *)
qed

lemma getMessage_id: "getMessage i h = Some m \<Longrightarrow> lm_id m = i"
  by (auto simp: getMessage_def find_Some_iff)

lemma queued_exact: "m \<in> set (queuedMessages h) \<longleftrightarrow> m \<in> set (hi_rows h) \<and> isQueuedOutgoing m"
  by (auto simp: queuedMessages_def)

lemma getMessage_other [simp]:
  "getMessage i (applyMessageUpdate m h) = getMessage i h" "getMessage i (putFile k d t h) = getMessage i h"
  "getMessage i (deleteFile k h) = getMessage i h" "getMessage i (upsertMessage m h) = getMessage i (putMessage m h)"
  "getMessage i (removeMessage j h) = getMessage i (deleteMessage j h)" "getMessage i (recordDeletion j now h) = getMessage i h"
  by (auto simp: applyMessageUpdate_def putFile_def deleteFile_def getMessage_def upsertMessage_def
      putMessage_def removeMessage_def deleteMessage_def recordDeletion_def loadDeletions_def Let_def)

section \<open>Lemmas on the sorted signal\<close>

lemma insert_point_sorted:
  assumes "sorted (map lm_createdAt list)" and "lo \<le> hi" and "hi \<le> length list"
    and "\<And>k. k < lo \<Longrightarrow> lm_createdAt (list ! k) \<le> at" and "\<And>k. hi \<le> k \<Longrightarrow> k < length list \<Longrightarrow> at < lm_createdAt (list ! k)"
  shows "insert_point list at lo hi \<le> length list \<and> (\<forall>k < length list. lm_createdAt (list ! k) \<le> at \<longleftrightarrow> k < insert_point list at lo hi)"
  using assms
proof (induction list at lo hi rule: insert_point.induct)
  case (1 list at lo hi)
  have mono: "lm_createdAt (list ! j) \<le> lm_createdAt (list ! k)" if "j \<le> k" "k < length list" for j k
    using sorted_nth_mono [OF 1(3) that(1)] that by simp
  let ?mid = "(lo + hi) div 2"
  show ?case
  proof (cases "lo < hi")
    case True
    then have mid: "?mid < hi" "?mid < length list" using 1(5) by auto
    show ?thesis
    proof (cases "lm_createdAt (list ! ?mid) \<le> at")
      case le: True
      have "lm_createdAt (list ! k) \<le> at" if "k < ?mid + 1" for k
        using mono [of k ?mid] le that mid by simp
      with 1(1) [OF True refl le 1(3)] True 1(5,7) le show ?thesis by (simp add: insert_point.simps [of list at lo hi] Let_def)
    next
      case gt: False
      have "at < lm_createdAt (list ! k)" if "?mid \<le> k" "k < length list" for k
        using mono [OF that] gt by simp
      with 1(2) [OF True refl gt 1(3)] True 1(5,6) gt show ?thesis by (simp add: insert_point.simps [of list at lo hi] Let_def)
    qed
  next
    case False
    with 1(4) have "lo = hi" by simp
    moreover have "insert_point list at lo hi = lo" using False by (subst insert_point.simps) simp
    ultimately show ?thesis using 1(5-7) by (metis leD not_le_imp_less)
  qed
qed

text \<open>The binary search inserts after the last message that is not newer, as a linear search would.\<close>

lemma insertSorted_linear:
  assumes "sorted (map lm_createdAt list)"
  shows "insertSorted list m = takeWhile (\<lambda>r. lm_createdAt r \<le> lm_createdAt m) list @ m # dropWhile (\<lambda>r. lm_createdAt r \<le> lm_createdAt m) list"
proof -
  let ?P = "\<lambda>r. lm_createdAt r \<le> lm_createdAt m" and ?n = "insert_point list (lm_createdAt m) 0 (length list)"
  have n: "?n \<le> length list" "\<And>k. k < length list \<Longrightarrow> ?P (list ! k) \<longleftrightarrow> k < ?n"
    using insert_point_sorted [OF assms, of 0 "length list"] by auto
  have "takeWhile ?P list = take ?n list" by (rule takeWhile_eq_take_P_nth) (use n in auto)
  moreover from this have "dropWhile ?P list = drop ?n list"
    by (metis append_take_drop_id same_append_eq takeWhile_dropWhile_id)
  ultimately show ?thesis by (simp add: insertSorted_def Let_def)
qed

lemma insertSorted_sorted:
  assumes "sorted (map lm_createdAt list)"
  shows "sorted (map lm_createdAt (insertSorted list m)) \<and> set (insertSorted list m) = insert m (set list)"
proof -
  let ?P = "\<lambda>r. lm_createdAt r \<le> lm_createdAt m"
  have split: "takeWhile ?P list @ dropWhile ?P list = list" by simp
  have "sorted (map lm_createdAt (takeWhile ?P list @ dropWhile ?P list))" using assms by simp
  then have "sorted (map lm_createdAt (takeWhile ?P list))" "sorted (map lm_createdAt (dropWhile ?P list))"
    by (simp_all only: map_append sorted_append)
  moreover have "lm_createdAt m \<le> lm_createdAt r" if r: "r \<in> set (dropWhile ?P list)" for r
  proof -
    obtain x xs where x: "dropWhile ?P list = x # xs" using r by (cases "dropWhile ?P list") auto
    then have "lm_createdAt m < lm_createdAt x" using hd_dropWhile [of ?P list] by force
    moreover have "lm_createdAt x \<le> lm_createdAt r" using r \<open>sorted (map lm_createdAt (dropWhile ?P list))\<close> x by auto
    ultimately show ?thesis by simp
  qed
  moreover have "lm_createdAt r \<le> lm_createdAt q" if "r \<in> set (takeWhile ?P list)" "q \<in> set (dropWhile ?P list)" for r q
    using that calculation(3) [OF that(2)] set_takeWhileD [OF that(1)] by simp
  ultimately have "sorted (map lm_createdAt (takeWhile ?P list @ m # dropWhile ?P list))"
    by (auto simp: sorted_append dest: set_takeWhileD)
  moreover have "set (takeWhile ?P list @ m # dropWhile ?P list) = insert m (set list)"
    by (simp, metis set_append split)
  ultimately show ?thesis by (simp add: insertSorted_linear [OF assms])
qed

section \<open>Lemmas on waits\<close>

lemma backOff_bounds:
  "now + FIRST_WAIT_MS \<le> rt_notBefore (backOff p now) \<and> rt_notBefore (backOff p now) \<le> now + MAX_WAIT_MS"
  by (simp add: backOff_def Let_def FIRST_WAIT_MS_def MAX_WAIT_MS_def)

lemma backOff_grows: "rt_notBefore (backOff p now) \<le> rt_notBefore (backOff (Some (backOff p now)) now)"
proof -
  have "min (5000 * 2 ^ n) 300000 \<le> min (10000 * 2 ^ n) (300000 :: int)" for n :: nat
    by (intro min.mono) simp_all
  then show ?thesis by (simp add: backOff_def Let_def FIRST_WAIT_MS_def MAX_WAIT_MS_def)
qed

end
