(* ===== verification/Outbox.thy ===== *)
theory Outbox
  imports History
begin

text \<open>
  Sending what is queued (apps/web/src/sync/outbox.ts). A pass works through the queued rows, oldest first,
  reading each again before it is sent; the epoch and the IV of a file are pinned in the row before
  anything is uploaded. The server, the network and the clock are an \<open>api\<close> over a world; a call may
  fail in any way, and while it runs the user or another context may change the rows. \<open>api_disk\<close> says whether
  a file can be stored; the writes of rows are taken to succeed. The lock around
  a pass is taken as given. The lemmas: a row is marked sent only when the server took its
  message, now or before; a pass loses and alters nothing that was queued; and however often a file is
  uploaded again, it is the same bytes.
\<close>

section \<open>What is outside\<close>

datatype client_error = ApiFailed ApiErrorCode | NetworkFailed | Aborted | LocalFailed

record 'w api =
  api_send :: "json \<Rightarrow> 'w \<Rightarrow> (client_error + unit) \<times> 'w"
  api_upload :: "string \<Rightarrow> byte list \<Rightarrow> 'w \<Rightarrow> (client_error + unit) \<times> 'w"
  api_download :: "string \<Rightarrow> 'w \<Rightarrow> (client_error + byte list) \<times> 'w"
  api_ack :: "string \<Rightarrow> 'w \<Rightarrow> (client_error + unit) \<times> 'w"
  api_disk :: "'w \<Rightarrow> bool"
  api_aborted :: "'w \<Rightarrow> bool"
  api_onLine :: "'w \<Rightarrow> bool option"
  api_now :: "'w \<Rightarrow> int"
  api_meanwhile :: "'w \<Rightarrow> history \<Rightarrow> history"

record 'w phone =
  ph_history :: history
  ph_attempts :: "(string \<times> nat) list"
  ph_world :: 'w

type_synonym ('w, 'a) step = "('w phone, client_error, 'a) act"

text \<open>A call of the server; what others did to the rows while it ran shows when it is over.\<close>

definition call :: "'w api \<Rightarrow> ('w \<Rightarrow> (client_error + 'a) \<times> 'w) \<Rightarrow> ('w, 'a) step" where
  "call A f p = (let (r, w) = f (ph_world p)
     in (r, p\<lparr>ph_world := w, ph_history := api_meanwhile A w (ph_history p)\<rparr>))"

definition throwIfAborted :: "'w api \<Rightarrow> ('w, unit) step" where
  "throwIfAborted A p = (if api_aborted A (ph_world p) then Inl Aborted else Inr (), p)"

text \<open>What a pass works with: the ring, the signing key with the space and the device, what is drawn at
  random for a message, and how a change is announced.\<close>

record ('k, 'priv) flush_context =
  fc_keyring :: "'k Keyring"
  fc_sign :: "'priv option"
  fc_groupId :: string
  fc_deviceId :: string
  fc_random :: "string \<Rightarrow> string \<Rightarrow> byte list"
  fc_notify :: "LocalMessage \<Rightarrow> history \<Rightarrow> history"

section \<open>Which failures are worth a retry\<close>

definition isAlreadySent :: "client_error \<Rightarrow> bool" where
  "isAlreadySent e \<longleftrightarrow> e = ApiFailed Conflict"

definition RETRIABLE_CODES :: "ApiErrorCode list" where
  "RETRIABLE_CODES = [RateLimited, Internal, QuotaExceeded]"

definition isRetriable :: "client_error \<Rightarrow> bool" where
  "isRetriable e \<longleftrightarrow> (case e of Aborted \<Rightarrow> True | NetworkFailed \<Rightarrow> True | ApiFailed c \<Rightarrow> c \<in> set RETRIABLE_CODES | LocalFailed \<Rightarrow> False)"

definition isKeyRotated :: "client_error \<Rightarrow> bool" where
  "isKeyRotated e \<longleftrightarrow> e = ApiFailed KeyRotated"

definition isDue :: "LocalMessage \<Rightarrow> int \<Rightarrow> bool" where
  "isDue m now \<longleftrightarrow> isQueuedOutgoing m \<and> retryDue (lm_retry m) now"

definition repinFile :: "LocalMessage \<Rightarrow> FileRef option" where
  "repinFile m = map_option (\<lambda>f. f\<lparr>fr_iv := []\<rparr>) (lm_file m)"

section \<open>Sending one message\<close>

definition update_message :: "('k, 'priv) flush_context \<Rightarrow> LocalMessage \<Rightarrow> ('w, unit) step" where
  "update_message C m p = (Inr (), if getMessage (lm_id m) (ph_history p) = None then p
     else p\<lparr>ph_history := fc_notify C m (putMessage m (ph_history p))\<rparr>)"

definition pinEpoch :: "('k, 'priv) flush_context \<Rightarrow> LocalMessage \<Rightarrow> ('w, int \<times> 'k) step" where
  "pinEpoch C m =
     (case Option.bind (lm_keyEpoch m) (\<lambda>pinned. map_option (Pair pinned) (keyForEpoch (fc_keyring C) pinned)) of
        Some held \<Rightarrow> retS held
      | None \<Rightarrow> (let epoch = kr_current (fc_keyring C) in
          bindS (update_message C (m\<lparr>lm_keyEpoch := Some epoch\<rparr>)) (\<lambda>_.
          liftE (case currentKey (fc_keyring C) of None \<Rightarrow> Inl LocalFailed | Some key \<Rightarrow> Inr (epoch, key)))))"

definition ignore_sent :: "('w, unit) step \<Rightarrow> ('w, unit) step" where
  "ignore_sent m p = (case m p of (Inl e, p') \<Rightarrow> (if isAlreadySent e then Inr () else Inl e, p') | (Inr u, p') \<Rightarrow> (Inr u, p'))"

text \<open>The spread of an optional field.\<close>

definition opt_field :: "string \<Rightarrow> string option \<Rightarrow> (string \<times> json) list" where
  "opt_field f v = (case v of None \<Rightarrow> [] | Some s \<Rightarrow> [(f, JStr s)])"

definition deletion_body :: "('k, 'pub, 'priv) webcrypto \<Rightarrow> ('k, 'priv) flush_context \<Rightarrow> string \<Rightarrow> int \<Rightarrow> string \<Rightarrow> json" where
  "deletion_body W C i epoch deletes = JObj ([(''id'', JStr i), (''keyEpoch'', JNum (IntN epoch)), (''deletesMessageId'', JStr deletes)]
     @ opt_field ''signature'' (map_option (\<lambda>priv. signStatement W priv (deleteSignatureStatement
         \<lparr>df_groupId = fc_groupId C, df_messageId = i, df_senderDeviceId = fc_deviceId C, df_keyEpoch = epoch,
          df_deletesMessageId = deletes\<rparr>)) (fc_sign C)))"

definition sendQueuedDeletion :: "('k, 'pub, 'priv) webcrypto \<Rightarrow> 'w api \<Rightarrow> ('k, 'priv) flush_context \<Rightarrow> LocalMessage \<Rightarrow> ('w, unit) step" where
  "sendQueuedDeletion W A C m =
     bindS (throwIfAborted A) (\<lambda>_.
     bindS (pinEpoch C m) (\<lambda>(epoch, _).
     bindS (ignore_sent (call A (api_send A (deletion_body W C (lm_id m) epoch (the (lm_deletes m)))))) (\<lambda>_.
     update_message C (m\<lparr>lm_keyEpoch := Some epoch, lm_retry := None, lm_status := StSent\<rparr>))))"

definition metaFor :: "LocalMessage \<Rightarrow> json option" where
  "metaFor m =
     (let fs = (case lm_file m of None \<Rightarrow> [] | Some f \<Rightarrow> [(''name'', JStr (fr_name f)), (''size'', JNum (fr_size f)), (''mime'', JStr (fr_mime f))])
          @ (case lm_batch m of None \<Rightarrow> [] | Some b \<Rightarrow> [(''batchId'', JStr (ba_id b)), (''batchIndex'', JNum (ba_index b)),
              (''batchCount'', JNum (ba_count b))])
          @ (if lm_viewOnce m then [(''viewOnce'', JBool True)] else [])
      in if fs = [] then None else Some (JObj fs))"

record Payload =
  pl_encryptedPayload :: "string option"
  pl_iv :: "string option"
  pl_fileR2Key :: "string option"
  pl_fileIv :: "string option"
  pl_fileMeta :: "string option"
  pl_fileMetaIv :: "string option"

definition seal_payload :: "('k, 'pub, 'priv) webcrypto \<Rightarrow> ('k, 'priv) flush_context \<Rightarrow> LocalMessage \<Rightarrow> 'k
    \<Rightarrow> (FileRef \<times> string) option \<Rightarrow> Payload" where
  "seal_payload W C m key file =
     (let text = map_option (\<lambda>t. encryptMessageText W key (lm_id m) t (fc_random C (lm_id m) ''text'')) (lm_text m);
          meta = map_option (\<lambda>v. encryptMessageMeta W key (lm_id m) v (fc_random C (lm_id m) ''meta'')) (metaFor m);
          sent = (case file of Some (f, iv) \<Rightarrow> if iv \<noteq> [] then Some (f, iv) else None | None \<Rightarrow> None)
      in \<lparr>pl_encryptedPayload = map_option et_ciphertext text, pl_iv = map_option et_iv text,
          pl_fileR2Key = map_option (fr_r2Key \<circ> fst) sent, pl_fileIv = map_option snd sent,
          pl_fileMeta = map_option et_ciphertext meta, pl_fileMetaIv = map_option et_iv meta\<rparr>)"

definition content_statement :: "('k, 'priv) flush_context \<Rightarrow> string \<Rightarrow> int \<Rightarrow> Payload \<Rightarrow> string" where
  "content_statement C i epoch pl = messageSignatureStatement \<lparr>mf_groupId = fc_groupId C, mf_messageId = i,
     mf_senderDeviceId = fc_deviceId C, mf_keyEpoch = epoch, mf_encryptedPayload = pl_encryptedPayload pl, mf_iv = pl_iv pl,
     mf_fileR2Key = pl_fileR2Key pl, mf_fileIv = pl_fileIv pl, mf_fileMeta = pl_fileMeta pl, mf_fileMetaIv = pl_fileMetaIv pl\<rparr>"

definition content_body :: "('k, 'pub, 'priv) webcrypto \<Rightarrow> ('k, 'priv) flush_context \<Rightarrow> string \<Rightarrow> int \<Rightarrow> Payload \<Rightarrow> json" where
  "content_body W C i epoch pl = JObj ([(''id'', JStr i), (''keyEpoch'', JNum (IntN epoch))]
     @ opt_field ''encryptedPayload'' (pl_encryptedPayload pl) @ opt_field ''iv'' (pl_iv pl)
     @ opt_field ''fileR2Key'' (pl_fileR2Key pl) @ opt_field ''fileIv'' (pl_fileIv pl)
     @ opt_field ''fileMeta'' (pl_fileMeta pl) @ opt_field ''fileMetaIv'' (pl_fileMetaIv pl)
     @ opt_field ''signature'' (map_option (\<lambda>priv. signStatement W priv (content_statement C i epoch pl)) (fc_sign C)))"

text \<open>The file of a message: pinned, sealed and uploaded.\<close>

definition upload_source :: "('k, 'pub, 'priv) webcrypto \<Rightarrow> 'w api \<Rightarrow> ('k, 'priv) flush_context \<Rightarrow> LocalMessage \<Rightarrow> int \<Rightarrow> 'k
    \<Rightarrow> FileRef \<Rightarrow> ('w, FileRef \<times> string) step" where
  "upload_source W A C m epoch key f =
     bindS (readS (\<lambda>p. getFile (fr_r2Key f) (ph_history p))) (\<lambda>blob.
     case blob of None \<Rightarrow> liftE (Inl LocalFailed)
     | Some (data, mime) \<Rightarrow>
         (let f' = (if fr_iv f = [] then f\<lparr>fr_iv := bufToBase64Url (fc_random C (lm_id m) ''file'')\<rparr> else f) in
         bindS (update_message C (m\<lparr>lm_file := Some f', lm_keyEpoch := Some epoch, lm_status := StUploading\<rparr>)) (\<lambda>_.
         bindS (throwIfAborted A) (\<lambda>_.
         case encryptMessageFile W key (lm_id m) data (Some (fr_iv f')) (fc_random C (lm_id m) ''file'') of
           None \<Rightarrow> liftE (Inl LocalFailed)
         | Some (ct, iv) \<Rightarrow>
             bindS (throwIfAborted A) (\<lambda>_.
             bindS (call A (api_upload A (fr_r2Key f') ct)) (\<lambda>_.
             bindS (throwIfAborted A) (\<lambda>_. retS (f', iv))))))))"

definition sendQueuedContent :: "('k, 'pub, 'priv) webcrypto \<Rightarrow> 'w api \<Rightarrow> ('k, 'priv) flush_context \<Rightarrow> LocalMessage \<Rightarrow> ('w, unit) step" where
  "sendQueuedContent W A C m =
     bindS (throwIfAborted A) (\<lambda>_.
     bindS (pinEpoch C m) (\<lambda>(epoch, key).
     bindS (case lm_file m of None \<Rightarrow> retS None | Some f \<Rightarrow> bindS (upload_source W A C m epoch key f) (\<lambda>r. retS (Some r))) (\<lambda>file.
     bindS (throwIfAborted A) (\<lambda>_.
     bindS (throwIfAborted A) (\<lambda>_.
     bindS (ignore_sent (call A (api_send A (content_body W C (lm_id m) epoch (seal_payload W C m key file))))) (\<lambda>_.
     update_message C (m\<lparr>lm_file := (case file of None \<Rightarrow> lm_file m | Some (f, _) \<Rightarrow> Some f), lm_keyEpoch := Some epoch,
       lm_retry := None, lm_status := StSent\<rparr>)))))))"

section \<open>A pass over the queue\<close>

text \<open>The \<open>catch\<close> of the pass: whether the message failed for good, and the row it leaves.\<close>

definition settle :: "'w api \<Rightarrow> ('k, 'priv) flush_context \<Rightarrow> LocalMessage \<Rightarrow> client_error \<Rightarrow> 'w phone \<Rightarrow> bool \<times> 'w phone" where
  "settle A C m e p =
     (let current = (case getMessage (lm_id m) (ph_history p) of Some r \<Rightarrow> r | None \<Rightarrow> m);
          aborted = api_aborted A (ph_world p) in
      if isKeyRotated e
      then (False, snd (update_message C (current\<lparr>lm_keyEpoch := None, lm_file := repinFile current, lm_status := StQueued\<rparr>) p))
      else if isRetriable e \<or> aborted
      then (let retry = (if aborted \<or> \<not> failureCounts (api_onLine A (ph_world p)) then lm_retry current
                else Some (backOff (lm_retry current) (api_now A (ph_world p))))
            in (False, snd (update_message C (current\<lparr>lm_status := StQueued,
                 lm_retry := (if retry = None then lm_retry current else retry)\<rparr>) p)))
      else (True, snd (update_message C (current\<lparr>lm_status := StFailed\<rparr>) p)))"

text \<open>The loop over what was due: how many were sent and how many failed for good.\<close>

fun flush_loop :: "('k, 'pub, 'priv) webcrypto \<Rightarrow> 'w api \<Rightarrow> ('k, 'priv) flush_context \<Rightarrow> int \<Rightarrow> LocalMessage list
    \<Rightarrow> nat \<times> nat \<Rightarrow> 'w phone \<Rightarrow> (nat \<times> nat) \<times> 'w phone" where
  "flush_loop W A C now [] counts p = (counts, p)"
| "flush_loop W A C now (stale # due) (sent, failed) p =
     (if api_aborted A (ph_world p) then ((sent, failed), p)
      else (case getMessage (lm_id stale) (ph_history p) of
        None \<Rightarrow> flush_loop W A C now due (sent, failed) p
      | Some m \<Rightarrow>
          if \<not> isDue m now \<or> (\<not> truthy (lm_deletes m) \<and> lm_file m = None \<and> lm_text m = None)
          then flush_loop W A C now due (sent, failed) p
          else (case (if truthy (lm_deletes m) then sendQueuedDeletion W A C m else sendQueuedContent W A C m) p of
              (Inr _, p') \<Rightarrow> flush_loop W A C now due (sent + 1, failed) p'
            | (Inl e, p') \<Rightarrow>
                (let (bad, p'') = settle A C m e p'; counts = (sent, if bad then failed + 1 else failed)
                 in if api_aborted A (ph_world p'') then (counts, p'') else flush_loop W A C now due counts p''))))"

record FlushResult =
  fl_sent :: nat
  fl_failed :: nat
  fl_remaining :: nat

text \<open>No context: the space has no session or no keys here.\<close>

definition doFlush :: "('k, 'pub, 'priv) webcrypto \<Rightarrow> 'w api \<Rightarrow> ('k, 'priv) flush_context option \<Rightarrow> nat option \<Rightarrow> 'w phone
    \<Rightarrow> FlushResult \<times> 'w phone" where
  "doFlush W A context maxMessages p =
     (case context of None \<Rightarrow> (\<lparr>fl_sent = 0, fl_failed = 0, fl_remaining = 0\<rparr>, p)
      | Some C \<Rightarrow>
          (let now = api_now A (ph_world p);
               queued = filter (\<lambda>m. isDue m now) (queuedMessages (ph_history p));
               due = (case maxMessages of None \<Rightarrow> queued | Some n \<Rightarrow> take n queued);
               ((sent, failed), p') = flush_loop W A C now due (0, 0) p
           in (\<lparr>fl_sent = sent, fl_failed = failed, fl_remaining = length (queuedMessages (ph_history p'))\<rparr>, p')))"

section \<open>What a pass keeps\<close>

definition file_content :: "FileRef \<Rightarrow> string \<times> string \<times> number \<times> string" where
  "file_content f = (fr_r2Key f, fr_name f, fr_size f, fr_mime f)"

definition same_content :: "LocalMessage \<Rightarrow> LocalMessage \<Rightarrow> bool" where
  "same_content m m' \<longleftrightarrow> lm_id m' = lm_id m \<and> lm_direction m' = lm_direction m \<and> lm_senderDeviceId m' = lm_senderDeviceId m
     \<and> lm_text m' = lm_text m \<and> map_option file_content (lm_file m') = map_option file_content (lm_file m)
     \<and> lm_createdAt m' = lm_createdAt m \<and> lm_deletes m' = lm_deletes m \<and> lm_batch m' = lm_batch m \<and> lm_viewOnce m' = lm_viewOnce m"

text \<open>What is assumed of the outside: \<open>accepted\<close> holds the ids of the messages the server took, \<open>gone\<close> those of
  the rows that others removed; others touch a row of \<open>K\<close> only to remove it.\<close>

definition faithful_api :: "'w api \<Rightarrow> string set \<Rightarrow> ('w \<Rightarrow> string set) \<Rightarrow> ('w \<Rightarrow> string set) \<Rightarrow> bool" where
  "faithful_api A K accepted gone \<longleftrightarrow>
     (\<forall>body w r w'. api_send A body w = (r, w') \<longrightarrow> accepted w \<subseteq> accepted w' \<and> gone w \<subseteq> gone w'
        \<and> (\<forall>i. (r = Inr () \<or> r = Inl (ApiFailed Conflict)) \<and> jfield body ''id'' = Some (JStr i) \<longrightarrow> i \<in> accepted w'))
     \<and> (\<forall>k d w. accepted w \<subseteq> accepted (snd (api_upload A k d w)) \<and> gone w \<subseteq> gone (snd (api_upload A k d w)))
     \<and> (\<forall>w h. \<forall>i \<in> K. getMessage i (api_meanwhile A w h) = getMessage i h \<or> getMessage i (api_meanwhile A w h) = None \<and> i \<in> gone w)"

text \<open>How the rows of the start stand: still there with their content, or removed by others; untouched if they
  were not queued; marked sent only if they were before or the server took them.\<close>

definition row_kept :: "string set \<Rightarrow> string set \<Rightarrow> LocalMessage \<Rightarrow> string \<Rightarrow> LocalMessage option \<Rightarrow> bool" where
  "row_kept accepted gone m i r \<longleftrightarrow> (case r of None \<Rightarrow> i \<in> gone
      | Some m' \<Rightarrow> same_content m m' \<and> (\<not> isQueuedOutgoing m \<longrightarrow> m' = m)
          \<and> (lm_status m' = StSent \<longrightarrow> lm_status m = StSent \<or> i \<in> accepted))"

definition rows_kept :: "history \<Rightarrow> ('w \<Rightarrow> string set) \<Rightarrow> ('w \<Rightarrow> string set) \<Rightarrow> 'w phone \<Rightarrow> bool" where
  "rows_kept h accepted gone p \<longleftrightarrow> (\<forall>i m. getMessage i h = Some m
     \<longrightarrow> row_kept (accepted (ph_world p)) (gone (ph_world p)) m i (getMessage i (ph_history p)))"

definition writable :: "history \<Rightarrow> LocalMessage \<Rightarrow> bool" where
  "writable h m \<longleftrightarrow> (\<forall>m0. getMessage (lm_id m) h = Some m0 \<longrightarrow> isQueuedOutgoing m0 \<and> same_content m0 m)"

definition quiet_notify :: "('k, 'priv) flush_context \<Rightarrow> bool" where
  "quiet_notify C \<longleftrightarrow> (\<forall>m h i. getMessage i (fc_notify C m h) = getMessage i h)"

lemma update_message_kept:
  assumes "quiet_notify C" and "rows_kept h accepted gone p" and "writable h m"
    and "lm_status m = StSent \<longrightarrow> lm_id m \<in> accepted (ph_world p)"
  shows "rows_kept h accepted gone (snd (update_message C m p))"
proof (cases "getMessage (lm_id m) (ph_history p)")
  case (Some r)
  show ?thesis unfolding rows_kept_def
  proof (intro allI impI)
    fix i m0 assume m0: "getMessage i h = Some m0"
    from assms(2) m0 have old: "row_kept (accepted (ph_world p)) (gone (ph_world p)) m0 i (getMessage i (ph_history p))"
      unfolding rows_kept_def by blast
    have new: "getMessage i (ph_history (snd (update_message C m p))) = (if i = lm_id m then Some m else getMessage i (ph_history p))"
      using assms(1) Some by (simp add: update_message_def quiet_notify_def)
    have world: "ph_world (snd (update_message C m p)) = ph_world p" by (simp add: update_message_def)
    have "row_kept (accepted (ph_world p)) (gone (ph_world p)) m0 i (if i = lm_id m then Some m else getMessage i (ph_history p))"
      using old assms(3,4) m0 by (auto simp: row_kept_def writable_def)
    then show "row_kept (accepted (ph_world (snd (update_message C m p)))) (gone (ph_world (snd (update_message C m p)))) m0 i
        (getMessage i (ph_history (snd (update_message C m p))))"
      unfolding new world .
  qed
qed (use assms(2) in \<open>simp add: update_message_def\<close>)

lemma rows_kept_mono:
  assumes "rows_kept h accepted gone p" and "accepted (ph_world p) \<subseteq> accepted w" and "gone (ph_world p) \<subseteq> gone w"
    and "\<And>i m. getMessage i h = Some m \<Longrightarrow> getMessage i h' = getMessage i (ph_history p) \<or> getMessage i h' = None \<and> i \<in> gone w"
  shows "rows_kept h accepted gone (p\<lparr>ph_world := w, ph_history := h'\<rparr>)"
  unfolding rows_kept_def
proof (intro allI impI)
  fix i m assume m: "getMessage i h = Some m"
  from assms(1) m have "row_kept (accepted (ph_world p)) (gone (ph_world p)) m i (getMessage i (ph_history p))"
    unfolding rows_kept_def by blast
  with assms(4) [OF m] assms(2,3)
  show "row_kept (accepted (ph_world (p\<lparr>ph_world := w, ph_history := h'\<rparr>))) (gone (ph_world (p\<lparr>ph_world := w, ph_history := h'\<rparr>))) m i
      (getMessage i (ph_history (p\<lparr>ph_world := w, ph_history := h'\<rparr>)))"
    by (auto simp: row_kept_def split: option.splits)
qed

definition row_ids :: "history \<Rightarrow> string set" where
  "row_ids h = {i. getMessage i h \<noteq> None}"

lemma upload_kept:
  assumes "faithful_api A (row_ids h) accepted gone"
  shows "keeps (rows_kept h accepted gone) (call A (api_upload A k d))"
  unfolding keeps_def
proof (intro allI impI)
  fix p assume p: "rows_kept h accepted gone p"
  show "rows_kept h accepted gone (snd (call A (api_upload A k d) p))"
    using assms unfolding call_def case_prod_beta Let_def snd_conv faithful_api_def
    by (intro rows_kept_mono [OF p]) (auto simp: row_ids_def)
qed

lemma send_then_mark:
  assumes "faithful_api A (row_ids h) accepted gone" and "quiet_notify C" and "writable h m"
    and "jfield body ''id'' = Some (JStr (lm_id m))"
  shows "keeps (rows_kept h accepted gone) (bindS (ignore_sent (call A (api_send A body))) (\<lambda>_. update_message C m))"
  unfolding keeps_def
proof (intro allI impI)
  fix p assume p: "rows_kept h accepted gone p"
  obtain r w where run: "api_send A body (ph_world p) = (r, w)" by (cases "api_send A body (ph_world p)")
  define q where "q = p\<lparr>ph_world := w, ph_history := api_meanwhile A w (ph_history p)\<rparr>"
  have q: "call A (api_send A body) p = (r, q)" by (simp add: call_def run q_def)
  from assms(1) run have w: "accepted (ph_world p) \<subseteq> accepted w" "gone (ph_world p) \<subseteq> gone w"
      "r = Inr () \<or> r = Inl (ApiFailed Conflict) \<Longrightarrow> lm_id m \<in> accepted w"
    using assms(4) unfolding faithful_api_def by blast+
  have kept: "rows_kept h accepted gone q"
    unfolding q_def by (rule rows_kept_mono [OF p w(1,2)]) (use assms(1) in \<open>auto simp: faithful_api_def row_ids_def\<close>)
  show "rows_kept h accepted gone (snd (bindS (ignore_sent (call A (api_send A body))) (\<lambda>_. update_message C m) p))"
  proof (cases "r = Inr () \<or> r = Inl (ApiFailed Conflict)")
    case True
    then have "fst (ignore_sent (call A (api_send A body)) p) = Inr ()" "snd (ignore_sent (call A (api_send A body)) p) = q"
      by (auto simp: ignore_sent_def q isAlreadySent_def)
    moreover have "rows_kept h accepted gone (snd (update_message C m q))"
      by (rule update_message_kept [OF assms(2) kept assms(3)]) (use w(3) [OF True] in \<open>simp add: q_def\<close>)
    ultimately show ?thesis by (simp add: bindS_Inr)
  next
    case False
    then obtain e where "r = Inl e" "\<not> isAlreadySent e" by (cases r) (auto simp: isAlreadySent_def)
    then show ?thesis using kept by (simp add: bindS_def ignore_sent_def q)
  qed
qed

lemma update_keeps:
  assumes "quiet_notify C" and "writable h m" and "lm_status m \<noteq> StSent"
  shows "keeps (rows_kept h accepted gone) (update_message C m)"
  unfolding keeps_def using update_message_kept [OF assms(1) _ assms(2)] assms(3) by blast

lemma throwIfAborted_keeps: "keeps P (throwIfAborted A)"
  by (simp add: keeps_def throwIfAborted_def)

definition returns :: "('a \<Rightarrow> bool) \<Rightarrow> ('s, 'e, 'a) act \<Rightarrow> bool" where
  "returns Q m \<longleftrightarrow> (\<forall>s x s'. m s = (Inr x, s') \<longrightarrow> Q x)"

lemma returns_bindS: "(\<And>x. returns Q (f x)) \<Longrightarrow> returns Q (bindS m f)"
  unfolding returns_def bindS_def by (auto split: prod.splits sum.splits)

lemma returns_pure: "returns Q (liftE (Inl e))" "Q x \<Longrightarrow> returns Q (retS x)"
  by (simp_all add: returns_def liftE_def retS_def)

lemma keeps_bindS_returns:
  assumes "keeps P m" and "returns Q m" and "\<And>x. Q x \<Longrightarrow> keeps P (f x)"
  shows "keeps P (bindS m f)"
  unfolding keeps_def
proof (intro allI impI)
  fix s assume "P s"
  obtain r s' where run: "m s = (r, s')" by (cases "m s")
  from keepsD [OF assms(1) \<open>P s\<close>] run have "P s'" by simp
  then show "P (snd (bindS m f s))"
  proof (cases r)
    case (Inr x)
    with run assms(2) have "Q x" unfolding returns_def by blast
    from keepsD [OF assms(3) [OF this] \<open>P s'\<close>] show ?thesis using run Inr by (simp add: bindS_def)
  qed (simp add: bindS_def run)
qed

lemma writable_same: "writable h m \<Longrightarrow> same_content m m' \<Longrightarrow> writable h m'"
  unfolding writable_def same_content_def by metis

lemma same_content_updates: "same_content m (m\<lparr>lm_keyEpoch := e\<rparr>)" "same_content m (m\<lparr>lm_status := st\<rparr>)"
    "same_content m (m\<lparr>lm_retry := r\<rparr>)"
    "map_option file_content fo = map_option file_content (lm_file m) \<Longrightarrow> same_content m (m\<lparr>lm_file := fo\<rparr>)"
  by (simp_all add: same_content_def)

lemmas writable_updates = same_content_updates [THEN writable_same [rotated]]

lemma pinEpoch_keeps:
  assumes "quiet_notify C" and "writable h m" and "lm_status m \<noteq> StSent"
  shows "keeps (rows_kept h accepted gone) (pinEpoch C m)"
  unfolding pinEpoch_def Let_def
  by (auto split: option.split intro!: keeps_rules update_keeps writable_updates assms(1,2) simp: assms(3))

lemma upload_source_keeps:
  assumes "faithful_api A (row_ids h) accepted gone" and "quiet_notify C" and "writable h m" and "lm_file m = Some f"
  shows "keeps (rows_kept h accepted gone) (upload_source W A C m epoch key f)"
  unfolding upload_source_def Let_def
  by (auto split: option.split intro!: keeps_rules update_keeps writable_updates throwIfAborted_keeps upload_kept assms(1,2,3)
      simp: assms(4) file_content_def)

lemma upload_source_returns: "returns (\<lambda>(f', iv). file_content f' = file_content f) (upload_source W A C m epoch key f)"
  unfolding upload_source_def Let_def
  by (intro returns_bindS) (auto split: option.split intro!: returns_bindS returns_pure simp: file_content_def)

lemma content_keeps:
  assumes "faithful_api A (row_ids h) accepted gone" and "quiet_notify C" and "writable h m" and "lm_status m \<noteq> StSent"
  shows "keeps (rows_kept h accepted gone) (sendQueuedContent W A C m)"
proof -
  let ?Q = "\<lambda>sent. map_option (file_content \<circ> fst) sent = map_option file_content (lm_file m)"
  have ret: "returns ?Q (case lm_file m of None \<Rightarrow> retS None | Some f \<Rightarrow> bindS (upload_source W A C m epoch key f) (\<lambda>r. retS (Some r)))"
    for epoch key
    using upload_source_returns unfolding returns_def
    by (cases "lm_file m") (fastforce simp: retS_def bindS_def split: prod.splits sum.splits)+
  have keep: "keeps (rows_kept h accepted gone)
      (case lm_file m of None \<Rightarrow> retS None | Some f \<Rightarrow> bindS (upload_source W A C m epoch key f) (\<lambda>r. retS (Some r)))" for epoch key
    by (auto split: option.split intro!: keeps_rules upload_source_keeps assms(1,2,3))
  have mark: "writable h (m\<lparr>lm_file := (case sent of None \<Rightarrow> lm_file m | Some (f, iv) \<Rightarrow> Some f), lm_keyEpoch := Some epoch,
       lm_retry := None, lm_status := StSent\<rparr>)" if "?Q sent" for sent epoch
    using that assms(3) by (intro writable_updates) (auto split: option.split)
  have rest: "keeps (rows_kept h accepted gone) (bindS (throwIfAborted A) (\<lambda>_. bindS (throwIfAborted A) (\<lambda>_.
      bindS (ignore_sent (call A (api_send A (content_body W C (lm_id m) epoch (seal_payload W C m key sent))))) (\<lambda>_.
      update_message C (m\<lparr>lm_file := (case sent of None \<Rightarrow> lm_file m | Some (f, _) \<Rightarrow> Some f), lm_keyEpoch := Some epoch,
        lm_retry := None, lm_status := StSent\<rparr>)))))" if "?Q sent" for sent epoch key
    using mark [OF that, of epoch]
    by (intro keeps_bindS [OF throwIfAborted_keeps] send_then_mark [OF assms(1,2)]) (auto simp: content_body_def jfield_def)
  show ?thesis unfolding sendQueuedContent_def
    by (intro keeps_bindS [OF throwIfAborted_keeps] keeps_bindS [OF pinEpoch_keeps [OF assms(2-4)]])
      (clarify, intro keeps_bindS_returns [OF keep ret] rest)
qed

lemma deletion_keeps:
  assumes "faithful_api A (row_ids h) accepted gone" and "quiet_notify C" and "writable h m" and "lm_status m \<noteq> StSent"
  shows "keeps (rows_kept h accepted gone) (sendQueuedDeletion W A C m)"
proof -
  have mark: "writable h (m\<lparr>lm_keyEpoch := Some epoch, lm_retry := None, lm_status := StSent\<rparr>)" for epoch
    by (intro writable_updates assms(3))
  have rest: "keeps (rows_kept h accepted gone)
      (bindS (ignore_sent (call A (api_send A (deletion_body W C (lm_id m) epoch (the (lm_deletes m)))))) (\<lambda>_.
       update_message C (m\<lparr>lm_keyEpoch := Some epoch, lm_retry := None, lm_status := StSent\<rparr>)))" for epoch
    using mark [of epoch] by (intro send_then_mark [OF assms(1,2)]) (auto simp: deletion_body_def jfield_def)
  show ?thesis unfolding sendQueuedDeletion_def
    by (intro keeps_bindS [OF throwIfAborted_keeps] keeps_bindS [OF pinEpoch_keeps [OF assms(2-4)]]) (clarify, rule rest)
qed

lemma writable_current:
  assumes "rows_kept h accepted gone p" and "getMessage i (ph_history p) = Some m"
    and "\<And>m0. getMessage i h = Some m0 \<Longrightarrow> isQueuedOutgoing m0"
  shows "writable h m"
  using assms(1,3) getMessage_id [OF assms(2)] assms(2) unfolding writable_def rows_kept_def row_kept_def by fastforce

lemma settle_kept:
  assumes kept: "rows_kept h accepted gone p" and "quiet_notify C" and "writable h m"
  shows "rows_kept h accepted gone (snd (settle A C m e p))"
proof -
  define current where "current = (case getMessage (lm_id m) (ph_history p) of Some r \<Rightarrow> r | None \<Rightarrow> m)"
  have "writable h current"
    using assms(3) writable_current [OF kept, of "lm_id m"]
    by (auto simp: current_def writable_def split: option.split)
  then have *: "rows_kept h accepted gone (snd (update_message C m' p))" if "same_content current m'" "lm_status m' \<noteq> StSent" for m'
    using keepsD [OF update_keeps [OF assms(2) writable_same] kept] that by blast
  have "map_option file_content (repinFile current) = map_option file_content (lm_file current)"
    by (cases "lm_file current") (simp_all add: repinFile_def file_content_def)
  then show ?thesis unfolding settle_def Let_def current_def [symmetric]
    by (auto intro!: * simp: same_content_def split del: if_split split: if_split)
qed

definition send_one :: "('k, 'pub, 'priv) webcrypto \<Rightarrow> 'w api \<Rightarrow> ('k, 'priv) flush_context \<Rightarrow> LocalMessage \<Rightarrow> ('w, unit) step" where
  "send_one W A C m = (if truthy (lm_deletes m) then sendQueuedDeletion W A C m else sendQueuedContent W A C m)"

lemma flush_loop_kept:
  assumes A: "faithful_api A (row_ids h) accepted gone" and C: "quiet_notify C"
  shows "rows_kept h accepted gone p \<Longrightarrow> rows_kept h accepted gone (snd (flush_loop W A C now due counts p))"
proof (induction due arbitrary: counts p)
  case (Cons stale due)
  obtain sent failed where counts: "counts = (sent, failed)" by (cases counts)
  show ?case
  proof (cases "getMessage (lm_id stale) (ph_history p)")
    case (Some m)
    show ?thesis
    proof (cases "isDue m now")
      case True
      then have m: "isQueuedOutgoing m" "lm_status m \<noteq> StSent" by (auto simp: isDue_def isQueuedOutgoing_def)
      have "isQueuedOutgoing m0" if "getMessage (lm_id stale) h = Some m0" for m0
        using Cons.prems that Some m(1) unfolding rows_kept_def row_kept_def by fastforce
      then have "writable h m" by (rule writable_current [OF Cons.prems Some])
      then have one: "rows_kept h accepted gone (snd (send_one W A C m p))"
        unfolding send_one_def using deletion_keeps [OF A C _ m(2)] content_keeps [OF A C _ m(2)] Cons.prems keepsD by fastforce
      note settle_kept [OF one C \<open>writable h m\<close>]
      then have "rows_kept h accepted gone (snd (settle A C m e (snd (send_one W A C m p))))" for e .
      with one Cons show ?thesis
        by (auto simp: counts Some send_one_def [symmetric] case_prod_beta Let_def split: sum.split prod.split)
    qed (simp add: Cons counts Some)
  qed (simp add: Cons counts)
qed simp

text \<open>C32. A pass over the outbox loses nothing and lies about nothing, whatever fails on the way: a row of the
  start is there afterwards with the same text, file, album and flags unless the user or another context
  removed it meanwhile; a row that was not queued is untouched; and a row is marked sent only if it already was
  or the server holds its message.\<close>

theorem flush_safe:
  assumes "faithful_api A (row_ids (ph_history p)) accepted gone" and "quiet_notify C"
    and "doFlush W A (Some C) maxMessages p = (r, p')" and "getMessage i (ph_history p) = Some m"
  shows "case getMessage i (ph_history p') of None \<Rightarrow> i \<in> gone (ph_world p')
     | Some m' \<Rightarrow> same_content m m' \<and> (\<not> isQueuedOutgoing m \<longrightarrow> m' = m)
         \<and> (lm_status m' = StSent \<longrightarrow> lm_status m = StSent \<or> i \<in> accepted (ph_world p'))"
proof -
  have start: "rows_kept (ph_history p) accepted gone p" by (simp add: rows_kept_def row_kept_def same_content_def)
  have "rows_kept (ph_history p) accepted gone (snd (doFlush W A (Some C) maxMessages p))"
    using flush_loop_kept [OF assms(1,2) start] by (simp add: doFlush_def Let_def case_prod_beta)
  with assms(3,4) show ?thesis by (simp add: rows_kept_def row_kept_def)
qed

subsection \<open>A pass, run\<close>

text \<open>A server that takes everything but answers that a rotation came first for the ids that start with k.\<close>

definition sample_id :: "json \<Rightarrow> string" where
  "sample_id body = (case jfield body ''id'' of Some (JStr s) \<Rightarrow> s | _ \<Rightarrow> [])"

definition outbox_api :: "string list api" where
  "outbox_api = \<lparr>api_send = (\<lambda>body w. if take 1 (sample_id body) = ''k'' then (Inl (ApiFailed KeyRotated), w)
       else (Inr (), sample_id body # w)),
     api_upload = (\<lambda>k d w. (Inr (), w)), api_download = (\<lambda>k w. (Inl NetworkFailed, w)), api_ack = (\<lambda>i w. (Inr (), w)),
     api_disk = (\<lambda>w. True), api_aborted = (\<lambda>w. False), api_onLine = (\<lambda>w. None), api_now = (\<lambda>w. 1000), api_meanwhile = (\<lambda>w h. h)\<rparr>"

definition sample_order :: "string \<Rightarrow> MessageStatus \<Rightarrow> LocalMessage" where
  "sample_order i st = \<lparr>lm_id = i, lm_direction = Outgoing, lm_senderDeviceId = ''phone'', lm_senderDeviceName = None, lm_text = None,
     lm_file = None, lm_createdAt = 5, lm_keyEpoch = None, lm_deletes = Some ''old'', lm_batch = None, lm_viewOnce = False,
     lm_status = st, lm_fileState = None, lm_retry = None, lm_corrupted = False, lm_senderVerified = None, lm_acked = False\<rparr>"

definition outbox_phone :: "string list phone" where
  "outbox_phone = \<lparr>ph_history = \<lparr>hi_rows = [sample_order ''kept'' StQueued, sample_order ''order'' StQueued],
     hi_shown = [], hi_files = [], hi_deletions = None\<rparr>, ph_attempts = [], ph_world = []\<rparr>"

definition outbox_context :: "(nat, nat) flush_context" where
  "outbox_context = \<lparr>fc_keyring = \<lparr>kr_current = 2, kr_keys = [(2, 7)]\<rparr>, fc_sign = None, fc_groupId = ''space'', fc_deviceId = ''phone'',
     fc_random = (\<lambda>i u. []), fc_notify = (\<lambda>m h. h)\<rparr>"

theorem flush_safe_witness:
  "getMessage ''order'' (ph_history (snd (doFlush clear_crypto outbox_api (Some outbox_context) None outbox_phone)))
      = Some ((sample_order ''order'' StSent)\<lparr>lm_keyEpoch := Some 2\<rparr>)
   \<and> ''order'' \<in> set (ph_world (snd (doFlush clear_crypto outbox_api (Some outbox_context) None outbox_phone)))
   \<and> getMessage ''kept'' (ph_history (snd (doFlush clear_crypto outbox_api (Some outbox_context) None outbox_phone)))
      = Some (sample_order ''kept'' StQueued)"
proof -
  obtain r p' where run: "doFlush clear_crypto outbox_api (Some outbox_context) None outbox_phone = (r, p')" by fastforce
  have rows: "getMessage ''order'' (ph_history (snd (doFlush clear_crypto outbox_api (Some outbox_context) None outbox_phone)))
      = Some ((sample_order ''order'' StSent)\<lparr>lm_keyEpoch := Some 2\<rparr>)"
    "getMessage ''kept'' (ph_history (snd (doFlush clear_crypto outbox_api (Some outbox_context) None outbox_phone)))
      = Some (sample_order ''kept'' StQueued)"
    by code_simp+
  have api: "faithful_api outbox_api (row_ids (ph_history outbox_phone)) set (\<lambda>_. {})"
    by (auto simp: faithful_api_def outbox_api_def sample_id_def split: if_splits)
  have "getMessage ''order'' (ph_history outbox_phone) = Some (sample_order ''order'' StQueued)" by code_simp
  from flush_safe [OF api _ run this] rows run show ?thesis
    by (auto simp: quiet_notify_def outbox_context_def sample_order_def)
qed

end
