(* ===== verification/Receive.thy ===== *)
theory Receive
  imports Outbox
begin

text \<open>
  Receiving (apps/web/src/sync/sync.ts, from the loop over the pending messages on). Every message of a
  poll is registered first, its text and metadata decrypted; then the files are fetched and the messages
  acknowledged. What cannot be decrypted is tried three times and then given up. The api of \<open>Outbox\<close>
  is the server, the network and the clock; the four downloads that run at a time are run one after
  the other here, what the others do to the rows meanwhile being \<open>api_meanwhile\<close>. The lemmas: a message is
  acknowledged only once there is nothing of it left to fetch, and what was deleted for everyone is not
  registered by a later poll, though within one poll it is.
\<close>

section \<open>How often a decryption is tried\<close>

definition MAX_DECRYPT_ATTEMPTS :: nat where "MAX_DECRYPT_ATTEMPTS = 3"

definition decryptBudgetExhausted :: "string \<Rightarrow> ('w, bool) step" where
  "decryptBudgetExhausted scope p =
     (let attempts = (case map_of (ph_attempts p) scope of None \<Rightarrow> 0 | Some n \<Rightarrow> n) + 1 in
      if MAX_DECRYPT_ATTEMPTS \<le> attempts then (Inr True, p\<lparr>ph_attempts := AList.delete scope (ph_attempts p)\<rparr>)
      else (Inr False, p\<lparr>ph_attempts := AList.update scope attempts (ph_attempts p)\<rparr>))"

text \<open>The \<open>try\<close> around a decryption that \<open>registerIncoming\<close> does: None when it is given up.\<close>

definition decrypt_within_budget :: "string \<Rightarrow> 'a option \<Rightarrow> ('w, 'a option) step" where
  "decrypt_within_budget scope r = (case r of
     Some x \<Rightarrow> bindS (writeS (\<lambda>p. p\<lparr>ph_attempts := AList.delete scope (ph_attempts p)\<rparr>)) (\<lambda>_. retS (Some x))
   | None \<Rightarrow> bindS (decryptBudgetExhausted scope) (\<lambda>done. if done then retS None else liftE (Inl LocalFailed)))"

text \<open>None when the message does not carry the part at all.\<close>

definition read_part :: "bool \<Rightarrow> string \<Rightarrow> 'a option \<Rightarrow> ('w, 'a option option) step" where
  "read_part carried scope r = (if carried then bindS (decrypt_within_budget scope r) (\<lambda>x. retS (Some x)) else retS None)"

section \<open>Registering\<close>

definition json_truthy :: "json \<Rightarrow> bool" where
  "json_truthy v = (case v of JNull \<Rightarrow> False | JBool b \<Rightarrow> b | JNum n \<Rightarrow> n \<noteq> IntN 0 | JStr s \<Rightarrow> s \<noteq> [] | _ \<Rightarrow> True)"

definition number_field :: "json \<Rightarrow> string \<Rightarrow> number option" where
  "number_field j f = (case jfield j f of Some (JNum n) \<Rightarrow> Some n | _ \<Rightarrow> None)"

definition or_else :: "'a option \<Rightarrow> 'a \<Rightarrow> 'a" where
  "or_else v d = (case v of Some x \<Rightarrow> x | None \<Rightarrow> d)"

text \<open>What a message's metadata says of its file, its album and whether it is seen once.\<close>

definition meta_file :: "PendingMessage \<Rightarrow> json \<Rightarrow> FileRef option" where
  "meta_file pm meta = (if truthy (pm_fileR2Key pm) \<and> truthy (pm_fileIv pm)
     then Some \<lparr>fr_r2Key = the (pm_fileR2Key pm), fr_iv = the (pm_fileIv pm), fr_name = or_else (string_field meta ''name'') ''file'',
       fr_size = or_else (number_field meta ''size'') (IntN 0),
       fr_mime = or_else (string_field meta ''mime'') ''application/octet-stream''\<rparr> else None)"

definition meta_batch :: "json \<Rightarrow> BatchRef option" where
  "meta_batch meta = map_option (\<lambda>b. \<lparr>ba_id = b, ba_index = or_else (number_field meta ''batchIndex'') (IntN 0),
     ba_count = or_else (number_field meta ''batchCount'') (IntN 1)\<rparr>) (string_field meta ''batchId'')"

definition meta_viewOnce :: "json \<Rightarrow> bool" where
  "meta_viewOnce meta = (case jfield meta ''viewOnce'' of Some v \<Rightarrow> json_truthy v | None \<Rightarrow> False)"

definition sender_name :: "('k, 'pub, 'priv) webcrypto \<Rightarrow> 'k Keyring \<Rightarrow> PendingMessage \<Rightarrow> string" where
  "sender_name W ring pm =
     (let nameKey = Option.bind (pm_senderNameEpoch pm) (keyForEpoch ring) in
      if nameKey \<noteq> None \<and> truthy (pm_senderNameEnc pm) \<and> truthy (pm_senderNameIv pm)
      then or_else (decryptName W (the nameKey) (the (pm_senderNameEnc pm)) (the (pm_senderNameIv pm)) (pm_senderDeviceId pm))
             (pm_senderDeviceId pm)
      else pm_senderDeviceId pm)"

definition incoming_statement :: "string \<Rightarrow> PendingMessage \<Rightarrow> string" where
  "incoming_statement groupId pm = messageSignatureStatement \<lparr>mf_groupId = groupId, mf_messageId = pm_id pm,
     mf_senderDeviceId = pm_senderDeviceId pm, mf_keyEpoch = pm_keyEpoch pm, mf_encryptedPayload = pm_encryptedPayload pm,
     mf_iv = pm_iv pm, mf_fileR2Key = pm_fileR2Key pm, mf_fileIv = pm_fileIv pm, mf_fileMeta = pm_fileMeta pm,
     mf_fileMetaIv = pm_fileMetaIv pm\<rparr>"

text \<open>The row of a message that is new here. A text, a metadata envelope: not carried, given up, or read.\<close>

definition incoming_row :: "('k, 'pub, 'priv) webcrypto \<Rightarrow> 'k Keyring \<Rightarrow> PendingMessage \<Rightarrow> string option option \<Rightarrow> json option option
    \<Rightarrow> SignatureVerdict \<Rightarrow> LocalMessage" where
  "incoming_row W ring pm text meta verdict =
     (let read = (case meta of Some (Some v) \<Rightarrow> if json_truthy v then Some v else None | _ \<Rightarrow> None);
          f = Option.bind read (meta_file pm)
      in \<lparr>lm_id = pm_id pm, lm_direction = Incoming, lm_senderDeviceId = pm_senderDeviceId pm,
          lm_senderDeviceName = Some (sender_name W ring pm), lm_text = Option.bind text id, lm_file = f,
          lm_createdAt = pm_createdAt pm, lm_keyEpoch = Some (pm_keyEpoch pm), lm_deletes = None,
          lm_batch = Option.bind read meta_batch, lm_viewOnce = (case read of Some v \<Rightarrow> meta_viewOnce v | None \<Rightarrow> False),
          lm_status = StSent, lm_fileState = (if f = None then None else Some Remote), lm_retry = None,
          lm_corrupted = (text = Some None \<or> meta = Some None), lm_senderVerified = Some verdict, lm_acked = False\<rparr>)"

definition upsert :: "LocalMessage \<Rightarrow> ('w, unit) step" where
  "upsert m = writeS (\<lambda>p. p\<lparr>ph_history := upsertMessage m (ph_history p)\<rparr>)"

definition throwing :: "'a option \<Rightarrow> ('w, 'a) step" where
  "throwing r = liftE (case r of None \<Rightarrow> Inl LocalFailed | Some x \<Rightarrow> Inr x)"

definition registerIncoming :: "('k, 'pub, 'priv) webcrypto \<Rightarrow> 'k Keyring \<Rightarrow> DeviceIdentities \<Rightarrow> string \<Rightarrow> PendingMessage
    \<Rightarrow> ('w, LocalMessage) step" where
  "registerIncoming W ring ids groupId pm =
     bindS (readS (\<lambda>p. getLocalMessage (pm_id pm) (ph_history p))) (\<lambda>found. case found of Some local \<Rightarrow> retS local | None \<Rightarrow>
     bindS (throwing (keyForEpoch ring (pm_keyEpoch pm))) (\<lambda>key.
     bindS (read_part (truthy (pm_encryptedPayload pm) \<and> truthy (pm_iv pm)) (messageContext_text (pm_id pm))
       (decryptMessageText W key (pm_id pm) (the (pm_encryptedPayload pm)) (the (pm_iv pm)))) (\<lambda>text.
     bindS (read_part (truthy (pm_fileMeta pm) \<and> truthy (pm_fileMetaIv pm)) (messageContext_meta (pm_id pm))
       (decryptMessageMeta W key (pm_id pm) (the (pm_fileMeta pm)) (the (pm_fileMetaIv pm)))) (\<lambda>meta.
     bindS (throwing (verifyDeviceSignature W ids (pm_senderDeviceId pm) (incoming_statement groupId pm) (pm_signature pm))) (\<lambda>verdict.
     let local = incoming_row W ring pm text meta verdict in bindS (upsert local) (\<lambda>_. retS local))))))"

section \<open>Deletions that arrive\<close>

definition applyIncomingDeletion :: "('k, 'pub, 'priv) webcrypto \<Rightarrow> 'w api \<Rightarrow> DeviceIdentities \<Rightarrow> string \<Rightarrow> PendingMessage
    \<Rightarrow> ('w, unit) step" where
  "applyIncomingDeletion W A ids groupId pm =
     (let target = the (pm_deletesMessageId pm) in
      bindS (throwing (verifyDeviceSignature W ids (pm_senderDeviceId pm) (deleteSignatureStatement
        \<lparr>df_groupId = groupId, df_messageId = pm_id pm, df_senderDeviceId = pm_senderDeviceId pm,
         df_keyEpoch = pm_keyEpoch pm, df_deletesMessageId = target\<rparr>) (pm_signature pm))) (\<lambda>verdict.
      bindS (whenS (verdict \<noteq> Invalid)
        (writeS (\<lambda>p. p\<lparr>ph_history := applyGlobalDeletion target (api_now A (ph_world p)) (ph_history p)\<rparr>))) (\<lambda>_.
      call A (api_ack A (pm_id pm)))))"

section \<open>Downloading and acknowledging\<close>

definition waitBeforeRetrying :: "'w api \<Rightarrow> LocalMessage \<Rightarrow> 'w phone \<Rightarrow> RetrySchedule option" where
  "waitBeforeRetrying A m p = (if \<not> failureCounts (api_onLine A (ph_world p)) then lm_retry m
     else Some (backOff (lm_retry m) (api_now A (ph_world p))))"

definition needsDownload :: "FileState option \<Rightarrow> bool" where
  "needsDownload st \<longleftrightarrow> st = Some Remote \<or> st = Some Downloading \<or> st = Some FileError"

definition attempt :: "('w, 'a) step \<Rightarrow> ('w, client_error + 'a) step" where
  "attempt m p = (case m p of (r, p') \<Rightarrow> (Inr r, p'))"

text \<open>A failure that may pass: the wait is noted and nothing is acknowledged.\<close>

definition put_off :: "'w api \<Rightarrow> LocalMessage \<Rightarrow> ('w, LocalMessage option) step" where
  "put_off A m = bindS (readS (waitBeforeRetrying A m)) (\<lambda>wait.
     bindS (upsert (m\<lparr>lm_fileState := Some FileError, lm_retry := wait\<rparr>)) (\<lambda>_. retS None))"

definition settle_file :: "LocalMessage \<Rightarrow> ('w, LocalMessage option) step" where
  "settle_file m = bindS (upsert m) (\<lambda>_. retS (Some m))"

text \<open>The file of a message; None where \<open>downloadAndAck\<close> returns early.\<close>

definition fetch_file :: "('k, 'pub, 'priv) webcrypto \<Rightarrow> 'w api \<Rightarrow> 'k Keyring \<Rightarrow> LocalMessage \<Rightarrow> FileRef \<Rightarrow> ('w, LocalMessage option) step" where
  "fetch_file W A ring m f =
     bindS (readS (\<lambda>p. retryDue (lm_retry m) (api_now A (ph_world p)))) (\<lambda>due. if \<not> due then retS None else
     bindS (throwing (Option.bind (lm_keyEpoch m) (keyForEpoch ring))) (\<lambda>key.
     bindS (upsert (m\<lparr>lm_fileState := Some Downloading\<rparr>)) (\<lambda>_.
     bindS (attempt (call A (api_download A (fr_r2Key f)))) (\<lambda>r. case r of
       Inl e \<Rightarrow> if e = ApiFailed NotFound then settle_file (m\<lparr>lm_fileState := Some Expired\<rparr>) else put_off A m
     | Inr ciphertext \<Rightarrow> (case decryptMessageFile W key (lm_id m) ciphertext (fr_iv f) of
         None \<Rightarrow> bindS (decryptBudgetExhausted (messageContext_file (lm_id m))) (\<lambda>done.
            if done then settle_file (m\<lparr>lm_fileState := Some Corrupted\<rparr>) else put_off A m)
       | Some plaintext \<Rightarrow>
            bindS (writeS (\<lambda>p. p\<lparr>ph_attempts := AList.delete (messageContext_file (lm_id m)) (ph_attempts p)\<rparr>)) (\<lambda>_.
            bindS (readS (\<lambda>p. api_disk A (ph_world p))) (\<lambda>stored.
            if \<not> stored then put_off A m
            else bindS (writeS (\<lambda>p. p\<lparr>ph_history := putFile (fr_r2Key f) plaintext (fr_mime f) (ph_history p)\<rparr>)) (\<lambda>_.
              settle_file (m\<lparr>lm_fileState := Some Downloaded, lm_retry := None\<rparr>)))))))))"

definition downloadAndAck :: "('k, 'pub, 'priv) webcrypto \<Rightarrow> 'w api \<Rightarrow> 'k Keyring \<Rightarrow> LocalMessage \<Rightarrow> ('w, unit) step" where
  "downloadAndAck W A ring m =
     bindS (case lm_file m of Some f \<Rightarrow> if needsDownload (lm_fileState m) then fetch_file W A ring m f else retS (Some m)
       | None \<Rightarrow> retS (Some m)) (\<lambda>r. case r of None \<Rightarrow> retS () | Some local \<Rightarrow>
     if lm_acked local then retS ()
     else bindS (call A (api_ack A (lm_id local))) (\<lambda>_. upsert (local\<lparr>lm_acked := True\<rparr>)))"

section \<open>A poll\<close>

text \<open>The loop over the pending messages; a message that throws is left for the next poll.\<close>

fun register_all :: "('k, 'pub, 'priv) webcrypto \<Rightarrow> 'w api \<Rightarrow> 'k Keyring \<Rightarrow> DeviceIdentities \<Rightarrow> string \<Rightarrow> (string \<times> int) list
    \<Rightarrow> PendingMessage list \<Rightarrow> 'w phone \<Rightarrow> LocalMessage list \<times> 'w phone" where
  "register_all W A ring ids groupId deletions [] p = ([], p)"
| "register_all W A ring ids groupId deletions (pm # pms) p =
     (if truthy (pm_deletesMessageId pm)
      then register_all W A ring ids groupId deletions pms (snd (applyIncomingDeletion W A ids groupId pm p))
      else if map_of deletions (pm_id pm) \<noteq> None
      then register_all W A ring ids groupId deletions pms (snd (call A (api_ack A (pm_id pm)) p))
      else (case registerIncoming W ring ids groupId pm p of
          (Inl e, p') \<Rightarrow> register_all W A ring ids groupId deletions pms p'
        | (Inr local, p') \<Rightarrow> (let (registered, p'') = register_all W A ring ids groupId deletions pms p' in (local # registered, p''))))"

definition receive :: "('k, 'pub, 'priv) webcrypto \<Rightarrow> 'w api \<Rightarrow> 'k Keyring \<Rightarrow> DeviceIdentities \<Rightarrow> string \<Rightarrow> PendingMessage list
    \<Rightarrow> 'w phone \<Rightarrow> 'w phone" where
  "receive W A ring ids groupId pending p =
     (let (deletions, h) = loadDeletions (api_now A (ph_world p)) (ph_history p);
          (registered, p') = register_all W A ring ids groupId deletions pending (p\<lparr>ph_history := h\<rparr>)
      in fold (\<lambda>m p. snd (downloadAndAck W A ring m p)) registered p')"

section \<open>What is acknowledged\<close>

text \<open>\<open>acked\<close>: the ids a world has seen acknowledged. Nobody else writes to the rows during the poll.\<close>

definition tracks_acks :: "'w api \<Rightarrow> ('w \<Rightarrow> string set) \<Rightarrow> bool" where
  "tracks_acks A acked \<longleftrightarrow> (\<forall>i w. acked w \<subseteq> acked (snd (api_ack A i w)) \<and> acked (snd (api_ack A i w)) \<subseteq> insert i (acked w))
     \<and> (\<forall>k w. acked (snd (api_download A k w)) = acked w)"

definition undisturbed :: "'w api \<Rightarrow> bool" where
  "undisturbed A \<longleftrightarrow> (\<forall>w h. api_meanwhile A w h = h)"

definition nothing_to_fetch :: "LocalMessage \<Rightarrow> bool" where
  "nothing_to_fetch m \<longleftrightarrow> lm_file m = None \<or> \<not> needsDownload (lm_fileState m)"

definition complete :: "history \<Rightarrow> LocalMessage \<Rightarrow> bool" where
  "complete h m \<longleftrightarrow> (case lm_file m of None \<Rightarrow> True
     | Some f \<Rightarrow> lm_fileState m = Some Expired \<or> lm_fileState m = Some Corrupted
         \<or> lm_fileState m = Some Downloaded \<and> getFile (fr_r2Key f) h \<noteq> None)"

lemma wp_call: "undisturbed A \<Longrightarrow> wp (call A f) Q E
    = (\<lambda>p. case f (ph_world p) of (Inl e, w) \<Rightarrow> E e (p\<lparr>ph_world := w\<rparr>) | (Inr x, w) \<Rightarrow> Q x (p\<lparr>ph_world := w\<rparr>))"
  by (auto simp: wp_def call_def undisturbed_def fun_eq_iff Let_def split: prod.split sum.split)

lemma wp_attempt: "wp (attempt m) Q E = wp m (\<lambda>x. Q (Inr x)) (\<lambda>e. Q (Inl e))"
  by (auto simp: wp_def attempt_def fun_eq_iff split: prod.split sum.split)

lemma wp_budget: "wp (decryptBudgetExhausted scope) Q E p
    \<longleftrightarrow> (let r = decryptBudgetExhausted scope p in Q (projr (fst r)) (snd r))"
  by (auto simp: wp_def decryptBudgetExhausted_def Let_def)

lemma budget_history [simp]: "ph_history (snd (decryptBudgetExhausted scope p)) = ph_history p"
    "ph_world (snd (decryptBudgetExhausted scope p)) = ph_world p"
  by (simp_all add: decryptBudgetExhausted_def Let_def)

text \<open>What a step on the message \<open>i\<close> leaves alone.\<close>

definition only_about :: "string \<Rightarrow> 'w phone \<Rightarrow> 'w phone \<Rightarrow> bool" where
  "only_about i p p' \<longleftrightarrow> (\<forall>j. j \<noteq> i \<longrightarrow> getMessage j (ph_history p') = getMessage j (ph_history p))
     \<and> (\<forall>k. getFile k (ph_history p) \<noteq> None \<longrightarrow> getFile k (ph_history p') \<noteq> None)"

lemma getFile_simps [simp]: "getFile k (putFile k' d t h) = (if k = k' then Some (d, t) else getFile k h)"
    "getFile k (upsertMessage m h) = getFile k h"
  by (auto simp: getFile_def putFile_def update_conv upsertMessage_def applyMessageUpdate_def putMessage_def Let_def)

lemma fetch_file_outcome:
  assumes "tracks_acks A acked" and "undisturbed A" and "lm_file m = Some f"
  shows "wp (fetch_file W A ring m f)
    (\<lambda>r p'. only_about (lm_id m) p p' \<and> acked (ph_world p') = acked (ph_world p)
      \<and> (\<forall>local. r = Some local \<longrightarrow> lm_id local = lm_id m \<and> getMessage (lm_id m) (ph_history p') = Some local \<and> complete (ph_history p') local))
    (\<lambda>_ p'. only_about (lm_id m) p p' \<and> acked (ph_world p') = acked (ph_world p)) p"
proof -
  have acked: "acked w' = acked w" if "api_download A k w = (r, w')" for k w r w'
    using assms(1) that unfolding tracks_acks_def by (metis snd_conv)
  show ?thesis
    unfolding fetch_file_def put_off_def settle_file_def upsert_def throwing_def wp_simps wp_attempt wp_call [OF assms(2)] wp_budget Let_def
    by (auto simp: only_about_def complete_def assms(3) acked split: option.split prod.split sum.split)
qed

lemma wp_always: "wp m (\<lambda>_. P) (\<lambda>_. P) s = P (snd (m s))"
  by (cases "m s"; cases "fst (m s)") (simp_all add: wp_def)

lemma only_about_trans: "only_about i p q \<Longrightarrow> only_about i q r \<Longrightarrow> only_about i p r"
  by (simp add: only_about_def)

lemma downloadAndAck_outcome:
  assumes A: "tracks_acks A acked" and "undisturbed A" and "snd (downloadAndAck W A ring m p) = p'"
  shows "only_about (lm_id m) p p' \<and> acked (ph_world p) \<subseteq> acked (ph_world p') \<and> acked (ph_world p') \<subseteq> insert (lm_id m) (acked (ph_world p))
    \<and> (lm_id m \<in> acked (ph_world p') - acked (ph_world p) \<longrightarrow>
         (\<exists>m'. getMessage (lm_id m) (ph_history p') = Some m' \<and> complete (ph_history p') m')
         \<or> nothing_to_fetch m \<and> getMessage (lm_id m) (ph_history p') \<in> {getMessage (lm_id m) (ph_history p), Some (m\<lparr>lm_acked := True\<rparr>)})"
    (is "?R p'")
proof -
  have acked: "acked w \<subseteq> acked w'" "acked w' \<subseteq> insert i (acked w)" if "api_ack A i w = (r, w')" for i w r w'
    using A that unfolding tracks_acks_def by (metis snd_conv)+
  let ?ack = "\<lambda>local. if lm_acked local then retS () else bindS (call A (api_ack A (lm_id local))) (\<lambda>_. upsert (local\<lparr>lm_acked := True\<rparr>))"
  have complete_acked: "complete (upsertMessage (l\<lparr>lm_acked := True\<rparr>) h) (l\<lparr>lm_acked := True\<rparr>) = complete h l" for l h
    by (cases "lm_file l") (simp_all add: complete_def)
  have after: "wp (?ack local) (\<lambda>_. ?R) (\<lambda>_. ?R) q"
    if "only_about (lm_id m) p q" "acked (ph_world q) = acked (ph_world p)" "lm_id local = lm_id m"
      "getMessage (lm_id m) (ph_history q) = Some local \<and> complete (ph_history q) local \<or> local = m \<and> nothing_to_fetch m \<and> q = p" for q local
    using that acked [of "lm_id m" "ph_world q"]
    unfolding upsert_def wp_simps wp_call [OF assms(2)]
    by (auto simp: only_about_def complete_acked split: prod.split sum.split)
  have "wp (downloadAndAck W A ring m) (\<lambda>_. ?R) (\<lambda>_. ?R) p"
  proof (cases "nothing_to_fetch m")
    case True
    then have "(case lm_file m of Some f \<Rightarrow> if needsDownload (lm_fileState m) then fetch_file W A ring m f else retS (Some m)
        | None \<Rightarrow> retS (Some m)) = retS (Some m)"
      by (auto simp: nothing_to_fetch_def split: option.split)
    then have "downloadAndAck W A ring m = bindS (retS (Some m)) (\<lambda>r. case r of None \<Rightarrow> retS () | Some local \<Rightarrow> ?ack local)"
      unfolding downloadAndAck_def by simp
    moreover have "wp (?ack m) (\<lambda>_. ?R) (\<lambda>_. ?R) p" by (rule after) (use True in \<open>simp_all add: only_about_def\<close>)
    ultimately show ?thesis by (simp only: wp_bindS wp_retS option.case)
  next
    case False
    then obtain f where f: "lm_file m = Some f" "needsDownload (lm_fileState m)" by (auto simp: nothing_to_fetch_def)
    have "wp (case r of None \<Rightarrow> retS () | Some local \<Rightarrow> ?ack local) (\<lambda>_. ?R) (\<lambda>_. ?R) q"
      if "only_about (lm_id m) p q \<and> acked (ph_world q) = acked (ph_world p)
        \<and> (\<forall>local. r = Some local \<longrightarrow> lm_id local = lm_id m \<and> getMessage (lm_id m) (ph_history q) = Some local \<and> complete (ph_history q) local)" for r q
    proof (cases r)
      case (Some local)
      with that show ?thesis using after [of q local] by simp
    qed (use that in \<open>auto simp: wp_retS\<close>)
    then have "wp (fetch_file W A ring m f) (\<lambda>r. wp (case r of None \<Rightarrow> retS () | Some local \<Rightarrow> ?ack local) (\<lambda>_. ?R) (\<lambda>_. ?R)) (\<lambda>_. ?R) p"
      by (rule wp_mono [OF fetch_file_outcome [OF A assms(2) f(1)]]) (blast | simp)+
    then show ?thesis by (simp add: downloadAndAck_def wp_bindS f)
  qed
  then show ?thesis unfolding wp_always assms(3) .
qed

text \<open>The downloads, from the history \<open>h\<close> on.\<close>

definition receipt :: "history \<Rightarrow> LocalMessage list \<Rightarrow> history \<Rightarrow> string \<Rightarrow> bool" where
  "receipt h ms h' i \<longleftrightarrow> (\<exists>m'. getMessage i h' = Some m' \<and> complete h' m')
     \<or> (\<exists>m \<in> set ms. lm_id m = i \<and> nothing_to_fetch m \<and> getMessage i h' \<in> {getMessage i h, Some (m\<lparr>lm_acked := True\<rparr>)})"

lemma complete_mono:
  assumes "complete h m" and "\<And>k. getFile k h \<noteq> None \<Longrightarrow> getFile k h' \<noteq> None"
  shows "complete h' m"
  using assms unfolding complete_def by (cases "lm_file m") auto

lemma downloads_outcome:
  assumes "tracks_acks A acked" and "undisturbed A"
  shows "distinct (map lm_id ms) \<Longrightarrow> fold (\<lambda>m p. snd (downloadAndAck W A ring m p)) ms p = p' \<Longrightarrow>
    acked (ph_world p) \<subseteq> acked (ph_world p')
    \<and> (\<forall>i \<in> acked (ph_world p') - acked (ph_world p). receipt (ph_history p) ms (ph_history p') i)
    \<and> (\<forall>j. j \<notin> lm_id ` set ms \<longrightarrow> getMessage j (ph_history p') = getMessage j (ph_history p))
    \<and> (\<forall>k. getFile k (ph_history p) \<noteq> None \<longrightarrow> getFile k (ph_history p') \<noteq> None)"
proof (induction ms arbitrary: p)
  case (Cons m ms)
  define p1 where "p1 = snd (downloadAndAck W A ring m p)"
  note one = downloadAndAck_outcome [OF assms p1_def [symmetric]]
  have rest: "distinct (map lm_id ms)" "fold (\<lambda>m p. snd (downloadAndAck W A ring m p)) ms p1 = p'" and new: "lm_id m \<notin> lm_id ` set ms"
    using Cons.prems by (simp_all add: p1_def)
  note IH = Cons.IH [OF rest]
  have "receipt (ph_history p) (m # ms) (ph_history p') i" if i: "i \<in> acked (ph_world p') - acked (ph_world p)" for i
  proof (cases "i \<in> acked (ph_world p1)")
    case True
    with one i have [simp]: "i = lm_id m" by auto
    have same: "getMessage i (ph_history p') = getMessage i (ph_history p1)" using IH new by simp
    from one i True consider m' where "getMessage i (ph_history p1) = Some m'" "complete (ph_history p1) m'"
      | "nothing_to_fetch m" "getMessage i (ph_history p1) \<in> {getMessage i (ph_history p), Some (m\<lparr>lm_acked := True\<rparr>)}"
      by auto
    then show ?thesis
    proof cases
      case 1
      then show ?thesis using IH same complete_mono unfolding receipt_def by metis
    next
      case 2
      from 2(2) [folded same] have "getMessage i (ph_history p') \<in> {getMessage i (ph_history p), Some (m\<lparr>lm_acked := True\<rparr>)}"
        unfolding same .
      with 2(1) show ?thesis unfolding receipt_def by simp
    qed
  next
    case False
    with IH i have "receipt (ph_history p1) ms (ph_history p') i" by blast
    then show ?thesis
    proof (unfold receipt_def, elim disjE bexE conjE, goal_cases)
      case (2 n)
      then have "i \<noteq> lm_id m" using new by (metis imageI)
      then have "getMessage i (ph_history p1) = getMessage i (ph_history p)" using one by (simp add: only_about_def)
      with 2 show ?case by auto
    qed auto
  qed
  moreover have "acked (ph_world p) \<subseteq> acked (ph_world p')" using one IH by blast
  moreover have "getMessage j (ph_history p') = getMessage j (ph_history p)" if "j \<notin> lm_id ` set (m # ms)" for j
    using that one IH by (simp add: only_about_def)
  moreover have "getFile k (ph_history p') \<noteq> None" if "getFile k (ph_history p) \<noteq> None" for k
    using that one IH unfolding only_about_def by blast
  ultimately show ?case by blast
qed simp

text \<open>Registering.\<close>

lemma shown_upsert: "set (hi_shown (upsertMessage m h)) \<subseteq> insert m (set (hi_shown h))"
proof -
  have "set (insertSorted (hi_shown h) m) = insert m (set (hi_shown h))"
    by (simp add: insertSorted_def Let_def) (metis append_take_drop_id set_append)
  then show ?thesis using set_update_subset_insert [of "hi_shown h" _ m]
    by (simp add: upsertMessage_def applyMessageUpdate_def putMessage_def Let_def)
qed

lemma global_deletion:
  "getMessage j (applyGlobalDeletion t now h) = (if j = t then None else getMessage j h)"
  "set (hi_shown (applyGlobalDeletion t now h)) \<subseteq> set (hi_shown h)"
proof -
  have shown: "hi_shown (recordDeletion t now h) = hi_shown h"
    by (simp add: recordDeletion_def loadDeletions_def Let_def)
  have discard: "getMessage i (discardMessage m h) = (if i = lm_id m then None else getMessage i h)" for i m h
    by (simp add: discardMessage_def Let_def split: option.split)
  have discard_shown: "set (hi_shown (discardMessage m h)) \<subseteq> set (hi_shown h)" for m h
    by (auto simp: discardMessage_def Let_def removeMessage_def deleteFile_def deleteMessage_def split: option.split)
  have local: "getLocalMessage t (recordDeletion t now h) = getLocalMessage t h" by (simp add: getLocalMessage_def shown)
  let ?local = "case getLocalMessage t h of Some m \<Rightarrow> Some m | None \<Rightarrow> getMessage t h"
  have run: "applyGlobalDeletion t now h = (case ?local of None \<Rightarrow> recordDeletion t now h | Some m \<Rightarrow> discardMessage m (recordDeletion t now h))"
    by (simp only: applyGlobalDeletion_def Let_def local getMessage_other)
  have "getMessage j (applyGlobalDeletion t now h) = (if j = t then None else getMessage j h)
      \<and> set (hi_shown (applyGlobalDeletion t now h)) \<subseteq> set (hi_shown h)"
  proof (cases ?local)
    case None
    then have "getMessage t h = None" by (simp split: option.splits)
    then show ?thesis unfolding run None by (simp add: shown)
  next
    case (Some m)
    then have "getLocalMessage t h = Some m \<or> getMessage t h = Some m" by (simp split: option.splits)
    then have "lm_id m = t" by (metis (mono_tags, lifting) find_Some_iff getLocalMessage_def getMessage_def)
    then show ?thesis unfolding run Some using discard_shown [of m "recordDeletion t now h"] by (simp add: discard shown)
  qed
  then show "getMessage j (applyGlobalDeletion t now h) = (if j = t then None else getMessage j h)"
    "set (hi_shown (applyGlobalDeletion t now h)) \<subseteq> set (hi_shown h)" by blast+
qed

lemma incoming_deletion_outcome:
  assumes "tracks_acks A acked" and "undisturbed A" and "snd (applyIncomingDeletion W A ids g pm p) = p'"
  shows "acked (ph_world p) \<subseteq> acked (ph_world p') \<and> acked (ph_world p') \<subseteq> insert (pm_id pm) (acked (ph_world p))
    \<and> set (hi_shown (ph_history p')) \<subseteq> set (hi_shown (ph_history p))
    \<and> (\<forall>j. j \<noteq> the (pm_deletesMessageId pm) \<longrightarrow> getMessage j (ph_history p') = getMessage j (ph_history p))" (is "?R p'")
proof -
  have acked: "acked w \<subseteq> acked w'" "acked w' \<subseteq> insert i (acked w)" if "api_ack A i w = (r, w')" for i w r w'
    using assms(1) that unfolding tracks_acks_def by (metis snd_conv)+
  have "wp (applyIncomingDeletion W A ids g pm) (\<lambda>_. ?R) (\<lambda>_. ?R) p"
    unfolding applyIncomingDeletion_def throwing_def Let_def wp_simps wp_call [OF assms(2)]
    using acked [of "pm_id pm" "ph_world p"] global_deletion(2) by (auto simp: global_deletion(1) split: option.split prod.split sum.split)
  then show ?thesis unfolding wp_always assms(3) .
qed

definition unchanged :: "'w phone \<Rightarrow> 'w phone \<Rightarrow> bool" where
  "unchanged p q \<longleftrightarrow> ph_history q = ph_history p \<and> ph_world q = ph_world p"

lemma wp_unchanged:
  assumes "unchanged p (snd (m p))" and "\<And>x q. unchanged p q \<Longrightarrow> Q x q" and "\<And>e q. unchanged p q \<Longrightarrow> E e q"
  shows "wp m Q E p"
  using assms by (auto simp: wp_def split: prod.split sum.split)

lemma unchanged_trans: "unchanged p q \<Longrightarrow> unchanged q r \<Longrightarrow> unchanged p r"
  by (simp add: unchanged_def)

lemma part_unchanged: "unchanged p (snd (read_part carried scope r p))"
  by (auto simp: unchanged_def read_part_def decrypt_within_budget_def bindS_def retS_def writeS_def liftE_def
      decryptBudgetExhausted_def Let_def split: option.split)

lemma registerIncoming_outcome:
  assumes "registerIncoming W ring ids g pm p = (r, p')"
  shows "(case r of Inl _ \<Rightarrow> unchanged p p'
    | Inr m \<Rightarrow> lm_id m = pm_id pm \<and> (m \<in> set (hi_shown (ph_history p)) \<and> unchanged p p'
        \<or> ph_world p' = ph_world p \<and> ph_history p' = upsertMessage m (ph_history p) \<and> (nothing_to_fetch m \<longrightarrow> lm_file m = None)))"
proof -
  let ?Q = "\<lambda>m q. lm_id m = pm_id pm \<and> (m \<in> set (hi_shown (ph_history p)) \<and> unchanged p q
        \<or> ph_world q = ph_world p \<and> ph_history q = upsertMessage m (ph_history p) \<and> (nothing_to_fetch m \<longrightarrow> lm_file m = None))"
  have row: "lm_id (incoming_row W ring pm t v d) = pm_id pm"
      "nothing_to_fetch (incoming_row W ring pm t v d) \<longrightarrow> lm_file (incoming_row W ring pm t v d) = None" for t v d
    by (auto simp: incoming_row_def Let_def nothing_to_fetch_def needsDownload_def)
  have found: "getLocalMessage (pm_id pm) (ph_history p) = Some m \<Longrightarrow> lm_id m = pm_id pm \<and> m \<in> set (hi_shown (ph_history p))" for m
    by (auto simp: getLocalMessage_def find_Some_iff)
  have "wp (registerIncoming W ring ids g pm) ?Q (\<lambda>_. unchanged p) p"
  proof (cases "getLocalMessage (pm_id pm) (ph_history p)")
    case (Some m)
    then show ?thesis using found unfolding registerIncoming_def wp_simps by (simp add: unchanged_def)
  next
    case None
    show ?thesis unfolding registerIncoming_def throwing_def wp_simps None option.case
      by (auto simp: wp_liftE wp_bindS wp_retS upsert_def wp_writeS Let_def row unchanged_def split: option.split
          intro!: wp_unchanged part_unchanged)
  qed
  then show ?thesis using assms by (cases r) (auto simp: wp_def)
qed

text \<open>The ids that a poll deletes or orders deleted, given the deletions remembered.\<close>

definition orders :: "PendingMessage list \<Rightarrow> string set" where
  "orders pms = {pm_id pm | pm. pm \<in> set pms \<and> truthy (pm_deletesMessageId pm)}"

definition targets :: "PendingMessage list \<Rightarrow> string set" where
  "targets pms = {the (pm_deletesMessageId pm) | pm. pm \<in> set pms \<and> truthy (pm_deletesMessageId pm)}"

definition newly_registered :: "history \<Rightarrow> LocalMessage \<Rightarrow> bool" where
  "newly_registered h m \<longleftrightarrow> getMessage (lm_id m) h = Some m \<and> (nothing_to_fetch m \<longrightarrow> lm_file m = None)"

lemma register_all_outcome:
  assumes "tracks_acks A acked" and "undisturbed A"
  shows "distinct (map pm_id pms) \<Longrightarrow> register_all W A ring ids g deletions pms p = (registered, p') \<Longrightarrow>
    acked (ph_world p) \<subseteq> acked (ph_world p')
    \<and> acked (ph_world p') \<subseteq> acked (ph_world p) \<union> orders pms \<union> fst ` set deletions
    \<and> distinct (map lm_id registered) \<and> lm_id ` set registered \<subseteq> pm_id ` set pms
    \<and> (\<forall>m \<in> set registered. m \<in> set (hi_shown (ph_history p)) \<or> lm_id m \<in> targets pms \<or> newly_registered (ph_history p') m)
    \<and> (\<forall>j. j \<notin> pm_id ` set pms \<union> targets pms \<longrightarrow> getMessage j (ph_history p') = getMessage j (ph_history p))"
proof (induction pms arbitrary: p registered p')
  case (Cons pm pms)
  from Cons.prems(1) have dist: "distinct (map pm_id pms)" and new: "pm_id pm \<notin> pm_id ` set pms" by simp_all
  show ?case
  proof (cases "truthy (pm_deletesMessageId pm)")
    case True
    define p1 where "p1 = snd (applyIncomingDeletion W A ids g pm p)"
    have sets: "orders (pm # pms) = insert (pm_id pm) (orders pms)" "targets (pm # pms) = insert (the (pm_deletesMessageId pm)) (targets pms)"
      using True by (auto simp: orders_def targets_def)
    from Cons.prems(2) True have run: "register_all W A ring ids g deletions pms p1 = (registered, p')" by (simp add: p1_def)
    note incoming_deletion_outcome [OF assms p1_def [symmetric]] Cons.IH [OF dist run]
    then show ?thesis unfolding sets by simp blast
  next
    case no: False
    have sets: "orders (pm # pms) = orders pms" "targets (pm # pms) = targets pms"
      using no by (auto simp: orders_def targets_def)
    show ?thesis
    proof (cases "map_of deletions (pm_id pm)")
      case (Some d)
      define p1 where "p1 = snd (call A (api_ack A (pm_id pm)) p)"
      have p1: "acked (ph_world p) \<subseteq> acked (ph_world p1) \<and> acked (ph_world p1) \<subseteq> insert (pm_id pm) (acked (ph_world p))
          \<and> ph_history p1 = ph_history p"
        using assms unfolding p1_def tracks_acks_def undisturbed_def by (simp add: call_def case_prod_beta Let_def)
      have "pm_id pm \<in> fst ` set deletions" using Some by (force dest: map_of_SomeD)
      moreover from Cons.prems(2) no Some have run: "register_all W A ring ids g deletions pms p1 = (registered, p')" by (simp add: p1_def)
      ultimately show ?thesis using p1 Cons.IH [OF dist run] unfolding sets by simp blast
    next
      case None
      obtain r p1 where reg: "registerIncoming W ring ids g pm p = (r, p1)" by fastforce
      obtain rest where run: "register_all W A ring ids g deletions pms p1 = (rest, p')"
          and registered: "registered = (case r of Inl _ \<Rightarrow> rest | Inr m \<Rightarrow> m # rest)"
        using Cons.prems(2) no None reg by (cases r) (auto split: prod.splits)
      note IH = Cons.IH [OF dist run] and one = registerIncoming_outcome [OF reg]
      show ?thesis
      proof (cases r)
        case (Inl e)
        with one have "ph_history p1 = ph_history p" "ph_world p1 = ph_world p" by (simp_all add: unchanged_def)
        then show ?thesis using IH unfolding sets registered Inl by auto
      next
        case (Inr m)
        with one have m: "lm_id m = pm_id pm" and world: "ph_world p1 = ph_world p" by (auto simp: unchanged_def)
        have "m \<notin> set rest \<and> lm_id m \<notin> lm_id ` set rest" using IH new m by (metis imageI subsetD)
        have shown: "n \<in> set (hi_shown (ph_history p)) \<or> n = m" if "n \<in> set (hi_shown (ph_history p1))" for n
          using one Inr that shown_upsert [of m "ph_history p"] by (auto simp: unchanged_def)
        have rows: "getMessage j (ph_history p1) = getMessage j (ph_history p)" if "j \<noteq> pm_id pm" for j
          using one Inr that by (auto simp: unchanged_def)
        have mine: "m \<in> set (hi_shown (ph_history p)) \<or> lm_id m \<in> targets pms \<or> newly_registered (ph_history p') m"
        proof -
          have "getMessage (pm_id pm) (ph_history p') = getMessage (pm_id pm) (ph_history p1)" if "pm_id pm \<notin> targets pms"
            using IH that new by auto
          then show ?thesis using one Inr m by (auto simp: newly_registered_def)
        qed
        show ?thesis using IH world mine shown rows m \<open>m \<notin> set rest \<and> lm_id m \<notin> lm_id ` set rest\<close>
          unfolding sets registered Inr by simp blast
      qed
    qed
  qed
qed auto

text \<open>C33. A device gives up the copy on the server only when it has nothing left to fetch from it. Every message
  that a poll acknowledges is one that was deleted for everyone, as remembered or as ordered in this poll, or one
  of which there was already nothing to fetch, or one whose row says afterwards that it carries no file, that the
  file is stored here, or that it is gone or cannot be decrypted. A file that failed to download, or that
  could not be stored, is not acknowledged.\<close>

theorem acked_when_complete:
  assumes "tracks_acks A acked" and "undisturbed A" and "distinct (map pm_id pending)"
    and "receive W A ring ids groupId pending p = p'" and "i \<in> acked (ph_world p') - acked (ph_world p)"
  shows "i \<in> orders pending \<union> targets pending \<union> fst ` set (fst (loadDeletions (api_now A (ph_world p)) (ph_history p)))
     \<or> (\<exists>m \<in> set (hi_shown (ph_history p)). lm_id m = i \<and> nothing_to_fetch m)
     \<or> (\<exists>m. getMessage i (ph_history p') = Some m \<and> complete (ph_history p') m)"
proof -
  obtain deletions h where load: "loadDeletions (api_now A (ph_world p)) (ph_history p) = (deletions, h)" by fastforce
  have h: "hi_shown h = hi_shown (ph_history p)" using load by (auto simp: loadDeletions_def Let_def split: if_splits)
  obtain registered p1 where reg: "register_all W A ring ids groupId deletions pending (p\<lparr>ph_history := h\<rparr>) = (registered, p1)" by fastforce
  from assms(4) have down: "fold (\<lambda>m p. snd (downloadAndAck W A ring m p)) registered p1 = p'" by (simp add: receive_def load reg)
  note one = register_all_outcome [OF assms(1-3) reg]
  then have dist: "distinct (map lm_id registered)" by blast
  note two = downloads_outcome [OF assms(1,2) dist down]
  show ?thesis
  proof (cases "i \<in> acked (ph_world p1)")
    case True
    then show ?thesis using one assms(5) load by auto
  next
    case False
    with two assms(5) have "receipt (ph_history p1) registered (ph_history p') i" by blast
    then show ?thesis
    proof (unfold receipt_def, elim disjE bexE conjE)
      fix m assume m: "m \<in> set registered" "lm_id m = i" "nothing_to_fetch m"
        and row: "getMessage i (ph_history p') \<in> {getMessage i (ph_history p1), Some (m\<lparr>lm_acked := True\<rparr>)}"
      from one m(1) consider "m \<in> set (hi_shown (ph_history p))" | "lm_id m \<in> targets pending" | "newly_registered (ph_history p1) m"
        using h by auto
      then show ?thesis
      proof cases
        case 3
        then have "lm_file m = None" "getMessage i (ph_history p1) = Some m" using m by (auto simp: newly_registered_def)
        then show ?thesis using row by (auto simp: complete_def)
      qed (use m in auto)
    qed blast
  qed
qed

section \<open>What was deleted stays away\<close>

lemma register_all_skips:
  assumes "tracks_acks A acked" and "undisturbed A" and "map_of deletions i \<noteq> None"
  shows "register_all W A ring ids g deletions pms p = (registered, p') \<Longrightarrow> getMessage i (ph_history p) = None
    \<Longrightarrow> i \<notin> lm_id ` set registered \<and> getMessage i (ph_history p') = None"
proof (induction pms arbitrary: p registered p')
  case (Cons pm pms)
  have deletion: "getMessage i (ph_history (snd (applyIncomingDeletion W A ids g pm p))) = None"
  proof -
    have "wp (applyIncomingDeletion W A ids g pm) (\<lambda>_ q. getMessage i (ph_history q) = None) (\<lambda>_ q. getMessage i (ph_history q) = None) p"
      unfolding applyIncomingDeletion_def throwing_def Let_def wp_simps wp_call [OF assms(2)]
      using Cons.prems(2) by (auto simp: global_deletion(1) split: option.split prod.split sum.split)
    then show ?thesis unfolding wp_always .
  qed
  have ack: "getMessage i (ph_history (snd (call A (api_ack A (pm_id pm)) p))) = None"
    using assms(2) Cons.prems(2) by (simp add: call_def undisturbed_def case_prod_beta Let_def)
  show ?case
  proof (cases "truthy (pm_deletesMessageId pm) \<or> map_of deletions (pm_id pm) \<noteq> None")
    case True
    then show ?thesis using Cons.IH Cons.prems(1) deletion ack by (auto split: if_splits)
  next
    case False
    obtain r p1 where reg: "registerIncoming W ring ids g pm p = (r, p1)" by fastforce
    obtain rest where run: "register_all W A ring ids g deletions pms p1 = (rest, p')"
        and registered: "registered = (case r of Inl _ \<Rightarrow> rest | Inr m \<Rightarrow> m # rest)"
      using Cons.prems(1) False reg by (cases r) (auto split: prod.splits)
    have other: "pm_id pm \<noteq> i" using False assms(3) by auto
    have "getMessage i (ph_history p1) = None"
      using registerIncoming_outcome [OF reg] Cons.prems(2) other by (cases r) (auto simp: unchanged_def)
    from Cons.IH [OF run this] show ?thesis
      using registerIncoming_outcome [OF reg] other unfolding registered by (cases r) auto
  qed
qed simp

text \<open>C34. A message that was deleted for everyone stays away: a poll that lists a copy of it, even one that was in flight
  when the deletion happened, leaves no row of it, as long as the deletion is remembered, which is as long as
  the server may still hold a copy.\<close>

theorem deleted_stays_away:
  assumes "tracks_acks A acked" and "undisturbed A" and "distinct (map pm_id pending)"
    and "getMessage i (ph_history p) = None" and "map_of (or_else (hi_deletions (ph_history p)) []) i = Some at"
    and "api_now A (ph_world p) - at < MESSAGE_TTL_MS"
  shows "getMessage i (ph_history (receive W A ring ids groupId pending p)) = None"
proof -
  obtain deletions h where load: "loadDeletions (api_now A (ph_world p)) (ph_history p) = (deletions, h)" by fastforce
  let ?held = "or_else (hi_deletions (ph_history p)) []"
  have "deletions = prune ?held (api_now A (ph_world p))" using load by (auto simp: loadDeletions_def Let_def or_else_def split: if_splits option.splits)
  moreover have "(i, at) \<in> set ?held" using assms(5) by (rule map_of_SomeD)
  ultimately have "(i, at) \<in> set deletions" using assms(6) by (simp add: prune_def)
  then have d: "map_of deletions i \<noteq> None" by (metis map_of_eq_None_iff fst_conv imageI)
  have row: "getMessage i h = None" using load assms(4) by (auto simp: loadDeletions_def getMessage_def Let_def split: if_splits)
  obtain registered p1 where reg: "register_all W A ring ids groupId deletions pending (p\<lparr>ph_history := h\<rparr>) = (registered, p1)" by fastforce
  from register_all_skips [OF assms(1,2) d reg] row have i: "i \<notin> lm_id ` set registered" "getMessage i (ph_history p1) = None" by auto
  have "distinct (map lm_id registered)" using register_all_outcome [OF assms(1-3) reg] by blast
  then have "getMessage i (ph_history (fold (\<lambda>m p. snd (downloadAndAck W A ring m p)) registered p1)) = getMessage i (ph_history p1)"
    using downloads_outcome [OF assms(1,2) _ refl] i(1) by blast
  then show ?thesis using i(2) by (simp add: receive_def load reg)
qed

section \<open>Where it comes back\<close>

lemma unverified_sender: "map_of ids i = None \<Longrightarrow> verifyDeviceSignature W ids i s sig = Some Unverified"
  by (simp add: verifyDeviceSignature_def)

lemma getLocalMessage_gone: "getLocalMessage i (removeMessage i h) = None" "getLocalMessage i (discardMessage m h) = None" if "lm_id m = i"
  using that by (auto simp: getLocalMessage_def removeMessage_def discardMessage_def deleteFile_def Let_def find_None_iff split: option.split)

text \<open>An order and the message it deletes, listed by the same poll in this order: the deletions are looked up as they
  were before the poll, and the message stays, remembered as deleted though it is.\<close>

lemma copy_in_the_same_poll_survives:
  assumes "undisturbed A" and "hi_deletions (ph_history p) = None" and "getMessage (pm_id m) (ph_history p) = None"
    and "getLocalMessage (pm_id m) (ph_history p) = None"
    and "map_of ids (pm_senderDeviceId d) = None" and "map_of ids (pm_senderDeviceId m) = None"
    and "pm_deletesMessageId d = Some (pm_id m)" and "pm_id m \<noteq> []" and "pm_deletesMessageId m = None"
    and "keyForEpoch ring (pm_keyEpoch m) = Some key" and "truthy (pm_encryptedPayload m)" and "truthy (pm_iv m)"
    and "decryptMessageText W key (pm_id m) (the (pm_encryptedPayload m)) (the (pm_iv m)) = Some text" and "pm_fileMeta m = None"
  shows "\<exists>row. getMessage (pm_id m) (ph_history (receive W A ring ids groupId [d, m] p)) = Some row \<and> lm_text row = Some text
    \<and> map_of (or_else (hi_deletions (ph_history (receive W A ring ids groupId [d, m] p))) []) (pm_id m) \<noteq> None"
proof -
  have order: "truthy (pm_deletesMessageId d)" "the (pm_deletesMessageId d) = pm_id m" "\<not> truthy (pm_deletesMessageId m)"
    using assms(7-9) by (auto simp: truthy_def)
  define p1 where "p1 = snd (applyIncomingDeletion W A ids groupId d p)"
  have p1: "getLocalMessage (pm_id m) (ph_history p1) = None \<and> map_of (or_else (hi_deletions (ph_history p1)) []) (pm_id m) \<noteq> None"
  proof -
    have del: "applyGlobalDeletion (pm_id m) now (ph_history p) = recordDeletion (pm_id m) now (ph_history p)" for now
      using assms(3,4) by (simp add: applyGlobalDeletion_def Let_def recordDeletion_def loadDeletions_def getLocalMessage_def getMessage_def assms(2))
    have "getLocalMessage (pm_id m) (recordDeletion (pm_id m) now (ph_history p)) = None
        \<and> map_of (or_else (hi_deletions (recordDeletion (pm_id m) now (ph_history p))) []) (pm_id m) \<noteq> None" for now
      using assms(4) by (simp add: recordDeletion_def loadDeletions_def assms(2) getLocalMessage_def or_else_def prune_def update_conv Let_def)
    then have "wp (applyIncomingDeletion W A ids groupId d) (\<lambda>_ q. getLocalMessage (pm_id m) (ph_history q) = None
          \<and> map_of (or_else (hi_deletions (ph_history q)) []) (pm_id m) \<noteq> None)
        (\<lambda>_ q. getLocalMessage (pm_id m) (ph_history q) = None \<and> map_of (or_else (hi_deletions (ph_history q)) []) (pm_id m) \<noteq> None) p"
      unfolding applyIncomingDeletion_def throwing_def Let_def wp_simps wp_call [OF assms(1)]
      by (simp add: unverified_sender [OF assms(5)] order(2) del split: prod.split sum.split)
    then show ?thesis unfolding p1_def wp_always .
  qed
  let ?row = "incoming_row W ring m (Some (Some text)) None Unverified"
  have no_meta: "\<not> truthy None" by (simp add: truthy_def)
  define p2 where "p2 = snd (registerIncoming W ring ids groupId m p1)"
  have reg: "registerIncoming W ring ids groupId m p1 = (Inr ?row, p2) \<and> ph_history p2 = upsertMessage ?row (ph_history p1)"
    unfolding p2_def registerIncoming_def read_part_def decrypt_within_budget_def throwing_def upsert_def
    using p1 assms(11,12) by (simp add: bindS_def readS_def liftE_def retS_def writeS_def assms(10,13,14) no_meta unverified_sender [OF assms(6)] Let_def)
  have row: "lm_id ?row = pm_id m" "lm_text ?row = Some text" "lm_file ?row = None" "\<not> lm_acked ?row" by (simp_all add: incoming_row_def Let_def)
  define p3 where "p3 = snd (downloadAndAck W A ring ?row p2)"
  let ?Q = "\<lambda>q. (\<exists>row. getMessage (pm_id m) (ph_history q) = Some row \<and> lm_text row = Some text) \<and> hi_deletions (ph_history q) = hi_deletions (ph_history p1)"
  have dels: "hi_deletions (upsertMessage r h) = hi_deletions h" for r h
    by (simp add: upsertMessage_def applyMessageUpdate_def putMessage_def)
  have p3: "?Q p3"
  proof -
    have "wp (downloadAndAck W A ring ?row) (\<lambda>_. ?Q) (\<lambda>_. ?Q) p2"
      unfolding downloadAndAck_def upsert_def row(3) option.case wp_simps wp_call [OF assms(1)]
      using reg by (simp add: row dels split: prod.split sum.split)
    then show ?thesis unfolding p3_def wp_always .
  qed
  have "receive W A ring ids groupId [d, m] p = p3"
    using reg order by (simp add: receive_def loadDeletions_def assms(2) prune_def p1_def [symmetric] p3_def)
  with p3 p1 show ?thesis by auto
qed

text \<open>A row that is removed while its file is on its way is written back when the file is there.\<close>

lemma download_brings_back:
  assumes "lm_file m = Some f" and "lm_fileState m = Some Remote" and "lm_retry m = None"
    and "Option.bind (lm_keyEpoch m) (keyForEpoch ring) = Some key" and "api_download A (fr_r2Key f) (ph_world p) = (Inr ciphertext, w)"
    and "decryptMessageFile W key (lm_id m) ciphertext (fr_iv f) = Some plaintext" and "api_disk A w"
    and "\<forall>h. getMessage (lm_id m) (api_meanwhile A w h) = None"
  shows "\<exists>p'. fetch_file W A ring m f p = (Inr (Some (m\<lparr>lm_fileState := Some Downloaded, lm_retry := None\<rparr>)), p')
    \<and> getMessage (lm_id m) (ph_history p') = Some (m\<lparr>lm_fileState := Some Downloaded, lm_retry := None\<rparr>)"
  unfolding fetch_file_def
  by (simp add: bindS_def readS_def throwing_def liftE_def upsert_def writeS_def attempt_def call_def assms(3-7) retryDue_def
      settle_file_def retS_def Let_def)

section \<open>A poll, run\<close>

definition plain_message :: "string \<Rightarrow> PendingMessage" where
  "plain_message i = \<lparr>pm_id = i, pm_keyEpoch = 2, pm_senderDeviceId = ''pc'', pm_senderNameEnc = None, pm_senderNameIv = None,
     pm_senderNameEpoch = None, pm_encryptedPayload = None, pm_iv = None, pm_fileR2Key = None, pm_fileIv = None, pm_fileMeta = None,
     pm_fileMetaIv = None, pm_deletesMessageId = None, pm_createdAt = 50, pm_signature = None\<rparr>"

definition poll_api :: "string list api" where
  "poll_api = outbox_api\<lparr>api_ack := (\<lambda>i w. (Inr (), i # w))\<rparr>"

definition poll_ring :: "nat Keyring" where
  "poll_ring = \<lparr>kr_current = 2, kr_keys = [(2, 7)]\<rparr>"

text \<open>One message was deleted before; one has a file that does not arrive.\<close>

definition poll_phone :: "string list phone" where
  "poll_phone = (let waiting = (sample_order ''f'' StSent)\<lparr>lm_deletes := None, lm_direction := Incoming, lm_keyEpoch := Some 2,
       lm_fileState := Some Remote, lm_file := Some \<lparr>fr_r2Key = ''k'', fr_iv = ''iv'', fr_name = ''n'', fr_size = IntN 3, fr_mime = ''t''\<rparr>\<rparr>
     in \<lparr>ph_history = \<lparr>hi_rows = [waiting], hi_shown = [waiting], hi_files = [], hi_deletions = Some [(''gone'', 900)]\<rparr>,
         ph_attempts = [], ph_world = []\<rparr>)"

definition polled :: "string list phone" where
  "polled = receive clear_crypto poll_api poll_ring [] ''space'' [plain_message ''m'', plain_message ''f'', plain_message ''gone''] poll_phone"

lemma poll_api_ok: "tracks_acks poll_api set" "undisturbed poll_api"
  by (auto simp: tracks_acks_def undisturbed_def poll_api_def outbox_api_def)

theorem acked_when_complete_witness:
  "ph_world polled = [''m'', ''gone''] \<and> (\<exists>m. getMessage ''m'' (ph_history polled) = Some m \<and> complete (ph_history polled) m)"
proof -
  have run: "ph_world polled = [''m'', ''gone'']"
      "orders [plain_message ''m'', plain_message ''f'', plain_message ''gone''] = {}" "targets [plain_message ''m'', plain_message ''f'', plain_message ''gone''] = {}"
    by code_simp (auto simp: orders_def targets_def plain_message_def truthy_def)
  have "distinct (map pm_id [plain_message ''m'', plain_message ''f'', plain_message ''gone''])"
    "fst (loadDeletions (api_now poll_api (ph_world poll_phone)) (ph_history poll_phone)) = [(''gone'', 900)]"
    "map lm_id (hi_shown (ph_history poll_phone)) = [''f'']" "ph_world poll_phone = []"
    by code_simp+
  with acked_when_complete [OF poll_api_ok this(1) polled_def [symmetric], of "''m''"] run show ?thesis
    by (auto simp: map_eq_Cons_conv)
qed

theorem deleted_stays_away_witness: "getMessage ''gone'' (ph_history polled) = None"
  unfolding polled_def
  by (rule deleted_stays_away [OF poll_api_ok, where at = 900]; code_simp)

end
