(* ===== verification/Delivery.thy ===== *)
theory Delivery
  imports Receive Files
begin

text \<open>
  A message from one device to another: what \<open>sendQueuedContent\<close> puts on the wire (apps/web/src/sync/outbox.ts), what the
  server reads from it, stores and hands out (apps/worker/src/routes/messages.ts, routes/files.ts), and what
  \<open>registerIncoming\<close> makes of it (apps/web/src/sync/sync.ts). The api of the outbox is a \<open>connection\<close> to the server
  of this model: what it answers is what the handlers answer. The lemmas read each field of a request back and follow a
  message through the three parts; the properties say that it arrives as it was sent, at every device that is to
  have it, and that what was altered on the way is not shown as verified. The witness sends a message through the
  handlers themselves.
\<close>

section \<open>The request on the wire\<close>

lemma opt_field_of: "map_of (opt_field f v) g = (if f = g then map_option JStr v else None)"
  by (cases v) (auto simp: opt_field_def)

lemma content_body_fields:
  "jfield (content_body W C i epoch pl) ''id'' = Some (JStr i)"
  "jfield (content_body W C i epoch pl) ''keyEpoch'' = Some (JNum (IntN epoch))"
  "jfield (content_body W C i epoch pl) ''encryptedPayload'' = map_option JStr (pl_encryptedPayload pl)"
  "jfield (content_body W C i epoch pl) ''iv'' = map_option JStr (pl_iv pl)"
  "jfield (content_body W C i epoch pl) ''fileR2Key'' = map_option JStr (pl_fileR2Key pl)"
  "jfield (content_body W C i epoch pl) ''fileIv'' = map_option JStr (pl_fileIv pl)"
  "jfield (content_body W C i epoch pl) ''fileMeta'' = map_option JStr (pl_fileMeta pl)"
  "jfield (content_body W C i epoch pl) ''fileMetaIv'' = map_option JStr (pl_fileMetaIv pl)"
  "jfield (content_body W C i epoch pl) ''signature''
     = map_option (\<lambda>priv. JStr (signStatement W priv (content_statement C i epoch pl))) (fc_sign C)"
  "jfield (content_body W C i epoch pl) ''deletesMessageId'' = None"
  by (auto simp: content_body_def jfield_def map_add_def opt_field_of option.map_comp comp_def split: option.split)

lemma read_string: "optionalString (map_option JStr v) n = Inr v' \<Longrightarrow> v' = v"
  by (cases v) (auto simp: optionalString_def requireString_def bindE_def split: if_splits sum.splits)

lemma read_id: "requireId (Some (JStr s)) = Inr s' \<Longrightarrow> s' = s"
  by (auto simp: requireId_def requireString_def bindE_def split: if_splits sum.splits)

lemma read_optional_id: "optional_id (map_option JStr v) = Inr v' \<Longrightarrow> v' = v"
  by (cases v) (auto simp: optional_id_def bindE_def dest: read_id split: sum.splits)

lemma read_int: "requireInt (Some (JNum (IntN e))) lo hi = Inr e' \<Longrightarrow> e' = e"
  by (auto simp: requireInt_def split: if_splits)

lemma bindE_InrD: "bindE r f = Inr y \<Longrightarrow> \<exists>x. r = Inr x \<and> f x = Inr y"
  by (cases r) (simp_all add: bindE_def)

lemma parsed_fields:
  assumes "parse_message body = Inr r"
  shows "requireId (jfield body ''id'') = Inr (sm_id r)" "requireInt (jfield body ''keyEpoch'') 1 MAX_SAFE_INTEGER = Inr (sm_keyEpoch r)"
    "optionalString (jfield body ''encryptedPayload'') 1000000 = Inr (sm_encryptedPayload r)"
    "optionalString (jfield body ''iv'') 128 = Inr (sm_iv r)" "optional_id (jfield body ''fileR2Key'') = Inr (sm_fileR2Key r)"
    "optionalString (jfield body ''fileIv'') 128 = Inr (sm_fileIv r)" "optionalString (jfield body ''fileMeta'') 8192 = Inr (sm_fileMeta r)"
    "optionalString (jfield body ''fileMetaIv'') 128 = Inr (sm_fileMetaIv r)"
    "optionalString (jfield body ''signature'') 512 = Inr (sm_signature r)"
    "optional_id (jfield body ''deletesMessageId'') = Inr (sm_deletesMessageId r)"
proof -
  from assms obtain i e p iv f fiv fm fmiv sg del where
    parts: "requireId (jfield body ''id'') = Inr i" "requireInt (jfield body ''keyEpoch'') 1 MAX_SAFE_INTEGER = Inr e"
      "optionalString (jfield body ''encryptedPayload'') 1000000 = Inr p" "optionalString (jfield body ''iv'') 128 = Inr iv"
      "optional_id (jfield body ''fileR2Key'') = Inr f" "optionalString (jfield body ''fileIv'') 128 = Inr fiv"
      "optionalString (jfield body ''fileMeta'') 8192 = Inr fm" "optionalString (jfield body ''fileMetaIv'') 128 = Inr fmiv"
      "optionalString (jfield body ''signature'') 512 = Inr sg" "optional_id (jfield body ''deletesMessageId'') = Inr del"
    and r: "r = \<lparr>sm_id = i, sm_keyEpoch = e, sm_encryptedPayload = p, sm_iv = iv, sm_fileR2Key = f, sm_fileIv = fiv, sm_fileMeta = fm,
      sm_fileMetaIv = fmiv, sm_signature = sg, sm_deletesMessageId = del\<rparr>"
    unfolding parse_message_def by (elim bindE_InrD [THEN exE] conjE) blast
  show "requireId (jfield body ''id'') = Inr (sm_id r)" "requireInt (jfield body ''keyEpoch'') 1 MAX_SAFE_INTEGER = Inr (sm_keyEpoch r)"
    "optionalString (jfield body ''encryptedPayload'') 1000000 = Inr (sm_encryptedPayload r)"
    "optionalString (jfield body ''iv'') 128 = Inr (sm_iv r)" "optional_id (jfield body ''fileR2Key'') = Inr (sm_fileR2Key r)"
    "optionalString (jfield body ''fileIv'') 128 = Inr (sm_fileIv r)" "optionalString (jfield body ''fileMeta'') 8192 = Inr (sm_fileMeta r)"
    "optionalString (jfield body ''fileMetaIv'') 128 = Inr (sm_fileMetaIv r)"
    "optionalString (jfield body ''signature'') 512 = Inr (sm_signature r)"
    "optional_id (jfield body ''deletesMessageId'') = Inr (sm_deletesMessageId r)"
    using parts by (simp_all add: r)
qed

text \<open>What is not empty and within its bounds is read as it was written; an empty string is refused.\<close>

lemma present_string: "optionalString (map_option JStr v) n = Inr v' \<Longrightarrow> v \<noteq> Some []"
  by (cases v) (auto simp: optionalString_def requireString_def bindE_def split: if_splits)

lemma present_id: "optional_id (map_option JStr v) = Inr v' \<Longrightarrow> v \<noteq> Some []"
  by (cases v) (auto simp: optional_id_def requireId_def requireString_def bindE_def split: if_splits)

lemma parsed_content:
  assumes "parse_message (content_body W C i epoch pl) = Inr r"
  shows "r = \<lparr>sm_id = i, sm_keyEpoch = epoch, sm_encryptedPayload = pl_encryptedPayload pl, sm_iv = pl_iv pl,
    sm_fileR2Key = pl_fileR2Key pl, sm_fileIv = pl_fileIv pl, sm_fileMeta = pl_fileMeta pl, sm_fileMetaIv = pl_fileMetaIv pl,
    sm_signature = map_option (\<lambda>priv. signStatement W priv (content_statement C i epoch pl)) (fc_sign C),
    sm_deletesMessageId = None\<rparr>"
    "\<forall>v \<in> {pl_encryptedPayload pl, pl_iv pl, pl_fileR2Key pl, pl_fileIv pl, pl_fileMeta pl, pl_fileMetaIv pl}. v \<noteq> Some []"
    "fc_sign C = Some priv \<Longrightarrow> signStatement W priv (content_statement C i epoch pl) \<noteq> []"
proof -
  let ?sig = "map_option (\<lambda>priv. signStatement W priv (content_statement C i epoch pl)) (fc_sign C)"
  have sig: "map_option (\<lambda>priv. JStr (signStatement W priv (content_statement C i epoch pl))) (fc_sign C) = map_option JStr ?sig"
    by (simp add: option.map_comp comp_def)
  note f = parsed_fields [OF assms, unfolded content_body_fields sig]
  have none: "optional_id None = Inr v \<longleftrightarrow> v = None" for v by (auto simp: optional_id_def)
  show "r = \<lparr>sm_id = i, sm_keyEpoch = epoch, sm_encryptedPayload = pl_encryptedPayload pl, sm_iv = pl_iv pl,
    sm_fileR2Key = pl_fileR2Key pl, sm_fileIv = pl_fileIv pl, sm_fileMeta = pl_fileMeta pl, sm_fileMetaIv = pl_fileMetaIv pl,
    sm_signature = ?sig, sm_deletesMessageId = None\<rparr>"
    using f(10) read_id [OF f(1)] read_int [OF f(2)] read_string [OF f(3)] read_string [OF f(4)] read_optional_id [OF f(5)]
      read_string [OF f(6)] read_string [OF f(7)] read_string [OF f(8)] read_string [OF f(9)] by (simp add: none)
  show "\<forall>v \<in> {pl_encryptedPayload pl, pl_iv pl, pl_fileR2Key pl, pl_fileIv pl, pl_fileMeta pl, pl_fileMetaIv pl}. v \<noteq> Some []"
    using present_string [OF f(3)] present_string [OF f(4)] present_id [OF f(5)] present_string [OF f(6)]
      present_string [OF f(7)] present_string [OF f(8)] by simp
  show "fc_sign C = Some priv \<Longrightarrow> signStatement W priv (content_statement C i epoch pl) \<noteq> []"
    using present_string [OF f(9)] by simp
qed

section \<open>The metadata, sealed and read back\<close>

text \<open>A size and a place in an album are numbers that JSON can carry.\<close>

definition finite_meta :: "LocalMessage \<Rightarrow> bool" where
  "finite_meta m \<longleftrightarrow> (\<forall>f. lm_file m = Some f \<longrightarrow> fr_size f \<noteq> NotFinite)
     \<and> (\<forall>b. lm_batch m = Some b \<longrightarrow> ba_index b \<noteq> NotFinite \<and> ba_count b \<noteq> NotFinite)"

definition meta_list :: "LocalMessage \<Rightarrow> (string \<times> json) list" where
  "meta_list m = (case lm_file m of None \<Rightarrow> [] | Some f \<Rightarrow> [(''name'', JStr (fr_name f)), (''size'', JNum (fr_size f)), (''mime'', JStr (fr_mime f))])
          @ (case lm_batch m of None \<Rightarrow> [] | Some b \<Rightarrow> [(''batchId'', JStr (ba_id b)), (''batchIndex'', JNum (ba_index b)),
              (''batchCount'', JNum (ba_count b))])
          @ (if lm_viewOnce m then [(''viewOnce'', JBool True)] else [])"

lemma metaFor_list: "metaFor m = Some v \<longleftrightarrow> meta_list m \<noteq> [] \<and> v = JObj (meta_list m)"
  unfolding metaFor_def meta_list_def [symmetric] Let_def by auto

lemma meta_list_fields:
  "map_of (meta_list m) ''name'' = map_option (\<lambda>f. JStr (fr_name f)) (lm_file m)"
  "map_of (meta_list m) ''size'' = map_option (\<lambda>f. JNum (fr_size f)) (lm_file m)"
  "map_of (meta_list m) ''mime'' = map_option (\<lambda>f. JStr (fr_mime f)) (lm_file m)"
  "map_of (meta_list m) ''batchId'' = map_option (\<lambda>b. JStr (ba_id b)) (lm_batch m)"
  "map_of (meta_list m) ''batchIndex'' = map_option (\<lambda>b. JNum (ba_index b)) (lm_batch m)"
  "map_of (meta_list m) ''batchCount'' = map_option (\<lambda>b. JNum (ba_count b)) (lm_batch m)"
  "map_of (meta_list m) ''viewOnce'' = (if lm_viewOnce m then Some (JBool True) else None)"
  "finite_meta m \<Longrightarrow> json_plain (JObj (meta_list m))"
  by (cases "lm_file m"; cases "lm_batch m"; simp add: meta_list_def finite_meta_def)+

lemma meta_plain: "metaFor m = Some v \<Longrightarrow> finite_meta m \<Longrightarrow> json_plain v"
  using meta_list_fields(8) by (simp add: metaFor_list del: json_plain.simps)

lemma meta_fields:
  assumes "metaFor m = Some v"
  shows "json_truthy v" "meta_batch v = lm_batch m" "meta_viewOnce v = lm_viewOnce m"
    "lm_file m = Some f \<Longrightarrow> truthy (pm_fileR2Key pm) \<Longrightarrow> truthy (pm_fileIv pm) \<Longrightarrow>
      meta_file pm v = Some (f\<lparr>fr_r2Key := the (pm_fileR2Key pm), fr_iv := the (pm_fileIv pm)\<rparr>)"
proof -
  from assms have v: "v = JObj (meta_list m)" by (simp add: metaFor_list)
  note defs = v meta_list_fields(1-7) meta_batch_def meta_viewOnce_def meta_file_def json_truthy_def string_field_def number_field_def
    jfield_def or_else_def
  show "json_truthy v" by (simp add: defs)
  show "meta_batch v = lm_batch m" by (cases "lm_batch m") (simp_all add: defs)
  show "meta_viewOnce v = lm_viewOnce m" by (simp add: defs)
  show "meta_file pm v = Some (f\<lparr>fr_r2Key := the (pm_fileR2Key pm), fr_iv := the (pm_fileIv pm)\<rparr>)"
    if "lm_file m = Some f" "truthy (pm_fileR2Key pm)" "truthy (pm_fileIv pm)"
    using that by (simp add: defs)
qed

lemma no_meta: "metaFor m = None \<Longrightarrow> lm_file m = None \<and> lm_batch m = None \<and> \<not> lm_viewOnce m"
  by (auto simp: metaFor_def Let_def split: option.splits if_splits)

section \<open>From one device to another\<close>

lemma read_part_run:
  assumes "carried \<longleftrightarrow> x \<noteq> None" and "carried \<Longrightarrow> r = x"
  shows "\<exists>q. read_part carried scope r p = (Inr (map_option Some x), q) \<and> unchanged p q"
  using assms by (cases x) (auto simp: read_part_def decrypt_within_budget_def bindS_def retS_def writeS_def unchanged_def)

lemma registers_new:
  assumes "getLocalMessage (pm_id pm) (ph_history p) = None" and "keyForEpoch ring (pm_keyEpoch pm) = Some key"
    and t: "truthy (pm_encryptedPayload pm) \<and> truthy (pm_iv pm) \<longleftrightarrow> txt \<noteq> None"
      "txt \<noteq> None \<Longrightarrow> decryptMessageText W key (pm_id pm) (the (pm_encryptedPayload pm)) (the (pm_iv pm)) = txt"
    and v: "truthy (pm_fileMeta pm) \<and> truthy (pm_fileMetaIv pm) \<longleftrightarrow> meta \<noteq> None"
      "meta \<noteq> None \<Longrightarrow> decryptMessageMeta W key (pm_id pm) (the (pm_fileMeta pm)) (the (pm_fileMetaIv pm)) = meta"
    and "verifyDeviceSignature W ids (pm_senderDeviceId pm) (incoming_statement groupId pm) (pm_signature pm) = Some verdict"
  shows "\<exists>p'. registerIncoming W ring ids groupId pm p = (Inr (incoming_row W ring pm (map_option Some txt) (map_option Some meta) verdict), p')
    \<and> ph_history p' = upsertMessage (incoming_row W ring pm (map_option Some txt) (map_option Some meta) verdict) (ph_history p)"
proof -
  obtain q where q: "read_part (truthy (pm_encryptedPayload pm) \<and> truthy (pm_iv pm)) (messageContext_text (pm_id pm))
      (decryptMessageText W key (pm_id pm) (the (pm_encryptedPayload pm)) (the (pm_iv pm))) p = (Inr (map_option Some txt), q)" "unchanged p q"
    using read_part_run [OF t(1) t(2)] t(1) by blast
  obtain q' where q': "read_part (truthy (pm_fileMeta pm) \<and> truthy (pm_fileMetaIv pm)) (messageContext_meta (pm_id pm))
      (decryptMessageMeta W key (pm_id pm) (the (pm_fileMeta pm)) (the (pm_fileMetaIv pm))) q = (Inr (map_option Some meta), q')" "unchanged q q'"
    using read_part_run [OF v(1) v(2)] v(1) by blast
  have "registerIncoming W ring ids groupId pm p = (let local = incoming_row W ring pm (map_option Some txt) (map_option Some meta) verdict in
      bindS (upsert local) (\<lambda>_. retS local)) q'"
    unfolding registerIncoming_def throwing_def using assms(1,2,7) q(1) q'(1) by (simp add: bindS_def readS_def liftE_def)
  then show ?thesis using q(2) q'(2) by (simp add: bindS_def upsert_def writeS_def retS_def Let_def unchanged_def)
qed

lemma sealed_text_opens:
  assumes "webcrypto_ok W" and "lm_text m = Some t"
  shows "decryptMessageText W key (lm_id m) (the (pl_encryptedPayload (seal_payload W C m key upl))) (the (pl_iv (seal_payload W C m key upl))) = Some t"
  using assms by (simp add: seal_payload_def Let_def decryptMessageText_def encryptMessageText_def decrypt_encrypt_text)

lemma sealed_meta_opens:
  assumes "webcrypto_ok W" and "metaFor m = Some v" and "json_plain v"
  shows "decryptMessageMeta W key (lm_id m) (the (pl_fileMeta (seal_payload W C m key upl))) (the (pl_fileMetaIv (seal_payload W C m key upl))) = Some v"
  using assms by (simp add: seal_payload_def Let_def decryptMessageMeta_def encryptMessageMeta_def decrypt_encrypt_json)

text \<open>The message as the receiving device is handed it.\<close>

lemma handed_out:
  assumes "parse_message (content_body W C (lm_id m) epoch pl) = Inr r" and "au_deviceId a = fc_deviceId C"
  shows "\<exists>ne ni nn. with_sender s (new_message a r now) = \<lparr>pm_id = lm_id m, pm_keyEpoch = epoch, pm_senderDeviceId = fc_deviceId C,
     pm_senderNameEnc = ne, pm_senderNameIv = ni, pm_senderNameEpoch = nn, pm_encryptedPayload = pl_encryptedPayload pl, pm_iv = pl_iv pl,
     pm_fileR2Key = pl_fileR2Key pl, pm_fileIv = pl_fileIv pl, pm_fileMeta = pl_fileMeta pl, pm_fileMetaIv = pl_fileMetaIv pl,
     pm_deletesMessageId = None, pm_createdAt = now,
     pm_signature = map_option (\<lambda>priv. signStatement W priv (content_statement C (lm_id m) epoch pl)) (fc_sign C)\<rparr>"
  using assms(2) by (simp add: with_sender_def new_message_def parsed_content(1) [OF assms(1)] Let_def)

text \<open>The request that \<open>sendQueuedContent\<close> makes, once the server has accepted it and hands it out, registers as the
  message it was made from.\<close>

lemma request_registers:
  assumes W: "webcrypto_ok W" and fin: "finite_meta m"
    and upl: "map_option (file_content \<circ> fst) upl = map_option file_content (lm_file m)" "\<forall>f iv. upl = Some (f, iv) \<longrightarrow> iv \<noteq> []"
    and parse: "parse_message (content_body W C (lm_id m) epoch (seal_payload W C m key upl)) = Inr r"
    and sign: "fc_sign C = Some priv"
    and key: "keyForEpoch ring epoch = Some key"
    and ids: "map_of ids (fc_deviceId C) = Some entry" "dy_signingPublicKey entry = Some (exportPublicKey W (public_of W priv))"
      "exportPublicKey W (public_of W priv) \<noteq> []"
    and a: "au_deviceId a = fc_deviceId C"
    and new: "getLocalMessage (lm_id m) (ph_history p) = None"
  shows "\<exists>row p'. registerIncoming W ring ids (fc_groupId C) (with_sender s (new_message a r now)) p = (Inr row, p')
    \<and> getMessage (lm_id m) (ph_history p') = Some row \<and> lm_text row = lm_text m
    \<and> map_option file_content (lm_file row) = map_option file_content (lm_file m) \<and> lm_batch row = lm_batch m
    \<and> lm_viewOnce row = lm_viewOnce m \<and> lm_senderDeviceId row = fc_deviceId C \<and> lm_senderVerified row = Some Verified
    \<and> \<not> lm_corrupted row
    \<and> (\<forall>data ivB rnd ct iv f. upl = Some (f, iv) \<and> encryptMessageFile W key (lm_id m) data ivB rnd = Some (ct, iv) \<longrightarrow>
         (\<exists>f'. lm_file row = Some f' \<and> decryptMessageFile W key (lm_id m) ct (fr_iv f') = Some data))"
proof -
  define pl where "pl = seal_payload W C m key upl"
  from handed_out [OF parse a, folded pl_def, of s now] obtain ne ni nn where
    pm: "with_sender s (new_message a r now) = \<lparr>pm_id = lm_id m, pm_keyEpoch = epoch, pm_senderDeviceId = fc_deviceId C,
     pm_senderNameEnc = ne, pm_senderNameIv = ni, pm_senderNameEpoch = nn, pm_encryptedPayload = pl_encryptedPayload pl, pm_iv = pl_iv pl,
     pm_fileR2Key = pl_fileR2Key pl, pm_fileIv = pl_fileIv pl, pm_fileMeta = pl_fileMeta pl, pm_fileMetaIv = pl_fileMetaIv pl,
     pm_deletesMessageId = None, pm_createdAt = now,
     pm_signature = Some (signStatement W priv (content_statement C (lm_id m) epoch pl))\<rparr>" (is "_ = ?pm")
    by (auto simp: sign)
  note present = parsed_content(2,3) [OF parse, folded pl_def]
  have verdict: "verifyDeviceSignature W ids (fc_deviceId C) (incoming_statement (fc_groupId C) ?pm)
      (Some (signStatement W priv (content_statement C (lm_id m) epoch pl))) = Some Verified"
    using verdict_of_signed [OF W ids present(2) [OF sign]] by (simp add: incoming_statement_def content_statement_def)
  let ?row = "incoming_row W ring ?pm (map_option Some (lm_text m)) (map_option Some (metaFor m)) Verified"
  have carries: "(truthy (pl_encryptedPayload pl) \<and> truthy (pl_iv pl)) = (lm_text m \<noteq> None)"
      "(truthy (pl_fileMeta pl) \<and> truthy (pl_fileMetaIv pl)) = (metaFor m \<noteq> None)"
    using present(1) by (auto simp: pl_def seal_payload_def Let_def truthy_def)
  have opens: "lm_text m = Some t \<Longrightarrow> decryptMessageText W key (lm_id m) (the (pl_encryptedPayload pl)) (the (pl_iv pl)) = Some t"
      "metaFor m = Some v \<Longrightarrow> decryptMessageMeta W key (lm_id m) (the (pl_fileMeta pl)) (the (pl_fileMetaIv pl)) = Some v" for t v
    using sealed_text_opens [OF W, of m] sealed_meta_opens [OF W _ meta_plain [OF _ fin]] unfolding pl_def by auto
  obtain p' where reg: "registerIncoming W ring ids (fc_groupId C) ?pm p = (Inr ?row, p')" "ph_history p' = upsertMessage ?row (ph_history p)"
    using registers_new [of ?pm p ring key "lm_text m" W "metaFor m" ids "fc_groupId C" Verified] new key carries opens verdict by auto
  have f: "case upl of None \<Rightarrow> lm_file ?row = None \<and> lm_file m = None
      | Some (f', iv) \<Rightarrow> \<exists>f. lm_file m = Some f \<and> lm_file ?row = Some (f\<lparr>fr_r2Key := fr_r2Key f', fr_iv := iv\<rparr>) \<and> file_content f' = file_content f"
  proof (cases upl)
    case None
    then have "lm_file m = None" using upl(1) by simp
    moreover have "meta_file ?pm v = None" for v using None by (simp add: meta_file_def pl_def seal_payload_def Let_def truthy_def)
    ultimately show ?thesis using None by (auto simp: incoming_row_def Let_def split: option.split)
  next
    case (Some u)
    obtain f' iv where u: "u = (f', iv)" by (cases u)
    from Some u upl obtain f where f: "lm_file m = Some f" "file_content f' = file_content f" "iv \<noteq> []"
      by (cases "lm_file m") auto
    then obtain v where v: "metaFor m = Some v" using no_meta by (cases "metaFor m") auto
    have "pl_fileR2Key pl = Some (fr_r2Key f')" "pl_fileIv pl = Some iv" using Some u f(3) by (simp_all add: pl_def seal_payload_def Let_def)
    moreover from this present(1) have "truthy (pl_fileR2Key pl)" "truthy (pl_fileIv pl)" by (auto simp: truthy_def)
    ultimately have "meta_file ?pm v = Some (f\<lparr>fr_r2Key := fr_r2Key f', fr_iv := iv\<rparr>)"
      using meta_fields(4) [OF v f(1), of ?pm] by simp
    then show ?thesis using Some u f meta_fields(1) [OF v] by (simp add: incoming_row_def Let_def v)
  qed
  then have content: "map_option file_content (lm_file ?row) = map_option file_content (lm_file m)"
    by (auto simp: file_content_def split: option.splits)
  have flags: "lm_batch ?row = lm_batch m" "lm_viewOnce ?row = lm_viewOnce m"
    using meta_fields(1-3) [of m] no_meta [of m] by (cases "metaFor m"; auto simp: incoming_row_def Let_def)+
  have rest: "lm_id ?row = lm_id m" "lm_text ?row = lm_text m" "lm_senderDeviceId ?row = fc_deviceId C" "lm_senderVerified ?row = Some Verified" "\<not> lm_corrupted ?row"
    by (cases "lm_text m"; cases "metaFor m"; simp add: incoming_row_def Let_def)+
  have bytes: "\<exists>f'. lm_file ?row = Some f' \<and> decryptMessageFile W key (lm_id m) ct (fr_iv f') = Some data"
    if "upl = Some (g, iv)" "encryptMessageFile W key (lm_id m) data ivB rnd = Some (ct, iv)" for data ivB rnd ct iv g
    using f that decrypt_encrypt_file [OF W] by (auto simp: encryptMessageFile_def decryptMessageFile_def)
  have stored: "getMessage (lm_id m) (ph_history p') = Some ?row" using reg(2) rest(1) by simp
  show ?thesis unfolding pm using reg(1) stored content flags rest bytes by blast
qed

section \<open>The server, as the outbox meets it\<close>

text \<open>What the app is connected to: the deployment, the requests that carry a JSON body and the bytes of a file, and
  of the world the server's state, the bytes its bucket holds and its clock.\<close>

record 'w connection =
  sv_conf :: conf
  sv_post :: "json \<Rightarrow> request"
  sv_put :: "byte list \<Rightarrow> request"
  sv_env :: "'w \<Rightarrow> env"
  sv_object :: "'w \<Rightarrow> string \<Rightarrow> byte list option"
  sv_now :: "'w \<Rightarrow> int"

text \<open>The api is a connection to that server: a send or an upload that came back as done was done by the handler,
  and so was a send that came back as a conflict; of any other failure nothing is assumed. A body that the
  server can read is the body that was sent, and its bucket keeps the bytes of the objects it has.\<close>

definition serves :: "'w api \<Rightarrow> 'w connection \<Rightarrow> string \<Rightarrow> bool" where
  "serves A S g \<longleftrightarrow>
     (\<forall>body x. json_plain body \<and> request_json (sv_conf S) (sv_post S body) = Inr x \<longrightarrow> x = body)
     \<and> (\<forall>w. 0 < sv_now S w)
     \<and> (\<forall>body w r w'. api_send A body w = (r, w') \<longrightarrow>
          (r = Inr () \<longrightarrow> sendMessage (sv_conf S) (sv_post S body) (sv_now S w) (sv_env S w) = (Inr (), sv_env S w'))
          \<and> (r = Inl (ApiFailed Conflict) \<longrightarrow>
               sendMessage (sv_conf S) (sv_post S body) (sv_now S w) (sv_env S w) = (Inl (ApiError Conflict), sv_env S w'))
          \<and> (\<forall>k. bucket_has k (FILES (sv_env S w')) \<longrightarrow> sv_object S w' k = sv_object S w k))
     \<and> (\<forall>k d w w'. api_upload A k d w = (Inr (), w') \<longrightarrow>
          uploadFile (sv_conf S) (sv_put S d) k (sv_now S w) (sv_env S w) = (Inr (), sv_env S w')
          \<and> sv_object S w' (blobStorageKey g k) = Some d)"

lemma serves_body: "serves A S g \<Longrightarrow> json_plain body \<Longrightarrow> request_json (sv_conf S) (sv_post S body) = Inr x \<Longrightarrow> x = body"
  unfolding serves_def by (elim conjE) metis

lemma serves_now: "serves A S g \<Longrightarrow> 0 < sv_now S w"
  unfolding serves_def by (elim conjE) (erule spec)

lemma serves_send:
  assumes "serves A S g" and "api_send A body w = (r, w')"
  shows "r = Inr () \<Longrightarrow> sendMessage (sv_conf S) (sv_post S body) (sv_now S w) (sv_env S w) = (Inr (), sv_env S w')"
    "r = Inl (ApiFailed Conflict) \<Longrightarrow>
       sendMessage (sv_conf S) (sv_post S body) (sv_now S w) (sv_env S w) = (Inl (ApiError Conflict), sv_env S w')"
    "bucket_has k (FILES (sv_env S w')) \<Longrightarrow> sv_object S w' k = sv_object S w k"
  using assms unfolding serves_def by (elim conjE, metis)+

lemma serves_upload:
  assumes "serves A S g" and "api_upload A k d w = (Inr (), w')"
  shows "uploadFile (sv_conf S) (sv_put S d) k (sv_now S w) (sv_env S w) = (Inr (), sv_env S w')
    \<and> sv_object S w' (blobStorageKey g k) = Some d"
  using assms unfolding serves_def by (elim conjE) metis

text \<open>What does not concern the mail: the rows of uploads and the objects.\<close>

lemma uploadFile_mail: "uploadFile cf rq k now s = (Inr (), s') \<Longrightarrow> touches_files s s'"
proof -
  have put: "touches_files s (bs_put MESSAGE_FILES t s)" "touches_files s (bs_put_bucket MESSAGE_FILES b s)" for t b s
    by (simp_all add: MESSAGE_FILES_def touches_files_def)
  have iff: "touches_files s s1 \<longleftrightarrow> (\<exists>u f. s1 = s\<lparr>uploads := u, FILES := f\<rparr>)" for s s1
  proof
    show "touches_files s s1 \<Longrightarrow> \<exists>u f. s1 = s\<lparr>uploads := u, FILES := f\<rparr>" unfolding touches_files_def by blast
  qed (auto simp: touches_files_def)
  have trans: "touches_files s s1 \<Longrightarrow> touches_files s1 s2 \<Longrightarrow> touches_files s s2" for s s1 s2
    unfolding iff by (elim exE) (simp, blast)
  have reserve: "touches_files s s1" if "reserveBlob MESSAGE_FILES g i len quota now s = (x, s1)" for g i len quota s1 x
    using that put(1) by (auto simp: reserveBlob_def Let_def touches_files_refl split: if_splits prod.splits)
  have store: "touches_files s1 s2" if "store_body MESSAGE_FILES g i len body now s1 = (Inr (), s2)" for g i len body s1 s2
  proof -
    have "copy_body len body \<and> \<not> bs_down MESSAGE_FILES s1"
      using that store_body_err [of len body MESSAGE_FILES s1 g i now] by fastforce
    then have "s2 = snd (recordBlob MESSAGE_FILES g i len now (bs_put_bucket MESSAGE_FILES
        ((blobStorageKey g i, len) # bucket_delete [blobStorageKey g i] (bs_bucket MESSAGE_FILES s1)) s1))"
      using that by (simp add: store_body_ok)
    then show ?thesis using trans [OF put(2) put(1)] by (simp add: recordBlob_def writeS_def)
  qed
  assume "uploadFile cf rq k now s = (Inr (), s')"
  from wpD [OF receiveBlob_wp this [unfolded uploadFile_def]] obtain a :: AuthContext and len body s1 where
    "reserveBlob MESSAGE_FILES (au_groupId a) k len SPACE_PENDING_BYTES_QUOTA now s = (Inr True, s1)"
    "store_body MESSAGE_FILES (au_groupId a) k len body now s1 = (Inr (), s')" by blast
  then show ?thesis using trans reserve store by blast
qed

lemma authenticate_cong: "groups s' = groups s \<Longrightarrow> devices s' = devices s \<Longrightarrow> authenticate cf rq s' = authenticate cf rq s"
proof -
  assume g: "groups s' = groups s" and d: "devices s' = devices s"
  then have "group_of s' = group_of s" by (simp add: group_of_def fun_eq_iff)
  then show ?thesis unfolding authenticate_def d by (simp only:)
qed

subsection \<open>Sending a message\<close>

lemma request_json_Inl: "request_json cf rq = Inl e \<Longrightarrow> e \<noteq> ApiError Conflict"
proof -
  have chunks: "read_chunks acc cs \<noteq> Inl (ApiError Conflict)" for acc and cs :: "nat list list"
    by (induction acc cs rule: read_chunks.induct) auto
  have obj: "requireObject x \<noteq> Inl (ApiError Conflict)" for x by (cases x) (simp_all add: requireObject_def)
  assume "request_json cf rq = Inl e"
  then show ?thesis
    by (auto simp: request_json_def readJsonObject_def readJson_def obj bindE_Inl_iff check_content_length_def throwIf_Inl
        chunks split: option.splits json.splits)
qed

lemma optional_Inl: "optional_id v = Inl e \<Longrightarrow> e = ApiError BadRequest" "optionalString v n = Inl e \<Longrightarrow> e = ApiError BadRequest"
    "requireId v = Inl e \<Longrightarrow> e = ApiError BadRequest" "requireInt v lo hi = Inl e \<Longrightarrow> e = ApiError BadRequest"
  by (auto simp: optional_id_def optionalString_def requireId_def requireInt_def bindE_Inl_iff throwIf_Inl dest: requireString_Inl
      split: option.splits json.splits number.splits if_splits)

lemma parse_message_Inl: "parse_message body = Inl e \<Longrightarrow> e = ApiError BadRequest"
  unfolding parse_message_def bindE_Inl_iff by (auto dest: optional_Inl)

lemma check_message_Inl: "check_message k r = Inl e \<Longrightarrow> e = ApiError BadRequest"
  unfolding check_message_def Let_def bindE_Inl_iff throwIf_Inl by blast

text \<open>A new message that retracts nothing: when it is taken and there are devices to receive it, it is stored for each
  of them, its file being there; and it never conflicts.\<close>

definition content_stored :: "AuthContext \<Rightarrow> SendMessageRequest \<Rightarrow> int \<Rightarrow> env \<Rightarrow> env \<Rightarrow> bool" where
  "content_stored a r now s s' \<longleftrightarrow> (let recipients = messageRecipients s (au_groupId a) (au_deviceId a) in
     groups s' = groups s \<and> devices s' = devices s \<and> (recipients \<noteq> [] \<longrightarrow> s' = stored a r recipients now s
       \<and> (\<forall>k. sm_fileR2Key r = Some k \<longrightarrow> bucket_has (blobStorageKey (au_groupId a) k) (FILES s))))"

lemma content_send_accepted:
  assumes "messages_ok s" and "pk d_id (devices s)" and "\<forall>m \<in> set (messages s). m_id m \<noteq> sm_id r" and "sm_deletesMessageId r = None"
  shows "wp (send_accepted a r now) (\<lambda>_. content_stored a r now s) (\<lambda>e _. e \<noteq> ApiError Conflict) s"
proof -
  let ?R = "messageRecipients s (au_groupId a) (au_deviceId a)"
  have fresh: "\<not> exists_row (\<lambda>m. m_id m = sm_id r) (messages s)" "distinct ?R"
    "\<not> exists_row (\<lambda>d. ds_message_id d = sm_id r \<and> ds_device_id d \<in> set ?R) (delivery_status s)"
    using assms(3) no_orphan_delivery [OF assms(1,3)] recipients_distinct [OF assms(2)] by (auto simp: table_simps)
  have del: "wp (deleteBlob MESSAGE_FILES (au_groupId a) k) (\<lambda>_ s'. groups s' = groups s \<and> devices s' = devices s)
      (\<lambda>e _. e \<noteq> ApiError Conflict) s" for k
    by (rule wp_mono [OF deleteBlob_files_wp]) (auto dest: touches_files_same simp: same_keys_def)
  show ?thesis
    using fresh assms(4) del unfolding send_accepted_def store_message_def content_stored_def Let_def
    by (cases "sm_fileR2Key r"; cases "?R = []") (simp_all add: wp_simps notifySpace_def stored_def)
qed

lemma content_send:
  assumes "messages_ok s" and "pk d_id (devices s)" and "\<And>x. request_json cf rq = Inr x \<Longrightarrow> x = body"
    and "\<And>r. parse_message body = Inr r \<Longrightarrow> sm_deletesMessageId r = None \<and> (\<forall>m \<in> set (messages s). m_id m \<noteq> sm_id r)"
  shows "wp (sendMessage cf rq now)
    (\<lambda>_ s'. \<exists>a r. authenticate cf rq s = Inr a \<and> parse_message body = Inr r \<and> sm_keyEpoch r = au_groupKeyEpoch a
       \<and> content_stored a r now s s')
    (\<lambda>e _. e \<noteq> ApiError Conflict) s"
proof -
  define Q where "Q s' \<longleftrightarrow> (\<exists>a r. authenticate cf rq s = Inr a \<and> parse_message body = Inr r \<and> sm_keyEpoch r = au_groupKeyEpoch a
       \<and> content_stored a r now s s')" for s'
  have tail: "wp (send_accepted a r now) (\<lambda>_. Q) (\<lambda>e _. e \<noteq> ApiError Conflict) s"
    if "authenticate cf rq s = Inr a" "parse_message body = Inr r" "sm_keyEpoch r = au_groupKeyEpoch a" for a r
    by (rule wp_mono [OF content_send_accepted [OF assms(1,2)]]) (use that assms(4) in \<open>auto simp: Q_def\<close>)
  have either: "case v of Inl e \<Rightarrow> E e | Inr x \<Rightarrow> P x" if "\<And>e. v = Inl e \<Longrightarrow> E e" "\<And>x. v = Inr x \<Longrightarrow> P x"
    for v :: "failure + 'x" and E P using that by (cases v) simp_all
  have "wp (sendMessage cf rq now) (\<lambda>_. Q) (\<lambda>e _. e \<noteq> ApiError Conflict) s"
    unfolding sendMessage_def wp_bindS wp_authenticateS wp_liftE wp_readS wp_throwS
  proof (intro either)
    fix a x r assume a: "authenticate cf rq s = Inr a" and x: "request_json cf rq = Inr x" "parse_message x = Inr r"
    from assms(3) [OF x(1)] x(2) have "parse_message body = Inr r" by simp
    with assms(4) tail [OF a] show "if exists_row (\<lambda>m. m_id m = sm_id r) (messages s) then ApiError Conflict \<noteq> ApiError Conflict
        else if sm_keyEpoch r \<noteq> au_groupKeyEpoch a then ApiError KeyRotated \<noteq> ApiError Conflict
        else wp (send_accepted a r now) (\<lambda>_. Q) (\<lambda>e _. e \<noteq> ApiError Conflict) s"
      by (simp add: exists_row_iff)
  qed (use authenticate_Inl enforceRateLimit_Inl request_json_Inl parse_message_Inl check_message_Inl in blast)+
  then show ?thesis unfolding Q_def .
qed

subsection \<open>What the outbox sends\<close>

text \<open>The states of the server while one message is sent: what the upload does is none of the mail's business.\<close>

definition same_mail :: "env \<Rightarrow> env \<Rightarrow> bool" where
  "same_mail s s' \<longleftrightarrow> groups s' = groups s \<and> devices s' = devices s \<and> messages s' = messages s \<and> delivery_status s' = delivery_status s"

lemma same_mail_ok:
  "same_mail s s' \<Longrightarrow> messages_ok s' = messages_ok s \<and> pk d_id (devices s') = pk d_id (devices s) \<and> authenticate cf rq s' = authenticate cf rq s"
proof -
  assume same: "same_mail s s'"
  then have "authenticate cf rq s' = authenticate cf rq s" by (intro authenticate_cong) (simp_all add: same_mail_def)
  then show ?thesis using same by (simp add: same_mail_def messages_ok_def is_member_def)
qed

text \<open>What came of the file of a message: the reference and the IV that go on the wire, and the object.\<close>

definition uploaded :: "('k, 'pub, 'priv) webcrypto \<Rightarrow> 'w connection \<Rightarrow> string \<Rightarrow> LocalMessage \<Rightarrow> 'k \<Rightarrow> history \<Rightarrow> 'w
    \<Rightarrow> (FileRef \<times> string) option \<Rightarrow> bool" where
  "uploaded W S g m key h w upl \<longleftrightarrow> (case lm_file m of None \<Rightarrow> upl = None
     | Some f \<Rightarrow> \<exists>f' iv data mime ivB rnd ct. upl = Some (f', iv) \<and> file_content f' = file_content f \<and> iv \<noteq> []
         \<and> getFile (fr_r2Key f) h = Some (data, mime) \<and> encryptMessageFile W key (lm_id m) data ivB rnd = Some (ct, iv)
         \<and> sv_object S w (blobStorageKey g (fr_r2Key f)) = Some ct)"

lemma wp_call_any:
  "wp (call A f) Q E = (\<lambda>p. case f (ph_world p) of
      (Inl e, w) \<Rightarrow> E e (p\<lparr>ph_world := w, ph_history := api_meanwhile A w (ph_history p)\<rparr>)
    | (Inr x, w) \<Rightarrow> Q x (p\<lparr>ph_world := w, ph_history := api_meanwhile A w (ph_history p)\<rparr>))"
  by (auto simp: wp_def call_def fun_eq_iff split: prod.split sum.split)

lemma wp_throwIfAborted: "wp (throwIfAborted A) Q (\<lambda>_ _. True) = (\<lambda>p. api_aborted A (ph_world p) \<or> Q () p)"
  by (auto simp: wp_def throwIfAborted_def fun_eq_iff)

lemma wp_ignore_sent: "wp (ignore_sent m) Q (\<lambda>_ _. True) = wp m Q (\<lambda>e p. isAlreadySent e \<longrightarrow> Q () p)"
  by (auto simp: wp_def ignore_sent_def fun_eq_iff split: prod.split sum.split)

lemma wp_update_message: "wp (update_message C m) Q E = (\<lambda>p. Q () (snd (update_message C m p)))"
  by (auto simp: wp_def update_message_def fun_eq_iff)

lemma update_message_other:
  "ph_world (snd (update_message C m p)) = ph_world p"
  "(\<And>m h. getFile k (fc_notify C m h) = getFile k h) \<Longrightarrow> getFile k (ph_history (snd (update_message C m p))) = getFile k (ph_history p)"
  by (simp_all add: update_message_def putMessage_def getFile_def)

lemmas wp_outbox = wp_call_any wp_throwIfAborted wp_ignore_sent wp_update_message

lemma iv_of_file:
  assumes "encryptMessageFile W key i data (Some pinned) rnd = Some (ct, iv)" and "rnd \<noteq> []"
    and "pinned = [] \<or> base64UrlToBuf pinned \<noteq> Some []"
  shows "iv \<noteq> []"
proof -
  from assms obtain b where "b \<noteq> []" "iv = bufToBase64Url b"
    by (auto simp: encryptMessageFile_def encryptFile_def bind_eq_Some_conv split: list.splits)
  then show ?thesis using encoded_length [of b] by (cases b) auto
qed

lemma upload_source_run:
  assumes "serves A S g" and "\<forall>m h k. getFile k (fc_notify C m h) = getFile k h" and "fc_random C (lm_id m) ''file'' \<noteq> []"
    and "lm_file m = Some f" and "fr_iv f = [] \<or> base64UrlToBuf (fr_iv f) \<noteq> Some []"
  shows "wp (upload_source W A C m epoch key f)
    (\<lambda>u p'. same_mail (sv_env S (ph_world p)) (sv_env S (ph_world p')) \<and> uploaded W S g m key (ph_history p) (ph_world p') (Some u))
    (\<lambda>_ _. True) p"
proof -
  have up: "same_mail (sv_env S w) (sv_env S w') \<and> sv_object S w' (blobStorageKey g k) = Some d"
    if "api_upload A k d w = (Inr (), w')" for k d w w'
    using serves_upload [OF assms(1) that] touches_files_same [OF uploadFile_mail] by (auto simp: same_mail_def same_keys_def)
  have pinned: "bufToBase64Url (fc_random C (lm_id m) ''file'') = [] \<or>
      base64UrlToBuf (bufToBase64Url (fc_random C (lm_id m) ''file'')) \<noteq> Some []"
    using assms(3) by simp
  let ?f = "if fr_iv f = [] then f\<lparr>fr_iv := bufToBase64Url (fc_random C (lm_id m) ''file'')\<rparr> else f"
  have f: "fr_r2Key ?f = fr_r2Key f" "file_content ?f = file_content f" "fr_iv ?f = [] \<or> base64UrlToBuf (fr_iv ?f) \<noteq> Some []"
    using pinned assms(5) by (auto simp: file_content_def)
  note run = upload_source_def Let_def wp_simps wp_outbox update_message_other f(1)
  show ?thesis
  proof (cases "getFile (fr_r2Key f) (ph_history p)")
    case blob: (Some blob)
    obtain data mime where data: "blob = (data, mime)" by (cases blob)
    show ?thesis
    proof (cases "encryptMessageFile W key (lm_id m) data (Some (fr_iv ?f)) (fc_random C (lm_id m) ''file'')")
      case sealed: (Some c)
      obtain ct iv where c: "c = (ct, iv)" by (cases c)
      obtain r w where call: "api_upload A (fr_r2Key f) ct (ph_world p) = (r, w)" by (cases "api_upload A (fr_r2Key f) ct (ph_world p)")
      show ?thesis
      proof (cases r)
        case (Inr u)
        with up [of "fr_r2Key f" ct "ph_world p" w] call sealed iv_of_file [OF sealed [unfolded c] assms(3) f(3)] blob assms(4) f(2)
        have "same_mail (sv_env S (ph_world p)) (sv_env S w)" "uploaded W S g m key (ph_history p) w (Some (?f, iv))"
          unfolding uploaded_def by (auto simp: data c)
        then show ?thesis using blob data sealed c call Inr by (simp add: run)
      qed (use blob data sealed c call in \<open>simp add: run\<close>)
    qed (use blob data in \<open>simp add: run\<close>)
  qed (simp add: run)
qed

text \<open>When a message was sent, some body of its content was taken, or conflicted, at a server that was otherwise as
  before.\<close>

lemma sendQueuedContent_run:
  assumes "serves A S g" and "\<forall>m h k. getFile k (fc_notify C m h) = getFile k h" and "fc_random C (lm_id m) ''file'' \<noteq> []"
    and "\<forall>f. lm_file m = Some f \<longrightarrow> fr_iv f = [] \<or> base64UrlToBuf (fr_iv f) \<noteq> Some []"
  shows "wp (sendQueuedContent W (A :: 'w api) C m)
    (\<lambda>_ p'. \<exists>epoch key upl w r. keyForEpoch (fc_keyring C) epoch = Some key \<and> same_mail (sv_env S (ph_world p)) (sv_env S w)
       \<and> uploaded W S g m key (ph_history p) w upl \<and> (r = Inr () \<or> r = Inl (ApiFailed Conflict))
       \<and> api_send A (content_body W C (lm_id m) epoch (seal_payload W C m key upl)) w = (r, ph_world p'))
    (\<lambda>_ _. True) p"
proof -
  define Q where "Q p' \<longleftrightarrow> (\<exists>epoch key upl w r. keyForEpoch (fc_keyring C) epoch = Some key \<and> same_mail (sv_env S (ph_world p)) (sv_env S w)
       \<and> uploaded W S g m key (ph_history p) w upl \<and> (r = Inr () \<or> r = Inl (ApiFailed Conflict))
       \<and> api_send A (content_body W C (lm_id m) epoch (seal_payload W C m key upl)) w = (r, ph_world p'))" for p' :: "'w phone"
  have QI: "Q p'" if "keyForEpoch (fc_keyring C) epoch = Some key" "same_mail (sv_env S (ph_world p)) (sv_env S w)"
      "uploaded W S g m key (ph_history p) w upl" "r = Inr () \<or> r = Inl (ApiFailed Conflict)"
      "api_send A (content_body W C (lm_id m) epoch (seal_payload W C m key upl)) w = (r, ph_world p')" for p' :: "'w phone" and epoch key upl w r
    unfolding Q_def using that by blast
  define go where "go epoch key upl = bindS (throwIfAborted A) (\<lambda>_. bindS (throwIfAborted A) (\<lambda>_.
     bindS (ignore_sent (call A (api_send A (content_body W C (lm_id m) epoch (seal_payload W C m key upl))))) (\<lambda>_.
     update_message C (m\<lparr>lm_file := (case upl of None \<Rightarrow> lm_file m | Some (f, _) \<Rightarrow> Some f), lm_keyEpoch := Some epoch,
       lm_retry := None, lm_status := StSent\<rparr>))))" for epoch key upl
  have go: "wp (go epoch key upl) (\<lambda>_. Q) (\<lambda>_ _. True) q"
    if "keyForEpoch (fc_keyring C) epoch = Some key" "same_mail (sv_env S (ph_world p)) (sv_env S (ph_world q))"
      "uploaded W S g m key (ph_history p) (ph_world q) upl" for epoch key upl q
    unfolding go_def wp_simps wp_outbox
    using QI [OF that] by (auto simp: isAlreadySent_def update_message_other split: prod.split sum.split)
  have mail: "same_mail s s" for s by (simp add: same_mail_def)
  define body where "body epoch key = bindS (case lm_file m of None \<Rightarrow> retS None
     | Some f \<Rightarrow> bindS (upload_source W A C m epoch key f) (\<lambda>r. retS (Some r))) (go epoch key)" for epoch key
  have body: "wp (body epoch key) (\<lambda>_. Q) (\<lambda>_ _. True) q"
    if key: "keyForEpoch (fc_keyring C) epoch = Some key" and q: "ph_world q = ph_world p" "\<And>k. getFile k (ph_history q) = getFile k (ph_history p)"
    for epoch key q
  proof (cases "lm_file m")
    case None
    then show ?thesis using go [OF key, of q None] by (simp add: body_def wp_simps q mail uploaded_def)
  next
    case (Some f)
    have "wp (upload_source W A C m epoch key f) (\<lambda>u. wp (go epoch key (Some u)) (\<lambda>_. Q) (\<lambda>_ _. True)) (\<lambda>_ _. True) q"
      by (rule wp_mono [OF upload_source_run [OF assms(1-3) Some]])
        (use assms(4) Some q go [OF key] in \<open>auto simp: uploaded_def\<close>)
    with Some show ?thesis by (simp add: body_def wp_simps)
  qed
  have "wp (pinEpoch C m) (\<lambda>(epoch, key). wp (body epoch key) (\<lambda>_. Q) (\<lambda>_ _. True)) (\<lambda>_ _. True) p"
    unfolding pinEpoch_def Let_def wp_simps wp_update_message
    using assms(2) by (auto split: option.split sum.split intro!: body simp: update_message_other currentKey_def bind_eq_Some_conv)
  then have "wp (sendQueuedContent W A C m) (\<lambda>_. Q) (\<lambda>_ _. True) p"
    unfolding sendQueuedContent_def go_def [symmetric] body_def [symmetric] by (simp add: wp_bindS wp_throwIfAborted case_prod_beta')
  then show ?thesis unfolding Q_def .
qed

lemma body_plain: "json_plain (content_body W C i epoch pl)"
proof -
  have once: "distinct (map fst (opt_field f v))" for f v by (cases v) (simp_all add: opt_field_def)
  have names: "(f, x) \<in> set (opt_field f' v) \<Longrightarrow> f = f' \<and> json_plain x" for f f' x v by (cases v) (simp_all add: opt_field_def)
  show ?thesis
    unfolding content_body_def json_plain.simps using once by (auto dest!: names)
qed

text \<open>A poll that is not full lists what is pending for the caller.\<close>

lemma poll_lists:
  assumes "pendingMessages cf rq None s = (Inr resp, s')" and "authenticate cf rq s = Inr b" and "x \<in> set (messages s)"
    and "0 < m_created_at x" and "r \<in> set (delivery_status s)" "is_pending (m_id x) r" "ds_device_id r = au_deviceId b"
    and "length (pr_messages resp) < 200"
  shows "with_sender s x \<in> set (pr_messages resp) \<and> pr_keyEpoch resp = au_groupKeyEpoch b"
proof -
  have "wp (pendingMessages cf rq None) (\<lambda>y t. pr_keyEpoch y = au_groupKeyEpoch b
      \<and> pr_messages y = map (with_sender s) (take 200 (sort_key m_created_at (pending_rows s (au_deviceId b) 0)))) (\<lambda>_ _. True) s"
    unfolding pendingMessages_def wp_simps using assms(2) by (simp add: parse_since_def)
  from wpD [OF this assms(1)] have resp: "pr_keyEpoch resp = au_groupKeyEpoch b"
    "pr_messages resp = map (with_sender s) (take 200 (sort_key m_created_at (pending_rows s (au_deviceId b) 0)))" by blast+
  with assms(8) have "take 200 (sort_key m_created_at (pending_rows s (au_deviceId b) 0)) = sort_key m_created_at (pending_rows s (au_deviceId b) 0)"
    by simp
  moreover have "x \<in> set (pending_rows s (au_deviceId b) 0)" using assms(3-7) by (auto simp: pending_rows_def)
  ultimately show ?thesis using resp by simp
qed

text \<open>What the server took when a send ended well.\<close>

lemma send_taken:
  assumes "serves A S (fc_groupId C)" and "fc_random C (lm_id m) ''file'' \<noteq> []" "\<forall>m h k. getFile k (fc_notify C m h) = getFile k h"
    and me: "\<forall>body a. authenticate (sv_conf S) (sv_post S body) (sv_env S (ph_world p)) = Inr a
         \<longrightarrow> au_groupId a = fc_groupId C \<and> au_deviceId a = fc_deviceId C"
    and m: "\<forall>f. lm_file m = Some f \<longrightarrow> fr_iv f = [] \<or> base64UrlToBuf (fr_iv f) \<noteq> Some []"
    and start: "messages_ok (sv_env S (ph_world p))" "pk d_id (devices (sv_env S (ph_world p)))"
      "\<forall>x \<in> set (messages (sv_env S (ph_world p))). m_id x \<noteq> lm_id m"
    and run: "sendQueuedContent W A C m p = (Inr (), p1)"
  shows "\<exists>epoch key upl w a r. keyForEpoch (fc_keyring C) epoch = Some key \<and> uploaded W S (fc_groupId C) m key (ph_history p) w upl
    \<and> api_send A (content_body W C (lm_id m) epoch (seal_payload W C m key upl)) w = (Inr (), ph_world p1)
    \<and> parse_message (content_body W C (lm_id m) epoch (seal_payload W C m key upl)) = Inr r \<and> sm_keyEpoch r = au_groupKeyEpoch a
    \<and> authenticate (sv_conf S) (sv_post S (content_body W C (lm_id m) epoch (seal_payload W C m key upl))) (sv_env S w) = Inr a
    \<and> au_groupId a = fc_groupId C \<and> au_deviceId a = fc_deviceId C \<and> pk d_id (devices (sv_env S w))
    \<and> content_stored a r (sv_now S w) (sv_env S w) (sv_env S (ph_world p1))"
proof -
  from wpD [OF sendQueuedContent_run [OF assms(1,3,2) m] run] obtain epoch key upl w x where
    key: "keyForEpoch (fc_keyring C) epoch = Some key" and mail: "same_mail (sv_env S (ph_world p)) (sv_env S w)"
    and upl: "uploaded W S (fc_groupId C) m key (ph_history p) w upl" and x: "x = Inr () \<or> x = Inl (ApiFailed Conflict)"
    and send: "api_send A (content_body W C (lm_id m) epoch (seal_payload W C m key upl)) w = (x, ph_world p1)" by blast
  define body where "body = content_body W C (lm_id m) epoch (seal_payload W C m key upl)"
  note send = send [folded body_def]
  have mid: "messages_ok (sv_env S w)" "pk d_id (devices (sv_env S w))" "\<forall>x \<in> set (messages (sv_env S w)). m_id x \<noteq> lm_id m"
    using start same_mail_ok [OF mail] mail by (simp_all add: same_mail_def)
  have parsed: "sm_deletesMessageId r = None \<and> (\<forall>m \<in> set (messages (sv_env S w)). m_id m \<noteq> sm_id r)"
    if "parse_message body = Inr r" for r
    using parsed_content(1) [OF that [unfolded body_def]] mid(3) by simp
  have plain: "json_plain body" unfolding body_def by (rule body_plain)
  note sending = content_send [OF mid(1,2) serves_body [OF assms(1) plain] parsed]
  have ok: "x = Inr ()" using x wpD_err [OF sending serves_send(2) [OF assms(1) send]] by blast
  from wpD [OF sending serves_send(1) [OF assms(1) send ok]] obtain a r where
    a: "authenticate (sv_conf S) (sv_post S body) (sv_env S w) = Inr a" "parse_message body = Inr r"
      "sm_keyEpoch r = au_groupKeyEpoch a" "content_stored a r (sv_now S w) (sv_env S w) (sv_env S (ph_world p1))" by blast
  moreover have "au_groupId a = fc_groupId C" "au_deviceId a = fc_deviceId C"
    using me a(1) same_mail_ok [OF mail] by metis+
  ultimately show ?thesis using key upl send [unfolded ok] mid(2) unfolding body_def by blast
qed

text \<open>And what a poll of another device then lists.\<close>

lemma send_polled:
  assumes st: "content_stored a r now s s1" and a: "authenticate cf rq' s = Inr a" and "pk d_id (devices s)" and "0 < now"
    and r: "sm_keyEpoch r = au_groupKeyEpoch a"
    and d: "d \<in> set (devices s1)" "d_group_id d = au_groupId a" "active d" "\<not> d_send_only d" "d_id d \<noteq> au_deviceId a"
    and poll: "authenticate cf rq s1 = Inr b" "au_deviceId b = d_id d" "pendingMessages cf rq None s1 = (Inr resp, s2)"
      "length (pr_messages resp) < 200"
  shows "with_sender s1 (new_message a r now) \<in> set (pr_messages resp) \<and> pr_keyEpoch resp = sm_keyEpoch r
    \<and> (\<forall>k. sm_fileR2Key r = Some k \<longrightarrow> bucket_has (blobStorageKey (au_groupId a) k) (FILES s1))"
proof -
  define R where "R = messageRecipients s (au_groupId a) (au_deviceId a)"
  have same: "groups s1 = groups s" "devices s1 = devices s" using st by (simp_all add: content_stored_def Let_def)
  have R: "au_deviceId b \<in> set R" using d same(2) poll(2) by (auto simp: R_def messageRecipients_def)
  then have s1: "s1 = stored a r R now s"
    and there: "\<forall>k. sm_fileR2Key r = Some k \<longrightarrow> bucket_has (blobStorageKey (au_groupId a) k) (FILES s1)"
    using st by (auto simp: content_stored_def Let_def R_def stored_def)
  have "with_sender s1 (new_message a r now) \<in> set (pr_messages resp) \<and> pr_keyEpoch resp = au_groupKeyEpoch b"
  proof (rule poll_lists [OF poll(3,1) _ _ _ _ _ poll(4)])
    show "\<lparr>ds_message_id = sm_id r, ds_device_id = au_deviceId b, ds_downloaded_at = None\<rparr> \<in> set (delivery_status s1)"
      using R by (auto simp: s1 stored_def delivery_rows_def)
  qed (simp_all add: s1 stored_def new_message_def is_pending_def \<open>0 < now\<close>)
  moreover have "au_groupKeyEpoch b = au_groupKeyEpoch a"
  proof -
    obtain d' where "d' \<in> set (devices s1)" "d_id d' = au_deviceId b" "d_group_id d' = au_groupId b" using authenticate_device [OF poll(1)] by blast
    with d(1,2) poll(2) assms(3) same(2) have "au_groupId b = au_groupId a" by (metis pk_unique)
    moreover have "group_of s1 = group_of s" by (simp add: group_of_def same(1) fun_eq_iff)
    ultimately show ?thesis using authenticate_group [OF poll(1)] authenticate_group [OF a] by auto
  qed
  ultimately show ?thesis using r there by simp
qed

section \<open>From the outbox to the inbox\<close>

text \<open>C30. End to end: what one device sends reaches every other device of the space. When \<open>sendQueuedContent\<close> ends
  well for a message new to the server, every device of the space that is active, receives, and is not the
  sender is handed it by its next poll, sealed under the epoch the space is at; on a device that holds the sender's
  key for that epoch and its signing key it registers with the same text, the same file, album and flags, from
  that sender, its signature verified and nothing corrupted; and the server has an object for its file, whose bytes
  decrypt to the file that was sent. The server and its bucket are the ones of the model, met through the api.\<close>

theorem message_delivered:
  assumes "webcrypto_ok W" and "serves A S (fc_groupId C)"
    and sender: "fc_sign C = Some priv" "fc_random C (lm_id m) ''file'' \<noteq> []" "\<forall>m h k. getFile k (fc_notify C m h) = getFile k h"
      "\<forall>body a. authenticate (sv_conf S) (sv_post S body) (sv_env S (ph_world p)) = Inr a
         \<longrightarrow> au_groupId a = fc_groupId C \<and> au_deviceId a = fc_deviceId C"
    and m: "finite_meta m" "\<forall>f. lm_file m = Some f \<longrightarrow> fr_iv f = [] \<or> base64UrlToBuf (fr_iv f) \<noteq> Some []"
    and start: "messages_ok (sv_env S (ph_world p))" "pk d_id (devices (sv_env S (ph_world p)))"
      "\<forall>x \<in> set (messages (sv_env S (ph_world p))). m_id x \<noteq> lm_id m"
    and run: "sendQueuedContent W A C m p = (Inr (), p1)"
    and d: "d \<in> set (devices (sv_env S (ph_world p1)))" "d_group_id d = fc_groupId C" "active d" "\<not> d_send_only d" "d_id d \<noteq> fc_deviceId C"
    and poll: "authenticate (sv_conf S) rq (sv_env S (ph_world p1)) = Inr b" "au_deviceId b = d_id d"
      "pendingMessages (sv_conf S) rq None (sv_env S (ph_world p1)) = (Inr resp, s)" "length (pr_messages resp) < 200"
    and reader: "keyForEpoch ring (pr_keyEpoch resp) = keyForEpoch (fc_keyring C) (pr_keyEpoch resp)" "map_of ids (fc_deviceId C) = Some entry"
      "dy_signingPublicKey entry = Some (exportPublicKey W (public_of W priv))" "exportPublicKey W (public_of W priv) \<noteq> []"
      "getLocalMessage (lm_id m) (ph_history q) = None"
  shows "\<exists>pm \<in> set (pr_messages resp). pm_id pm = lm_id m \<and> pm_keyEpoch pm = pr_keyEpoch resp
    \<and> (\<exists>row q'. registerIncoming W ring ids (fc_groupId C) pm q = (Inr row, q') \<and> getMessage (lm_id m) (ph_history q') = Some row
        \<and> lm_text row = lm_text m \<and> map_option file_content (lm_file row) = map_option file_content (lm_file m)
        \<and> lm_batch row = lm_batch m \<and> lm_viewOnce row = lm_viewOnce m \<and> lm_senderDeviceId row = fc_deviceId C
        \<and> lm_senderVerified row = Some Verified \<and> \<not> lm_corrupted row
        \<and> (\<forall>f data mime. lm_file m = Some f \<and> getFile (fr_r2Key f) (ph_history p) = Some (data, mime) \<longrightarrow>
             (\<exists>f' key ct. lm_file row = Some f' \<and> keyForEpoch ring (pm_keyEpoch pm) = Some key
                \<and> bucket_has (blobStorageKey (fc_groupId C) (fr_r2Key f')) (FILES (sv_env S (ph_world p1)))
                \<and> sv_object S (ph_world p1) (blobStorageKey (fc_groupId C) (fr_r2Key f')) = Some ct
                \<and> decryptMessageFile W key (lm_id m) ct (fr_iv f') = Some data)))"
proof -
  let ?s1 = "sv_env S (ph_world p1)"
  from send_taken [OF assms(2) sender(2-4) m(2) start run] obtain epoch key upl w a r where
    key: "keyForEpoch (fc_keyring C) epoch = Some key" and upl: "uploaded W S (fc_groupId C) m key (ph_history p) w upl"
    and send: "api_send A (content_body W C (lm_id m) epoch (seal_payload W C m key upl)) w = (Inr (), ph_world p1)"
    and r: "parse_message (content_body W C (lm_id m) epoch (seal_payload W C m key upl)) = Inr r" "sm_keyEpoch r = au_groupKeyEpoch a"
    and a: "authenticate (sv_conf S) (sv_post S (content_body W C (lm_id m) epoch (seal_payload W C m key upl))) (sv_env S w) = Inr a"
    and me: "au_groupId a = fc_groupId C" "au_deviceId a = fc_deviceId C" and pk: "pk d_id (devices (sv_env S w))"
    and st: "content_stored a r (sv_now S w) (sv_env S w) ?s1" by blast
  let ?new = "new_message a r (sv_now S w)"
  note read = parsed_content(1) [OF r(1)]
  have listed: "with_sender ?s1 ?new \<in> set (pr_messages resp)" "pr_keyEpoch resp = epoch"
    and there: "\<forall>k. sm_fileR2Key r = Some k \<longrightarrow> bucket_has (blobStorageKey (fc_groupId C) k) (FILES ?s1)"
    using send_polled [OF st a pk serves_now [OF assms(2)] r(2) d [folded me] poll] read by (simp_all add: me)
  have ids: "pm_id (with_sender ?s1 ?new) = lm_id m" "pm_keyEpoch (with_sender ?s1 ?new) = epoch"
    using read by (simp_all add: with_sender_def new_message_def Let_def)
  have ring: "keyForEpoch ring epoch = Some key" using reader(1) listed(2) key by simp
  have pair: "map_option (file_content \<circ> fst) upl = map_option file_content (lm_file m)" "\<forall>f iv. upl = Some (f, iv) \<longrightarrow> iv \<noteq> []"
    using upl by (auto simp: uploaded_def split: option.splits)
  from request_registers [OF assms(1) m(1) pair r(1) sender(1) ring reader(2-4) me(2) reader(5), of ?s1 "sv_now S w"]
  obtain row q' where reg: "registerIncoming W ring ids (fc_groupId C) (with_sender ?s1 ?new) q = (Inr row, q')"
    "getMessage (lm_id m) (ph_history q') = Some row" "lm_text row = lm_text m"
    "map_option file_content (lm_file row) = map_option file_content (lm_file m)" "lm_batch row = lm_batch m"
    "lm_viewOnce row = lm_viewOnce m" "lm_senderDeviceId row = fc_deviceId C" "lm_senderVerified row = Some Verified" "\<not> lm_corrupted row"
    and bytes: "\<And>data ivB rnd ct iv f. upl = Some (f, iv) \<Longrightarrow> encryptMessageFile W key (lm_id m) data ivB rnd = Some (ct, iv) \<Longrightarrow>
         \<exists>f'. lm_file row = Some f' \<and> decryptMessageFile W key (lm_id m) ct (fr_iv f') = Some data" by blast
  have "\<exists>f' ct. lm_file row = Some f' \<and> bucket_has (blobStorageKey (fc_groupId C) (fr_r2Key f')) (FILES ?s1)
      \<and> sv_object S (ph_world p1) (blobStorageKey (fc_groupId C) (fr_r2Key f')) = Some ct
      \<and> decryptMessageFile W key (lm_id m) ct (fr_iv f') = Some data"
    if f: "lm_file m = Some f" and data: "getFile (fr_r2Key f) (ph_history p) = Some (data, mime)" for f data mime
  proof -
    from upl f data obtain f1 iv ivB rnd ct where u: "upl = Some (f1, iv)" "file_content f1 = file_content f" "iv \<noteq> []"
      "encryptMessageFile W key (lm_id m) data ivB rnd = Some (ct, iv)" "sv_object S w (blobStorageKey (fc_groupId C) (fr_r2Key f)) = Some ct"
      by (auto simp: uploaded_def)
    from bytes [OF u(1,4)] obtain f' where f': "lm_file row = Some f'" "decryptMessageFile W key (lm_id m) ct (fr_iv f') = Some data" by blast
    have keys: "fr_r2Key f' = fr_r2Key f" "fr_r2Key f1 = fr_r2Key f" using reg(4) f f'(1) u(2) by (simp_all add: file_content_def)
    have "sm_fileR2Key r = Some (fr_r2Key f)"
      using read u(1,3) keys(2) by (simp add: seal_payload_def Let_def)
    with there have "bucket_has (blobStorageKey (fc_groupId C) (fr_r2Key f)) (FILES ?s1)" by blast
    with serves_send(3) [OF assms(2) send] u(5) f' keys(1) show ?thesis by auto
  qed
  with reg listed ids ring show ?thesis by (intro bexI [OF _ listed(1)]) auto
qed

lemma registered_verdict:
  assumes "getLocalMessage (pm_id pm) (ph_history p) = None" and "registerIncoming W ring ids groupId pm p = (Inr row, p')"
  shows "verifyDeviceSignature W ids (pm_senderDeviceId pm) (incoming_statement groupId pm) (pm_signature pm) = lm_senderVerified row"
proof -
  have "wp (registerIncoming W ring ids groupId pm) (\<lambda>row _. verifyDeviceSignature W ids (pm_senderDeviceId pm)
      (incoming_statement groupId pm) (pm_signature pm) = lm_senderVerified row) (\<lambda>_ _. True) p"
    unfolding registerIncoming_def throwing_def wp_simps assms(1) option.case
    by (auto simp: wp_liftE wp_bindS wp_retS upsert_def wp_writeS Let_def incoming_row_def split: option.split
        intro!: wp_unchanged part_unchanged)
  then show ?thesis using assms(2) by (simp add: wp_def)
qed

text \<open>C31. What the server changes is not shown as verified. A message that carries a signature its sender made, but
  over other contents, under another id, epoch or space, for another file or in another sender's name than the
  message now claims, registers with the verdict invalid.\<close>

theorem altered_not_verified:
  assumes "webcrypto_ok W"
    and "map_of ids (pm_senderDeviceId pm) = Some entry" "dy_signingPublicKey entry = Some (exportPublicKey W (public_of W priv))"
      "exportPublicKey W (public_of W priv) \<noteq> []"
    and "pm_signature pm = Some (signStatement W priv (messageSignatureStatement f))" "signStatement W priv (messageSignatureStatement f) \<noteq> []"
    and "f \<noteq> \<lparr>mf_groupId = groupId, mf_messageId = pm_id pm, mf_senderDeviceId = pm_senderDeviceId pm, mf_keyEpoch = pm_keyEpoch pm,
       mf_encryptedPayload = pm_encryptedPayload pm, mf_iv = pm_iv pm, mf_fileR2Key = pm_fileR2Key pm, mf_fileIv = pm_fileIv pm,
       mf_fileMeta = pm_fileMeta pm, mf_fileMetaIv = pm_fileMetaIv pm\<rparr>" (is "f \<noteq> ?f")
    and "list_all colon_free [mf_groupId f, mf_messageId f, mf_senderDeviceId f]" "list_all colon_free [groupId, pm_id pm, pm_senderDeviceId pm]"
    and "getLocalMessage (pm_id pm) (ph_history p) = None" and "registerIncoming W ring ids groupId pm p = (Inr row, p')"
  shows "lm_senderVerified row = Some Invalid"
proof -
  have "messageSignatureStatement ?f \<noteq> messageSignatureStatement f"
    using message_statement_inj [of ?f f] assms(7-9) by auto
  then show ?thesis
    using registered_verdict [OF assms(10,11)] verdict_of_signed [OF assms(1-4,6), of "incoming_statement groupId pm"] assms(5)
    by (simp add: incoming_statement_def)
qed

section \<open>At a concrete input\<close>

text \<open>Sealing and signing that only frame: short enough for the bounds of the wire, and as faithful as \<open>webcrypto_ok\<close>
  asks.\<close>

definition framed :: "byte list \<Rightarrow> byte list" where
  "framed xs = replicate (length xs) 1 @ 0 # xs"

lemma framed_inj: "framed xs @ r = framed ys @ s \<Longrightarrow> xs = ys \<and> r = s"
proof -
  have "length xs = length ys" if "replicate (length xs) (1 :: byte) @ 0 # u = replicate (length ys) 1 @ 0 # v" for xs ys :: "byte list" and u v
    using that
  proof (induction xs arbitrary: ys)
    case Nil
    then show ?case by (cases ys) simp_all
  next
    case (Cons x xs)
    then show ?case by (cases ys) simp_all
  qed
  then show "framed xs @ r = framed ys @ s \<Longrightarrow> xs = ys \<and> r = s" unfolding framed_def
    by (metis (no_types, lifting) append.assoc append_Cons append_eq_append_conv list.inject)
qed

definition seal_frame :: "nat \<Rightarrow> byte list \<Rightarrow> byte list option \<Rightarrow> byte list" where
  "seal_frame k iv a = framed (replicate k 0) @ framed iv @ framed (case a of None \<Rightarrow> [] | Some x \<Rightarrow> 1 # x)"

definition framing_crypto :: "(nat, nat, nat) webcrypto" where
  "framing_crypto = clear_crypto\<lparr>gcm_encrypt := (\<lambda>k iv a p. seal_frame k iv a @ p),
     gcm_decrypt := (\<lambda>k iv a c. if take (length (seal_frame k iv a)) c = seal_frame k iv a then Some (drop (length (seal_frame k iv a)) c) else None),
     ecdsa_sign := (\<lambda>k m. framed (replicate k 0) @ m), ecdsa_verify := (\<lambda>p s m. s = framed (replicate p 0) @ m)\<rparr>"

lemma seal_frame_inj: "seal_frame k iv a @ r = seal_frame k' iv' a' @ s \<Longrightarrow> k = k' \<and> iv = iv' \<and> a = a' \<and> r = s"
proof -
  assume "seal_frame k iv a @ r = seal_frame k' iv' a' @ s"
  then have 1: "framed (replicate k 0) @ framed iv @ framed (case a of None \<Rightarrow> [] | Some x \<Rightarrow> 1 # x) @ r
      = framed (replicate k' 0) @ framed iv' @ framed (case a' of None \<Rightarrow> [] | Some x \<Rightarrow> 1 # x) @ s"
    by (simp add: seal_frame_def)
  from framed_inj [OF 1] have k: "k = k'" and 2: "framed iv @ framed (case a of None \<Rightarrow> [] | Some x \<Rightarrow> 1 # x) @ r
      = framed iv' @ framed (case a' of None \<Rightarrow> [] | Some x \<Rightarrow> 1 # x) @ s" by (auto simp: replicate_eq_replicate)
  from framed_inj [OF 2] have iv: "iv = iv'" and 3: "framed (case a of None \<Rightarrow> [] | Some x \<Rightarrow> 1 # x) @ r
      = framed (case a' of None \<Rightarrow> [] | Some x \<Rightarrow> 1 # x) @ s" by auto
  from framed_inj [OF 3] k iv show ?thesis by (auto split: option.splits)
qed

lemma framing_crypto_ok: "webcrypto_ok framing_crypto"
proof -
  have "gcm_decrypt framing_crypto k' iv' a' (gcm_encrypt framing_crypto k iv a p) = (if (k', iv', a') = (k, iv, a) then Some p else None)" for k iv a p k' iv' a'
  proof (cases "(k', iv', a') = (k, iv, a)")
    case False
    have "take (length (seal_frame k' iv' a')) (seal_frame k iv a @ p) \<noteq> seal_frame k' iv' a'"
      using seal_frame_inj [of k' iv' a' "drop (length (seal_frame k' iv' a')) (seal_frame k iv a @ p)" k iv a p] False
      by (metis append_take_drop_id)
    then show ?thesis using False by (simp add: framing_crypto_def)
  qed (simp add: framing_crypto_def)
  moreover have "ecdsa_verify framing_crypto (public_of framing_crypto k) (ecdsa_sign framing_crypto k m) m' \<longleftrightarrow> m' = m" for k m m'
    by (auto simp: framing_crypto_def clear_crypto_def)
  ultimately show ?thesis using clear_crypto_ok unfolding webcrypto_ok_def by (simp add: framing_crypto_def)
qed

definition greeting :: LocalMessage where
  "greeting = (sample_order ''t'' StQueued)\<lparr>lm_deletes := None, lm_text := Some ''hi''\<rparr>"

definition greeter :: "(nat, nat) flush_context" where
  "greeter = outbox_context\<lparr>fc_sign := Some 5, fc_random := (\<lambda>i u. [1])\<rparr>"

definition greeting_payload :: Payload where
  "greeting_payload = seal_payload framing_crypto greeter greeting 7 None"

definition greeter_keys :: DeviceIdentities where
  "greeter_keys = [(''phone'', \<lparr>dy_publicKey = ''k'', dy_signingPublicKey = Some (exportPublicKey framing_crypto (public_of framing_crypto 5)), dy_trust = Scanned\<rparr>)]"

definition greeter_auth :: AuthContext where
  "greeter_auth = \<lparr>au_groupId = ''space'', au_deviceId = ''phone'', au_role = Member, au_keyEpoch = 2, au_groupKeyEpoch = 2,
     au_rotationPending = False, au_hasSigningKey = True, au_vaultSeq = 0\<rparr>"

lemma greeting_payload:
  "\<exists>ct. greeting_payload = \<lparr>pl_encryptedPayload = Some ct, pl_iv = Some (bufToBase64Url [1]), pl_fileR2Key = None, pl_fileIv = None,
     pl_fileMeta = None, pl_fileMetaIv = None\<rparr> \<and> length ct = 47"
proof -
  have meta: "metaFor greeting = None" by code_simp
  have ctx: "length (messageContext_text ''t'') = 6" by code_simp
  show ?thesis
    unfolding greeting_payload_def seal_payload_def meta
    by (simp add: greeting_def greeter_def encryptMessageText_def encryptText_def framing_crypto_def encoded_length seal_frame_def
        framed_def aad_def clear_crypto_def sample_order_def outbox_context_def ctx)
qed

lemma greeting_statement: "length (signStatement framing_crypto 5 (content_statement greeter ''t'' 2 greeting_payload)) = 138"
proof -
  obtain ct where pl: "greeting_payload = \<lparr>pl_encryptedPayload = Some ct, pl_iv = Some (bufToBase64Url [1]), pl_fileR2Key = None, pl_fileIv = None,
     pl_fileMeta = None, pl_fileMetaIv = None\<rparr>" "length ct = 47" using greeting_payload by blast
  have nums: "int_str 2 = ''2''" "nat_str 47 = ''47''" "nat_str 2 = ''2''" by code_simp+
  show ?thesis
    by (simp add: pl signStatement_def content_statement_def messageSignatureStatement_def statement_part_def framing_crypto_def
        framed_def clear_crypto_def encoded_length greeter_def outbox_context_def nums)
qed

lemma greeting_accepted: "\<exists>r. parse_message (content_body framing_crypto greeter (lm_id greeting) 2 greeting_payload) = Inr r"
proof -
  obtain ct where pl: "greeting_payload = \<lparr>pl_encryptedPayload = Some ct, pl_iv = Some (bufToBase64Url [1]), pl_fileR2Key = None, pl_fileIv = None,
     pl_fileMeta = None, pl_fileMetaIv = None\<rparr>" "length ct = 47" using greeting_payload by blast
  have "ct \<noteq> []" "bufToBase64Url [1] \<noteq> []" "signStatement framing_crypto 5 (content_statement greeter ''t'' 2 greeting_payload) \<noteq> []"
    using pl(2) encoded_length [of "[1]"] greeting_statement by auto
  moreover have "lm_id greeting = ''t''" "list_all id_char ''t''" by code_simp+
  moreover have "length (bufToBase64Url [1]) = 2" by (simp add: encoded_length)
  ultimately show ?thesis using greeting_statement pl(2)
    unfolding parse_message_def content_body_fields
    by (simp add: pl(1) requireId_def requireString_def requireInt_def optionalString_def optional_id_def bindE_def greeter_def
        MAX_SAFE_INTEGER_def)
qed

definition greeting_request :: SendMessageRequest where
  "greeting_request = projr (parse_message (content_body framing_crypto greeter (lm_id greeting) 2 greeting_payload))"

text \<open>The api that runs the handlers: the world is the server's state and the bytes of its objects.\<close>

definition told :: "failure + unit \<Rightarrow> client_error + unit" where
  "told r = (case r of Inr u \<Rightarrow> Inr u | Inl (ApiError c) \<Rightarrow> Inl (ApiFailed c) | Inl _ \<Rightarrow> Inl (ApiFailed Internal))"

definition handler_api :: "conf \<Rightarrow> (json \<Rightarrow> request) \<Rightarrow> (byte list \<Rightarrow> request) \<Rightarrow> string \<Rightarrow> int \<Rightarrow> (env \<times> (string \<Rightarrow> byte list option)) api" where
  "handler_api cf post put g now = \<lparr>
     api_send = (\<lambda>body (s, held). case sendMessage cf (post body) now s of (r, s') \<Rightarrow>
       (told r, s', \<lambda>k. if bucket_has k (FILES s') then held k else None)),
     api_upload = (\<lambda>k d (s, held). case uploadFile cf (put d) k now s of (r, s') \<Rightarrow>
       (told r, s', if r = Inr () then held(blobStorageKey g k := Some d) else held)),
     api_download = (\<lambda>k (s, held). (case held (blobStorageKey g k) of None \<Rightarrow> Inl (ApiFailed NotFound) | Some d \<Rightarrow> Inr d, s, held)),
     api_ack = (\<lambda>i w. (Inl NetworkFailed, w)), api_disk = (\<lambda>w. True), api_aborted = (\<lambda>w. False), api_onLine = (\<lambda>w. None),
     api_now = (\<lambda>w. now), api_meanwhile = (\<lambda>w h. h)\<rparr>"

definition handler_server :: "conf \<Rightarrow> (json \<Rightarrow> request) \<Rightarrow> (byte list \<Rightarrow> request) \<Rightarrow> int \<Rightarrow> (env \<times> (string \<Rightarrow> byte list option)) connection" where
  "handler_server cf post put now = \<lparr>sv_conf = cf, sv_post = post, sv_put = put, sv_env = fst, sv_object = snd, sv_now = (\<lambda>_. now)\<rparr>"

lemma told_iff: "told r = Inr () \<longleftrightarrow> r = Inr ()" "told r = Inl (ApiFailed Conflict) \<longleftrightarrow> r = Inl (ApiError Conflict)"
  by (auto simp: told_def split: sum.split failure.split)

lemma handler_api_serves:
  assumes "\<And>body x. request_json cf (post body) = Inr x \<Longrightarrow> x = body" and "0 < now"
  shows "serves (handler_api cf post put g now) (handler_server cf post put now) g"
  unfolding serves_def handler_api_def handler_server_def using assms
  by (auto simp: told_iff split: prod.splits if_splits)

definition mail_conf :: conf where
  "mail_conf = sample_conf (content_body framing_crypto greeter (lm_id greeting) 2 greeting_payload)"

definition mail_post :: "json \<Rightarrow> request" where
  "mail_post body = (if body = content_body framing_crypto greeter (lm_id greeting) 2 greeting_payload then sample_request ''phone''
     else (sample_request ''phone'')\<lparr>rq_body := None\<rparr>)"

definition mail_put :: "byte list \<Rightarrow> request" where
  "mail_put d = (sample_request ''phone'')\<lparr>rq_content_length := Some (IntN (int (length d))), rq_body := Some [map unat d]\<rparr>"

definition mail_space :: env where
  "mail_space = sample_env [sample_group ''space'' 2 False]
     [(sample_device ''space'' ''phone'' Member 2)\<lparr>d_signing_public_key := Some ''k''\<rparr>, sample_device ''space'' ''laptop'' Member 2]"

abbreviation mail_api :: "(env \<times> (string \<Rightarrow> byte list option)) api" where
  "mail_api \<equiv> handler_api mail_conf mail_post mail_put ''space'' 50"

abbreviation mail_server :: "(env \<times> (string \<Rightarrow> byte list option)) connection" where
  "mail_server \<equiv> handler_server mail_conf mail_post mail_put 50"

definition mail_phone :: "history \<Rightarrow> env \<Rightarrow> (env \<times> (string \<Rightarrow> byte list option)) phone" where
  "mail_phone h s = \<lparr>ph_history = h, ph_attempts = [], ph_world = (s, \<lambda>_. None)\<rparr>"

definition outgoing :: history where
  "outgoing = \<lparr>hi_rows = [greeting], hi_shown = [], hi_files = [], hi_deletions = None\<rparr>"

definition mail_sent :: env where
  "mail_sent = stored (auth_context ((sample_device ''space'' ''phone'' Member 2)\<lparr>d_signing_public_key := Some ''k''\<rparr>) (sample_group ''space'' 2 False))
     greeting_request [''laptop''] 50 mail_space"

lemma mail_codec: "request_json mail_conf (mail_post body) = Inr x \<Longrightarrow> x = body"
  by (auto simp: mail_post_def request_json_def readJsonObject_def readJson_def requireObject_def bindE_Inr_iff mail_conf_def sample_conf_def
      sample_request_def check_content_length_def content_body_def split: if_splits json.splits)

lemma mail_authentic:
  "rq_authorization rq = Some ''Bearer phone'' \<Longrightarrow> groups s = groups mail_space \<Longrightarrow> devices s = devices mail_space \<Longrightarrow>
     authenticate mail_conf rq s = Inr (auth_context ((sample_device ''space'' ''phone'' Member 2)\<lparr>d_signing_public_key := Some ''k''\<rparr>) (sample_group ''space'' 2 False))"
  "rq_authorization rq = Some ''Bearer laptop'' \<Longrightarrow> groups s = groups mail_space \<Longrightarrow> devices s = devices mail_space \<Longrightarrow>
     authenticate mail_conf rq s = Inr (auth_context (sample_device ''space'' ''laptop'' Member 2) (sample_group ''space'' 2 False))"
  by (simp_all add: authenticate_def mail_conf_def sample_conf_def mail_space_def sample_env_def bearer_token_def
      first_row_def group_of_def sample_device_def sample_group_def is_space_def trim_def Let_def)

lemma greeting_read:
  "parse_message (content_body framing_crypto greeter (lm_id greeting) 2 greeting_payload) = Inr greeting_request"
  "sm_id greeting_request = ''t''" "sm_keyEpoch greeting_request = 2" "sm_fileR2Key greeting_request = None"
  "sm_deletesMessageId greeting_request = None" "check_message True greeting_request = Inr ()"
proof -
  show parse: "parse_message (content_body framing_crypto greeter (lm_id greeting) 2 greeting_payload) = Inr greeting_request"
    using greeting_accepted unfolding greeting_request_def by auto
  obtain ct where pl: "greeting_payload = \<lparr>pl_encryptedPayload = Some ct, pl_iv = Some (bufToBase64Url [1]), pl_fileR2Key = None, pl_fileIv = None,
     pl_fileMeta = None, pl_fileMetaIv = None\<rparr>" "length ct = 47" using greeting_payload by blast
  have id: "lm_id greeting = ''t''" by code_simp
  define sg where "sg = signStatement framing_crypto 5 (content_statement greeter ''t'' 2 greeting_payload)"
  have ne: "ct \<noteq> []" "bufToBase64Url [1] \<noteq> []" "sg \<noteq> []"
    using pl(2) encoded_length [of "[1]"] greeting_statement by (auto simp: sg_def)
  have req: "greeting_request = \<lparr>sm_id = ''t'', sm_keyEpoch = 2, sm_encryptedPayload = Some ct, sm_iv = Some (bufToBase64Url [1]),
      sm_fileR2Key = None, sm_fileIv = None, sm_fileMeta = None, sm_fileMetaIv = None, sm_signature = Some sg, sm_deletesMessageId = None\<rparr>"
    unfolding parsed_content(1) [OF parse] sg_def by (simp add: pl(1) id) (simp add: greeter_def)
  show "sm_id greeting_request = ''t''" "sm_keyEpoch greeting_request = 2"
      "sm_fileR2Key greeting_request = None" "sm_deletesMessageId greeting_request = None" "check_message True greeting_request = Inr ()"
    unfolding req using ne by (simp_all add: check_message_def bindE_def throwIf_def Let_def truthy_def)
qed

lemma mail_taken: "sendMessage mail_conf (sample_request ''phone'') 50 mail_space = (Inr (), mail_sent)"
proof -
  have auth: "authenticate mail_conf (sample_request ''phone'') mail_space
      = Inr (auth_context ((sample_device ''space'' ''phone'' Member 2)\<lparr>d_signing_public_key := Some ''k''\<rparr>) (sample_group ''space'' 2 False))"
    by (rule mail_authentic) (simp_all add: sample_request_def)
  have body: "request_json mail_conf (sample_request ''phone'') = Inr (content_body framing_crypto greeter (lm_id greeting) 2 greeting_payload)"
    by (simp add: request_json_def readJsonObject_def readJson_def requireObject_def bindE_def mail_conf_def sample_conf_def
      sample_request_def check_content_length_def content_body_def MAX_JSON_BODY_SIZE_def)
  have limit: "enforceRateLimit (RL_WRITE mail_conf) i = Inr ()" for i by (simp add: enforceRateLimit_def mail_conf_def sample_conf_def)
  show ?thesis
    unfolding sendMessage_def authenticateS_def bindS_def auth
    by (simp add: liftE_def limit body greeting_read readS_def throwS_def throwIf_def auth_context_def sample_device_def sample_group_def
        mail_space_def sample_env_def empty_env_def exists_row_def send_accepted_def bindS_def retS_def messageRecipients_def active_def
        store_message_def insert_message_def notifySpace_def writeS_def mail_sent_def stored_def truthy_def)
qed

lemma mail_run:
  "\<exists>p1. sendQueuedContent framing_crypto mail_api greeter greeting (mail_phone outgoing mail_space) = (Inr (), p1) \<and> fst (ph_world p1) = mail_sent"
proof -
  have greet: "lm_keyEpoch greeting = None" "lm_file greeting = None" by code_simp+
  have ring: "kr_current (fc_keyring greeter) = 2" "currentKey (fc_keyring greeter) = Some 7" by code_simp+
  have body: "content_body framing_crypto greeter (lm_id greeting) 2 (seal_payload framing_crypto greeter greeting 7 None)
      = content_body framing_crypto greeter (lm_id greeting) 2 greeting_payload" by (simp add: greeting_payload_def)
  have post: "mail_post (content_body framing_crypto greeter (lm_id greeting) 2 greeting_payload) = sample_request ''phone''" by (simp add: mail_post_def)
  have go: "throwIfAborted mail_api q = (Inr (), q)" for q by (simp add: throwIfAborted_def handler_api_def)
  have pin: "pinEpoch greeter greeting q = (Inr (2, 7), snd (update_message greeter (greeting\<lparr>lm_keyEpoch := Some 2\<rparr>) q))"
    for q :: "(env \<times> (string \<Rightarrow> byte list option)) phone"
    by (simp add: pinEpoch_def greet ring bindS_def) (simp add: update_message_def liftE_def)
  have call: "\<exists>q'. ignore_sent (call mail_api (api_send mail_api (content_body framing_crypto greeter (lm_id greeting) 2 greeting_payload))) q = (Inr (), q')
      \<and> fst (ph_world q') = mail_sent" if "fst (ph_world q) = mail_space" for q
    using that by (cases "ph_world q") (simp add: ignore_sent_def call_def handler_api_def post mail_taken told_def)
  define q where "q = snd (update_message greeter (greeting\<lparr>lm_keyEpoch := Some 2\<rparr>) (mail_phone outgoing mail_space))"
  have "fst (ph_world q) = mail_space" by (simp add: q_def update_message_other mail_phone_def)
  from call [OF this] obtain q' where q': "ignore_sent (call mail_api (api_send mail_api (content_body framing_crypto greeter (lm_id greeting) 2 greeting_payload))) q = (Inr (), q')"
    "fst (ph_world q') = mail_sent" by blast
  have "sendQueuedContent framing_crypto mail_api greeter greeting (mail_phone outgoing mail_space)
      = update_message greeter (greeting\<lparr>lm_file := None, lm_keyEpoch := Some 2, lm_retry := None, lm_status := StSent\<rparr>) q'"
    by (simp add: sendQueuedContent_def bindS_def go pin greet retS_def body q_def [symmetric] q'(1))
  moreover have "update_message C m q' = (Inr (), snd (update_message C m q'))" for C :: "(nat, nat) flush_context" and m
    by (simp add: update_message_def)
  ultimately show ?thesis using q'(2) update_message_other(1) [of greeter _ q'] by metis
qed

lemma mail_polled:
  "\<exists>resp. pendingMessages mail_conf (sample_request ''laptop'') None mail_sent = (Inr resp, mail_sent) \<and> length (pr_messages resp) < 200"
proof -
  have auth: "authenticate mail_conf (sample_request ''laptop'') mail_sent
      = Inr (auth_context (sample_device ''space'' ''laptop'' Member 2) (sample_group ''space'' 2 False))"
    by (rule mail_authentic) (simp_all add: sample_request_def mail_sent_def stored_def)
  have "length (pending_rows mail_sent ''laptop'' 0) = 1"
    by (simp add: pending_rows_def mail_sent_def stored_def mail_space_def sample_env_def empty_env_def new_message_def delivery_rows_def is_pending_def)
  then show ?thesis
    by (simp add: pendingMessages_def bindS_def authenticateS_def auth liftE_def parse_since_def readS_def auth_context_def sample_device_def)
qed

theorem message_delivered_witness:
  "\<exists>p1 resp pm row q'. sendQueuedContent framing_crypto mail_api greeter greeting (mail_phone outgoing mail_space) = (Inr (), p1)
     \<and> pendingMessages mail_conf (sample_request ''laptop'') None (fst (ph_world p1)) = (Inr resp, fst (ph_world p1)) \<and> pm \<in> set (pr_messages resp)
     \<and> registerIncoming framing_crypto poll_ring greeter_keys ''space'' pm poll_phone = (Inr row, q')
     \<and> lm_text row = Some ''hi'' \<and> lm_senderVerified row = Some Verified"
proof -
  let ?laptop = "sample_device ''space'' ''laptop'' Member 2"
  have serve: "serves mail_api mail_server (fc_groupId greeter)"
    using handler_api_serves [OF mail_codec, where now = 50 and put = mail_put and g = "''space''"] by (simp add: greeter_def outbox_context_def)
  obtain p1 where run: "sendQueuedContent framing_crypto mail_api greeter greeting (mail_phone outgoing mail_space) = (Inr (), p1)"
    and sent: "fst (ph_world p1) = mail_sent" using mail_run by blast
  obtain resp where poll: "pendingMessages mail_conf (sample_request ''laptop'') None mail_sent = (Inr resp, mail_sent)" "length (pr_messages resp) < 200"
    using mail_polled by blast
  have server: "sv_conf mail_server = mail_conf" "sv_post mail_server = mail_post" "sv_env mail_server = fst" by (simp_all add: handler_server_def)
  have C: "fc_groupId greeter = ''space''" "fc_deviceId greeter = ''phone''" "fc_sign greeter = Some 5" "fc_keyring greeter = \<lparr>kr_current = 2, kr_keys = [(2, 7)]\<rparr>"
    by (simp_all add: greeter_def outbox_context_def)
  have auth: "authenticate mail_conf (sample_request ''laptop'') mail_sent = Inr (auth_context ?laptop (sample_group ''space'' 2 False))"
    by (rule mail_authentic) (simp_all add: sample_request_def mail_sent_def stored_def)
  have me: "authenticate mail_conf (mail_post body) mail_space = Inr a \<longrightarrow> au_groupId a = ''space'' \<and> au_deviceId a = ''phone''" for body a
  proof -
    have "rq_authorization (mail_post body) = Some ''Bearer phone''" by (simp add: mail_post_def sample_request_def)
    from mail_authentic(1) [OF this refl refl] show ?thesis by (auto simp: auth_context_def sample_device_def)
  qed
  have start: "messages_ok mail_space" "pk d_id (devices mail_space)" "messages mail_space = []" by code_simp+
  have m: "finite_meta greeting" "lm_file greeting = None" "lm_text greeting = Some ''hi''" by (simp_all add: finite_meta_def greeting_def sample_order_def)
  have new: "getLocalMessage (lm_id greeting) (ph_history poll_phone) = None" by code_simp
  have epoch: "pr_keyEpoch resp = 2"
    using poll(1) by (auto simp: pendingMessages_def bindS_def authenticateS_def auth liftE_def parse_since_def readS_def auth_context_def sample_group_def)
  have key: "keyForEpoch poll_ring 2 = keyForEpoch \<lparr>kr_current = 2, kr_keys = [(2, 7)]\<rparr> 2" by code_simp
  have ne: "exportPublicKey framing_crypto (public_of framing_crypto 5) \<noteq> []"
    using encoded_length [of "bytes_of (5 :: nat)"] by (auto simp: exportPublicKey_def framing_crypto_def clear_crypto_def bytes_of_def)
  have laptop: "?laptop \<in> set (devices mail_sent)" "d_group_id ?laptop = ''space''" "active ?laptop" "\<not> d_send_only ?laptop" "d_id ?laptop = ''laptop''"
    by (simp_all add: mail_sent_def stored_def mail_space_def sample_env_def active_def) (simp_all add: sample_device_def)
  have "\<exists>pm \<in> set (pr_messages resp). pm_id pm = lm_id greeting \<and> pm_keyEpoch pm = pr_keyEpoch resp
    \<and> (\<exists>row q'. registerIncoming framing_crypto poll_ring greeter_keys (fc_groupId greeter) pm poll_phone = (Inr row, q')
      \<and> getMessage (lm_id greeting) (ph_history q') = Some row \<and> lm_text row = lm_text greeting
      \<and> map_option file_content (lm_file row) = map_option file_content (lm_file greeting)
      \<and> lm_batch row = lm_batch greeting \<and> lm_viewOnce row = lm_viewOnce greeting \<and> lm_senderDeviceId row = fc_deviceId greeter
      \<and> lm_senderVerified row = Some Verified \<and> \<not> lm_corrupted row
      \<and> (\<forall>f data mime. lm_file greeting = Some f \<and> getFile (fr_r2Key f) (ph_history (mail_phone outgoing mail_space)) = Some (data, mime) \<longrightarrow>
           (\<exists>f' key ct. lm_file row = Some f' \<and> keyForEpoch poll_ring (pm_keyEpoch pm) = Some key
              \<and> bucket_has (blobStorageKey (fc_groupId greeter) (fr_r2Key f')) (FILES (sv_env mail_server (ph_world p1)))
              \<and> sv_object mail_server (ph_world p1) (blobStorageKey (fc_groupId greeter) (fr_r2Key f')) = Some ct
              \<and> decryptMessageFile framing_crypto key (lm_id greeting) ct (fr_iv f') = Some data)))"
    by (rule message_delivered [OF framing_crypto_ok serve C(3) _ _ _ m(1) _ _ _ _ run, where d = ?laptop and rq = "sample_request ''laptop''"
        and b = "auth_context ?laptop (sample_group ''space'' 2 False)" and s = mail_sent and ids = greeter_keys])
      (use start me m poll auth laptop new key epoch ne in \<open>simp_all add: server C sent mail_phone_def greeter_keys_def\<close>, simp_all add: greeter_def outbox_context_def auth_context_def sample_device_def)
  then obtain pm row q' where "pm \<in> set (pr_messages resp)"
    "registerIncoming framing_crypto poll_ring greeter_keys ''space'' pm poll_phone = (Inr row, q')" "lm_text row = lm_text greeting" "lm_senderVerified row = Some Verified"
    unfolding C by blast
  with run poll(1) m(3) show ?thesis unfolding sent [symmetric] by metis
qed

theorem altered_not_verified_witness:
  "\<exists>row p'. registerIncoming framing_crypto poll_ring greeter_keys ''space''
       ((plain_message ''t'')\<lparr>pm_senderDeviceId := ''phone'', pm_fileR2Key := Some ''other'',
          pm_signature := Some (signStatement framing_crypto 5 (content_statement greeter ''t'' 2 greeting_payload))\<rparr>) poll_phone
       = (Inr row, p') \<and> lm_senderVerified row = Some Invalid"
  (is "\<exists>row p'. registerIncoming _ _ _ _ ?pm _ = _ \<and> _")
proof -
  let ?f = "\<lparr>mf_groupId = ''space'', mf_messageId = ''t'', mf_senderDeviceId = ''phone'', mf_keyEpoch = 2,
     mf_encryptedPayload = pl_encryptedPayload greeting_payload, mf_iv = pl_iv greeting_payload, mf_fileR2Key = pl_fileR2Key greeting_payload,
     mf_fileIv = pl_fileIv greeting_payload, mf_fileMeta = pl_fileMeta greeting_payload, mf_fileMetaIv = pl_fileMetaIv greeting_payload\<rparr>"
  have st: "content_statement greeter ''t'' 2 greeting_payload = messageSignatureStatement ?f"
    by (simp add: content_statement_def greeter_def outbox_context_def)
  have sig: "signStatement framing_crypto 5 (messageSignatureStatement ?f) \<noteq> []" using greeting_statement st by auto
  have ne: "exportPublicKey framing_crypto (public_of framing_crypto 5) \<noteq> []"
    using encoded_length [of "bytes_of (5 :: nat)"] by (auto simp: exportPublicKey_def framing_crypto_def clear_crypto_def bytes_of_def)
  have new: "getLocalMessage (pm_id ?pm) (ph_history poll_phone) = None" by code_simp
  have free: "list_all colon_free [''space'', ''t'', ''phone'']" by code_simp
  let ?entry = "\<lparr>dy_publicKey = ''k'', dy_signingPublicKey = Some (exportPublicKey framing_crypto (public_of framing_crypto 5)), dy_trust = Scanned\<rparr>"
  have ids: "map_of greeter_keys (pm_senderDeviceId ?pm) = Some ?entry" "dy_signingPublicKey ?entry = Some (exportPublicKey framing_crypto (public_of framing_crypto 5))"
    by (simp_all add: greeter_keys_def)
  obtain v where v: "verifyDeviceSignature framing_crypto greeter_keys (pm_senderDeviceId ?pm) (incoming_statement ''space'' ?pm) (pm_signature ?pm) = Some v"
    using verdict_of_signed [OF framing_crypto_ok ids ne sig] by (simp add: st)
  obtain row p' where reg: "registerIncoming framing_crypto poll_ring greeter_keys ''space'' ?pm poll_phone = (Inr row, p')"
    using registers_new [of ?pm poll_phone poll_ring 7 None framing_crypto None greeter_keys "''space''" v, OF new] v
    by (auto simp: plain_message_def truthy_def poll_ring_def keyForEpoch_def)
  have pl: "pl_fileR2Key greeting_payload = None" using greeting_payload by (metis Payload.select_convs(3))
  have "lm_senderVerified row = Some Invalid"
    by (rule altered_not_verified [OF framing_crypto_ok ids ne _ sig _ _ _ new reg]) (use free in \<open>simp_all add: st pl plain_message_def\<close>)
  then show ?thesis using reg by blast
qed

end
