(* ===== verification/Store.thy ===== *)
theory Store
  imports History VaultSync "HOL-Library.Countable"
begin

text \<open>
  What IndexedDB holds for a space, and sealing it at rest (apps/web/src/db/store.ts, db/atrest.ts). A row is stored in
  the clear, or sealed under the content key while a lock is set; the index of what is owed to the
  server lives in the same database and is brought up to date by every transaction that writes a
  message. A transaction is one step here; what happens between two transactions of one operation is
  a sequence of such steps by others. The lemmas: the index never misses a queued message, whatever the
  steps in between; with a readable store the operations are those of \<open>History\<close>; turning a lock on or off changes
  what is stored and nothing of what is read.
\<close>

section \<open>Sealing at rest\<close>

text \<open>The key in memory, whether the device is locked, and how the platform writes values as JSON text and reads
  them.\<close>

record LocalEvent =
  le_id :: string
  le_kind :: string
  le_createdAt :: int
  le_deviceId :: "string option"
  le_deviceName :: "string option"
  le_trust :: "IdentityTrust option"
  le_byMe :: bool
  le_epoch :: "int option"

record ('k, 'pub, 'priv) keeper =
  kp_crypto :: "('k, 'pub, 'priv) webcrypto"
  kp_contentKey :: "'k option"
  kp_contentLocked :: bool
  kp_message :: "LocalMessage \<Rightarrow> string"
  kp_message_of :: "string \<Rightarrow> LocalMessage option"
  kp_event :: "LocalEvent \<Rightarrow> string"
  kp_event_of :: "string \<Rightarrow> LocalEvent option"

record Sealed =
  se_iv :: string
  se_ct :: string

text \<open>\<open>KeyChoice\<close>: none given, or a key or explicitly no key.\<close>

definition resolve_key :: "('k, 'pub, 'priv) keeper \<Rightarrow> 'k option option \<Rightarrow> 'k option" where
  "resolve_key K choice = (case choice of None \<Rightarrow> kp_contentKey K | Some key \<Rightarrow> key)"

definition requireWritableKey :: "('k, 'pub, 'priv) keeper \<Rightarrow> 'k option \<Rightarrow> unit + 'k option" where
  "requireWritableKey K key = (if key = None \<and> kp_contentLocked K then Inl () else Inr key)"

definition seal_bytes :: "('k, 'pub, 'priv) keeper \<Rightarrow> byte list \<Rightarrow> string \<Rightarrow> 'k \<Rightarrow> byte list \<Rightarrow> Sealed" where
  "seal_bytes K data context key iv = \<lparr>se_iv = bufToBase64Url iv,
     se_ct = bufToBase64Url (gcm_encrypt (kp_crypto K) key iv (aad (kp_crypto K) (Some context)) data)\<rparr>"

definition unseal_bytes :: "('k, 'pub, 'priv) keeper \<Rightarrow> Sealed \<Rightarrow> string \<Rightarrow> 'k \<Rightarrow> byte list option" where
  "unseal_bytes K z context key = do { iv \<leftarrow> base64UrlToBuf (se_iv z); ct \<leftarrow> base64UrlToBuf (se_ct z);
     gcm_decrypt (kp_crypto K) key iv (aad (kp_crypto K) (Some context)) ct }"

definition sealJson :: "('k, 'pub, 'priv) keeper \<Rightarrow> string \<Rightarrow> string \<Rightarrow> 'k option option \<Rightarrow> byte list \<Rightarrow> unit + Sealed option" where
  "sealJson K value context choice iv = bindE (requireWritableKey K (resolve_key K choice)) (\<lambda>chosen.
     Inr (map_option (\<lambda>key. seal_bytes K (text_encode (kp_crypto K) value) context key iv) chosen))"

definition openJson :: "('k, 'pub, 'priv) keeper \<Rightarrow> (string \<Rightarrow> 'a option) \<Rightarrow> Sealed \<Rightarrow> string \<Rightarrow> 'k option option \<Rightarrow> unit + 'a option" where
  "openJson K parse z context choice = (case resolve_key K choice of None \<Rightarrow> Inr None
     | Some key \<Rightarrow> (case Option.bind (unseal_bytes K z context key) (\<lambda>b. parse (text_decode (kp_crypto K) b)) of
         None \<Rightarrow> Inl () | Some v \<Rightarrow> Inr (Some v)))"

text \<open>A blob is its bytes and its type.\<close>

type_synonym blob = "byte list \<times> string"

definition sealBlob :: "('k, 'pub, 'priv) keeper \<Rightarrow> blob \<Rightarrow> string \<Rightarrow> 'k option option \<Rightarrow> byte list \<Rightarrow> unit + (string \<times> byte list) option" where
  "sealBlob K b context choice iv = bindE (requireWritableKey K (resolve_key K choice)) (\<lambda>chosen.
     Inr (map_option (\<lambda>key. (bufToBase64Url iv, gcm_encrypt (kp_crypto K) key iv (aad (kp_crypto K) (Some context)) (fst b))) chosen))"

definition openBlob :: "('k, 'pub, 'priv) keeper \<Rightarrow> blob \<Rightarrow> string \<Rightarrow> string \<Rightarrow> string \<Rightarrow> 'k option option \<Rightarrow> unit + blob option" where
  "openBlob K b ivText context mime choice = (case resolve_key K choice of None \<Rightarrow> Inr None
     | Some key \<Rightarrow> (case do { iv \<leftarrow> base64UrlToBuf ivText; gcm_decrypt (kp_crypto K) key iv (aad (kp_crypto K) (Some context)) (fst b) } of
         None \<Rightarrow> Inl () | Some p \<Rightarrow> Inr (Some (p, mime))))"

definition local_message :: "string \<Rightarrow> string" where "local_message i = ''local-message:'' @ i"

definition local_file :: "string \<Rightarrow> string" where "local_file k = ''local-file:'' @ k"

definition local_event :: "string \<Rightarrow> string" where "local_event i = ''local-event:'' @ i"

definition local_device :: "string \<Rightarrow> string" where "local_device i = ''local-device:'' @ i"

section \<open>The database of a space\<close>

datatype StoredMessage = ClearMessage LocalMessage | SealedMessage string int Sealed

datatype StoredEvent = ClearEvent LocalEvent | SealedEvent string int Sealed

datatype StoredDeviceName = ClearName string string | SealedName string Sealed

record StoredFile =
  sf_r2Key :: string
  sf_blob :: blob
  sf_iv :: "string option"
  sf_mime :: "string option"

record OutboxIndex =
  ox_complete :: bool
  ox_ids :: "string list"

record store =
  st_messages :: "StoredMessage list"
  st_events :: "StoredEvent list"
  st_directory :: "StoredDeviceName list"
  st_files :: "StoredFile list"
  st_vault :: "VaultItemRecord list"
  st_outbox :: "OutboxIndex option"
  st_vaultCursor :: "int option"

primrec row_id :: "StoredMessage \<Rightarrow> string" where
  "row_id (ClearMessage m) = lm_id m" | "row_id (SealedMessage i c z) = i"

primrec row_createdAt :: "StoredMessage \<Rightarrow> int" where
  "row_createdAt (ClearMessage m) = lm_createdAt m" | "row_createdAt (SealedMessage i c z) = c"

primrec event_id :: "StoredEvent \<Rightarrow> string" where
  "event_id (ClearEvent e) = le_id e" | "event_id (SealedEvent i c z) = i"

primrec event_createdAt :: "StoredEvent \<Rightarrow> int" where
  "event_createdAt (ClearEvent e) = le_createdAt e" | "event_createdAt (SealedEvent i c z) = c"

primrec name_deviceId :: "StoredDeviceName \<Rightarrow> string" where
  "name_deviceId (ClearName i n) = i" | "name_deviceId (SealedName i z) = i"

text \<open>\<open>put\<close> under a key path, \<open>get\<close>, \<open>delete\<close>.\<close>

definition put_key :: "('r \<Rightarrow> string) \<Rightarrow> 'r \<Rightarrow> 'r list \<Rightarrow> 'r list" where
  "put_key key r rows = (if \<exists>x \<in> set rows. key x = key r then map (\<lambda>x. if key x = key r then r else x) rows else rows @ [r])"

definition get_key :: "('r \<Rightarrow> string) \<Rightarrow> string \<Rightarrow> 'r list \<Rightarrow> 'r option" where
  "get_key key i rows = find (\<lambda>r. key r = i) rows"

definition delete_key :: "('r \<Rightarrow> string) \<Rightarrow> string \<Rightarrow> 'r list \<Rightarrow> 'r list" where
  "delete_key key i rows = filter (\<lambda>r. key r \<noteq> i) rows"

section \<open>Messages\<close>

definition stored_message :: "LocalMessage \<Rightarrow> Sealed option \<Rightarrow> StoredMessage" where
  "stored_message m z = (case z of None \<Rightarrow> ClearMessage m | Some z \<Rightarrow> SealedMessage (lm_id m) (lm_createdAt m) z)"

definition toStored :: "('k, 'pub, 'priv) keeper \<Rightarrow> byte list \<Rightarrow> LocalMessage \<Rightarrow> unit + StoredMessage" where
  "toStored K iv m = bindE (sealJson K (kp_message K m) (local_message (lm_id m)) None iv) (\<lambda>z. Inr (stored_message m z))"

definition fromStored :: "('k, 'pub, 'priv) keeper \<Rightarrow> StoredMessage \<Rightarrow> unit + LocalMessage option" where
  "fromStored K row = (case row of ClearMessage m \<Rightarrow> Inr (Some m)
     | SealedMessage i c z \<Rightarrow> openJson K (kp_message_of K) z (local_message i) None)"

text \<open>Adding to a set, kept in the order of insertion.\<close>

definition track_one :: "bool \<Rightarrow> LocalMessage \<Rightarrow> string list \<Rightarrow> string list" where
  "track_one addOnly m ids = (if isQueuedOutgoing m then set_add (lm_id m) ids
     else if \<not> addOnly then filter (\<lambda>i. i \<noteq> lm_id m) ids else ids)"

definition index_ids :: "store \<Rightarrow> string list" where
  "index_ids s = (case st_outbox s of None \<Rightarrow> [] | Some x \<Rightarrow> ox_ids x)"

definition index_complete :: "store \<Rightarrow> bool" where
  "index_complete s \<longleftrightarrow> (case st_outbox s of None \<Rightarrow> False | Some x \<Rightarrow> ox_complete x)"

definition trackOutbox :: "bool \<Rightarrow> LocalMessage list \<Rightarrow> store \<Rightarrow> store" where
  "trackOutbox addOnly ms s = s\<lparr>st_outbox := Some \<lparr>ox_complete = index_complete s, ox_ids = fold (track_one addOnly) ms (index_ids s)\<rparr>\<rparr>"

definition untrackOutbox :: "string list \<Rightarrow> store \<Rightarrow> store" where
  "untrackOutbox ids s = (case st_outbox s of None \<Rightarrow> s
     | Some x \<Rightarrow> (let kept = filter (\<lambda>i. i \<notin> set ids) (ox_ids x) in
         if length kept \<noteq> length (ox_ids x) then s\<lparr>st_outbox := Some \<lparr>ox_complete = ox_complete x, ox_ids = kept\<rparr>\<rparr> else s))"

definition put_message_row :: "StoredMessage \<Rightarrow> store \<Rightarrow> store" where
  "put_message_row row s = s\<lparr>st_messages := put_key row_id row (st_messages s)\<rparr>"

text \<open>The transaction of \<open>putMessage\<close>, with the row sealed before.\<close>

definition put_transaction :: "LocalMessage \<Rightarrow> StoredMessage \<Rightarrow> store \<Rightarrow> store" where
  "put_transaction m row s = (if lm_direction m \<noteq> Outgoing then put_message_row row s else trackOutbox False [m] (put_message_row row s))"

definition store_putMessage :: "('k, 'pub, 'priv) keeper \<Rightarrow> byte list \<Rightarrow> LocalMessage \<Rightarrow> store \<Rightarrow> (unit + unit) \<times> store" where
  "store_putMessage K iv m s = (case toStored K iv m of Inl e \<Rightarrow> (Inl e, s) | Inr row \<Rightarrow> (Inr (), put_transaction m row s))"

definition toStoredFile :: "('k, 'pub, 'priv) keeper \<Rightarrow> byte list \<Rightarrow> string \<Rightarrow> blob \<Rightarrow> unit + StoredFile" where
  "toStoredFile K iv k b = bindE (sealBlob K b (local_file k) None iv) (\<lambda>z. Inr (case z of
     None \<Rightarrow> \<lparr>sf_r2Key = k, sf_blob = b, sf_iv = None, sf_mime = None\<rparr>
   | Some (ivText, ct) \<Rightarrow> \<lparr>sf_r2Key = k, sf_blob = (ct, []), sf_iv = Some ivText, sf_mime = Some (snd b)\<rparr>))"

definition put_file_row :: "StoredFile \<Rightarrow> store \<Rightarrow> store" where
  "put_file_row f s = s\<lparr>st_files := put_key sf_r2Key f (st_files s)\<rparr>"

fun prepare_files :: "('k, 'pub, 'priv) keeper \<Rightarrow> (string \<Rightarrow> byte list) \<Rightarrow> (LocalMessage \<times> blob) list
    \<Rightarrow> unit + (StoredMessage \<times> StoredFile) list" where
  "prepare_files K ivs [] = Inr []"
| "prepare_files K ivs ((m, b) # es) =
     bindE (toStored K (ivs (lm_id m)) m) (\<lambda>row.
     bindE (toStoredFile K (ivs (''f'' @ lm_id m)) (fr_r2Key (the (lm_file m))) b) (\<lambda>f.
     bindE (prepare_files K ivs es) (\<lambda>rest. Inr ((row, f) # rest))))"

definition putOutgoingFileMessages :: "('k, 'pub, 'priv) keeper \<Rightarrow> (string \<Rightarrow> byte list) \<Rightarrow> (LocalMessage \<times> blob) list \<Rightarrow> store
    \<Rightarrow> (unit + unit) \<times> store" where
  "putOutgoingFileMessages K ivs entries s =
     (if entries = [] then (Inr (), s) else
      case prepare_files K ivs entries of Inl e \<Rightarrow> (Inl e, s)
      | Inr prepared \<Rightarrow> (Inr (), trackOutbox False (map fst entries)
          (fold (put_file_row \<circ> snd) prepared (fold (put_message_row \<circ> fst) prepared s))))"

definition store_getMessage :: "('k, 'pub, 'priv) keeper \<Rightarrow> string \<Rightarrow> store \<Rightarrow> unit + LocalMessage option" where
  "store_getMessage K i s = (case get_key row_id i (st_messages s) of None \<Rightarrow> Inr None | Some row \<Rightarrow> fromStored K row)"

text \<open>\<open>Promise.all\<close> over rows: one that throws fails them all.\<close>

fun open_all :: "('r \<Rightarrow> unit + 'a option) \<Rightarrow> 'r list \<Rightarrow> unit + 'a option list" where
  "open_all f [] = Inr []"
| "open_all f (r # rs) = bindE (f r) (\<lambda>x. bindE (open_all f rs) (\<lambda>xs. Inr (x # xs)))"

text \<open>\<open>getAllFromIndex\<close>: by creation, then by key.\<close>

definition messages_by_createdAt :: "store \<Rightarrow> StoredMessage list" where
  "messages_by_createdAt s = sort_key (\<lambda>r. (row_createdAt r, row_id r)) (st_messages s)"

definition store_allMessages :: "('k, 'pub, 'priv) keeper \<Rightarrow> store \<Rightarrow> unit + LocalMessage list" where
  "store_allMessages K s = bindE (open_all (fromStored K) (messages_by_createdAt s)) (\<lambda>opened. Inr (List.map_filter id opened))"

definition store_deleteMessage :: "string \<Rightarrow> store \<Rightarrow> store" where
  "store_deleteMessage i s = untrackOutbox [i] (s\<lparr>st_messages := delete_key row_id i (st_messages s)\<rparr>)"

section \<open>What is owed\<close>

text \<open>The rows of the index: those still queued, and those that look done, with the row as it was read.\<close>

fun scan_ids :: "('k, 'pub, 'priv) keeper \<Rightarrow> store \<Rightarrow> string list \<Rightarrow> unit + LocalMessage list \<times> (string \<times> StoredMessage option) list" where
  "scan_ids K s [] = Inr ([], [])"
| "scan_ids K s (i # ids) =
     bindE (case get_key row_id i (st_messages s) of None \<Rightarrow> Inr ([], [(i, None)])
       | Some row \<Rightarrow> bindE (fromStored K row) (\<lambda>m. Inr (case m of None \<Rightarrow> ([], [])
           | Some m \<Rightarrow> if isQueuedOutgoing m then ([m], []) else ([], [(lm_id m, Some row)])))) (\<lambda>(queued, stale).
     bindE (scan_ids K s ids) (\<lambda>(queued', stale'). Inr (queued @ queued', stale @ stale')))"

text \<open>Two rows are the same when they are written the same.\<close>

definition dropStale :: "(string \<times> StoredMessage option) list \<Rightarrow> store \<Rightarrow> store" where
  "dropStale stale s = untrackOutbox (map fst (filter (\<lambda>(i, seen). get_key row_id i (st_messages s) = seen) stale)) s"

definition trackQueued :: "LocalMessage list \<Rightarrow> store \<Rightarrow> store" where
  "trackQueued ms s = (let queued = filter isQueuedOutgoing ms in
     if queued = [] \<or> (st_outbox s \<noteq> None \<and> list_all (\<lambda>m. lm_id m \<in> set (index_ids s)) queued) then s
     else trackOutbox True queued s)"

text \<open>The scan of \<open>rebuildOutboxIndex\<close>: whether every row opened, and the queued ones.\<close>

definition scan_rows :: "('k, 'pub, 'priv) keeper \<Rightarrow> store \<Rightarrow> unit + bool \<times> LocalMessage list" where
  "scan_rows K s = bindE (open_all (fromStored K) (messages_by_createdAt s)) (\<lambda>opened.
     Inr (list_all (\<lambda>m. m \<noteq> None) opened, filter isQueuedOutgoing (List.map_filter id opened)))"

definition merge_index :: "bool \<Rightarrow> string list \<Rightarrow> store \<Rightarrow> store" where
  "merge_index complete ids s = s\<lparr>st_outbox := Some \<lparr>ox_complete = complete \<or> index_complete s, ox_ids = fold set_add ids (index_ids s)\<rparr>\<rparr>"

text \<open>\<open>between\<close> is what other contexts do between the reading and the writing transaction.\<close>

definition store_queuedMessages :: "('k, 'pub, 'priv) keeper \<Rightarrow> (store \<Rightarrow> store) \<Rightarrow> store \<Rightarrow> (unit + LocalMessage list) \<times> store" where
  "store_queuedMessages K between s =
     (if \<not> index_complete s
      then (case scan_rows K s of Inl e \<Rightarrow> (Inl e, s)
        | Inr (complete, queued) \<Rightarrow> (Inr queued, merge_index complete (map lm_id queued) (between s)))
      else (case scan_ids K s (index_ids s) of Inl e \<Rightarrow> (Inl e, s)
        | Inr (queued, stale) \<Rightarrow> (Inr (sort_key lm_createdAt queued), if stale = [] then s else dropStale stale (between s))))"

section \<open>Pruning\<close>

definition PRUNE_BATCH :: nat where "PRUNE_BATCH = 200"

fun doomed_rows :: "('k, 'pub, 'priv) keeper \<Rightarrow> StoredMessage list \<Rightarrow> unit + LocalMessage list" where
  "doomed_rows K [] = Inr []"
| "doomed_rows K (row # rows) = bindE (fromStored K row) (\<lambda>m. bindE (doomed_rows K rows) (\<lambda>rest. Inr (case m of
     None \<Rightarrow> rest | Some m \<Rightarrow> if lm_direction m = Outgoing \<and> lm_status m \<noteq> StSent then rest else m # rest)))"

definition prune_batch :: "LocalMessage list \<Rightarrow> store \<Rightarrow> store" where
  "prune_batch batch s = untrackOutbox (map lm_id batch)
     (s\<lparr>st_messages := fold (\<lambda>m. delete_key row_id (lm_id m)) batch (st_messages s),
        st_files := fold (\<lambda>m. case lm_file m of None \<Rightarrow> id | Some f \<Rightarrow> delete_key sf_r2Key (fr_r2Key f)) batch (st_files s)\<rparr>)"

definition pruneHistory :: "('k, 'pub, 'priv) keeper \<Rightarrow> int \<Rightarrow> store \<Rightarrow> (unit + nat) \<times> store" where
  "pruneHistory K cutoff s =
     (case doomed_rows K (filter (\<lambda>r. row_createdAt r < cutoff) (messages_by_createdAt s)) of Inl e \<Rightarrow> (Inl e, s)
      | Inr old \<Rightarrow>
          (let s' = fold prune_batch (batches PRUNE_BATCH old) s
           in (Inr (length old), s'\<lparr>st_events := filter (\<lambda>e. \<not> event_createdAt e < cutoff) (st_events s')\<rparr>)))"

section \<open>Events, names, files and the vault's copy\<close>

definition stored_event :: "LocalEvent \<Rightarrow> Sealed option \<Rightarrow> StoredEvent" where
  "stored_event e z = (case z of None \<Rightarrow> ClearEvent e | Some z \<Rightarrow> SealedEvent (le_id e) (le_createdAt e) z)"

text \<open>\<open>add\<close> refuses a key that is there.\<close>

definition putEvent :: "('k, 'pub, 'priv) keeper \<Rightarrow> byte list \<Rightarrow> LocalEvent \<Rightarrow> store \<Rightarrow> (unit + bool) \<times> store" where
  "putEvent K iv e s = (case sealJson K (kp_event K e) (local_event (le_id e)) None iv of Inl x \<Rightarrow> (Inl x, s)
     | Inr z \<Rightarrow> if \<exists>x \<in> set (st_events s). event_id x = le_id e then (Inr False, s)
         else (Inr True, s\<lparr>st_events := st_events s @ [stored_event e z]\<rparr>))"

definition open_event :: "('k, 'pub, 'priv) keeper \<Rightarrow> StoredEvent \<Rightarrow> unit + LocalEvent option" where
  "open_event K row = (case row of ClearEvent e \<Rightarrow> Inr (Some e)
     | SealedEvent i c z \<Rightarrow> openJson K (kp_event_of K) z (local_event i) None)"

definition allEvents :: "('k, 'pub, 'priv) keeper \<Rightarrow> store \<Rightarrow> unit + LocalEvent list" where
  "allEvents K s = bindE (open_all (open_event K) (sort_key (\<lambda>r. (event_createdAt r, event_id r)) (st_events s)))
     (\<lambda>opened. Inr (List.map_filter id opened))"

definition name_text :: "('k, 'pub, 'priv) keeper \<Rightarrow> string \<Rightarrow> string" where
  "name_text K n = json_stringify (kp_crypto K) (JStr n)"

definition name_of_text :: "('k, 'pub, 'priv) keeper \<Rightarrow> string \<Rightarrow> string option" where
  "name_of_text K t = (case json_parse_text (kp_crypto K) t of Some (JStr n) \<Rightarrow> Some n | _ \<Rightarrow> None)"

definition stored_name :: "string \<Rightarrow> string \<Rightarrow> Sealed option \<Rightarrow> StoredDeviceName" where
  "stored_name i n z = (case z of None \<Rightarrow> ClearName i n | Some z \<Rightarrow> SealedName i z)"

definition putDeviceName :: "('k, 'pub, 'priv) keeper \<Rightarrow> byte list \<Rightarrow> string \<Rightarrow> string \<Rightarrow> store \<Rightarrow> (unit + unit) \<times> store" where
  "putDeviceName K iv i n s = (case sealJson K (name_text K n) (local_device i) None iv of Inl x \<Rightarrow> (Inl x, s)
     | Inr z \<Rightarrow> (Inr (), s\<lparr>st_directory := put_key name_deviceId (stored_name i n z) (st_directory s)\<rparr>))"

definition open_name :: "('k, 'pub, 'priv) keeper \<Rightarrow> StoredDeviceName \<Rightarrow> unit + string option" where
  "open_name K row = (case row of ClearName i n \<Rightarrow> Inr (Some n) | SealedName i z \<Rightarrow> openJson K (name_of_text K) z (local_device i) None)"

definition deviceNames :: "('k, 'pub, 'priv) keeper \<Rightarrow> store \<Rightarrow> unit + (string \<times> string) list" where
  "deviceNames K s = bindE (open_all (\<lambda>r. bindE (open_name K r) (\<lambda>n. Inr (map_option (Pair (name_deviceId r)) n))) (st_directory s))
     (\<lambda>entries. Inr (List.map_filter id entries))"

definition store_putFile :: "('k, 'pub, 'priv) keeper \<Rightarrow> byte list \<Rightarrow> string \<Rightarrow> blob \<Rightarrow> store \<Rightarrow> (unit + unit) \<times> store" where
  "store_putFile K iv k b s = (case toStoredFile K iv k b of Inl e \<Rightarrow> (Inl e, s) | Inr f \<Rightarrow> (Inr (), put_file_row f s))"

definition open_file :: "('k, 'pub, 'priv) keeper \<Rightarrow> StoredFile \<Rightarrow> unit + blob option" where
  "open_file K f = (if \<not> truthy (sf_iv f) then Inr (Some (sf_blob f))
     else openBlob K (sf_blob f) (the (sf_iv f)) (local_file (sf_r2Key f)) (case sf_mime f of None \<Rightarrow> [] | Some t \<Rightarrow> t) None)"

definition store_getFile :: "('k, 'pub, 'priv) keeper \<Rightarrow> string \<Rightarrow> store \<Rightarrow> unit + blob option" where
  "store_getFile K k s = (case get_key sf_r2Key k (st_files s) of None \<Rightarrow> Inr None | Some f \<Rightarrow> open_file K f)"

definition store_deleteFile :: "string \<Rightarrow> store \<Rightarrow> store" where
  "store_deleteFile k s = s\<lparr>st_files := delete_key sf_r2Key k (st_files s)\<rparr>"

definition loadVaultRecords :: "store \<Rightarrow> VaultItemRecord list \<times> int" where
  "loadVaultRecords s = (st_vault s, case st_vaultCursor s of None \<Rightarrow> 0 | Some c \<Rightarrow> c)"

text \<open>The reads are all queued after the deletions and before the writes.\<close>

definition storeVaultChanges :: "bool \<Rightarrow> string list \<Rightarrow> VaultItemRecord list \<Rightarrow> int option \<Rightarrow> store \<Rightarrow> store" where
  "storeVaultChanges reset removed items cursor s =
     (let cleared = (if reset then [] else st_vault s);
          kept = fold (delete_key vi_id) removed cleared;
          fresh = filter (\<lambda>v. case get_key vi_id (vi_id v) kept of None \<Rightarrow> True | Some known \<Rightarrow> vi_seq known < vi_seq v) items
      in s\<lparr>st_vault := fold (put_key vi_id) fresh kept,
           st_vaultCursor := (case cursor of None \<Rightarrow> st_vaultCursor s | Some c \<Rightarrow> Some c)\<rparr>)"

section \<open>Turning a lock on or off\<close>

type_synonym 'a local = "(store, unit, 'a) act"

definition rewrite_message :: "('k, 'pub, 'priv) keeper \<Rightarrow> 'k option \<Rightarrow> byte list \<Rightarrow> string \<Rightarrow> unit local" where
  "rewrite_message K target iv i =
     bindS (readS (\<lambda>s. get_key row_id i (st_messages s))) (\<lambda>row. case row of None \<Rightarrow> retS () | Some row \<Rightarrow>
     bindS (liftE (fromStored K row)) (\<lambda>m. case m of None \<Rightarrow> retS () | Some m \<Rightarrow>
     bindS (liftE (sealJson K (kp_message K m) (local_message (lm_id m)) (Some target) iv)) (\<lambda>z.
     writeS (\<lambda>s. trackOutbox True [m] (put_message_row (stored_message m z) s)))))"

definition rewrite_event :: "('k, 'pub, 'priv) keeper \<Rightarrow> 'k option \<Rightarrow> byte list \<Rightarrow> string \<Rightarrow> unit local" where
  "rewrite_event K target iv i =
     bindS (readS (\<lambda>s. get_key event_id i (st_events s))) (\<lambda>row. case row of None \<Rightarrow> retS () | Some row \<Rightarrow>
     bindS (liftE (open_event K row)) (\<lambda>e. case e of None \<Rightarrow> retS () | Some e \<Rightarrow>
     bindS (liftE (sealJson K (kp_event K e) (local_event (le_id e)) (Some target) iv)) (\<lambda>z.
     writeS (\<lambda>s. s\<lparr>st_events := put_key event_id (stored_event e z) (st_events s)\<rparr>))))"

definition rewrite_name :: "('k, 'pub, 'priv) keeper \<Rightarrow> 'k option \<Rightarrow> byte list \<Rightarrow> string \<Rightarrow> unit local" where
  "rewrite_name K target iv i =
     bindS (readS (\<lambda>s. get_key name_deviceId i (st_directory s))) (\<lambda>row. case row of None \<Rightarrow> retS () | Some row \<Rightarrow>
     bindS (liftE (open_name K row)) (\<lambda>n. case n of None \<Rightarrow> retS () | Some n \<Rightarrow>
     bindS (liftE (sealJson K (name_text K n) (local_device (name_deviceId row)) (Some target) iv)) (\<lambda>z.
     writeS (\<lambda>s. s\<lparr>st_directory := put_key name_deviceId (stored_name (name_deviceId row) n z) (st_directory s)\<rparr>))))"

definition rewrite_file :: "('k, 'pub, 'priv) keeper \<Rightarrow> 'k option \<Rightarrow> byte list \<Rightarrow> string \<Rightarrow> unit local" where
  "rewrite_file K target iv k =
     bindS (readS (\<lambda>s. get_key sf_r2Key k (st_files s))) (\<lambda>row. case row of None \<Rightarrow> retS () | Some row \<Rightarrow>
     bindS (liftE (open_file K row)) (\<lambda>b. case b of None \<Rightarrow> retS () | Some b \<Rightarrow>
     bindS (liftE (sealBlob K b (local_file (sf_r2Key row)) (Some target) iv)) (\<lambda>z.
     writeS (put_file_row (case z of None \<Rightarrow> \<lparr>sf_r2Key = sf_r2Key row, sf_blob = b, sf_iv = None, sf_mime = None\<rparr>
       | Some (ivText, ct) \<Rightarrow> \<lparr>sf_r2Key = sf_r2Key row, sf_blob = (ct, []), sf_iv = Some ivText, sf_mime = Some (snd b)\<rparr>)))))"

text \<open>\<open>ivs\<close> draws an IV for each row.\<close>

definition rewriteLocalContent :: "('k, 'pub, 'priv) keeper \<Rightarrow> 'k option \<Rightarrow> (string \<Rightarrow> byte list) \<Rightarrow> unit local" where
  "rewriteLocalContent K target ivs =
     bindS (readS (map row_id \<circ> st_messages)) (\<lambda>ids. bindS (forS ids (\<lambda>i. rewrite_message K target (ivs (local_message i)) i)) (\<lambda>_.
     bindS (readS (map event_id \<circ> st_events)) (\<lambda>ids. bindS (forS ids (\<lambda>i. rewrite_event K target (ivs (local_event i)) i)) (\<lambda>_.
     bindS (readS (map name_deviceId \<circ> st_directory)) (\<lambda>ids. bindS (forS ids (\<lambda>i. rewrite_name K target (ivs (local_device i)) i)) (\<lambda>_.
     bindS (readS (map sf_r2Key \<circ> st_files)) (\<lambda>ks. forS ks (\<lambda>k. rewrite_file K target (ivs (local_file k)) k))))))))"

section \<open>What a row holds\<close>

text \<open>Whatever key it is sealed under.\<close>

definition message_held :: "('k, 'pub, 'priv) keeper \<Rightarrow> StoredMessage \<Rightarrow> LocalMessage \<Rightarrow> bool" where
  "message_held K row m \<longleftrightarrow> row = ClearMessage m \<or> (\<exists>key iv. row = SealedMessage (lm_id m) (lm_createdAt m)
     (seal_bytes K (text_encode (kp_crypto K) (kp_message K m)) (local_message (lm_id m)) key iv))"

definition keeper_ok :: "('k, 'pub, 'priv) keeper \<Rightarrow> bool" where
  "keeper_ok K \<longleftrightarrow> webcrypto_ok (kp_crypto K) \<and> (\<forall>m. kp_message_of K (kp_message K m) = Some m) \<and> (\<forall>e. kp_event_of K (kp_event K e) = Some e)"

lemma unseal_sealed:
  assumes "webcrypto_ok (kp_crypto K)"
  shows "unseal_bytes K (seal_bytes K data context key iv) context' key' = (if key' = key \<and> context' = context then Some data else None)"
  using assms by (simp add: unseal_bytes_def seal_bytes_def webcrypto_okD aad_inj)

lemma held_opened:
  assumes "keeper_ok K" and "message_held K row m" and "fromStored K row = Inr (Some m')"
  shows "m' = m"
proof -
  from assms(1) have W: "webcrypto_ok (kp_crypto K)" and cd: "kp_message_of K (kp_message K m) = Some m" by (simp_all add: keeper_ok_def)
  from assms(2) show ?thesis
  proof (unfold message_held_def, elim disjE exE)
    fix key iv assume row: "row = SealedMessage (lm_id m) (lm_createdAt m)
      (seal_bytes K (text_encode (kp_crypto K) (kp_message K m)) (local_message (lm_id m)) key iv)"
    show ?thesis
      using assms(3) row by (auto simp: fromStored_def openJson_def unseal_sealed [OF W] webcrypto_okD [OF W] cd split: option.splits if_splits)
  qed (use assms(3) in \<open>simp add: fromStored_def\<close>)
qed

lemma held_id: "message_held K row m \<Longrightarrow> row_id row = lm_id m"
  by (auto simp: message_held_def)

lemma held_put: "toStored K iv m = Inr row \<Longrightarrow> message_held K row m"
  by (auto simp: toStored_def sealJson_def stored_message_def message_held_def bindE_def split: sum.splits option.splits)

definition owed :: "('k, 'pub, 'priv) keeper \<Rightarrow> store \<Rightarrow> string set" where
  "owed K s = {lm_id m | m. isQueuedOutgoing m \<and> (\<exists>row \<in> set (st_messages s). message_held K row m)}"

section \<open>The index never misses\<close>

text \<open>What the contexts of a device do to one space's database, one transaction at a time: the page, its other tabs and
  the service worker, each with or without the content key. A scan of all rows that has not been merged
  into the index yet is remembered beside the store.\<close>

definition stale_seen :: "('k, 'pub, 'priv) keeper \<Rightarrow> string \<times> StoredMessage option \<Rightarrow> bool" where
  "stale_seen K x \<longleftrightarrow> (case snd x of None \<Rightarrow> True | Some row \<Rightarrow> \<exists>m. message_held K row m \<and> lm_id m = fst x \<and> \<not> isQueuedOutgoing m)"

inductive store_step :: "('k, 'pub, 'priv) keeper \<Rightarrow> store \<times> (bool \<times> string list) set \<Rightarrow> store \<times> (bool \<times> string list) set \<Rightarrow> bool"
  for K where
  put: "message_held K row m \<Longrightarrow> store_step K (s, P) (put_transaction m row s, P)"
| put_files: "list_all2 (message_held K) rows ms \<Longrightarrow> distinct (map lm_id ms)
    \<Longrightarrow> store_step K (s, P) (trackOutbox False ms (fold put_file_row fs (fold put_message_row rows s)), P)"
| delete: "store_step K (s, P) (store_deleteMessage i s, P)"
| drop_stale: "list_all (stale_seen K) stale \<Longrightarrow> store_step K (s, P) (dropStale stale s, P)"
| track: "store_step K (s, P) (trackQueued ms s, P)"
| prune: "store_step K (s, P) (prune_batch ms s, P)"
| rewrite: "message_held K row m \<Longrightarrow> store_step K (s, P) (trackOutbox True [m] (put_message_row row s), P)"
| scan: "scan_rows (K\<lparr>kp_contentKey := key, kp_contentLocked := locked\<rparr>) s = Inr (complete, queued)
    \<Longrightarrow> store_step K (s, P) (s, insert (complete, map lm_id queued) P)"
| merge: "(complete, ids) \<in> P \<Longrightarrow> store_step K (s, P) (merge_index complete ids s, P)"

inductive store_run :: "('k, 'pub, 'priv) keeper \<Rightarrow> store \<times> (bool \<times> string list) set \<Rightarrow> bool" for K where
  start: "st_messages s = [] \<Longrightarrow> st_outbox s = None \<Longrightarrow> store_run K (s, {})"
| step: "store_run K c \<Longrightarrow> store_step K c c' \<Longrightarrow> store_run K c'"

definition sound_rows :: "('k, 'pub, 'priv) keeper \<Rightarrow> store \<Rightarrow> bool" where
  "sound_rows K s \<longleftrightarrow> distinct (map row_id (st_messages s)) \<and> (\<forall>row \<in> set (st_messages s). \<exists>m. message_held K row m)"

definition covered :: "('k, 'pub, 'priv) keeper \<Rightarrow> string set \<Rightarrow> store \<Rightarrow> bool" where
  "covered K Q s \<longleftrightarrow> owed K s \<subseteq> Q \<union> set (index_ids s)"

lemma held_unique:
  assumes "keeper_ok K" and "message_held K row m" and "message_held K row m'"
  shows "m' = m"
proof -
  have W: "webcrypto_ok (kp_crypto K)" using assms(1) by (simp add: keeper_ok_def)
  have "kp_message_of K (text_decode (kp_crypto K) (text_encode (kp_crypto K) (kp_message K x))) = Some x" for x
    using assms(1) by (simp add: keeper_ok_def webcrypto_okD [OF W])
  moreover have "data = data'" if "seal_bytes K data c key iv = seal_bytes K data' c key' iv'" for data data' c key key' iv iv'
    using unseal_sealed [OF W, of data c key iv c key] unseal_sealed [OF W, of data' c key' iv' c key] that by (auto split: if_splits)
  ultimately show ?thesis using assms(2,3) unfolding message_held_def by (metis StoredMessage.distinct(1) StoredMessage.inject option.inject)
qed

lemma put_key_set: "set (put_key key r rows) = insert r {x \<in> set rows. key x \<noteq> key r}"
  by (auto simp: put_key_def)

lemma put_key_distinct: "distinct (map key rows) \<Longrightarrow> distinct (map key (put_key key r rows))"
proof -
  have "map key (map (\<lambda>x. if key x = key r then r else x) rows) = map key rows" by simp
  then show "distinct (map key rows) \<Longrightarrow> distinct (map key (put_key key r rows))" by (auto simp: put_key_def simp del: map_map)
qed

lemma set_add_set [simp]: "set (set_add x xs) = insert x (set xs)"
  by (auto simp: set_add_def)

lemma track_one_set: "set (track_one addOnly m ids) = (if isQueuedOutgoing m then insert (lm_id m) (set ids)
    else if addOnly then set ids else set ids - {lm_id m})"
  by (auto simp: track_one_def)

lemma tracked [simp]:
  "index_complete (trackOutbox a ms s) = index_complete s" "index_ids (trackOutbox a ms s) = fold (track_one a) ms (index_ids s)"
  "st_messages (trackOutbox a ms s) = st_messages s"
  "index_complete (put_message_row r s) = index_complete s" "index_ids (put_message_row r s) = index_ids s"
  "st_messages (put_message_row r s) = put_key row_id r (st_messages s)"
  by (simp_all add: trackOutbox_def index_complete_def index_ids_def put_message_row_def)

lemma untracked [simp]:
  "index_complete (untrackOutbox ids s) = index_complete s" "set (index_ids (untrackOutbox ids s)) = set (index_ids s) - set ids"
  "st_messages (untrackOutbox ids s) = st_messages s"
proof -
  have same: "length (filter P xs) \<noteq> length xs \<or> filter P xs = xs" for P and xs :: "string list"
    by (metis filter_True length_filter_less less_irrefl)
  have "index_complete (untrackOutbox ids s) = index_complete s \<and> index_ids (untrackOutbox ids s) = filter (\<lambda>i. i \<notin> set ids) (index_ids s)
      \<and> st_messages (untrackOutbox ids s) = st_messages s"
  proof (cases "st_outbox s")
    case (Some x)
    then show ?thesis using same [of "\<lambda>i. i \<notin> set ids" "ox_ids x"]
      by (cases "length (filter (\<lambda>i. i \<notin> set ids) (ox_ids x)) = length (ox_ids x)")
        (simp_all add: untrackOutbox_def index_complete_def index_ids_def)
  qed (simp add: untrackOutbox_def index_complete_def index_ids_def)
  then show "index_complete (untrackOutbox ids s) = index_complete s" "set (index_ids (untrackOutbox ids s)) = set (index_ids s) - set ids"
    "st_messages (untrackOutbox ids s) = st_messages s" by auto
qed

lemma index_other [simp]:
  "index_complete (s\<lparr>st_messages := x\<rparr>) = index_complete s" "index_ids (s\<lparr>st_messages := x\<rparr>) = index_ids s"
  "index_complete (s\<lparr>st_files := y\<rparr>) = index_complete s" "index_ids (s\<lparr>st_files := y\<rparr>) = index_ids s"
  by (simp_all add: index_complete_def index_ids_def)

lemma owedI: "isQueuedOutgoing m \<Longrightarrow> r \<in> set (st_messages s) \<Longrightarrow> message_held K r m \<Longrightarrow> lm_id m \<in> owed K s"
  unfolding owed_def by (rule CollectI, rule exI [of _ m]) blast

text \<open>A row that is written holds what is tracked.\<close>

lemma owed_put:
  assumes "keeper_ok K" and "message_held K row m"
  shows "owed K (put_message_row row s) = (owed K s - {lm_id m}) \<union> (if isQueuedOutgoing m then {lm_id m} else {})"
proof -
  have "owed K (put_message_row row s) = {lm_id m' | m'. isQueuedOutgoing m' \<and> message_held K row m'}
      \<union> {lm_id m' | m'. isQueuedOutgoing m' \<and> (\<exists>r \<in> set (st_messages s). row_id r \<noteq> lm_id m \<and> message_held K r m')}"
    unfolding owed_def tracked put_key_set held_id [OF assms(2)] by blast
  moreover have "{lm_id m' | m'. isQueuedOutgoing m' \<and> message_held K row m'} = (if isQueuedOutgoing m then {lm_id m} else {})"
  proof -
    have "message_held K row m' \<longleftrightarrow> m' = m" for m' using held_unique [OF assms] assms(2) by blast
    then show ?thesis by auto
  qed
  moreover have "{lm_id m' | m'. isQueuedOutgoing m' \<and> (\<exists>r \<in> set (st_messages s). row_id r \<noteq> lm_id m \<and> message_held K r m')} = owed K s - {lm_id m}"
  proof (intro equalityI subsetI)
    fix i assume "i \<in> owed K s - {lm_id m}"
    then obtain m' r where "isQueuedOutgoing m'" "r \<in> set (st_messages s)" "message_held K r m'" "i = lm_id m'" "i \<noteq> lm_id m"
      unfolding owed_def by blast
    moreover from this have "row_id r \<noteq> lm_id m" using held_id by metis
    ultimately show "i \<in> {lm_id m' | m'. isQueuedOutgoing m' \<and> (\<exists>r \<in> set (st_messages s). row_id r \<noteq> lm_id m \<and> message_held K r m')}"
      by blast
  next
    fix i assume "i \<in> {lm_id m' | m'. isQueuedOutgoing m' \<and> (\<exists>r \<in> set (st_messages s). row_id r \<noteq> lm_id m \<and> message_held K r m')}"
    then obtain m' r where "isQueuedOutgoing m'" "r \<in> set (st_messages s)" "row_id r \<noteq> lm_id m" "message_held K r m'" "i = lm_id m'" by blast
    moreover from this have "lm_id m' \<noteq> lm_id m" using held_id by metis
    moreover have "lm_id m' \<in> owed K s" by (rule owedI) (use calculation in simp_all)
    ultimately show "i \<in> owed K s - {lm_id m}" by simp
  qed
  ultimately show ?thesis by (simp only: Un_commute)
qed

text \<open>What every transaction keeps: the rows are sound, and whoever was accounted for still is.\<close>

definition keeps_track :: "('k, 'pub, 'priv) keeper \<Rightarrow> store \<Rightarrow> store \<Rightarrow> bool" where
  "keeps_track K s s' \<longleftrightarrow> sound_rows K s' \<and> (index_complete s' \<longrightarrow> index_complete s) \<and> (\<forall>Q. covered K Q s \<longrightarrow> covered K Q s')"

lemma sound_put: "sound_rows K s \<Longrightarrow> message_held K row m \<Longrightarrow> sound_rows K (put_message_row row s)"
  by (auto simp: sound_rows_def put_key_set put_key_distinct)

lemma sound_tracked [simp]: "sound_rows K (trackOutbox a ms s) = sound_rows K s" "sound_rows K (untrackOutbox ids s) = sound_rows K s"
    "owed K (trackOutbox a ms s) = owed K s" "owed K (untrackOutbox ids s) = owed K s"
  by (simp_all add: sound_rows_def owed_def)

lemma keeps_put:
  assumes "keeper_ok K" and "sound_rows K s" and "message_held K row m"
  shows "keeps_track K s (trackOutbox addOnly [m] (put_message_row row s))" "keeps_track K s (put_transaction m row s)"
proof -
  show track: "keeps_track K s (trackOutbox addOnly [m] (put_message_row row s))" for addOnly
    unfolding keeps_track_def covered_def using sound_put [OF assms(2,3)]
    by (auto simp: owed_put [OF assms(1,3)] track_one_set)
  have "\<not> isQueuedOutgoing m \<Longrightarrow> keeps_track K s (put_message_row row s)"
    unfolding keeps_track_def covered_def using sound_put [OF assms(2,3)] by (auto simp: owed_put [OF assms(1,3)])
  then show "keeps_track K s (put_transaction m row s)"
    using track [of False] unfolding put_transaction_def isQueuedOutgoing_def by auto
qed

lemma owed_subset:
  assumes "set (st_messages s') \<subseteq> set (st_messages s)" and "\<And>r. r \<in> set (st_messages s') \<Longrightarrow> row_id r \<notin> I"
  shows "owed K s' \<subseteq> owed K s - I"
proof
  fix i assume "i \<in> owed K s'"
  then obtain m r where "isQueuedOutgoing m" "r \<in> set (st_messages s')" "message_held K r m" "i = lm_id m" unfolding owed_def by blast
  moreover from this assms(2) held_id have "i \<notin> I" by metis
  ultimately show "i \<in> owed K s - I" using assms(1) unfolding owed_def by blast
qed

lemma keeps_delete: "sound_rows K s \<Longrightarrow> keeps_track K s (store_deleteMessage i s)"
proof -
  assume "sound_rows K s"
  moreover have "owed K (s\<lparr>st_messages := delete_key row_id i (st_messages s)\<rparr>) \<subseteq> owed K s - {i}"
    by (rule owed_subset) (auto simp: delete_key_def)
  ultimately show ?thesis
    unfolding keeps_track_def store_deleteMessage_def covered_def
    by (auto simp: sound_rows_def delete_key_def intro: distinct_map_filter)
qed

lemma keeps_files: "sound_rows K (fold put_file_row fs s) = sound_rows K s" "owed K (fold put_file_row fs s) = owed K s"
    "index_complete (fold put_file_row fs s) = index_complete s" "index_ids (fold put_file_row fs s) = index_ids s"
proof (induction fs arbitrary: s)
  case (Cons f fs)
  { case 1 show ?case using Cons.IH by (simp add: put_file_row_def sound_rows_def) }
  { case 2 show ?case using Cons.IH by (simp add: put_file_row_def owed_def) }
  { case 3 show ?case using Cons.IH by (simp add: put_file_row_def) }
  { case 4 show ?case using Cons.IH by (simp add: put_file_row_def) }
qed simp_all

lemma put_rows:
  assumes "keeper_ok K"
  shows "list_all2 (message_held K) rows ms \<Longrightarrow> distinct (map lm_id ms) \<Longrightarrow> sound_rows K s \<Longrightarrow>
    sound_rows K (fold put_message_row rows s) \<and> index_complete (fold put_message_row rows s) = index_complete s
    \<and> index_ids (fold put_message_row rows s) = index_ids s
    \<and> owed K (fold put_message_row rows s) \<subseteq> (owed K s - lm_id ` set ms) \<union> {lm_id m | m. m \<in> set ms \<and> isQueuedOutgoing m}"
proof (induction rows ms arbitrary: s rule: list_all2_induct)
  case (Cons row rows m ms)
  have "sound_rows K (put_message_row row s)" using sound_put Cons by blast
  from Cons.IH [OF _ this] Cons.prems Cons.hyps(1) show ?case
    by (auto simp: owed_put [OF assms Cons.hyps(1)] split: if_splits)
qed simp

lemma track_ids:
  "distinct (map lm_id ms) \<Longrightarrow> set (fold (track_one addOnly) ms ids) \<supseteq> (set ids - lm_id ` set ms) \<union> {lm_id m | m. m \<in> set ms \<and> isQueuedOutgoing m}"
proof (induction ms arbitrary: ids)
  case (Cons m ms)
  have "distinct (map lm_id ms)" "lm_id m \<notin> lm_id ` set ms" using Cons.prems by auto
  with Cons.IH [of "track_one addOnly m ids"] show ?case by (auto simp: track_one_set split: if_splits)
qed simp

lemma keeps_put_files:
  assumes "keeper_ok K" and "sound_rows K s" and "list_all2 (message_held K) rows ms" and "distinct (map lm_id ms)"
  shows "keeps_track K s (trackOutbox False ms (fold put_file_row fs (fold put_message_row rows s)))"
  using put_rows [OF assms(1,3,4,2)] track_ids [OF assms(4), where addOnly = False and ids = "index_ids s"]
  unfolding keeps_track_def covered_def by (simp add: keeps_files) blast

lemma get_key_member: "distinct (map key rows) \<Longrightarrow> r \<in> set rows \<Longrightarrow> get_key key (key r) rows = Some r"
  by (induction rows) (auto simp: get_key_def)

lemma keeps_drop:
  assumes "keeper_ok K" and "sound_rows K s" and "list_all (stale_seen K) stale"
  shows "keeps_track K s (dropStale stale s)"
proof -
  have "i \<notin> owed K s" if x: "(i, seen) \<in> set stale" and now: "get_key row_id i (st_messages s) = seen" for i seen
  proof
    assume "i \<in> owed K s"
    then obtain m r where m: "isQueuedOutgoing m" "r \<in> set (st_messages s)" "message_held K r m" "i = lm_id m" unfolding owed_def by blast
    have "get_key row_id i (st_messages s) = Some r"
      using get_key_member [OF _ m(2)] held_id [OF m(3)] m(4) assms(2) unfolding sound_rows_def by metis
    with now assms(3) x obtain m' where "message_held K r m'" "\<not> isQueuedOutgoing m'"
      by (fastforce simp: stale_seen_def list_all_iff)
    then show False using held_unique [OF assms(1) m(3)] m(1) by blast
  qed
  then have "owed K s \<inter> set (map fst (filter (\<lambda>(i, seen). get_key row_id i (st_messages s) = seen) stale)) = {}" by auto
  then show ?thesis using assms(2) unfolding keeps_track_def covered_def dropStale_def by (auto simp del: set_map)
qed

lemma keeps_trackQueued: "sound_rows K s \<Longrightarrow> keeps_track K s (trackQueued ms s)"
proof -
  have "set (index_ids s) \<subseteq> set (fold (track_one True) qs ids)" if "set (index_ids s) \<subseteq> set ids" for qs ids
    using that by (induction qs arbitrary: ids) (simp_all add: track_one_set subset_insertI2)
  then show "sound_rows K s \<Longrightarrow> keeps_track K s (trackQueued ms s)"
    unfolding keeps_track_def covered_def trackQueued_def Let_def by (auto simp: keeps_track_def)
qed

lemma delete_keys: "fold (\<lambda>m. delete_key key (f m)) ms rows = filter (\<lambda>r. key r \<notin> f ` set ms) rows"
proof (induction ms arbitrary: rows)
  case (Cons m ms)
  have "fold (\<lambda>m. delete_key key (f m)) (m # ms) rows = filter (\<lambda>r. key r \<notin> f ` set ms) (delete_key key (f m) rows)"
    by (simp add: Cons)
  also have "\<dots> = filter (\<lambda>r. key r \<notin> f ` set (m # ms)) rows" by (auto simp: delete_key_def intro: filter_cong)
  finally show ?case .
qed simp

lemma keeps_prune: "sound_rows K s \<Longrightarrow> keeps_track K s (prune_batch ms s)"
proof -
  assume sound: "sound_rows K s"
  let ?t = "s\<lparr>st_messages := fold (\<lambda>m. delete_key row_id (lm_id m)) ms (st_messages s),
      st_files := fold (\<lambda>m. case lm_file m of None \<Rightarrow> id | Some f \<Rightarrow> delete_key sf_r2Key (fr_r2Key f)) ms (st_files s)\<rparr>"
  have "owed K ?t \<subseteq> owed K s - lm_id ` set ms" by (rule owed_subset) (auto simp: delete_keys)
  moreover have "sound_rows K ?t" using sound by (auto simp: sound_rows_def delete_keys distinct_map_filter)
  ultimately show ?thesis unfolding keeps_track_def covered_def prune_batch_def by (auto simp del: delete_keys)
qed

lemma opened_member:
  assumes "open_all f rows = Inr xs" and "r \<in> set rows"
  shows "\<exists>x \<in> set xs. f r = Inr x"
  using assms by (induction rows arbitrary: xs) (fastforce simp: bindE_def split: sum.splits)+

text \<open>A scan in which every row opened saw every message that is owed.\<close>

lemma scan_covers:
  assumes "keeper_ok K" and "scan_rows (K\<lparr>kp_contentKey := key, kp_contentLocked := locked\<rparr>) s = Inr (True, queued)"
  shows "owed K s \<subseteq> lm_id ` set queued"
proof
  let ?K = "K\<lparr>kp_contentKey := key, kp_contentLocked := locked\<rparr>"
  fix i assume "i \<in> owed K s"
  then obtain m r where m: "isQueuedOutgoing m" "r \<in> set (st_messages s)" "message_held K r m" "i = lm_id m" unfolding owed_def by blast
  from assms(2) obtain xs where xs: "open_all (fromStored ?K) (messages_by_createdAt s) = Inr xs" "list_all (\<lambda>m. m \<noteq> None) xs"
      "queued = filter isQueuedOutgoing (List.map_filter id xs)"
    by (auto simp: scan_rows_def bindE_def split: sum.splits)
  from opened_member [OF xs(1), of r] m(2) obtain x where x: "x \<in> set xs" "fromStored ?K r = Inr x" by (auto simp: messages_by_createdAt_def)
  with xs(2) obtain m' where m': "x = Some m'" by (auto simp: list_all_iff)
  have "m' = m" by (rule held_opened [of ?K r]) (use assms(1) m(3) x(2) m' in \<open>simp_all add: keeper_ok_def message_held_def seal_bytes_def\<close>)
  then have "m \<in> set queued" using x(1) m' m(1) by (auto simp: xs(3) map_filter_def intro!: image_eqI [of _ _ "Some m"])
  then show "i \<in> lm_id ` set queued" using m(4) by blast
qed

definition tracked_config :: "('k, 'pub, 'priv) keeper \<Rightarrow> store \<times> (bool \<times> string list) set \<Rightarrow> bool" where
  "tracked_config K c \<longleftrightarrow> sound_rows K (fst c) \<and> (index_complete (fst c) \<longrightarrow> covered K {} (fst c))
     \<and> (\<forall>ids. (True, ids) \<in> snd c \<longrightarrow> covered K (set ids) (fst c))"

lemma merged_set: "set (index_ids (merge_index complete ids s)) = set (index_ids s) \<union> set ids"
    "index_complete (merge_index complete ids s) \<longleftrightarrow> complete \<or> index_complete s" "st_messages (merge_index complete ids s) = st_messages s"
proof -
  have "set (fold set_add ids xs) = set xs \<union> set ids" for xs :: "string list" by (induction ids arbitrary: xs) auto
  then show "set (index_ids (merge_index complete ids s)) = set (index_ids s) \<union> set ids"
    by (simp add: merge_index_def index_ids_def)
  show "index_complete (merge_index complete ids s) \<longleftrightarrow> complete \<or> index_complete s" "st_messages (merge_index complete ids s) = st_messages s"
    by (simp_all add: merge_index_def index_complete_def)
qed

lemma merged_rows: "owed K (merge_index complete ids s) = owed K s" "sound_rows K (merge_index complete ids s) = sound_rows K s"
  by (simp_all add: owed_def sound_rows_def merged_set(3))

lemma step_tracked:
  assumes ok: "keeper_ok K" and "store_step K c c'" and "tracked_config K c"
  shows "tracked_config K c'"
proof -
  have keep: "tracked_config K (s', P)" if "tracked_config K (s, P)" "keeps_track K s s'" for s s' P
    using that unfolding tracked_config_def keeps_track_def by auto
  have sound: "sound_rows K s" if "tracked_config K (s, P)" for s P using that by (simp add: tracked_config_def)
  from assms(2,3) show ?thesis
  proof (induction rule: store_step.induct)
    case (put row m s P)
    show ?case by (rule keep [OF put(2) keeps_put(2) [OF ok sound [OF put(2)] put(1)]])
  next
    case (put_files rows ms s P fs)
    show ?case by (rule keep [OF put_files(3) keeps_put_files [OF ok sound [OF put_files(3)] put_files(1,2)]])
  next
    case (delete s P i)
    show ?case by (rule keep [OF delete keeps_delete [OF sound [OF delete]]])
  next
    case (drop_stale stale s P)
    show ?case by (rule keep [OF drop_stale(2) keeps_drop [OF ok sound [OF drop_stale(2)] drop_stale(1)]])
  next
    case (track s P ms)
    show ?case by (rule keep [OF track keeps_trackQueued [OF sound [OF track]]])
  next
    case (prune s P ms)
    show ?case by (rule keep [OF prune keeps_prune [OF sound [OF prune]]])
  next
    case (rewrite row m s P)
    show ?case by (rule keep [OF rewrite(2) keeps_put(1) [OF ok sound [OF rewrite(2)] rewrite(1)]])
  next
    case (scan key locked s complete queued P)
    then show ?case using scan_covers [OF ok, of key locked s queued] by (auto simp: tracked_config_def covered_def)
  next
    case (merge complete ids P s)
    then show ?case by (auto simp: tracked_config_def covered_def merged_set merged_rows)
  qed
qed

text \<open>C38. The outbox index never misses a message that is owed. After any sequence of transactions by the contexts of a
  device, locked or not, with scans of one context overlapping the writes of another, every row that
  holds a queued message, in the clear or sealed under any key, has its id in an index that calls itself complete;
  so that a pass that reads only what the index lists leaves nothing unsent.\<close>

theorem index_never_misses:
  assumes "keeper_ok K" and "store_run K (s, P)" and "index_complete s"
    and "row \<in> set (st_messages s)" and "message_held K row m" and "isQueuedOutgoing m"
  shows "lm_id m \<in> set (index_ids s)"
proof -
  have "tracked_config K c" if "store_run K c" for c
    using that
  proof (induction rule: store_run.induct)
    case (start s)
    then show ?case by (simp add: tracked_config_def sound_rows_def index_complete_def)
  next
    case (step c c')
    then show ?case using step_tracked [OF assms(1)] by blast
  qed
  from this [OF assms(2)] assms(3) have "covered K {} s" by (simp add: tracked_config_def)
  moreover have "lm_id m \<in> owed K s" by (rule owedI [OF assms(6,4,5)])
  ultimately show ?thesis by (auto simp: covered_def)
qed

text \<open>The operations are such steps: what is put holds its message, and what looks stale was read.\<close>

lemma putMessage_step:
  assumes "store_putMessage (K\<lparr>kp_contentKey := key, kp_contentLocked := locked\<rparr>) iv m s = (Inr (), s')"
  shows "store_step K (s, P) (s', P)"
proof -
  let ?K = "K\<lparr>kp_contentKey := key, kp_contentLocked := locked\<rparr>"
  from assms obtain row where "toStored ?K iv m = Inr row" "s' = put_transaction m row s"
    by (auto simp: store_putMessage_def split: sum.splits)
  moreover from this(1) have "message_held K row m" using held_put [of ?K] by (simp add: message_held_def seal_bytes_def)
  ultimately show ?thesis by (auto intro: store_step.put)
qed

lemma scanned_stale:
  assumes "keeper_ok K" and "sound_rows K s" and "scan_ids (K\<lparr>kp_contentKey := key, kp_contentLocked := locked\<rparr>) s ids = Inr (queued, stale)"
  shows "list_all (stale_seen K) stale"
  using assms(3)
proof (induction ids arbitrary: queued stale)
  case (Cons i ids)
  let ?K = "K\<lparr>kp_contentKey := key, kp_contentLocked := locked\<rparr>"
  have held: "m' = m" if "message_held K row m" "fromStored ?K row = Inr (Some m')" for row m m'
    by (rule held_opened [OF _ _ that(2)]) (use assms(1) that(1) in \<open>simp_all add: keeper_ok_def message_held_def seal_bytes_def\<close>)
  have seen: "stale_seen K (lm_id m', Some row)"
    if "get_key row_id i (st_messages s) = Some row" "fromStored ?K row = Inr (Some m')" "\<not> isQueuedOutgoing m'" for row m'
  proof -
    have "row \<in> set (st_messages s)" using that(1) by (auto simp: get_key_def find_Some_iff)
    then obtain m where "message_held K row m" using assms(2) by (auto simp: sound_rows_def)
    with held [OF this that(2)] that(3) show ?thesis by (auto simp: stale_seen_def)
  qed
  from Cons.prems Cons.IH seen show ?case
    by (auto simp: bindE_def stale_seen_def [of _ "(_, None)"] split: sum.splits option.splits if_splits prod.splits)
qed simp

section \<open>A readable store is a history\<close>

text \<open>Every row opens with the key in memory.\<close>

definition readable :: "('k, 'pub, 'priv) keeper \<Rightarrow> store \<Rightarrow> bool" where
  "readable K s \<longleftrightarrow> distinct (map row_id (st_messages s)) \<and> distinct (map sf_r2Key (st_files s))
     \<and> (\<forall>r \<in> set (st_messages s). \<exists>m. fromStored K r = Inr (Some m) \<and> lm_id m = row_id r \<and> lm_createdAt m = row_createdAt r)
     \<and> (\<forall>f \<in> set (st_files s). \<exists>b. open_file K f = Inr (Some b))"

definition opened_row :: "('k, 'pub, 'priv) keeper \<Rightarrow> StoredMessage \<Rightarrow> LocalMessage" where
  "opened_row K r = the (projr (fromStored K r))"

definition opened_file :: "('k, 'pub, 'priv) keeper \<Rightarrow> StoredFile \<Rightarrow> string \<times> blob" where
  "opened_file K f = (sf_r2Key f, the (projr (open_file K f)))"

definition view :: "('k, 'pub, 'priv) keeper \<Rightarrow> store \<Rightarrow> history" where
  "view K s = \<lparr>hi_rows = map (opened_row K) (st_messages s), hi_shown = [], hi_files = map (opened_file K) (st_files s), hi_deletions = None\<rparr>"

lemma readable_row:
  assumes "readable K s" and "r \<in> set (st_messages s)"
  shows "fromStored K r = Inr (Some (opened_row K r))" "lm_id (opened_row K r) = row_id r" "lm_createdAt (opened_row K r) = row_createdAt r"
  using assms unfolding readable_def opened_row_def by force+

lemma view_get:
  assumes "readable K s"
  shows "store_getMessage K i s = Inr (getMessage i (view K s))"
proof -
  have "find (\<lambda>m. lm_id m = i) (map (opened_row K) rows) = map_option (opened_row K) (find (\<lambda>r. row_id r = i) rows)"
    if "\<And>r. r \<in> set rows \<Longrightarrow> lm_id (opened_row K r) = row_id r" for rows
    using that by (induction rows) auto
  from this [of "st_messages s"] readable_row(2) [OF assms]
  have found: "getMessage i (view K s) = map_option (opened_row K) (get_key row_id i (st_messages s))"
    by (simp add: getMessage_def view_def get_key_def)
  show ?thesis
  proof (cases "get_key row_id i (st_messages s)")
    case (Some r)
    then have "r \<in> set (st_messages s)" by (auto simp: get_key_def find_Some_iff)
    then show ?thesis using Some found readable_row(1) [OF assms] by (simp add: store_getMessage_def)
  qed (use found in \<open>simp add: store_getMessage_def\<close>)
qed

lemma view_all:
  assumes "readable K s"
  shows "store_allMessages K s = Inr (allMessages (view K s))"
proof -
  have "open_all (fromStored K) rows = Inr (map (\<lambda>r. Some (opened_row K r)) rows)" if "set rows \<subseteq> set (st_messages s)" for rows
    using that readable_row(1) [OF assms] by (induction rows) (auto simp: bindE_def)
  moreover have "sort_key (\<lambda>m. (lm_createdAt m, lm_id m)) (map (opened_row K) rows) = map (opened_row K) (sort_key (\<lambda>r. (row_createdAt r, row_id r)) rows)"
    if "set rows \<subseteq> set (st_messages s)" for rows
    using that
  proof (induction rows)
    case (Cons r rows)
    have "insort_key (\<lambda>m. (lm_createdAt m, lm_id m)) (opened_row K r) (map (opened_row K) xs) = map (opened_row K) (insort_key (\<lambda>r. (row_createdAt r, row_id r)) r xs)"
      if "set xs \<subseteq> set (st_messages s)" for xs
      using that readable_row(2,3) [OF assms] Cons.prems by (induction xs) auto
    then show ?case using Cons by simp
  qed simp
  moreover have "List.map_filter id (map (\<lambda>r. Some (opened_row K r)) rows) = map (opened_row K) rows" for rows
    by (induction rows) (simp_all add: List.map_filter_simps)
  ultimately show ?thesis by (simp add: store_allMessages_def messages_by_createdAt_def bindE_def allMessages_def view_def)
qed

lemma map_put_key:
  assumes "\<And>x. x \<in> set rows \<Longrightarrow> key' (f x) = key x" and "key' (f r) = key r"
  shows "map f (put_key key r rows) = put_key key' (f r) (map f rows)"
  using assms unfolding put_key_def by auto

lemma put_row_key: "put_row m rows = put_key lm_id m rows"
  by (simp add: put_row_def put_key_def)

lemma put_key_alist: "map (\<lambda>p. (key p, g p)) (put_key key r rows) = AList.update (key r) (g r) (map (\<lambda>p. (key p, g p)) rows)"
  if "distinct (map key rows)"
proof -
  have "map (\<lambda>p. (key p, g p)) (map (\<lambda>x. if key x = key r then r else x) rows) = AList.update (key r) (g r) (map (\<lambda>p. (key p, g p)) rows)"
    if "\<exists>x \<in> set rows. key x = key r" using that \<open>distinct (map key rows)\<close>
  proof (induction rows)
    case (Cons x rows)
    show ?case
    proof (cases "key x = key r")
      case True
      then have "map (\<lambda>x. if key x = key r then r else x) rows = rows" using Cons.prems(2) by (intro map_idI) (auto simp: image_iff)
      then show ?thesis using True by (simp add: comp_def del: map_map)
    qed (use Cons in auto)
  qed simp
  moreover have "AList.update (key r) (g r) (map (\<lambda>p. (key p, g p)) rows) = map (\<lambda>p. (key p, g p)) rows @ [(key r, g r)]"
    if "\<forall>x \<in> set rows. key x \<noteq> key r" for rows
    using that by (induction rows) auto
  ultimately show ?thesis unfolding put_key_def by auto
qed

definition writable_keeper :: "('k, 'pub, 'priv) keeper \<Rightarrow> bool" where
  "writable_keeper K \<longleftrightarrow> kp_contentKey K = None \<longrightarrow> \<not> kp_contentLocked K"

lemma stored_opens:
  assumes "keeper_ok K" and "writable_keeper K"
  shows "\<exists>row. toStored K iv m = Inr row \<and> fromStored K row = Inr (Some m) \<and> row_id row = lm_id m \<and> row_createdAt row = lm_createdAt m"
proof -
  have W: "webcrypto_ok (kp_crypto K)" and cd: "kp_message_of K (kp_message K m) = Some m" using assms(1) by (simp_all add: keeper_ok_def)
  show ?thesis
    using assms(2) by (cases "kp_contentKey K") (auto simp: toStored_def sealJson_def resolve_key_def requireWritableKey_def bindE_def
        stored_message_def fromStored_def openJson_def unseal_sealed [OF W] webcrypto_okD [OF W] cd writable_keeper_def)
qed

lemma file_opens:
  assumes "keeper_ok K" and "writable_keeper K" and "iv \<noteq> []"
  shows "\<exists>f. toStoredFile K iv k b = Inr f \<and> open_file K f = Inr (Some b) \<and> sf_r2Key f = k"
proof -
  have W: "webcrypto_ok (kp_crypto K)" using assms(1) by (simp add: keeper_ok_def)
  have ne: "bufToBase64Url iv \<noteq> []" using encoded_length [of iv] assms(3) by (cases iv) auto
  show ?thesis
    using assms(2) ne by (cases "kp_contentKey K"; cases b) (auto simp: toStoredFile_def sealBlob_def resolve_key_def requireWritableKey_def
        bindE_def open_file_def openBlob_def truthy_def webcrypto_okD [OF W] writable_keeper_def)
qed

lemma view_put:
  assumes "keeper_ok K" and "writable_keeper K" and "readable K s"
  shows "\<exists>s'. store_putMessage K iv m s = (Inr (), s') \<and> readable K s' \<and> view K s' = putMessage m (view K s)"
proof -
  obtain row where row: "toStored K iv m = Inr row" "fromStored K row = Inr (Some m)" "row_id row = lm_id m" "row_createdAt row = lm_createdAt m"
    using stored_opens [OF assms(1,2)] by blast
  then have o: "opened_row K row = m" by (simp add: opened_row_def)
  let ?s = "put_transaction m row s"
  have rows: "st_messages ?s = put_key row_id row (st_messages s)" "st_files ?s = st_files s"
    by (simp_all add: put_transaction_def trackOutbox_def put_message_row_def)
  have "readable K ?s"
    using assms(3) row unfolding readable_def rows put_key_set by (auto simp: put_key_distinct)
  moreover have "map (opened_row K) (put_key row_id row (st_messages s)) = put_row m (map (opened_row K) (st_messages s))"
    unfolding put_row_key using map_put_key [of "st_messages s" lm_id "opened_row K" row_id row] readable_row(2) [OF assms(3)] o row(3) by simp
  ultimately show ?thesis using row(1) by (simp add: store_putMessage_def view_def rows putMessage_def)
qed

lemma view_delete:
  assumes "readable K s"
  shows "readable K (store_deleteMessage i s) \<and> view K (store_deleteMessage i s) = deleteMessage i (view K s)"
proof -
  have files: "st_files (untrackOutbox ids t) = st_files t" for ids t by (simp add: untrackOutbox_def Let_def split: option.split)
  have "map (opened_row K) (filter (\<lambda>r. row_id r \<noteq> i) rows) = filter (\<lambda>m. lm_id m \<noteq> i) (map (opened_row K) rows)"
    if "\<And>r. r \<in> set rows \<Longrightarrow> lm_id (opened_row K r) = row_id r" for rows
    using that by (induction rows) auto
  from this [of "st_messages s"] readable_row(2) [OF assms] show ?thesis
    using assms by (auto simp: store_deleteMessage_def view_def deleteMessage_def files delete_key_def readable_def distinct_map_filter)
qed

lemma view_files:
  assumes "readable K s"
  shows "store_getFile K k s = Inr (getFile k (view K s))"
    "readable K (store_deleteFile k s) \<and> view K (store_deleteFile k s) = deleteFile k (view K s)"
    "keeper_ok K \<Longrightarrow> writable_keeper K \<Longrightarrow> iv \<noteq> [] \<Longrightarrow>
      \<exists>s'. store_putFile K iv k b s = (Inr (), s') \<and> readable K s' \<and> view K s' = putFile k (fst b) (snd b) (view K s)"
proof -
  have opened: "open_file K f = Inr (Some (snd (opened_file K f)))" if "f \<in> set (st_files s)" for f
    using assms that unfolding readable_def opened_file_def by force
  have "map_of (map (opened_file K) fs) k = map_option (snd \<circ> opened_file K) (find (\<lambda>f. sf_r2Key f = k) fs)" for fs
    by (induction fs) (auto simp: opened_file_def)
  then have get: "getFile k (view K s) = map_option (snd \<circ> opened_file K) (get_key sf_r2Key k (st_files s))"
    by (simp add: getFile_def view_def get_key_def)
  show "store_getFile K k s = Inr (getFile k (view K s))"
  proof (cases "get_key sf_r2Key k (st_files s)")
    case (Some f)
    then have "f \<in> set (st_files s)" by (auto simp: get_key_def find_Some_iff)
    then show ?thesis using Some get opened by (simp add: store_getFile_def)
  qed (use get in \<open>simp add: store_getFile_def\<close>)
  have "map (opened_file K) (filter (\<lambda>f. sf_r2Key f \<noteq> k) fs) = AList.delete k (map (opened_file K) fs)" for fs
    by (induction fs) (auto simp: opened_file_def)
  then show "readable K (store_deleteFile k s) \<and> view K (store_deleteFile k s) = deleteFile k (view K s)"
    using assms by (auto simp: store_deleteFile_def view_def deleteFile_def delete_key_def readable_def distinct_map_filter)
  show "\<exists>s'. store_putFile K iv k b s = (Inr (), s') \<and> readable K s' \<and> view K s' = putFile k (fst b) (snd b) (view K s)"
    if k: "keeper_ok K" "writable_keeper K" "iv \<noteq> []"
  proof -
    obtain f where f: "toStoredFile K iv k b = Inr f" "open_file K f = Inr (Some b)" "sf_r2Key f = k" using file_opens [OF k] by blast
    have "map (opened_file K) (put_key sf_r2Key f (st_files s)) = AList.update k b (map (opened_file K) (st_files s))"
      using put_key_alist [of sf_r2Key "st_files s" "\<lambda>f. the (projr (open_file K f))" f] assms f by (simp add: readable_def opened_file_def [abs_def])
    moreover have "readable K (put_file_row f s)" using assms f by (auto simp: readable_def put_file_row_def put_key_set put_key_distinct)
    ultimately show ?thesis using f by (simp add: store_putFile_def view_def putFile_def put_file_row_def)
  qed
qed

text \<open>C39. With a key that opens every row, the database is the history. Each operation of the store on a readable database
  gives what the operation of the history gives on the rows read out of it, and leaves the database readable
  and the history as that operation leaves it, whether or not the rows are sealed.\<close>

theorem store_refines_history:
  assumes "keeper_ok K" and "writable_keeper K" and "readable K s" and "iv \<noteq> []"
  shows "store_getMessage K i s = Inr (getMessage i (view K s))
    \<and> store_allMessages K s = Inr (allMessages (view K s))
    \<and> store_getFile K k s = Inr (getFile k (view K s))
    \<and> (\<exists>s'. store_putMessage K iv m s = (Inr (), s') \<and> readable K s' \<and> view K s' = putMessage m (view K s))
    \<and> readable K (store_deleteMessage i s) \<and> view K (store_deleteMessage i s) = deleteMessage i (view K s)
    \<and> (\<exists>s'. store_putFile K iv k b s = (Inr (), s') \<and> readable K s' \<and> view K s' = putFile k (fst b) (snd b) (view K s))
    \<and> readable K (store_deleteFile k s) \<and> view K (store_deleteFile k s) = deleteFile k (view K s)"
  using view_get [OF assms(3)] view_all [OF assms(3)] view_put [OF assms(1-3)] view_delete [OF assms(3)] view_files [OF assms(3)] assms
  by (intro conjI) blast+

section \<open>Turning a lock on loses nothing\<close>

text \<open>A loop that rewrites each row of one table under its key.\<close>

lemma forS_table:
  assumes step: "\<And>s r. r \<in> set T \<Longrightarrow> get_key key (key r) (tbl s) = Some r \<Longrightarrow>
      \<exists>s'. f (key r) s = (Inr (), s') \<and> tbl s' = put_key key (g r) (tbl s) \<and> frame s s'"
    and key: "\<And>r. r \<in> set T \<Longrightarrow> key (g r) = key r" and dist: "distinct (map key T)"
    and frame: "\<And>s. frame s s" "\<And>s t u. frame s t \<Longrightarrow> frame t u \<Longrightarrow> frame s u"
    and start: "tbl s = T"
  shows "\<exists>s'. forS (map key T) f s = (Inr (), s') \<and> tbl s' = map g T \<and> frame s s'"
proof -
  have "\<exists>s'. forS (map key rs) f s = (Inr (), s') \<and> tbl s' = map g T \<and> frame s s'" if "T = ds @ rs" "tbl s = map g ds @ rs" for ds rs s
    using that
  proof (induction rs arbitrary: ds s)
    case Nil
    then show ?case by (simp add: retS_def frame(1))
  next
    case (Cons r rs)
    from Cons.prems(1) have keys: "map key (map g ds) = map key ds" using key by simp
    then have d: "distinct (map key (map g ds @ r # rs))" using dist Cons.prems(1) by (simp del: map_map)
    have "get_key key (key r) (tbl s) = Some r" unfolding Cons.prems(2) by (rule get_key_member [OF d]) simp
    then obtain s' where s': "f (key r) s = (Inr (), s')" "tbl s' = put_key key (g r) (tbl s)" "frame s s'"
      using step [of r s] Cons.prems(1) by auto
    have "key (g r) = key r" using key Cons.prems(1) by simp
    moreover from d have "key r \<notin> key ` set (map g ds)" "key r \<notin> key ` set rs" by (simp_all del: map_map)
    then have "map (\<lambda>x. if key x = key r then g r else x) (map g ds) = map g ds" "map (\<lambda>x. if key x = key r then g r else x) rs = rs"
      by (intro map_idI, metis imageI)+
    ultimately have "tbl s' = map g (ds @ [r]) @ rs" using s'(2) Cons.prems(2) by (simp add: put_key_def)
    with Cons.IH [of "ds @ [r]" s'] Cons.prems(1) obtain s'' where "forS (map key rs) f s' = (Inr (), s'')" "tbl s'' = map g T" "frame s' s''"
      by auto
    then show ?case using s'(1) frame(2) [OF s'(3)] by (auto simp: bindS_def)
  qed
  from this [of "[]" T s] start show ?thesis by simp
qed

definition all_readable :: "('k, 'pub, 'priv) keeper \<Rightarrow> store \<Rightarrow> bool" where
  "all_readable K s \<longleftrightarrow> readable K s \<and> distinct (map event_id (st_events s)) \<and> distinct (map name_deviceId (st_directory s))
     \<and> (\<forall>r \<in> set (st_events s). \<exists>e. open_event K r = Inr (Some e) \<and> le_id e = event_id r \<and> le_createdAt e = event_createdAt r)
     \<and> (\<forall>r \<in> set (st_directory s). \<exists>n. open_name K r = Inr (Some n))"

text \<open>The row that each rewriting leaves.\<close>

definition sealed_under :: "('k, 'pub, 'priv) keeper \<Rightarrow> 'k option \<Rightarrow> string \<Rightarrow> string \<Rightarrow> byte list \<Rightarrow> Sealed option" where
  "sealed_under K target value context iv = map_option (\<lambda>key. seal_bytes K (text_encode (kp_crypto K) value) context key iv) target"

definition new_message_row :: "('k, 'pub, 'priv) keeper \<Rightarrow> 'k option \<Rightarrow> (string \<Rightarrow> byte list) \<Rightarrow> StoredMessage \<Rightarrow> StoredMessage" where
  "new_message_row K target ivs r = (let m = opened_row K r in
     stored_message m (sealed_under K target (kp_message K m) (local_message (lm_id m)) (ivs (local_message (row_id r)))))"

definition new_event_row :: "('k, 'pub, 'priv) keeper \<Rightarrow> 'k option \<Rightarrow> (string \<Rightarrow> byte list) \<Rightarrow> StoredEvent \<Rightarrow> StoredEvent" where
  "new_event_row K target ivs r = (let e = the (projr (open_event K r)) in
     stored_event e (sealed_under K target (kp_event K e) (local_event (le_id e)) (ivs (local_event (event_id r)))))"

definition new_name_row :: "('k, 'pub, 'priv) keeper \<Rightarrow> 'k option \<Rightarrow> (string \<Rightarrow> byte list) \<Rightarrow> StoredDeviceName \<Rightarrow> StoredDeviceName" where
  "new_name_row K target ivs r = (let n = the (projr (open_name K r)) in
     stored_name (name_deviceId r) n (sealed_under K target (name_text K n) (local_device (name_deviceId r)) (ivs (local_device (name_deviceId r)))))"

definition new_file_row :: "('k, 'pub, 'priv) keeper \<Rightarrow> 'k option \<Rightarrow> (string \<Rightarrow> byte list) \<Rightarrow> StoredFile \<Rightarrow> StoredFile" where
  "new_file_row K target ivs r = (let b = the (projr (open_file K r)); iv = ivs (local_file (sf_r2Key r)) in case target of
     None \<Rightarrow> \<lparr>sf_r2Key = sf_r2Key r, sf_blob = b, sf_iv = None, sf_mime = None\<rparr>
   | Some key \<Rightarrow> \<lparr>sf_r2Key = sf_r2Key r, sf_blob = (gcm_encrypt (kp_crypto K) key iv (aad (kp_crypto K) (Some (local_file (sf_r2Key r)))) (fst b), []),
       sf_iv = Some (bufToBase64Url iv), sf_mime = Some (snd b)\<rparr>)"

lemma seals_under:
  assumes "target = None \<Longrightarrow> \<not> kp_contentLocked K"
  shows "sealJson K v c (Some target) iv = Inr (sealed_under K target v c iv)"
    "sealBlob K b c (Some target) iv
      = Inr (map_option (\<lambda>key. (bufToBase64Url iv, gcm_encrypt (kp_crypto K) key iv (aad (kp_crypto K) (Some c)) (fst b))) target)"
  using assms by (auto simp: sealJson_def sealBlob_def resolve_key_def requireWritableKey_def bindE_def sealed_under_def)

definition frame1 :: "store \<Rightarrow> store \<Rightarrow> bool" where
  "frame1 s s' \<longleftrightarrow> st_events s' = st_events s \<and> st_directory s' = st_directory s \<and> st_files s' = st_files s"

definition frame2 :: "store \<Rightarrow> store \<Rightarrow> bool" where
  "frame2 s s' \<longleftrightarrow> st_messages s' = st_messages s \<and> st_directory s' = st_directory s \<and> st_files s' = st_files s"

definition frame3 :: "store \<Rightarrow> store \<Rightarrow> bool" where
  "frame3 s s' \<longleftrightarrow> st_messages s' = st_messages s \<and> st_events s' = st_events s \<and> st_files s' = st_files s"

definition frame4 :: "store \<Rightarrow> store \<Rightarrow> bool" where
  "frame4 s s' \<longleftrightarrow> st_messages s' = st_messages s \<and> st_events s' = st_events s \<and> st_directory s' = st_directory s"

lemmas rewrite_steps = bindS_def readS_def liftE_def writeS_def seals_under Let_def

lemma rewrite_messages:
  assumes "target = None \<Longrightarrow> \<not> kp_contentLocked K" and "distinct (map row_id (st_messages s))"
    and "\<And>r. r \<in> set (st_messages s) \<Longrightarrow> fromStored K r = Inr (Some (opened_row K r)) \<and> lm_id (opened_row K r) = row_id r"
  shows "\<exists>s'. forS (map row_id (st_messages s)) (\<lambda>i. rewrite_message K target (ivs (local_message i)) i) s = (Inr (), s')
      \<and> st_messages s' = map (new_message_row K target ivs) (st_messages s) \<and> frame1 s s'"
proof (rule forS_table)
  fix t :: store and row assume row: "row \<in> set (st_messages s)" "get_key row_id (row_id row) (st_messages t) = Some row"
  then show "\<exists>s'. rewrite_message K target (ivs (local_message (row_id row))) (row_id row) t = (Inr (), s')
      \<and> st_messages s' = put_key row_id (new_message_row K target ivs row) (st_messages t) \<and> frame1 t s'"
    using assms(3) [OF row(1)] by (simp add: rewrite_message_def rewrite_steps assms(1) new_message_row_def put_message_row_def trackOutbox_def frame1_def)
next
  fix row assume "row \<in> set (st_messages s)"
  then show "row_id (new_message_row K target ivs row) = row_id row"
    using assms(3) by (simp add: new_message_row_def Let_def stored_message_def split: option.split)
qed (use assms(2) in \<open>auto simp: frame1_def\<close>)

lemma rewrite_events:
  assumes "target = None \<Longrightarrow> \<not> kp_contentLocked K" and "distinct (map event_id (st_events s))"
    and "\<And>r. r \<in> set (st_events s) \<Longrightarrow> \<exists>e. open_event K r = Inr (Some e) \<and> le_id e = event_id r"
  shows "\<exists>s'. forS (map event_id (st_events s)) (\<lambda>i. rewrite_event K target (ivs (local_event i)) i) s = (Inr (), s')
      \<and> st_events s' = map (new_event_row K target ivs) (st_events s) \<and> frame2 s s'"
proof (rule forS_table)
  fix t :: store and row assume row: "row \<in> set (st_events s)" "get_key event_id (event_id row) (st_events t) = Some row"
  then show "\<exists>s'. rewrite_event K target (ivs (local_event (event_id row))) (event_id row) t = (Inr (), s')
      \<and> st_events s' = put_key event_id (new_event_row K target ivs row) (st_events t) \<and> frame2 t s'"
    using assms(3) [OF row(1)] by (auto simp: rewrite_event_def rewrite_steps assms(1) new_event_row_def frame2_def)
next
  fix row assume "row \<in> set (st_events s)"
  then show "event_id (new_event_row K target ivs row) = event_id row"
    using assms(3) by (fastforce simp: new_event_row_def Let_def stored_event_def split: option.split)
qed (use assms(2) in \<open>auto simp: frame2_def\<close>)

lemma rewrite_names:
  assumes "target = None \<Longrightarrow> \<not> kp_contentLocked K" and "distinct (map name_deviceId (st_directory s))"
    and "\<And>r. r \<in> set (st_directory s) \<Longrightarrow> \<exists>n. open_name K r = Inr (Some n)"
  shows "\<exists>s'. forS (map name_deviceId (st_directory s)) (\<lambda>i. rewrite_name K target (ivs (local_device i)) i) s = (Inr (), s')
      \<and> st_directory s' = map (new_name_row K target ivs) (st_directory s) \<and> frame3 s s'"
proof (rule forS_table)
  fix t :: store and row assume row: "row \<in> set (st_directory s)" "get_key name_deviceId (name_deviceId row) (st_directory t) = Some row"
  then show "\<exists>s'. rewrite_name K target (ivs (local_device (name_deviceId row))) (name_deviceId row) t = (Inr (), s')
      \<and> st_directory s' = put_key name_deviceId (new_name_row K target ivs row) (st_directory t) \<and> frame3 t s'"
    using assms(3) [OF row(1)] by (auto simp: rewrite_name_def rewrite_steps assms(1) new_name_row_def frame3_def)
qed (use assms(2) in \<open>auto simp: frame3_def new_name_row_def Let_def stored_name_def split: option.split\<close>)

lemma rewrite_files:
  assumes "target = None \<Longrightarrow> \<not> kp_contentLocked K" and "distinct (map sf_r2Key (st_files s))"
    and "\<And>r. r \<in> set (st_files s) \<Longrightarrow> \<exists>b. open_file K r = Inr (Some b)"
  shows "\<exists>s'. forS (map sf_r2Key (st_files s)) (\<lambda>k. rewrite_file K target (ivs (local_file k)) k) s = (Inr (), s')
      \<and> st_files s' = map (new_file_row K target ivs) (st_files s) \<and> frame4 s s'"
proof (rule forS_table)
  fix t :: store and row assume row: "row \<in> set (st_files s)" "get_key sf_r2Key (sf_r2Key row) (st_files t) = Some row"
  then show "\<exists>s'. rewrite_file K target (ivs (local_file (sf_r2Key row))) (sf_r2Key row) t = (Inr (), s')
      \<and> st_files s' = put_key sf_r2Key (new_file_row K target ivs row) (st_files t) \<and> frame4 t s'"
    using assms(3) [OF row(1)] by (cases target) (auto simp: rewrite_file_def rewrite_steps assms(1) new_file_row_def put_file_row_def frame4_def)
qed (use assms(2) in \<open>auto simp: frame4_def new_file_row_def Let_def split: option.split\<close>)

lemma rewriteLocalContent_rows:
  assumes "all_readable K s" and "target = None \<Longrightarrow> \<not> kp_contentLocked K"
  shows "\<exists>s'. rewriteLocalContent K target ivs s = (Inr (), s') \<and> st_messages s' = map (new_message_row K target ivs) (st_messages s)
    \<and> st_events s' = map (new_event_row K target ivs) (st_events s) \<and> st_directory s' = map (new_name_row K target ivs) (st_directory s)
    \<and> st_files s' = map (new_file_row K target ivs) (st_files s)"
proof -
  note r = assms(1) [unfolded all_readable_def]
  have rows: "fromStored K row = Inr (Some (opened_row K row)) \<and> lm_id (opened_row K row) = row_id row" if "row \<in> set (st_messages s)" for row
    using readable_row that r by blast
  have m: "distinct (map row_id (st_messages s))" using r by (simp add: readable_def)
  obtain s1 where s1:
    "forS (map row_id (st_messages s)) (\<lambda>i. rewrite_message K target (ivs (local_message i)) i) s = (Inr (), s1)"
    "st_messages s1 = map (new_message_row K target ivs) (st_messages s)" "frame1 s s1"
    using rewrite_messages [OF assms(2) m rows] by blast
  have e: "distinct (map event_id (st_events s1))" "\<And>r. r \<in> set (st_events s1) \<Longrightarrow> \<exists>e. open_event K r = Inr (Some e) \<and> le_id e = event_id r"
    using r s1(3) by (auto simp: frame1_def)
  obtain s2 where s2: "forS (map event_id (st_events s1)) (\<lambda>i. rewrite_event K target (ivs (local_event i)) i) s1 = (Inr (), s2)"
    "st_events s2 = map (new_event_row K target ivs) (st_events s1)" "frame2 s1 s2"
    using rewrite_events [OF assms(2) e] by blast
  have n: "distinct (map name_deviceId (st_directory s2))" "\<And>r. r \<in> set (st_directory s2) \<Longrightarrow> \<exists>n. open_name K r = Inr (Some n)"
    using r s1(3) s2(3) by (auto simp: frame1_def frame2_def)
  obtain s3 where s3: "forS (map name_deviceId (st_directory s2)) (\<lambda>i. rewrite_name K target (ivs (local_device i)) i) s2 = (Inr (), s3)"
    "st_directory s3 = map (new_name_row K target ivs) (st_directory s2)" "frame3 s2 s3"
    using rewrite_names [OF assms(2) n] by blast
  have f: "distinct (map sf_r2Key (st_files s3))" "\<And>r. r \<in> set (st_files s3) \<Longrightarrow> \<exists>b. open_file K r = Inr (Some b)"
    using r s1(3) s2(3) s3(3) by (auto simp: frame1_def frame2_def frame3_def readable_def)
  obtain s4 where s4: "forS (map sf_r2Key (st_files s3)) (\<lambda>k. rewrite_file K target (ivs (local_file k)) k) s3 = (Inr (), s4)"
    "st_files s4 = map (new_file_row K target ivs) (st_files s3)" "frame4 s3 s4"
    using rewrite_files [OF assms(2) f] by blast
  have "rewriteLocalContent K target ivs s = (Inr (), s4)"
    by (simp add: rewriteLocalContent_def bindS_def readS_def s1(1) s2(1) s3(1) s4(1))
  then show ?thesis using s1(2,3) s2(2,3) s3(2,3) s4(2,3) unfolding frame1_def frame2_def frame3_def frame4_def by auto
qed

lemma new_rows_open:
  assumes "keeper_ok K" and K': "K' = K\<lparr>kp_contentKey := target, kp_contentLocked := False\<rparr>"
  shows "lm_id (opened_row K r) = row_id r \<Longrightarrow> fromStored K' (new_message_row K target ivs r) = Inr (Some (opened_row K r))"
    "open_event K e = Inr (Some v) \<Longrightarrow> open_event K' (new_event_row K target ivs e) = Inr (Some v)"
    "open_name K n = Inr (Some w) \<Longrightarrow> open_name K' (new_name_row K target ivs n) = Inr (Some w)"
    "open_file K f = Inr (Some b) \<Longrightarrow> ivs (local_file (sf_r2Key f)) \<noteq> [] \<Longrightarrow> open_file K' (new_file_row K target ivs f) = Inr (Some b)"
proof -
  have W: "webcrypto_ok (kp_crypto K)" and cd: "\<And>m. kp_message_of K (kp_message K m) = Some m" "\<And>e. kp_event_of K (kp_event K e) = Some e"
    using assms(1) by (simp_all add: keeper_ok_def)
  have parts: "kp_crypto K' = kp_crypto K" "kp_message_of K' = kp_message_of K" "kp_event_of K' = kp_event_of K" "kp_contentKey K' = target"
    by (simp_all add: K')
  have name: "name_of_text K' (name_text K x) = Some x" for x
    by (simp add: name_of_text_def name_text_def parts webcrypto_okD(7) [OF W])
  have opens: "openJson K' parse (seal_bytes K (text_encode (kp_crypto K) clear) c key iv) c None = (case parse clear of None \<Rightarrow> Inl () | Some v \<Rightarrow> Inr (Some v))"
    if "target = Some key" for parse :: "string \<Rightarrow> 'x option" and clear c key iv
    using unseal_sealed [OF W, of "text_encode (kp_crypto K) clear" c key iv c key] that
    by (simp add: openJson_def resolve_key_def parts unseal_bytes_def webcrypto_okD [OF W])
  show "fromStored K' (new_message_row K target ivs r) = Inr (Some (opened_row K r))" if "lm_id (opened_row K r) = row_id r"
    by (cases target) (simp_all add: new_message_row_def Let_def stored_message_def sealed_under_def fromStored_def opens parts cd)
  show "open_event K' (new_event_row K target ivs e) = Inr (Some v)" if "open_event K e = Inr (Some v)"
    using that by (cases target) (simp_all add: new_event_row_def Let_def stored_event_def sealed_under_def open_event_def opens parts cd)
  show "open_name K' (new_name_row K target ivs n) = Inr (Some w)" if "open_name K n = Inr (Some w)"
    using that by (cases target) (simp_all add: new_name_row_def Let_def stored_name_def sealed_under_def open_name_def opens name)
  show "open_file K' (new_file_row K target ivs f) = Inr (Some b)" if "open_file K f = Inr (Some b)" "ivs (local_file (sf_r2Key f)) \<noteq> []"
  proof -
    have "bufToBase64Url (ivs (local_file (sf_r2Key f))) \<noteq> []"
      using encoded_length [of "ivs (local_file (sf_r2Key f))"] that(2) by (cases "ivs (local_file (sf_r2Key f))") auto
    then show ?thesis using that(1)
      by (cases target; cases b) (simp_all add: new_file_row_def Let_def open_file_def truthy_def openBlob_def resolve_key_def parts webcrypto_okD [OF W])
  qed
qed

text \<open>C40. Turning a lock on, off or over to another key loses nothing. When every row opens with the key in memory,
  \<open>rewriteLocalContent\<close> succeeds, and with the new key every message, file, notice and name reads as it did before;
  when there is a key, nothing is left in the clear.\<close>

theorem lock_loses_nothing:
  assumes "keeper_ok K" and "all_readable K s" and "target = None \<Longrightarrow> \<not> kp_contentLocked K" and "\<And>x. ivs x \<noteq> []"
    and K': "K' = K\<lparr>kp_contentKey := target, kp_contentLocked := False\<rparr>"
  shows "\<exists>s'. rewriteLocalContent K target ivs s = (Inr (), s') \<and> readable K' s' \<and> view K' s' = view K s
    \<and> map (open_event K') (st_events s') = map (open_event K) (st_events s)
    \<and> map (\<lambda>r. (name_deviceId r, open_name K' r)) (st_directory s') = map (\<lambda>r. (name_deviceId r, open_name K r)) (st_directory s)
    \<and> (target \<noteq> None \<longrightarrow> (\<forall>r \<in> set (st_messages s'). \<forall>m. r \<noteq> ClearMessage m) \<and> (\<forall>r \<in> set (st_events s'). \<forall>e. r \<noteq> ClearEvent e)
        \<and> (\<forall>r \<in> set (st_directory s'). \<forall>i n. r \<noteq> ClearName i n) \<and> (\<forall>f \<in> set (st_files s'). sf_iv f \<noteq> None))"
proof -
  obtain s' where s': "rewriteLocalContent K target ivs s = (Inr (), s')" "st_messages s' = map (new_message_row K target ivs) (st_messages s)"
    "st_events s' = map (new_event_row K target ivs) (st_events s)" "st_directory s' = map (new_name_row K target ivs) (st_directory s)"
    "st_files s' = map (new_file_row K target ivs) (st_files s)"
    using rewriteLocalContent_rows [OF assms(2,3)] by blast
  note r = assms(2) [unfolded all_readable_def]
  note opens = new_rows_open [where ivs = ivs, OF assms(1) K']
  have msg: "fromStored K' (new_message_row K target ivs x) = Inr (Some (opened_row K x))" if "x \<in> set (st_messages s)" for x
    using opens(1) readable_row(2) r that by blast
  have fil: "open_file K' (new_file_row K target ivs x) = open_file K x \<and> sf_r2Key (new_file_row K target ivs x) = sf_r2Key x"
    if "x \<in> set (st_files s)" for x
  proof -
    from r that obtain b where "open_file K x = Inr (Some b)" unfolding readable_def by blast
    with opens(4) [OF this assms(4)] show ?thesis by (simp add: new_file_row_def Let_def split: option.split)
  qed
  have keys: "row_id (new_message_row K target ivs x) = lm_id (opened_row K x)" "row_createdAt (new_message_row K target ivs x) = lm_createdAt (opened_row K x)" for x
    by (simp_all add: new_message_row_def Let_def stored_message_def split: option.split)
  have ids: "map row_id (st_messages s') = map row_id (st_messages s)" "map sf_r2Key (st_files s') = map sf_r2Key (st_files s)"
    using readable_row(2) r fil by (auto simp: s'(2,5) keys)
  have "readable K' s'" unfolding readable_def ids
    using r msg fil by (auto simp: s'(2,5) keys readable_def)
  moreover have "view K' s' = view K s"
    using msg fil by (auto simp: view_def s'(2,5) opened_row_def opened_file_def)
  moreover have "map (open_event K') (st_events s') = map (open_event K) (st_events s)"
    using r opens(2) by (fastforce simp: s'(3))
  moreover have "map (\<lambda>r. (name_deviceId r, open_name K' r)) (st_directory s') = map (\<lambda>r. (name_deviceId r, open_name K r)) (st_directory s)"
    using r opens(3) by (fastforce simp: s'(4) new_name_row_def Let_def stored_name_def split: option.split)
  moreover have "target \<noteq> None \<longrightarrow> (\<forall>r \<in> set (st_messages s'). \<forall>m. r \<noteq> ClearMessage m) \<and> (\<forall>r \<in> set (st_events s'). \<forall>e. r \<noteq> ClearEvent e)
        \<and> (\<forall>r \<in> set (st_directory s'). \<forall>i n. r \<noteq> ClearName i n) \<and> (\<forall>f \<in> set (st_files s'). sf_iv f \<noteq> None)"
    by (auto simp: s' new_message_row_def new_event_row_def new_name_row_def new_file_row_def Let_def sealed_under_def stored_message_def
        stored_event_def stored_name_def)
  ultimately show ?thesis using s'(1) by blast
qed

section \<open>Samples\<close>

text \<open>A platform whose values have a text each: the values are countable.\<close>

instance number :: countable by countable_datatype

instance direction :: countable by countable_datatype

instance MessageStatus :: countable by countable_datatype

instance FileState :: countable by countable_datatype

instance SignatureVerdict :: countable by countable_datatype

instance IdentityTrust :: countable by countable_datatype

instance FileRef_ext :: (countable) countable
  by (rule countable_classI [of "\<lambda>r. to_nat (fr_r2Key r, fr_iv r, fr_name r, fr_size r, fr_mime r, FileRef.more r)"]) simp

instance RetrySchedule_ext :: (countable) countable
  by (rule countable_classI [of "\<lambda>r. to_nat (rt_attempts r, rt_notBefore r, RetrySchedule.more r)"]) simp

instance BatchRef_ext :: (countable) countable
  by (rule countable_classI [of "\<lambda>r. to_nat (ba_id r, ba_index r, ba_count r, BatchRef.more r)"]) simp

instance LocalMessage_ext :: (countable) countable
  by (rule countable_classI [of "\<lambda>m. to_nat (lm_id m, lm_direction m, lm_senderDeviceId m, lm_senderDeviceName m, lm_text m,
      lm_file m, lm_createdAt m, lm_keyEpoch m, lm_deletes m, lm_batch m, lm_viewOnce m, lm_status m, lm_fileState m, lm_retry m,
      lm_corrupted m, lm_senderVerified m, lm_acked m, LocalMessage.more m)"]) simp

instance LocalEvent_ext :: (countable) countable
  by (rule countable_classI [of "\<lambda>e. to_nat (le_id e, le_kind e, le_createdAt e, le_deviceId e, le_deviceName e, le_trust e,
      le_byMe e, le_epoch e, LocalEvent.more e)"]) simp

definition value_text :: "'a :: countable \<Rightarrow> string" where
  "value_text v = replicate (to_nat v) (CHR ''1'')"

definition text_value :: "string \<Rightarrow> ('a :: countable) option" where
  "text_value t = Some (from_nat (length t))"

definition sample_keeper :: "nat option \<Rightarrow> (nat, nat, nat) keeper" where
  "sample_keeper key = \<lparr>kp_crypto = clear_crypto, kp_contentKey = key, kp_contentLocked = False, kp_message = value_text,
     kp_message_of = text_value, kp_event = value_text, kp_event_of = text_value\<rparr>"

lemma sample_keeper_ok: "keeper_ok (sample_keeper key)" "writable_keeper (sample_keeper key)"
  by (simp_all add: keeper_ok_def writable_keeper_def sample_keeper_def clear_crypto_ok value_text_def text_value_def)

definition empty_store :: store where
  "empty_store = \<lparr>st_messages = [], st_events = [], st_directory = [], st_files = [], st_vault = [], st_outbox = None, st_vaultCursor = None\<rparr>"

definition hello :: LocalMessage where
  "hello = \<lparr>lm_id = ''m'', lm_direction = Outgoing, lm_senderDeviceId = ''d'', lm_senderDeviceName = None, lm_text = Some ''hi'',
     lm_file = None, lm_createdAt = 5, lm_keyEpoch = None, lm_deletes = None, lm_batch = None, lm_viewOnce = False, lm_status = StQueued,
     lm_fileState = None, lm_retry = None, lm_corrupted = False, lm_senderVerified = None, lm_acked = False\<rparr>"

definition noticed :: LocalEvent where
  "noticed = \<lparr>le_id = ''e'', le_kind = ''joined'', le_createdAt = 6, le_deviceId = Some ''d'', le_deviceName = None, le_trust = None,
     le_byMe = True, le_epoch = None\<rparr>"

text \<open>A scan of the empty history, a message put while it runs, and the merge.\<close>

lemma index_never_misses_witness:
  "\<exists>s. store_run (sample_keeper None) (s, {(True, [])}) \<and> index_complete s \<and> ClearMessage hello \<in> set (st_messages s)
     \<and> ''m'' \<in> set (index_ids s)"
proof -
  let ?K = "sample_keeper None" and ?s = "put_transaction hello (ClearMessage hello) empty_store"
  have "store_run ?K (empty_store, {})" by (rule store_run.start) (simp_all add: empty_store_def)
  moreover have "store_step ?K (empty_store, {}) (empty_store, {(True, [])})"
    using store_step.scan [where K = ?K and key = None and locked = False and s = empty_store and complete = True and queued = "[]" and P = "{}"]
    by (simp add: scan_rows_def messages_by_createdAt_def empty_store_def bindE_def List.map_filter_def)
  moreover have held: "message_held ?K (ClearMessage hello) hello" by (simp add: message_held_def)
  then have "store_step ?K (empty_store, {(True, [])}) (?s, {(True, [])})" by (rule store_step.put)
  moreover have "store_step ?K (?s, {(True, [])}) (merge_index True [] ?s, {(True, [])})" by (rule store_step.merge) simp
  ultimately have run: "store_run ?K (merge_index True [] ?s, {(True, [])})" by (meson store_run.step)
  have parts: "index_complete (merge_index True [] ?s)" "ClearMessage hello \<in> set (st_messages (merge_index True [] ?s))" "isQueuedOutgoing hello"
    by (simp_all add: merge_index_def index_complete_def put_transaction_def trackOutbox_def put_message_row_def put_key_def empty_store_def
        hello_def isQueuedOutgoing_def)
  from index_never_misses [OF sample_keeper_ok(1) run parts(1,2) held parts(3)] run parts(1,2) show ?thesis
    by (auto simp: hello_def)
qed

lemma store_refines_history_witness:
  "\<exists>s'. store_putMessage (sample_keeper (Some 7)) [1] hello empty_store = (Inr (), s') \<and> store_allMessages (sample_keeper (Some 7)) s' = Inr [hello]"
proof -
  let ?K = "sample_keeper (Some 7)"
  have "readable ?K empty_store" by (simp add: readable_def empty_store_def)
  from store_refines_history [OF sample_keeper_ok this, of "[1]" i k hello b]
  obtain s' where s': "store_putMessage ?K [1] hello empty_store = (Inr (), s')" "readable ?K s'" "view ?K s' = putMessage hello (view ?K empty_store)"
    by auto
  from store_refines_history [OF sample_keeper_ok s'(2), of "[1]" i k hello b] have "store_allMessages ?K s' = Inr (allMessages (view ?K s'))"
    by simp
  moreover have "allMessages (putMessage hello (view ?K empty_store)) = [hello]"
    by (simp add: allMessages_def putMessage_def put_row_def view_def empty_store_def)
  ultimately have "store_allMessages ?K s' = Inr [hello]" by (simp add: s'(3))
  with s'(1) show ?thesis by blast
qed

lemma lock_loses_nothing_witness:
  "\<exists>s'. rewriteLocalContent (sample_keeper None) (Some 7) (\<lambda>x. [1]) (empty_store\<lparr>st_messages := [ClearMessage hello], st_events := [ClearEvent noticed],
        st_directory := [ClearName ''d'' ''Phone'']\<rparr>) = (Inr (), s')
     \<and> hi_rows (view (sample_keeper (Some 7)) s') = [hello] \<and> map (open_event (sample_keeper (Some 7))) (st_events s') = [Inr (Some noticed)]
     \<and> (\<forall>m. ClearMessage m \<notin> set (st_messages s'))"
proof -
  let ?s = "empty_store\<lparr>st_messages := [ClearMessage hello], st_events := [ClearEvent noticed], st_directory := [ClearName ''d'' ''Phone'']\<rparr>"
  let ?K = "sample_keeper None"
  have "all_readable ?K ?s"
    by (simp add: all_readable_def readable_def empty_store_def fromStored_def open_event_def open_name_def)
  from lock_loses_nothing [OF sample_keeper_ok(1) this _ _ refl, of "Some 7" "\<lambda>x. [1]"]
  show ?thesis
    by (force simp: sample_keeper_def view_def empty_store_def opened_row_def fromStored_def open_event_def)
qed

end
