(* ===== verification/Spec2Isabelle.thy ===== *)
theory Spec2Isabelle
  imports VaultTree Joining System Delivery Store
begin

text \<open>
  Sendself is an end-to-end encrypted space shared by one person's devices: what one device sends, the others
  receive, and a server in the middle stores and forwards what it cannot read. This library models the
  server, the protocol code that every client shares, and the part of the web app that keeps, sends and receives
  messages. All paths below are under src/.

  The parts and how they interact.
  \<^item> The Worker (apps/worker/src) is a set of HTTP handlers over a D1 database and two R2 buckets. It knows
    the devices of a space by token and by public key, queues each message for every device that is to
    receive it, and deletes it when the last of them has acknowledged it. It also hands over the wrapped keys of a
    rotation, admits devices by pairing, keeps the vault (a tree of sealed items with a change counter) and tells
    devices over sockets and Web Push that something waits.
  \<^item> The shared packages (packages/shared, packages/client) hold the wire contract, the statements that are
    signed, the sealing of texts, files and keys, the invitation codes, and how a device follows the vault.
  \<^item> The web app (apps/web/src) keeps messages in IndexedDB, works through an outbox, registers what a poll
    brings, and remembers which keys it has seen of which device.
  A device seals under the space's key of an epoch and signs; the server stores and hands out; the other device
  verifies, opens and acknowledges. \<open>Delivery\<close> follows one message through all three.

  Foundations.
  \<^item> \<open>Prelude\<close>: a handler is a function from a state to a result and the state it leaves (\<open>act\<close>), a throw keeps the
    writes made before it; its combinators, their weakest preconditions (\<open>wp_simps\<close>), what guards promise
    (\<open>guard_simps\<close>), tables as lists of rows, and the locale \<open>keyed_table\<close> of a table with a primary key.
  \<^item> \<open>Wire\<close> (packages/shared/src/index.ts): constants, the shapes both sides exchange, the signed statements. A
    statement determines what it covers.
  \<^item> \<open>Http\<close> (http.ts, errors.ts, attestation.ts), \<open>Auth\<close> (auth.ts, security.ts, challenge.ts, env.ts): reading and
    checking a request, and who is calling.
  \<^item> \<open>Database\<close> (migrations, env.ts): the tables and buckets as one record \<open>env\<close>; each table is an interpretation of
    \<open>keyed_table\<close>. \<open>Samples\<close>: small inputs for the witnesses.

  The server, apps/worker/src.
  \<^item> \<open>Blobs\<close> (blobs.ts), \<open>Files\<close> (routes/files.ts): the quota, the orphan sweep, uploads and downloads. The locale
    \<open>blob_store\<close> is the code's interface \<open>BlobStore\<close>, interpreted on both stores. A reservation keeps the quota, an
    upload is there in full or not at all, the sweep takes exactly the orphans, and the vault's
    objects always have their rows.
  \<^item> \<open>Keys\<close> (routes/keys.ts), \<open>Space\<close> (routes/groups.ts, routes/space.ts): rotations, creating and naming a space,
    the invariant \<open>keys_ok\<close>. An uninterrupted rotation is all or nothing; one that loses a race is not.
  \<^item> \<open>Messages\<close> (db.ts, routes/messages.ts): sending, polling, acknowledging, purging. The locale
    \<open>purge_condition\<close> says what makes a purge loop exact; both purges interpret it.
  \<^item> \<open>Devices\<close> (routes/devices.ts), \<open>Pairing\<close> (routes/pairing.ts): revoking, roles, admitting a device.
  \<^item> \<open>Vault\<close> (vault.ts), \<open>VaultRoutes\<close> (routes/vault.ts): the change counter, the tree, the trash; every write
    advances the counter, keeps the items a forest and keeps objects and items in step.
  \<^item> \<open>Push\<close> (push.ts, routes/push.ts), \<open>Realtime\<close> (realtime.ts): whom a notification reaches, what it carries, and which
    registrations it forgets. \<open>decryptAsBrowser\<close> is the browser's side as push.test.ts writes it out.
  \<^item> \<open>Router\<close> (router.ts, index.ts, cron.ts), \<open>Server\<close>, \<open>System\<close>: a request from its URL to its answer and its
    notifications, the hourly clean-up, and the server as a step relation. Handlers are framed by the views of the
    storage they leave alone, and the invariants of the components hold in every reachable state.

  What the clients share, packages/client/src.
  \<^item> \<open>Base64url\<close> (packages/shared/src/base64url.ts): the round trip, at the level of bits, on 8-bit words.
  \<^item> \<open>Crypto\<close> (crypto.ts, message.ts, keyring.ts), \<open>Joining\<close> (pairing.ts): sealing in a context, handing a key over,
    invitation codes and their seals. What is sealed in one role, space, epoch or for one device opens there only.
  \<^item> \<open>VaultSync\<close>, \<open>VaultTree\<close> (vault.ts): the paged pull and its application, and what is computed from the copy. A
    pull ends and leaves the live items of the space, although the server changes between two pages; the subtree a
    device computes is the one the server purges.

  A device, apps/web/src.
  \<^item> \<open>Identity\<close> (crypto/identity.ts): the keys a device has pinned, seen or had vouched for.
  \<^item> \<open>History\<close> (types.ts, db/queue.ts, db/deletions.ts, sync/retry.ts, state/messages.ts), \<open>Store\<close> (db/store.ts,
    db/atrest.ts): the rows of a space and the list that is shown, then the database that holds them, in the clear or
    sealed. \<open>History\<close> is the abstract history that \<open>Store\<close> refines.
  \<^item> \<open>Outbox\<close> (sync/outbox.ts), \<open>Receive\<close> (sync/sync.ts), \<open>Delivery\<close>: a pass over the queue, a poll, and both with the
    server between them.

  Loops. A loop that recurs structurally is \<open>fun\<close>. The purges, the sweep, the walk of a subtree and the trash carry
  fuel, which is a number the state gives: one more than the rows of the table, or the rows that are due; each
  round that goes on takes at least one row, so the fuel is not reached, and the properties state the outcome with
  no hypothesis on it. The adoption of vouched keys is bounded by the candidates left, the subtree of a copy by
  its items. The pull of the vault may in principle be kept going for ever by a server that never stops changing;
  it is given the answers of the server one by one and is \<open>None\<close> when they run out, and \<open>pull_ends\<close> says how many
  are enough.

  What is assumed.
  \<^item> A handler runs as one step, at one time \<open>now\<close>, and its notifications go out right after it; a D1 batch and
    an IndexedDB transaction are atomic. The batch of a rotation and of a completion are also definitions of their
    own, so that what happens when another request comes between the checks and the batch can be stated.
  \<^item> Rows that SQL returns in no stated order come in the order of the table. R2 stores what it was sent or
    fails, and then keeps failing for the rest of the request.
  \<^item> Web Crypto, the URL parser, \<open>JSON\<close>, \<open>TextEncoder\<close>, SHA-256, the rate limiters, Siteverify and the network are
    parameters: fields of \<open>conf\<close>, \<open>webcrypto\<close>, \<open>push_platform\<close> and \<open>api\<close>. Their documented behaviour is the named
    hypothesis \<open>webcrypto_ok\<close>, \<open>platform_ok\<close>, \<open>hkdf_separates\<close>, \<open>faithful_api\<close>, \<open>tracks_acks\<close> or \<open>serves\<close>, and each is shown to
    hold of an instance. The reading of cryptography is symbolic: what was sealed under other inputs does not
    open, a signature verifies for its own statement only, derived keys differ when their inputs do. An absent
    additional datum and an empty one are told apart, which Web Crypto does not do; the code never passes an empty one.
  \<^item> Strings are lists of characters, so texts are of the Latin-1 range; integers that the code checks to be safe are \<open>int\<close>.
    A device id is not the name of a member of \<open>Object.prototype\<close>.
  \<^item> The downloads of a poll run one after another, what other contexts do meanwhile being \<open>api_meanwhile\<close>; the
    lock that keeps two passes of one device apart is taken as given.

  Not modelled.
  \<^item> The pages and components (apps/web/src/ui, site, main.tsx, entry-server.tsx), the styles and the QR code: rendering.
  \<^item> actions.ts, the signals and the view state of apps/web/src/state, and vaultItems.ts: they call what is modelled here and
    move the result to the screen.
  \<^item> state/lock.ts, crypto/vault.ts, crypto/passkey.ts and recovery.ts: unlocking by a passphrase or a passkey. The
    re-sealing they start is \<open>rewriteLocalContent\<close> in \<open>Store\<close>.
  \<^item> sync/rekey.ts, sync/spaceName.ts, sync/realtime.ts and state/events.ts: the client's halves of a rotation and of a rename,
    the socket and the event list. What they rely on of the server, of \<open>Crypto\<close> and of \<open>Store\<close> is.
  \<^item> The transport (packages/client/src/api.ts, apps/web/src/api), the service worker, sharing, the command line client,
    the Android shell, the scripts and the browser tests.
\<close>

end
